(* ===== verification/GS_Prelude.thy ===== *)
theory GS_Prelude
  imports Main "HOL-Library.AList" "HOL-Library.Multiset" "HOL-Library.Word"
begin

text \<open>
  Shared vocabulary of the go-graphsync development.

  A Go map is an association list with at most one entry per key (\<open>mwf\<close>): a lookup is
  \<open>mget\<close>, an assignment \<open>mput\<close>, the builtin \<open>delete\<close> is \<open>mdel\<close>. The order of the
  entries stands for the (unspecified) iteration order of a \<open>range\<close> loop, so a lemma about
  every well-formed list holds for every order the Go runtime may choose. Reading a key that is
  absent gives the zero value of the element type (\<open>mgetd\<close>).

  A Go error is a value of a sum type; \<open>uint64\<close> is \<open>64 word\<close>, with Go's wrap-around.
\<close>

type_synonym ('k, 'v) gomap = "('k \<times> 'v) list"
type_synonym u64 = "64 word"
type_synonym i64 = int
type_synonym bytes = "nat list"
type_synonym peer_id = string
type_synonym request_id = string
type_synonym cid = string

named_theorems gs_map \<open>lookup laws of Go maps\<close>
named_theorems gs_inv \<open>preservation of component invariants\<close>

abbreviation mget :: "('k, 'v) gomap \<Rightarrow> 'k \<Rightarrow> 'v option" where
  "mget \<equiv> map_of"

abbreviation mput :: "'k \<Rightarrow> 'v \<Rightarrow> ('k, 'v) gomap \<Rightarrow> ('k, 'v) gomap" where
  "mput \<equiv> AList.update"

abbreviation mdel :: "'k \<Rightarrow> ('k, 'v) gomap \<Rightarrow> ('k, 'v) gomap" where
  "mdel \<equiv> AList.delete"

abbreviation mwf :: "('k, 'v) gomap \<Rightarrow> bool" where
  "mwf m \<equiv> distinct (map fst m)"

definition mgetd :: "'v \<Rightarrow> ('k, 'v) gomap \<Rightarrow> 'k \<Rightarrow> 'v" where
  "mgetd d m k = (case mget m k of None \<Rightarrow> d | Some v \<Rightarrow> v)"

definition mhas :: "('k, 'v) gomap \<Rightarrow> 'k \<Rightarrow> bool" where
  "mhas m k = (mget m k \<noteq> None)"

definition mvals :: "('k, 'v) gomap \<Rightarrow> 'v list" where
  "mvals m = map snd m"

definition mkeys :: "('k, 'v) gomap \<Rightarrow> 'k list" where
  "mkeys m = map fst m"

definition msum :: "('v \<Rightarrow> 'a::comm_monoid_add) \<Rightarrow> ('k, 'v) gomap \<Rightarrow> 'a" where
  "msum f m = (\<Sum>v \<leftarrow> mvals m. f v)"

section \<open>Lookup laws\<close>

text \<open>Lookups stay lookups: the library's rewriting to membership is switched off.\<close>

declare map_of_eq_Some_iff [simp del] Some_eq_map_of_iff [simp del]

lemma mget_mput [simp, gs_map]: "mget (mput k v m) = (mget m)(k \<mapsto> v)"
  by (rule update_conv')

lemma mget_mdel [simp, gs_map]: "mget (mdel k m) = (mget m)(k := None)"
  by (rule delete_conv')

lemma mgetd_mput [simp, gs_map]: "mgetd d (mput k v m) k' = (if k' = k then v else mgetd d m k')"
  by (simp add: mgetd_def)

lemma mgetd_mdel [simp, gs_map]: "mgetd d (mdel k m) k' = (if k' = k then d else mgetd d m k')"
  by (simp add: mgetd_def)

lemma mgetd_Nil [simp, gs_map]: "mgetd d [] k = d"
  by (simp add: mgetd_def)

lemma mgetd_Some [simp]: "mget m k = Some v \<Longrightarrow> mgetd d m k = v"
  by (simp add: mgetd_def)

lemma mgetd_None [simp]: "mget m k = None \<Longrightarrow> mgetd d m k = d"
  by (simp add: mgetd_def)

lemma mhas_mput [simp, gs_map]: "mhas (mput k v m) k' \<longleftrightarrow> k' = k \<or> mhas m k'"
  by (simp add: mhas_def)

lemma mhas_mdel [simp, gs_map]: "mhas (mdel k m) k' \<longleftrightarrow> k' \<noteq> k \<and> mhas m k'"
  by (simp add: mhas_def)

lemma mhas_Nil [simp, gs_map]: "\<not> mhas [] k"
  by (simp add: mhas_def)

lemma mhas_Some: "mget m k = Some v \<Longrightarrow> mhas m k"
  by (simp add: mhas_def)

lemma mhas_iff_keys: "mhas m k \<longleftrightarrow> k \<in> set (mkeys m)"
  by (simp add: mhas_def mkeys_def map_of_eq_None_iff)

lemma mwf_mput [simp, intro]: "mwf m \<Longrightarrow> mwf (mput k v m)"
  by (rule distinct_update)

lemma mwf_mdel [simp, intro]: "mwf m \<Longrightarrow> mwf (mdel k m)"
  by (rule distinct_delete)

lemma mwf_in_set: "mwf m \<Longrightarrow> (k, v) \<in> set m \<longleftrightarrow> mget m k = Some v"
  by (metis map_of_SomeD map_of_is_SomeI)

lemma mdel_absent: "mget m k = None \<Longrightarrow> mdel k m = m"
  by (simp add: map_of_eq_None_iff)

lemma empty_iff_lookup: "m = [] \<longleftrightarrow> (\<forall>k. mget m k = None)"
  by (cases m) auto

lemma mput_in_set: "(k', v') \<in> set (mput k v m) \<Longrightarrow> (k' = k \<and> v' = v) \<or> (k', v') \<in> set m"
  by (induction m) (auto split: if_splits)

lemma mdel_in_set: "(k', v') \<in> set (mdel k m) \<Longrightarrow> k' \<noteq> k \<and> (k', v') \<in> set m"
  by (auto simp: AList.delete_eq)

lemma list_insert_nonempty [simp]: "List.insert x xs \<noteq> []"
  by (cases xs) (auto simp: List.insert_def)

text \<open>Assigning a list of entries in order, as a loop that fills a map does.\<close>

definition mput_all :: "('k, 'v) gomap \<Rightarrow> ('k \<times> 'v) list \<Rightarrow> ('k, 'v) gomap" where
  "mput_all m kvs = foldl (\<lambda>m (k, v). mput k v m) m kvs"

lemma mput_all_simps [simp]:
  "mput_all m [] = m" "mput_all m ((k, v) # kvs) = mput_all (mput k v m) kvs"
  by (simp_all add: mput_all_def)

lemma mget_mput_all: "mget (mput_all m kvs) = mget m ++ mget (rev kvs)"
  by (induction kvs arbitrary: m) (auto simp: map_add_def fun_eq_iff map_of_append split: option.splits)

lemma mwf_mput_all [simp, intro]: "mwf m \<Longrightarrow> mwf (mput_all m kvs)"
  by (induction kvs arbitrary: m) auto

lemma mget_rev: "mwf m \<Longrightarrow> mget (rev m) = mget m"
  by (rule map_of_inject_set[THEN iffD2]) (auto simp flip: rev_map)

lemma mget_mput_all_empty: "mwf kvs \<Longrightarrow> mget (mput_all [] kvs) = mget kvs"
  by (simp add: mget_mput_all mget_rev)

lemma mput_append: "mget m k = None \<Longrightarrow> mput k v m = m @ [(k, v)]"
  by (induction m) (auto split: if_splits)

lemma mput_all_self: "mwf m \<Longrightarrow> mput_all [] m = m"
proof -
  have "mwf (m0 @ m) \<Longrightarrow> mput_all m0 m = m0 @ m" for m0
  proof (induction m arbitrary: m0)
    case (Cons e m)
    obtain k v where e: "e = (k, v)" by (cases e)
    with Cons.prems have "mget m0 k = None" by (auto simp: map_of_eq_None_iff)
    with Cons e show ?case by (simp add: mput_append)
  qed simp
  then show "mwf m \<Longrightarrow> mput_all [] m = m" by (metis append_Nil)
qed

section \<open>The entries as a multiset\<close>

lemma mset_lookup:
  assumes "mwf m" "mget m k = Some v"
  shows "mset m = add_mset (k, v) (mset (mdel k m))"
  using assms
proof (induction m)
  case Nil
  then show ?case by simp
next
  case (Cons e m)
  obtain k1 v1 where e: "e = (k1, v1)" by (cases e)
  show ?case
  proof (cases "k1 = k")
    case True
    with Cons.prems e have "mget m k = None" by (simp add: map_of_eq_None_iff)
    with True Cons.prems e show ?thesis by (simp add: mdel_absent)
  next
    case False
    with Cons e show ?thesis by simp
  qed
qed

lemma mset_mput:
  assumes "mwf m"
  shows "mset (mput k v m) = add_mset (k, v) (mset (mdel k m))"
proof -
  have "mset (mput k v m) = add_mset (k, v) (mset (mdel k (mput k v m)))"
    using assms by (intro mset_lookup) auto
  then show ?thesis by (simp add: delete_update_same)
qed

lemma msum_mset: "msum f m = (\<Sum>e \<in># mset m. f (snd e))"
  by (simp add: msum_def mvals_def comp_def flip: sum_mset_sum_list)

lemma msum_Nil [simp]: "msum f [] = 0"
  by (simp add: msum_def mvals_def)

lemma msum_Cons [simp]: "msum f (e # m) = f (snd e) + msum f m"
  by (simp add: msum_def mvals_def)

lemma msum_lookup: "mwf m \<Longrightarrow> mget m k = Some v \<Longrightarrow> msum f m = f v + msum f (mdel k m)"
  by (simp add: msum_mset mset_lookup)

lemma msum_mput: "mwf m \<Longrightarrow> msum f (mput k v m) = f v + msum f (mdel k m)"
  by (simp add: msum_mset mset_mput)

lemma msum_mdel_absent: "mget m k = None \<Longrightarrow> msum f (mdel k m) = msum f m"
  by (simp add: mdel_absent)

lemma msum_member_le:
  fixes f :: "'v \<Rightarrow> nat"
  shows "mwf m \<Longrightarrow> mget m k = Some v \<Longrightarrow> f v \<le> msum f m"
  by (simp add: msum_lookup)

lemma length_mdel_lookup: "mwf m \<Longrightarrow> mget m k = Some v \<Longrightarrow> length m = Suc (length (mdel k m))"
  using mset_lookup[of m k v] by (metis size_add_mset size_mset)

section \<open>64-bit counters\<close>

lemma unat_plus_no_wrap: "unat (a :: u64) + unat b < 2 ^ 64 \<Longrightarrow> unat (a + b) = unat a + unat b"
  by (simp add: unat_word_ariths)

lemma unat_minus_le: "b \<le> (a :: u64) \<Longrightarrow> unat (a - b) = unat a - unat b"
  by (simp add: unat_sub)

lemma unat_of_nat_u64: "n < 2 ^ 64 \<Longrightarrow> unat (of_nat n :: u64) = n"
  by (simp add: unsigned_of_nat take_bit_nat_eq_self)

lemma unat_u64_less: "unat (a :: u64) < 2 ^ 64"
  using unsigned_less[where 'a = nat, of a] by simp

lemma unat_sum_list:
  "(\<Sum>x \<leftarrow> xs. unat (f x :: u64)) < 2 ^ 64 \<Longrightarrow> unat (\<Sum>x \<leftarrow> xs. f x) = (\<Sum>x \<leftarrow> xs. unat (f x))"
proof (induction xs)
  case (Cons x xs)
  then have "unat (\<Sum>x \<leftarrow> xs. f x) = (\<Sum>x \<leftarrow> xs. unat (f x))" by simp
  with Cons.prems show ?case by (simp add: unat_plus_no_wrap)
qed simp

lemma foldl_sum: "foldl (\<lambda>n x. n + f x) (a :: 'a :: comm_monoid_add) xs = a + (\<Sum>x \<leftarrow> xs. f x)"
  by (induction xs arbitrary: a) (simp_all add: add.assoc)

lemma u64_le_unat: "(a :: u64) \<le> b \<longleftrightarrow> unat a \<le> unat b"
  by (rule word_le_nat_alt)

end
