(* ===== verification/Link_Tracker.thy ===== *)
theory Link_Tracker
  imports GS_Prelude
begin

text \<open>
  \<^verbatim>\<open>linktracker/linktracker.go\<close>: which links the in-progress requests of one peer have
  traversed, with reference counts for the blocks that were present.

  The state is the record \<open>link_tracker\<close>, the operations keep the names of the Go methods.
  The abstract view of a tracker is the multiset of (request, link) traversals that had a block
  and the set of (request, link) pairs that were missing; every operation refines its abstract
  counterpart, and the stored reference counts are the counts of the abstract multiset
  (\<open>lt_inv\<close>). The locale \<open>link_tracking\<close> is the contract other components rely on.
\<close>

section \<open>State and operations\<close>

record ('r, 'l) link_tracker =
  missingBlocks :: "('r, 'l list) gomap"
  linksWithBlocksTraversedByRequest :: "('r, 'l list) gomap"
  traversalsWithBlocksInProgress :: "('l, int) gomap"

definition lt_New :: "('r, 'l) link_tracker" where
  "lt_New = \<lparr>missingBlocks = [], linksWithBlocksTraversedByRequest = [],
     traversalsWithBlocksInProgress = []\<rparr>"

definition BlockRefCount :: "('r, 'l) link_tracker \<Rightarrow> 'l \<Rightarrow> int" where
  "BlockRefCount lt link = mgetd 0 (traversalsWithBlocksInProgress lt) link"

definition IsKnownMissingLink :: "('r, 'l) link_tracker \<Rightarrow> 'r \<Rightarrow> 'l \<Rightarrow> bool" where
  "IsKnownMissingLink lt requestID link =
     (case mget (missingBlocks lt) requestID of
        None \<Rightarrow> False
      | Some missing \<Rightarrow> link \<in> set missing)"

definition lt_RecordLinkTraversal ::
  "('r, 'l) link_tracker \<Rightarrow> 'r \<Rightarrow> 'l \<Rightarrow> bool \<Rightarrow> ('r, 'l) link_tracker" where
  "lt_RecordLinkTraversal lt requestID link hasBlock =
     (if hasBlock then
        lt\<lparr>linksWithBlocksTraversedByRequest :=
             mput requestID (mgetd [] (linksWithBlocksTraversedByRequest lt) requestID @ [link])
               (linksWithBlocksTraversedByRequest lt),
           traversalsWithBlocksInProgress :=
             mput link (mgetd 0 (traversalsWithBlocksInProgress lt) link + 1)
               (traversalsWithBlocksInProgress lt)\<rparr>
      else
        lt\<lparr>missingBlocks :=
             mput requestID (List.insert link (mgetd [] (missingBlocks lt) requestID))
               (missingBlocks lt)\<rparr>)"

text \<open>The body of the loop of \<^verbatim>\<open>FinishRequest\<close>: one reference is dropped, and the entry
  with it when the count is no longer positive.\<close>

definition releaseLink :: "'l \<Rightarrow> ('l, int) gomap \<Rightarrow> ('l, int) gomap" where
  "releaseLink link m =
     (let m' = mput link (mgetd 0 m link - 1) m
      in if mgetd 0 m' link \<le> 0 then mdel link m' else m')"

definition lt_FinishRequest ::
  "('r, 'l) link_tracker \<Rightarrow> 'r \<Rightarrow> bool \<times> ('r, 'l) link_tracker" where
  "lt_FinishRequest lt requestID =
     (let hasAllBlocks = (\<not> mhas (missingBlocks lt) requestID);
          lt1 = lt\<lparr>missingBlocks := mdel requestID (missingBlocks lt)\<rparr>
      in case mget (linksWithBlocksTraversedByRequest lt) requestID of
           None \<Rightarrow> (hasAllBlocks, lt1)
         | Some links \<Rightarrow>
             (hasAllBlocks,
              lt1\<lparr>traversalsWithBlocksInProgress :=
                    fold releaseLink links (traversalsWithBlocksInProgress lt),
                  linksWithBlocksTraversedByRequest :=
                    mdel requestID (linksWithBlocksTraversedByRequest lt)\<rparr>))"

definition lt_Empty :: "('r, 'l) link_tracker \<Rightarrow> bool" where
  "lt_Empty lt = (missingBlocks lt = [] \<and> traversalsWithBlocksInProgress lt = [])"

section \<open>The abstract tracker\<close>

text \<open>Traversals that had their block, with multiplicity, and the links that were missing.\<close>

definition lt_present :: "('r, 'l) link_tracker \<Rightarrow> ('r \<times> 'l) multiset" where
  "lt_present lt = (\<Sum>(r, links) \<in># mset (linksWithBlocksTraversedByRequest lt).
     image_mset (Pair r) (mset links))"

definition lt_missing :: "('r, 'l) link_tracker \<Rightarrow> ('r \<times> 'l) set" where
  "lt_missing lt = {(r, l). IsKnownMissingLink lt r l}"

definition refcount_of :: "('r \<times> 'l) multiset \<Rightarrow> 'l \<Rightarrow> nat" where
  "refcount_of P l = size (filter_mset (\<lambda>e. snd e = l) P)"

definition lt_inv :: "('r, 'l) link_tracker \<Rightarrow> bool" where
  "lt_inv lt \<longleftrightarrow>
     mwf (missingBlocks lt) \<and> mwf (linksWithBlocksTraversedByRequest lt) \<and>
     mwf (traversalsWithBlocksInProgress lt) \<and>
     (\<forall>r ls. mget (missingBlocks lt) r = Some ls \<longrightarrow> ls \<noteq> []) \<and>
     (\<forall>r ls. mget (linksWithBlocksTraversedByRequest lt) r = Some ls \<longrightarrow> ls \<noteq> []) \<and>
     (\<forall>l. mget (traversalsWithBlocksInProgress lt) l =
        (if refcount_of (lt_present lt) l = 0 then None
         else Some (int (refcount_of (lt_present lt) l))))"

section \<open>Reference counts\<close>

definition enc_count :: "nat \<Rightarrow> int option" where
  "enc_count n = (if n = 0 then None else Some (int n))"

lemma refcount_of_empty [simp]: "refcount_of {#} l = 0"
  by (simp add: refcount_of_def)

lemma refcount_of_add [simp]:
  "refcount_of (add_mset (r, l') P) l = (if l' = l then Suc (refcount_of P l) else refcount_of P l)"
  by (simp add: refcount_of_def)

lemma refcount_of_union [simp]: "refcount_of (P + Q) l = refcount_of P l + refcount_of Q l"
  by (simp add: refcount_of_def)

lemma refcount_of_request [simp]: "refcount_of (image_mset (Pair r) (mset ls)) l = count_list ls l"
  by (induction ls) (auto simp: refcount_of_def)

lemma refcount_of_pos: "0 < refcount_of P l \<longleftrightarrow> (\<exists>r. (r, l) \<in># P)"
proof
  assume "0 < refcount_of P l"
  then obtain e where "e \<in># filter_mset (\<lambda>e. snd e = l) P"
    unfolding refcount_of_def by (metis gr_implies_not0 multiset_nonemptyE size_empty)
  then show "\<exists>r. (r, l) \<in># P" by (cases e) auto
next
  assume "\<exists>r. (r, l) \<in># P"
  then obtain r Q where "P = add_mset (r, l) Q" by (meson multi_member_split)
  then show "0 < refcount_of P l" by simp
qed

lemma mgetd_enc_count: "mget m l = enc_count n \<Longrightarrow> mgetd 0 m l = int n"
  by (simp add: enc_count_def mgetd_def)

lemma mget_releaseLink:
  assumes "\<And>l. mget m l = enc_count (c l)" "0 < c x"
  shows "mget (releaseLink x m) l = enc_count ((c(x := c x - 1)) l)"
proof -
  have "mgetd 0 m x = int (c x)" using assms by (blast intro: mgetd_enc_count)
  with assms show ?thesis
    by (auto simp: releaseLink_def Let_def enc_count_def)
qed

lemma mwf_releaseLink [simp]: "mwf m \<Longrightarrow> mwf (releaseLink x m)"
  by (simp add: releaseLink_def Let_def)

lemma mwf_releaseLinks [simp]: "mwf m \<Longrightarrow> mwf (fold releaseLink xs m)"
  by (induction xs arbitrary: m) auto

lemma mget_releaseLinks:
  assumes "\<And>l. mget m l = enc_count (c l)" "\<And>l. count_list xs l \<le> c l"
  shows "mget (fold releaseLink xs m) l = enc_count (c l - count_list xs l)"
  using assms
proof (induction xs arbitrary: m c)
  case Nil
  then show ?case by simp
next
  case (Cons x xs)
  let ?c = "c(x := c x - 1)"
  have pos: "0 < c x" using Cons.prems(2)[of x] by simp
  have "mget (releaseLink x m) l' = enc_count (?c l')" for l'
    using mget_releaseLink[OF Cons.prems(1) pos] .
  moreover have "count_list xs l' \<le> ?c l'" for l'
    using Cons.prems(2)[of l'] by (auto split: if_splits)
  ultimately have "mget (fold releaseLink xs (releaseLink x m)) l = enc_count (?c l - count_list xs l)"
    by (rule Cons.IH)
  then show ?case by (auto simp: enc_count_def)
qed

section \<open>Refinement of the abstract tracker\<close>

lemma lt_present_simps:
  assumes "mwf (linksWithBlocksTraversedByRequest lt)"
    "mget (linksWithBlocksTraversedByRequest lt) r = Some ls"
  shows "lt_present lt = image_mset (Pair r) (mset ls) +
    lt_present (lt\<lparr>linksWithBlocksTraversedByRequest := mdel r (linksWithBlocksTraversedByRequest lt)\<rparr>)"
  using mset_lookup[OF assms] by (simp add: lt_present_def)

lemma in_lt_present:
  "(r, l) \<in># lt_present lt \<longleftrightarrow>
     (\<exists>ls. (r, ls) \<in> set (linksWithBlocksTraversedByRequest lt) \<and> l \<in> set ls)"
  by (force simp: lt_present_def)

lemma lt_present_record:
  assumes "mwf (linksWithBlocksTraversedByRequest lt)"
  shows "lt_present (lt_RecordLinkTraversal lt r l b) =
    (if b then add_mset (r, l) (lt_present lt) else lt_present lt)"
proof (cases "mget (linksWithBlocksTraversedByRequest lt) r")
  case None
  with assms show ?thesis
    by (simp add: lt_RecordLinkTraversal_def lt_present_def mset_mput mdel_absent)
next
  case (Some ls)
  with assms show ?thesis
    by (simp add: lt_RecordLinkTraversal_def lt_present_def mset_mput mset_lookup[OF assms Some])
qed

lemma lt_missing_record:
  "lt_missing (lt_RecordLinkTraversal lt r l b) =
    (if b then lt_missing lt else insert (r, l) (lt_missing lt))"
  by (auto simp: lt_missing_def IsKnownMissingLink_def lt_RecordLinkTraversal_def mgetd_def
      split: option.splits if_splits)

lemma lt_present_mdel:
  assumes "mwf (linksWithBlocksTraversedByRequest lt)"
  shows "lt_present (lt\<lparr>linksWithBlocksTraversedByRequest :=
      mdel r (linksWithBlocksTraversedByRequest lt)\<rparr>) = filter_mset (\<lambda>e. fst e \<noteq> r) (lt_present lt)"
    (is "lt_present ?lt' = _")
proof -
  have "fst e \<noteq> r" if "e \<in># lt_present ?lt'" for e
    using that by (cases e) (auto simp: in_lt_present dest: mdel_in_set)
  then have keep: "filter_mset (\<lambda>e. fst e \<noteq> r) (lt_present ?lt') = lt_present ?lt'"
    by (simp add: filter_mset_eq_conv)
  show ?thesis
  proof (cases "mget (linksWithBlocksTraversedByRequest lt) r")
    case None
    with keep show ?thesis by (simp add: mdel_absent)
  next
    case (Some ls)
    have "filter_mset (\<lambda>e. fst e \<noteq> r) (image_mset (Pair r) (mset ls)) = {#}"
      by (auto simp: filter_mset_eq_conv)
    with keep lt_present_simps[OF assms Some] show ?thesis by simp
  qed
qed

lemma lt_present_links_only:
  "linksWithBlocksTraversedByRequest a = linksWithBlocksTraversedByRequest b \<Longrightarrow>
    lt_present a = lt_present b"
  by (simp add: lt_present_def)

lemma lt_present_finish:
  assumes "mwf (linksWithBlocksTraversedByRequest lt)"
  shows "lt_present (snd (lt_FinishRequest lt r)) = filter_mset (\<lambda>e. fst e \<noteq> r) (lt_present lt)"
  unfolding lt_present_mdel[OF assms, symmetric]
  by (rule lt_present_links_only)
    (simp add: lt_FinishRequest_def Let_def mdel_absent split: option.splits)

lemma lt_missing_finish:
  "lt_missing (snd (lt_FinishRequest lt r)) = {e \<in> lt_missing lt. fst e \<noteq> r}"
  by (auto simp: lt_missing_def IsKnownMissingLink_def lt_FinishRequest_def Let_def
      split: option.splits if_splits)

section \<open>The invariant\<close>

lemma lt_inv_refcount: "lt_inv lt \<Longrightarrow> mget (traversalsWithBlocksInProgress lt) l =
    enc_count (refcount_of (lt_present lt) l)"
  by (simp add: lt_inv_def enc_count_def)

lemma lt_invI:
  assumes "mwf (missingBlocks lt)" "mwf (linksWithBlocksTraversedByRequest lt)"
    "mwf (traversalsWithBlocksInProgress lt)"
    "\<And>r ls. mget (missingBlocks lt) r = Some ls \<Longrightarrow> ls \<noteq> []"
    "\<And>r ls. mget (linksWithBlocksTraversedByRequest lt) r = Some ls \<Longrightarrow> ls \<noteq> []"
    "\<And>l. mget (traversalsWithBlocksInProgress lt) l = enc_count (refcount_of (lt_present lt) l)"
  shows "lt_inv lt"
  using assms by (auto simp: lt_inv_def enc_count_def)

lemma lt_inv_New [simp, gs_inv]: "lt_inv lt_New"
  by (simp add: lt_inv_def lt_New_def lt_present_def)

lemma lt_inv_Record [gs_inv]:
  assumes "lt_inv lt"
  shows "lt_inv (lt_RecordLinkTraversal lt r l b)"
proof (rule lt_invI)
  note inv = assms[unfolded lt_inv_def]
  show "mget (traversalsWithBlocksInProgress (lt_RecordLinkTraversal lt r l b)) l' =
      enc_count (refcount_of (lt_present (lt_RecordLinkTraversal lt r l b)) l')" for l'
    using inv lt_inv_refcount[OF assms, of l'] mgetd_enc_count[OF lt_inv_refcount[OF assms, of l]]
    by (simp add: lt_present_record enc_count_def) (auto simp: lt_RecordLinkTraversal_def)
qed (use assms in \<open>auto simp: lt_inv_def lt_RecordLinkTraversal_def split: if_splits\<close>)

lemma lt_inv_Finish [gs_inv]:
  assumes "lt_inv lt"
  shows "lt_inv (snd (lt_FinishRequest lt r))"
proof (rule lt_invI)
  note inv = assms[unfolded lt_inv_def]
  show "mget (traversalsWithBlocksInProgress (snd (lt_FinishRequest lt r))) l =
      enc_count (refcount_of (lt_present (snd (lt_FinishRequest lt r))) l)" for l
  proof (cases "mget (linksWithBlocksTraversedByRequest lt) r")
    case None
    then show ?thesis
      using inv lt_present_mdel[of lt r] lt_inv_refcount[OF assms, of l]
      by (simp add: lt_present_finish mdel_absent) (simp add: lt_FinishRequest_def Let_def)
  next
    case (Some ls)
    then have split: "lt_present lt = image_mset (Pair r) (mset ls) +
        filter_mset (\<lambda>e. fst e \<noteq> r) (lt_present lt)"
      using inv lt_present_simps[of lt r ls] lt_present_mdel[of lt r] by simp
    then have ref: "refcount_of (lt_present lt) l = count_list ls l +
        refcount_of (filter_mset (\<lambda>e. fst e \<noteq> r) (lt_present lt)) l" for l
      using refcount_of_union refcount_of_request by metis
    with lt_inv_refcount[OF assms] have
      "mget (fold releaseLink ls (traversalsWithBlocksInProgress lt)) l =
        enc_count (refcount_of (lt_present lt) l - count_list ls l)"
      by (intro mget_releaseLinks) auto
    with ref[of l] Some inv show ?thesis
      by (simp add: lt_present_finish) (simp add: lt_FinishRequest_def Let_def)
  qed
qed (use assms in \<open>auto simp: lt_inv_def lt_FinishRequest_def Let_def split: option.splits if_splits\<close>)

lemma BlockRefCount_present: "lt_inv lt \<Longrightarrow> BlockRefCount lt l = int (refcount_of (lt_present lt) l)"
  unfolding BlockRefCount_def by (rule mgetd_enc_count, rule lt_inv_refcount)

lemma FinishRequest_result:
  assumes "lt_inv lt"
  shows "fst (lt_FinishRequest lt r) \<longleftrightarrow> (\<forall>l. (r, l) \<notin> lt_missing lt)"
proof (cases "mget (missingBlocks lt) r")
  case None
  then show ?thesis
    by (auto simp: lt_FinishRequest_def Let_def lt_missing_def IsKnownMissingLink_def mhas_def
        split: option.splits)
next
  case (Some ls)
  with assms have "ls \<noteq> []" by (simp add: lt_inv_def)
  then have "(r, hd ls) \<in> lt_missing lt"
    using Some by (simp add: lt_missing_def IsKnownMissingLink_def)
  moreover have "\<not> fst (lt_FinishRequest lt r)"
    using Some by (simp add: lt_FinishRequest_def Let_def mhas_def split: option.splits)
  ultimately show ?thesis by blast
qed

lemma lt_Empty_iff:
  assumes "lt_inv lt"
  shows "lt_Empty lt \<longleftrightarrow> lt_present lt = {#} \<and> lt_missing lt = {}"
proof -
  have "missingBlocks lt = [] \<longleftrightarrow> lt_missing lt = {}"
  proof
    assume "lt_missing lt = {}"
    then have "mget (missingBlocks lt) r = None" for r
      using assms by (cases "mget (missingBlocks lt) r")
        (auto simp: lt_missing_def IsKnownMissingLink_def lt_inv_def split: option.splits,
          metis last_in_set)
    then show "missingBlocks lt = []" by (simp add: empty_iff_lookup)
  qed (simp add: lt_missing_def IsKnownMissingLink_def)
  moreover have "traversalsWithBlocksInProgress lt = [] \<longleftrightarrow> lt_present lt = {#}"
  proof
    assume "traversalsWithBlocksInProgress lt = []"
    then have "refcount_of (lt_present lt) l = 0" for l
      using lt_inv_refcount[OF assms, of l] by (simp add: enc_count_def split: if_splits)
    then show "lt_present lt = {#}"
      by (metis all_not_in_conv not_gr_zero refcount_of_pos set_mset_eq_empty_iff surj_pair)
  next
    assume "lt_present lt = {#}"
    then show "traversalsWithBlocksInProgress lt = []"
      using lt_inv_refcount[OF assms] by (simp add: empty_iff_lookup enc_count_def)
  qed
  ultimately show ?thesis by (auto simp: lt_Empty_def)
qed

section \<open>The contract of a link tracker\<close>

text \<open>
  What the response side relies on: recording adds one traversal, finishing a request removes
  exactly the traversals of that request, and a reference count is positive as long as some
  unfinished request traversed the link with a block.
\<close>

locale link_tracking =
  fixes new :: "'t"
    and refs :: "'t \<Rightarrow> 'l \<Rightarrow> int"
    and rec :: "'t \<Rightarrow> 'r \<Rightarrow> 'l \<Rightarrow> bool \<Rightarrow> 't"
    and finish :: "'t \<Rightarrow> 'r \<Rightarrow> bool \<times> 't"
    and invar :: "'t \<Rightarrow> bool"
    and present :: "'t \<Rightarrow> ('r \<times> 'l) multiset"
    and missing :: "'t \<Rightarrow> ('r \<times> 'l) set"
  assumes invar_new: "invar new"
    and invar_rec: "invar t \<Longrightarrow> invar (rec t r l b)"
    and invar_finish: "invar t \<Longrightarrow> invar (snd (finish t r))"
    and present_new: "present new = {#}"
    and missing_new: "missing new = {}"
    and present_rec: "invar t \<Longrightarrow>
      present (rec t r l b) = (if b then add_mset (r, l) (present t) else present t)"
    and missing_rec: "invar t \<Longrightarrow>
      missing (rec t r l b) = (if b then missing t else insert (r, l) (missing t))"
    and present_finish: "invar t \<Longrightarrow>
      present (snd (finish t r)) = filter_mset (\<lambda>e. fst e \<noteq> r) (present t)"
    and missing_finish: "invar t \<Longrightarrow> missing (snd (finish t r)) = {e \<in> missing t. fst e \<noteq> r}"
    and finish_complete: "invar t \<Longrightarrow> fst (finish t r) \<longleftrightarrow> (\<forall>l. (r, l) \<notin> missing t)"
    and refs_present: "invar t \<Longrightarrow> refs t l = int (refcount_of (present t) l)"
begin

lemma refs_zero: "invar t \<Longrightarrow> refs t l = 0 \<longleftrightarrow> (\<forall>r. (r, l) \<notin># present t)"
  using refcount_of_pos[of "present t" l] by (auto simp: refs_present)

lemma refs_after_rec: "invar t \<Longrightarrow> refs (rec t r l True) l \<noteq> 0"
  by (simp add: refs_present invar_rec present_rec)

lemma refs_rec_mono: "invar t \<Longrightarrow> refs t l \<noteq> 0 \<Longrightarrow> refs (rec t r l' b) l \<noteq> 0"
  by (simp add: refs_present invar_rec present_rec)

lemma refs_finish_other:
  assumes "invar t" "(r, l) \<in># present t" "r' \<noteq> r"
  shows "refs (snd (finish t r')) l \<noteq> 0"
  using assms by (auto simp: refs_zero invar_finish present_finish)

lemma rec_all:
  assumes "invar t"
  shows "invar (fold (\<lambda>l t. rec t r l True) ls t) \<and>
    present (fold (\<lambda>l t. rec t r l True) ls t) = image_mset (Pair r) (mset ls) + present t \<and>
    missing (fold (\<lambda>l t. rec t r l True) ls t) = missing t"
  using assms by (induction ls arbitrary: t) (simp_all add: invar_rec present_rec missing_rec)

lemma finish_after_rec:
  assumes "invar t" "\<forall>l. (r, l) \<notin># present t"
  shows "present (snd (finish (rec t r l b) r)) = present t"
proof -
  have "filter_mset (\<lambda>e. fst e \<noteq> r) (present t) = present t"
    using assms(2) by (auto simp: filter_mset_eq_conv)
  with assms show ?thesis by (simp add: present_finish invar_rec present_rec)
qed

end

lemma lt_present_New: "lt_present lt_New = {#}"
  by (simp add: lt_present_def lt_New_def)

lemma lt_missing_New: "lt_missing lt_New = {}"
  by (simp add: lt_missing_def IsKnownMissingLink_def lt_New_def)

lemma lt_inv_wf: "lt_inv lt \<Longrightarrow> mwf (linksWithBlocksTraversedByRequest lt)"
  by (simp add: lt_inv_def)

interpretation lt: link_tracking lt_New BlockRefCount lt_RecordLinkTraversal lt_FinishRequest
  lt_inv lt_present lt_missing
  by unfold_locales
    (simp_all add: lt_inv_Record lt_inv_Finish lt_present_New lt_missing_New lt_present_record
      lt_missing_record lt_present_finish lt_missing_finish FinishRequest_result
      BlockRefCount_present lt_inv_wf)

end
