(* ===== verification/Peer_Link_Tracker.thy ===== *)
theory Peer_Link_Tracker
  imports Link_Tracker
begin

text \<open>
  \<^verbatim>\<open>responsemanager/responseassembler/peerlinktracker.go\<close>: the link trackers of one peer,
  one shared by default and one per deduplication key, with the per-request block counts. A
  pointer to a tracker is a \<open>tracker_ref\<close>; dereferencing a key with no tracker is Go's nil
  dereference and makes the operation \<open>None\<close>. The invariant \<open>plt_inv\<close> excludes it.
\<close>

section \<open>State and operations\<close>

record ('r, 'l) peer_link_tracker =
  linkTracker :: "('r, 'l) link_tracker"
  altTrackers :: "(string, ('r, 'l) link_tracker) gomap"
  dedupKeys :: "('r, string) gomap"
  blockSentCount :: "('r, i64) gomap"
  skipFirstBlocks :: "('r, i64) gomap"

datatype tracker_ref = MainTracker | AltTracker string

definition newTracker :: "('r, 'l) peer_link_tracker" where
  "newTracker = \<lparr>linkTracker = lt_New, altTrackers = [], dedupKeys = [], blockSentCount = [],
     skipFirstBlocks = []\<rparr>"

definition getLinkTracker :: "('r, 'l) peer_link_tracker \<Rightarrow> 'r \<Rightarrow> tracker_ref" where
  "getLinkTracker prs requestID =
     (case mget (dedupKeys prs) requestID of
        Some key \<Rightarrow> AltTracker key
      | None \<Rightarrow> MainTracker)"

fun deref :: "('r, 'l) peer_link_tracker \<Rightarrow> tracker_ref \<Rightarrow> ('r, 'l) link_tracker option" where
  "deref prs MainTracker = Some (linkTracker prs)"
| "deref prs (AltTracker key) = mget (altTrackers prs) key"

fun store :: "tracker_ref \<Rightarrow> ('r, 'l) link_tracker \<Rightarrow> ('r, 'l) peer_link_tracker \<Rightarrow>
    ('r, 'l) peer_link_tracker" where
  "store MainTracker lt prs = prs\<lparr>linkTracker := lt\<rparr>"
| "store (AltTracker key) lt prs = prs\<lparr>altTrackers := mput key lt (altTrackers prs)\<rparr>"

definition DedupKey :: "('r, 'l) peer_link_tracker \<Rightarrow> 'r \<Rightarrow> string \<Rightarrow> ('r, 'l) peer_link_tracker" where
  "DedupKey prs requestID key =
     (let prs1 = prs\<lparr>dedupKeys := mput requestID key (dedupKeys prs)\<rparr>
      in if mhas (altTrackers prs1) key then prs1
         else prs1\<lparr>altTrackers := mput key lt_New (altTrackers prs1)\<rparr>)"

definition IgnoreBlocks ::
  "('r, 'l) peer_link_tracker \<Rightarrow> 'r \<Rightarrow> 'l list \<Rightarrow> ('r, 'l) peer_link_tracker option" where
  "IgnoreBlocks prs requestID links =
     (let ref = getLinkTracker prs requestID
      in case deref prs ref of
           None \<Rightarrow> (if links = [] then Some prs else None)
         | Some lt \<Rightarrow>
             Some (store ref
               (fold (\<lambda>link lt. lt_RecordLinkTraversal lt requestID link True) links lt) prs))"

definition SkipFirstBlocks ::
  "('r, 'l) peer_link_tracker \<Rightarrow> 'r \<Rightarrow> i64 \<Rightarrow> ('r, 'l) peer_link_tracker" where
  "SkipFirstBlocks prs requestID blocksToSkip =
     prs\<lparr>skipFirstBlocks := mput requestID blocksToSkip (skipFirstBlocks prs)\<rparr>"

definition FinishTracking ::
  "('r, 'l) peer_link_tracker \<Rightarrow> 'r \<Rightarrow> (bool \<times> ('r, 'l) peer_link_tracker) option" where
  "FinishTracking prs requestID =
     (let ref = getLinkTracker prs requestID
      in case deref prs ref of
           None \<Rightarrow> None
         | Some lt \<Rightarrow>
             let (allBlocks, lt') = lt_FinishRequest lt requestID;
                 prs1 = store ref lt' prs;
                 prs2 =
                   (case mget (dedupKeys prs1) requestID of
                      None \<Rightarrow> prs1
                    | Some key \<Rightarrow>
                        let prs' = prs1\<lparr>dedupKeys := mdel requestID (dedupKeys prs1)\<rparr>;
                            otherRequestsFound = (key \<in> set (mvals (dedupKeys prs')))
                        in if otherRequestsFound then prs'
                           else prs'\<lparr>altTrackers := mdel key (altTrackers prs')\<rparr>)
             in Some (allBlocks,
                  prs2\<lparr>blockSentCount := mdel requestID (blockSentCount prs2),
                       skipFirstBlocks := mdel requestID (skipFirstBlocks prs2)\<rparr>))"

definition plt_RecordLinkTraversal ::
  "('r, 'l) peer_link_tracker \<Rightarrow> 'r \<Rightarrow> 'l \<Rightarrow> bool \<Rightarrow>
    ((bool \<times> i64) \<times> ('r, 'l) peer_link_tracker) option" where
  "plt_RecordLinkTraversal prs requestID link hasBlock =
     (let sent = mgetd 0 (blockSentCount prs) requestID + 1;
          prs1 = prs\<lparr>blockSentCount := mput requestID sent (blockSentCount prs)\<rparr>;
          notSkipped = (mgetd 0 (skipFirstBlocks prs1) requestID < sent);
          ref = getLinkTracker prs1 requestID
      in case deref prs1 ref of
           None \<Rightarrow> None
         | Some lt \<Rightarrow>
             let isUnique = (BlockRefCount lt link = 0)
             in Some ((hasBlock \<and> notSkipped \<and> isUnique, sent),
                  store ref (lt_RecordLinkTraversal lt requestID link hasBlock) prs1))"

section \<open>The invariant\<close>

definition plt_inv :: "('r, 'l) peer_link_tracker \<Rightarrow> bool" where
  "plt_inv prs \<longleftrightarrow>
     lt_inv (linkTracker prs) \<and>
     (\<forall>key lt. mget (altTrackers prs) key = Some lt \<longrightarrow> lt_inv lt) \<and>
     (\<forall>r key. mget (dedupKeys prs) r = Some key \<longrightarrow> mhas (altTrackers prs) key) \<and>
     mwf (altTrackers prs) \<and> mwf (dedupKeys prs)"

text \<open>The traversals with blocks, and the missing links, in the bucket a request belongs to.\<close>

definition bucket_present :: "('r, 'l) peer_link_tracker \<Rightarrow> tracker_ref \<Rightarrow> ('r \<times> 'l) multiset" where
  "bucket_present prs ref = (case deref prs ref of None \<Rightarrow> {#} | Some lt \<Rightarrow> lt_present lt)"

definition bucket_missing :: "('r, 'l) peer_link_tracker \<Rightarrow> tracker_ref \<Rightarrow> ('r \<times> 'l) set" where
  "bucket_missing prs ref = (case deref prs ref of None \<Rightarrow> {} | Some lt \<Rightarrow> lt_missing lt)"

lemma deref_store [simp]: "deref (store ref lt prs) ref' = (if ref' = ref then Some lt else deref prs ref')"
  by (cases ref; cases ref') auto

lemma store_fields [simp]:
  "dedupKeys (store ref lt prs) = dedupKeys prs"
  "blockSentCount (store ref lt prs) = blockSentCount prs"
  "skipFirstBlocks (store ref lt prs) = skipFirstBlocks prs"
  by (cases ref; simp)+

lemma deref_frame [simp]:
  "deref (prs\<lparr>blockSentCount := x\<rparr>) ref = deref prs ref"
  "deref (prs\<lparr>skipFirstBlocks := x\<rparr>) ref = deref prs ref"
  "deref (prs\<lparr>dedupKeys := y\<rparr>) ref = deref prs ref"
  by (cases ref; simp)+

lemma getLinkTracker_frame [simp]:
  "getLinkTracker (prs\<lparr>blockSentCount := x\<rparr>) r = getLinkTracker prs r"
  "getLinkTracker (prs\<lparr>skipFirstBlocks := x\<rparr>) r = getLinkTracker prs r"
  "getLinkTracker (prs\<lparr>altTrackers := a\<rparr>) r = getLinkTracker prs r"
  "getLinkTracker (store ref lt prs) r = getLinkTracker prs r"
  by (simp_all add: getLinkTracker_def)

lemma plt_inv_frame [simp]:
  "plt_inv (prs\<lparr>blockSentCount := x\<rparr>) = plt_inv prs"
  "plt_inv (prs\<lparr>skipFirstBlocks := x\<rparr>) = plt_inv prs"
  by (simp_all add: plt_inv_def)

lemma plt_inv_deref:
  assumes "plt_inv prs"
  obtains lt where "deref prs (getLinkTracker prs r) = Some lt" "lt_inv lt"
proof (cases "mget (dedupKeys prs) r")
  case None
  with assms that show thesis by (auto simp: getLinkTracker_def plt_inv_def)
next
  case (Some key)
  with assms obtain lt where "mget (altTrackers prs) key = Some lt"
    unfolding plt_inv_def mhas_def by blast
  with assms that Some show thesis by (auto simp: getLinkTracker_def plt_inv_def)
qed

lemma plt_inv_store:
  assumes "plt_inv prs" "lt_inv lt" "deref prs ref \<noteq> None"
  shows "plt_inv (store ref lt prs)"
  using assms by (cases ref) (auto simp: plt_inv_def)

section \<open>What each operation does\<close>

lemma plt_inv_newTracker [gs_inv]: "plt_inv newTracker"
  by (simp add: plt_inv_def newTracker_def)

lemma DedupKey_inv [gs_inv]: "plt_inv prs \<Longrightarrow> plt_inv (DedupKey prs r key)"
  by (auto simp: plt_inv_def DedupKey_def Let_def)

lemma bucket_present_DedupKey:
  "bucket_present (DedupKey prs r key) ref = bucket_present prs ref"
  by (cases ref) (auto simp: bucket_present_def DedupKey_def Let_def mhas_def lt_present_New)

lemma getLinkTracker_DedupKey:
  "getLinkTracker (DedupKey prs r key) r' = (if r' = r then AltTracker key else getLinkTracker prs r')"
  by (auto simp: getLinkTracker_def DedupKey_def Let_def)

lemma plt_Record_spec:
  assumes "plt_inv prs"
  obtains prs' where
    "plt_RecordLinkTraversal prs r l hasBlock =
       Some ((hasBlock \<and> mgetd 0 (skipFirstBlocks prs) r < mgetd 0 (blockSentCount prs) r + 1 \<and>
              (\<forall>r'. (r', l) \<notin># bucket_present prs (getLinkTracker prs r)),
              mgetd 0 (blockSentCount prs) r + 1), prs')"
    "plt_inv prs'"
    "\<And>ref. bucket_present prs' ref =
       (if hasBlock \<and> ref = getLinkTracker prs r then add_mset (r, l) (bucket_present prs ref)
        else bucket_present prs ref)"
    "\<And>r'. getLinkTracker prs' r' = getLinkTracker prs r'"
proof -
  obtain lt where lt: "deref prs (getLinkTracker prs r) = Some lt" "lt_inv lt"
    using assms by (rule plt_inv_deref)
  let ?n = "mgetd 0 (blockSentCount prs) r + 1"
  let ?prs' = "store (getLinkTracker prs r) (lt_RecordLinkTraversal lt r l hasBlock)
    (prs\<lparr>blockSentCount := mput r ?n (blockSentCount prs)\<rparr>)"
  show thesis
  proof (rule that[of ?prs'])
    show "plt_inv ?prs'"
      using assms lt by (auto intro: plt_inv_store lt.invar_rec)
  qed (use lt in \<open>auto simp: plt_RecordLinkTraversal_def Let_def bucket_present_def
      lt.refs_zero lt.present_rec\<close>)
qed

lemma IgnoreBlocks_spec:
  assumes "plt_inv prs"
  obtains prs' where "IgnoreBlocks prs r ls = Some prs'" "plt_inv prs'"
    "\<And>ref. bucket_present prs' ref =
       (if ref = getLinkTracker prs r then image_mset (Pair r) (mset ls) + bucket_present prs ref
        else bucket_present prs ref)"
    "\<And>r'. getLinkTracker prs' r' = getLinkTracker prs r'"
proof -
  obtain lt where lt: "deref prs (getLinkTracker prs r) = Some lt" "lt_inv lt"
    using assms by (rule plt_inv_deref)
  let ?lt' = "fold (\<lambda>link lt. lt_RecordLinkTraversal lt r link True) ls lt"
  have rec: "lt_inv ?lt'" "lt_present ?lt' = image_mset (Pair r) (mset ls) + lt_present lt"
    using lt.rec_all[OF lt(2)] by auto
  show thesis
  proof (rule that[of "store (getLinkTracker prs r) ?lt' prs"])
    show "plt_inv (store (getLinkTracker prs r) ?lt' prs)"
      using assms lt rec by (auto intro: plt_inv_store)
  qed (use lt rec in \<open>auto simp: IgnoreBlocks_def Let_def bucket_present_def\<close>)
qed

text \<open>The last step of \<^verbatim>\<open>FinishTracking\<close> for a request with a key: the key is forgotten, and
  its tracker too when no other request uses it.\<close>

definition dropKey :: "'r \<Rightarrow> ('r, 'l) peer_link_tracker \<Rightarrow> ('r, 'l) peer_link_tracker" where
  "dropKey r prs =
     (case mget (dedupKeys prs) r of
        None \<Rightarrow> prs
      | Some key \<Rightarrow>
          let prs' = prs\<lparr>dedupKeys := mdel r (dedupKeys prs)\<rparr>
          in if key \<in> set (mvals (dedupKeys prs')) then prs'
             else prs'\<lparr>altTrackers := mdel key (altTrackers prs')\<rparr>)"

lemma FinishTracking_dropKey:
  "FinishTracking prs r =
     (case deref prs (getLinkTracker prs r) of
        None \<Rightarrow> None
      | Some lt \<Rightarrow>
          let prs2 = dropKey r (store (getLinkTracker prs r) (snd (lt_FinishRequest lt r)) prs)
          in Some (fst (lt_FinishRequest lt r),
               prs2\<lparr>blockSentCount := mdel r (blockSentCount prs2),
                    skipFirstBlocks := mdel r (skipFirstBlocks prs2)\<rparr>))"
  by (simp add: FinishTracking_def dropKey_def Let_def split: option.split prod.split)

lemma in_mvals: "mwf m \<Longrightarrow> v \<in> set (mvals m) \<longleftrightarrow> (\<exists>k. mget m k = Some v)"
  by (force simp: mvals_def mwf_in_set[symmetric])

lemma dropKey_inv:
  assumes "plt_inv prs"
  shows "plt_inv (dropKey r prs)"
  using assms
  by (auto simp: plt_inv_def dropKey_def Let_def in_mvals split: option.splits if_splits)

lemma getLinkTracker_dropKey:
  "getLinkTracker (dropKey r prs) r' = (if r' = r then MainTracker else getLinkTracker prs r')"
  by (auto simp: getLinkTracker_def dropKey_def Let_def split: option.splits)

lemma deref_dropKey_used:
  assumes "plt_inv prs" "ref = MainTracker \<or> (\<exists>r'. r' \<noteq> r \<and> ref = getLinkTracker prs r')"
  shows "deref (dropKey r prs) ref = deref prs ref"
proof (cases ref)
  case MainTracker
  then show ?thesis by (simp add: dropKey_def Let_def split: option.splits)
next
  case (AltTracker key)
  with assms(2) obtain r' where "r' \<noteq> r" "mget (dedupKeys prs) r' = Some key"
    by (auto simp: getLinkTracker_def split: option.splits)
  moreover have "mwf (mdel r (dedupKeys prs))" using assms(1) by (simp add: plt_inv_def)
  ultimately have "key \<in> set (mvals (mdel r (dedupKeys prs)))"
    by (auto simp: in_mvals)
  with AltTracker show ?thesis
    by (auto simp: dropKey_def Let_def split: option.splits)
qed

lemma deref_dropKey_cases: "deref (dropKey r prs) ref = deref prs ref \<or> deref (dropKey r prs) ref = None"
  by (cases ref) (auto simp: dropKey_def Let_def split: option.splits)

lemma FinishTracking_spec:
  fixes prs :: "('r, 'l) peer_link_tracker" and r :: 'r
  assumes inv: "plt_inv prs"
  defines "ref0 \<equiv> getLinkTracker prs r"
  obtains prs' where
    "FinishTracking prs r = Some (\<forall>l. (r, l) \<notin> bucket_missing prs ref0, prs')"
    "plt_inv prs'"
    "\<And>r'. getLinkTracker prs' r' = (if r' = r then MainTracker else getLinkTracker prs r')"
    "\<And>ref. ref = MainTracker \<or> (\<exists>r'. r' \<noteq> r \<and> ref = getLinkTracker prs r') \<Longrightarrow>
       bucket_present prs' ref =
         (if ref = ref0 then filter_mset (\<lambda>e. fst e \<noteq> r) (bucket_present prs ref)
          else bucket_present prs ref)"
    "\<And>l. (r, l) \<notin># bucket_present prs' ref0"
    "mget (blockSentCount prs') r = None" "mget (skipFirstBlocks prs') r = None"
proof -
  obtain lt where lt: "deref prs ref0 = Some lt" "lt_inv lt"
    using inv unfolding ref0_def by (rule plt_inv_deref)
  let ?lt' = "snd (lt_FinishRequest lt r)"
  let ?prs1 = "store ref0 ?lt' prs"
  let ?prs2 = "dropKey r ?prs1"
  let ?prs' = "?prs2\<lparr>blockSentCount := mdel r (blockSentCount ?prs2),
                    skipFirstBlocks := mdel r (skipFirstBlocks ?prs2)\<rparr>"
  have inv1: "plt_inv ?prs1"
    using inv lt by (auto intro: plt_inv_store lt.invar_finish)
  have upd: "bucket_present ?prs1 ref =
      (if ref = ref0 then filter_mset (\<lambda>e. fst e \<noteq> r) (bucket_present prs ref)
       else bucket_present prs ref)" for ref
    using lt by (simp add: bucket_present_def lt.present_finish)
  show thesis
  proof (rule that[of ?prs'])
    show "FinishTracking prs r = Some (\<forall>l. (r, l) \<notin> bucket_missing prs ref0, ?prs')"
      using lt by (simp add: FinishTracking_dropKey ref0_def[symmetric] bucket_missing_def
          lt.finish_complete Let_def)
    show "plt_inv ?prs'" using inv1 by (simp add: dropKey_inv)
    show "bucket_present ?prs' ref =
         (if ref = ref0 then filter_mset (\<lambda>e. fst e \<noteq> r) (bucket_present prs ref)
          else bucket_present prs ref)"
      if "ref = MainTracker \<or> (\<exists>r'. r' \<noteq> r \<and> ref = getLinkTracker prs r')" for ref
      using deref_dropKey_used[OF inv1, of ref r] that upd[of ref] by (simp add: bucket_present_def)
    show "(r, l) \<notin># bucket_present ?prs' ref0" for l
      using deref_dropKey_cases[of r ?prs1 ref0] upd[of ref0] by (auto simp: bucket_present_def)
  qed (simp_all add: getLinkTracker_dropKey)
qed

lemma FinishTracking_other:
  assumes "plt_inv prs" "FinishTracking prs r = Some (b, prs')" "r' \<noteq> r"
  shows "getLinkTracker prs' r' = getLinkTracker prs r'"
    "count (bucket_present prs' (getLinkTracker prs r')) (r', l) =
       count (bucket_present prs (getLinkTracker prs r')) (r', l)"
proof -
  obtain prs1 where fin: "FinishTracking prs r = Some (\<forall>l. (r, l) \<notin> bucket_missing prs
      (getLinkTracker prs r), prs1)"
    "\<And>r'. getLinkTracker prs1 r' = (if r' = r then MainTracker else getLinkTracker prs r')"
    "\<And>ref. ref = MainTracker \<or> (\<exists>r'. r' \<noteq> r \<and> ref = getLinkTracker prs r') \<Longrightarrow>
       bucket_present prs1 ref =
         (if ref = getLinkTracker prs r then filter_mset (\<lambda>e. fst e \<noteq> r) (bucket_present prs ref)
          else bucket_present prs ref)"
    using assms(1) by (rule FinishTracking_spec[of prs r]) blast
  have [simp]: "prs1 = prs'" using fin(1) assms(2) by simp
  show "getLinkTracker prs' r' = getLinkTracker prs r'" using fin(2)[of r'] assms(3) by simp
  show "count (bucket_present prs' (getLinkTracker prs r')) (r', l) =
      count (bucket_present prs (getLinkTracker prs r')) (r', l)"
    using fin(3)[of "getLinkTracker prs r'"] assms(3) by (subst fin(3)[simplified]) auto
qed

section \<open>Runs of operations\<close>

text \<open>A run of the tracker of one peer: the operations the response streams of that peer call, in
  the order the lock serialises them, with the send decision of every traversal.\<close>

datatype ('r, 'l) plt_op =
    OpDedup 'r string
  | OpIgnore 'r "'l list"
  | OpSkip 'r i64
  | OpFinish 'r
  | OpTraverse 'r 'l bool

fun plt_step :: "('r, 'l) peer_link_tracker \<Rightarrow> ('r, 'l) plt_op \<Rightarrow>
    (('r \<times> 'l \<times> bool) list \<times> ('r, 'l) peer_link_tracker) option" where
  "plt_step prs (OpDedup r key) = Some ([], DedupKey prs r key)"
| "plt_step prs (OpIgnore r ls) = map_option (\<lambda>prs'. ([], prs')) (IgnoreBlocks prs r ls)"
| "plt_step prs (OpSkip r n) = Some ([], SkipFirstBlocks prs r n)"
| "plt_step prs (OpFinish r) = map_option (\<lambda>(_, prs'). ([], prs')) (FinishTracking prs r)"
| "plt_step prs (OpTraverse r l b) =
     map_option (\<lambda>((send, _), prs'). ([(r, l, send)], prs')) (plt_RecordLinkTraversal prs r l b)"

fun plt_run :: "('r, 'l) peer_link_tracker \<Rightarrow> ('r, 'l) plt_op list \<Rightarrow>
    (('r \<times> 'l \<times> bool) list \<times> ('r, 'l) peer_link_tracker) option" where
  "plt_run prs [] = Some ([], prs)"
| "plt_run prs (a # as) =
     (case plt_step prs a of
        None \<Rightarrow> None
      | Some (out, prs') \<Rightarrow> map_option (\<lambda>(out', prs''). (out @ out', prs'')) (plt_run prs' as))"

lemma plt_step_total:
  assumes "plt_inv prs"
  obtains out prs' where "plt_step prs a = Some (out, prs')" "plt_inv prs'"
proof (cases a)
  case (OpDedup r key)
  with assms that show thesis by (auto intro: DedupKey_inv)
next
  case (OpIgnore r ls)
  with assms that show thesis by (auto elim: IgnoreBlocks_spec[of prs r ls])
next
  case (OpSkip r n)
  with assms that show thesis by (auto simp: SkipFirstBlocks_def)
next
  case (OpFinish r)
  with assms that show thesis by (auto elim: FinishTracking_spec[of prs r])
next
  case (OpTraverse r l b)
  with assms that show thesis by (auto elim: plt_Record_spec[of prs r l b])
qed

lemma plt_run_total: "plt_inv prs \<Longrightarrow> \<exists>out prs'. plt_run prs as = Some (out, prs') \<and> plt_inv prs'"
proof (induction as arbitrary: prs)
  case Nil
  then show ?case by simp
next
  case (Cons a as)
  then show ?case by (elim plt_step_total[of prs a]) fastforce
qed

section \<open>A block goes out once per bucket\<close>

definition keeps :: "'r \<Rightarrow> ('r, 'l) plt_op \<Rightarrow> bool" where
  "keeps r a = (case a of OpDedup r' _ \<Rightarrow> r' \<noteq> r | OpFinish r' \<Rightarrow> r' \<noteq> r | _ \<Rightarrow> True)"

lemma bucket_present_SkipFirstBlocks [simp]:
  "bucket_present (SkipFirstBlocks prs r n) ref = bucket_present prs ref"
  "getLinkTracker (SkipFirstBlocks prs r n) r' = getLinkTracker prs r'"
  by (simp_all add: SkipFirstBlocks_def bucket_present_def)

lemma plt_step_keeps:
  assumes inv: "plt_inv prs" and step: "plt_step prs a = Some (out, prs')" and k: "keeps r a"
  shows "getLinkTracker prs' r = getLinkTracker prs r \<and>
    ((r, l) \<in># bucket_present prs (getLinkTracker prs r) \<longrightarrow>
     (r, l) \<in># bucket_present prs' (getLinkTracker prs' r))"
proof (cases a)
  case (OpDedup r' key)
  with step k show ?thesis
    by (auto simp: keeps_def getLinkTracker_DedupKey bucket_present_DedupKey)
next
  case (OpIgnore r' ls)
  with step show ?thesis by - (rule IgnoreBlocks_spec[OF inv, of r' ls], auto)
next
  case (OpSkip r' n)
  with step show ?thesis by auto
next
  case (OpFinish r')
  with k have "r \<noteq> r'" by (simp add: keeps_def)
  moreover obtain b where "FinishTracking prs r' = Some (b, prs')" using OpFinish step by auto
  ultimately show ?thesis
    using FinishTracking_other(1)[OF inv, of r' b prs' r]
      FinishTracking_other(2)[OF inv, of r' b prs' r l] by (metis count_greater_zero_iff)
next
  case (OpTraverse r' l' b)
  with step show ?thesis by - (rule plt_Record_spec[OF inv, of r' l' b], auto)
qed

lemma plt_step_sends:
  assumes "plt_inv prs" "plt_step prs a = Some (out, prs')" "(r, l, True) \<in> set out"
  shows "out = [(r, l, True)] \<and> (\<forall>r'. (r', l) \<notin># bucket_present prs (getLinkTracker prs r)) \<and>
    (r, l) \<in># bucket_present prs' (getLinkTracker prs' r)"
proof (cases a)
  case (OpTraverse r' l' b)
  with assms show ?thesis by - (rule plt_Record_spec[OF assms(1), of r' l' b], auto split: if_splits)
qed (use assms in auto)

lemma plt_run_split:
  assumes "plt_run prs (a # as) = Some (out, prs'')"
  obtains out1 out2 prs' where "plt_step prs a = Some (out1, prs')"
    "plt_run prs' as = Some (out2, prs'')" "out = out1 @ out2"
  using assms that by (auto split: option.splits)

lemma held_block_not_sent:
  assumes "plt_inv prs" "(r1, l) \<in># bucket_present prs (getLinkTracker prs r1)"
    "getLinkTracker prs r1 = getLinkTracker prs r2" "\<forall>a \<in> set as. keeps r1 a \<and> keeps r2 a"
    "plt_run prs as = Some (out, prs'')"
  shows "(r2, l, True) \<notin> set out"
  using assms
proof (induction as arbitrary: prs out)
  case Nil
  then show ?case by simp
next
  case (Cons a as)
  from Cons.prems(5) obtain out1 out2 prs' where
    step: "plt_step prs a = Some (out1, prs')" "plt_run prs' as = Some (out2, prs'')" "out = out1 @ out2"
    by (rule plt_run_split)
  have inv': "plt_inv prs'"
    using plt_step_total[OF Cons.prems(1), of a] step(1) by fastforce
  have "keeps r1 a" "keeps r2 a" using Cons.prems(4) by auto
  with plt_step_keeps[OF Cons.prems(1) step(1)] Cons.prems(2,3)
  have "(r1, l) \<in># bucket_present prs' (getLinkTracker prs' r1)"
    "getLinkTracker prs' r1 = getLinkTracker prs' r2" by metis+
  with Cons inv' step(2) have "(r2, l, True) \<notin> set out2" by simp
  moreover have "(r2, l, True) \<notin> set out1"
    using plt_step_sends[OF Cons.prems(1) step(1)] Cons.prems(2,3) by metis
  ultimately show ?case using step(3) by simp
qed

lemma sent_block_not_resent:
  assumes "plt_inv prs" "getLinkTracker prs r1 = getLinkTracker prs r2"
    "\<forall>a \<in> set as. keeps r1 a \<and> keeps r2 a" "plt_run prs as = Some (xs @ (r1, l, True) # ys, prs'')"
  shows "(r2, l, True) \<notin> set ys"
  using assms
proof (induction as arbitrary: prs xs)
  case Nil
  then show ?case by simp
next
  case (Cons a as)
  from Cons.prems(4) obtain out1 out2 prs' where
    step: "plt_step prs a = Some (out1, prs')" "plt_run prs' as = Some (out2, prs'')"
      "xs @ (r1, l, True) # ys = out1 @ out2"
    by (rule plt_run_split)
  have inv': "plt_inv prs'"
    using plt_step_total[OF Cons.prems(1), of a] step(1) by fastforce
  have k: "keeps r1 a" "keeps r2 a" using Cons.prems(3) by auto
  have same: "getLinkTracker prs' r1 = getLinkTracker prs' r2"
    using plt_step_keeps[OF Cons.prems(1) step(1) k(1)] plt_step_keeps[OF Cons.prems(1) step(1) k(2)]
      Cons.prems(2) by metis
  show ?case
  proof (cases "(r1, l, True) \<in> set out1 \<and> xs = []")
    case True
    then have "out1 = [(r1, l, True)]" "(r1, l) \<in># bucket_present prs' (getLinkTracker prs' r1)"
      using plt_step_sends[OF Cons.prems(1) step(1)] by auto
    with True step inv' same Cons.prems(3) show ?thesis
      using held_block_not_sent[OF inv' _ same _ step(2)] by auto
  next
    case False
    have "length out1 \<le> 1" using step(1) by (cases a) auto
    with False step(3) obtain xs' where "out2 = xs' @ (r1, l, True) # ys"
      by (cases out1; cases xs) auto
    with Cons inv' same step(2) show ?thesis by simp
  qed
qed

section \<open>Properties\<close>

text \<open>No sequence of operations on the trackers of a peer dereferences a missing tracker: every
  run from a fresh tracker returns, and ends in a state where each tracker's reference counts are
  the numbers of unfinished traversals.\<close>

theorem peer_tracker_run_safe:
  "\<exists>out prs. plt_run newTracker ops = Some (out, prs) \<and> plt_inv prs"
  by (rule plt_run_total) (rule plt_inv_newTracker)

text \<open>C19: The decision of \<^verbatim>\<open>RecordLinkTraversal\<close>: after any run, a traversed block is sent exactly
  when it is present, its index is beyond the blocks to skip, and no unfinished request of the
  same bucket has traversed the link with a block.\<close>

theorem record_link_traversal_decision:
  assumes "plt_run newTracker ops = Some (out, prs)"
  shows "\<exists>prs'. plt_RecordLinkTraversal prs r l hasBlock =
    Some ((hasBlock \<and> mgetd 0 (skipFirstBlocks prs) r < mgetd 0 (blockSentCount prs) r + 1 \<and>
           (\<forall>r'. (r', l) \<notin># bucket_present prs (getLinkTracker prs r)),
           mgetd 0 (blockSentCount prs) r + 1), prs')"
proof -
  have "plt_inv prs" using plt_run_total[OF plt_inv_newTracker, of ops] assms by auto
  then show ?thesis by (rule plt_Record_spec[of prs r l hasBlock]) blast
qed

text \<open>C7: A block is sent at most once to the requests that share a deduplication bucket: once a
  request has sent the block of a link, no request of the bucket sends it again while the first
  one is unfinished, whatever the other requests of the peer do.\<close>

theorem block_sent_once_per_bucket:
  assumes "plt_inv prs" and "getLinkTracker prs r1 = getLinkTracker prs r2"
    and "\<forall>a \<in> set ops. keeps r1 a \<and> keeps r2 a"
    and "plt_run prs ops = Some (out, prs')"
  shows "\<not> (\<exists>xs ys zs. out = xs @ (r1, l, True) # ys @ (r2, l, True) # zs)"
  using sent_block_not_resent[OF assms(1,2,3)] assms(4) by force

text \<open>Finishing a request reports whether all links it traversed had their blocks, and
  forgets the request: its key, its counters and its traversals are gone, while the traversals of
  the other requests stay as they were.\<close>

theorem finish_tracking_forgets_request:
  assumes "plt_inv prs"
  shows "\<exists>prs'. FinishTracking prs r =
      Some (\<forall>l. (r, l) \<notin> bucket_missing prs (getLinkTracker prs r), prs') \<and>
    (\<forall>l. (r, l) \<notin># bucket_present prs' (getLinkTracker prs r)) \<and>
    getLinkTracker prs' r = MainTracker \<and>
    mget (blockSentCount prs') r = None \<and> mget (skipFirstBlocks prs') r = None \<and>
    (\<forall>r' l. r' \<noteq> r \<longrightarrow> getLinkTracker prs' r' = getLinkTracker prs r' \<and>
       count (bucket_present prs' (getLinkTracker prs r')) (r', l) =
       count (bucket_present prs (getLinkTracker prs r')) (r', l))"
proof -
  obtain prs' where fin:
    "FinishTracking prs r = Some (\<forall>l. (r, l) \<notin> bucket_missing prs (getLinkTracker prs r), prs')"
    "\<And>r'. getLinkTracker prs' r' = (if r' = r then MainTracker else getLinkTracker prs r')"
    "\<And>l. (r, l) \<notin># bucket_present prs' (getLinkTracker prs r)"
    "mget (blockSentCount prs') r = None" "mget (skipFirstBlocks prs') r = None"
    using assms by (rule FinishTracking_spec[of prs r]) blast
  with FinishTracking_other(2)[OF assms fin(1)] show ?thesis by auto
qed

section \<open>Witnesses\<close>

text \<open>Two requests of one peer; the first skips a block. Then a third request with a key.\<close>

definition demo_ops :: "(string, string) plt_op list" where
  "demo_ops = [OpSkip ''a'' 1, OpTraverse ''a'' ''x'' True, OpTraverse ''a'' ''y'' True]"

definition demo_state :: "(string, string) peer_link_tracker" where
  "demo_state = snd (the (plt_run newTracker demo_ops))"

lemmas demo_defs = demo_ops_def demo_state_def plt_RecordLinkTraversal_def newTracker_def
  SkipFirstBlocks_def Let_def getLinkTracker_def bucket_present_def bucket_missing_def
  lt_RecordLinkTraversal_def lt_New_def lt_present_def BlockRefCount_def mgetd_def

lemma demo_run: "plt_run newTracker demo_ops = Some ([(''a'', ''x'', False), (''a'', ''y'', True)], demo_state)"
  by (simp add: demo_defs)

lemma demo_inv: "plt_inv demo_state"
  using plt_run_total[OF plt_inv_newTracker, of demo_ops] demo_run by auto

theorem record_link_traversal_decision_witness:
  "plt_run newTracker demo_ops = Some ([(''a'', ''x'', False), (''a'', ''y'', True)], demo_state) \<and>
   (\<exists>prs'. plt_RecordLinkTraversal demo_state ''b'' ''y'' True = Some ((False, 1), prs'))"
proof -
  have "(''a'', ''y'') \<in># bucket_present demo_state (getLinkTracker demo_state ''b'')"
    "mgetd 0 (blockSentCount demo_state) ''b'' = 0"
    by (simp_all add: demo_defs)
  then show ?thesis
    using record_link_traversal_decision[OF demo_run, of "''b''" "''y''" True] demo_run by auto
qed

theorem block_sent_once_per_bucket_witness:
  "\<exists>prs. plt_run newTracker [OpTraverse ''a'' ''y'' True, OpTraverse ''b'' ''y'' True] =
     Some ([(''a'', ''y'', True), (''b'', ''y'', False)], prs) \<and>
   \<not> (\<exists>xs ys zs. [(''a'', ''y'', True), (''b'', ''y'', False)] =
        xs @ (''a'', ''y'', True) # ys @ (''b'', ''y'', True) # zs)"
proof -
  have run: "plt_run newTracker [OpTraverse ''a'' ''y'' True, OpTraverse ''b'' ''y'' True] =
      Some ([(''a'', ''y'', True), (''b'', ''y'', False)], snd (the (plt_run newTracker
        [OpTraverse ''a'' ''y'' True, OpTraverse ''b'' ''y'' True])))"
    by (simp add: demo_defs)
  have "getLinkTracker newTracker ''a'' = getLinkTracker newTracker ''b''"
    by (simp add: getLinkTracker_def newTracker_def)
  from block_sent_once_per_bucket[OF plt_inv_newTracker this _ run, of "''y''"] run
  show ?thesis by (auto simp: keeps_def)
qed

theorem finish_tracking_forgets_request_witness:
  "plt_inv demo_state \<and> (\<exists>prs'. FinishTracking demo_state ''a'' = Some (True, prs') \<and>
     mget (blockSentCount prs') ''a'' = None)"
proof -
  have "bucket_missing demo_state (getLinkTracker demo_state ''a'') = {}"
    by (simp add: demo_defs lt_missing_def IsKnownMissingLink_def)
  then show ?thesis
    using demo_inv finish_tracking_forgets_request[OF demo_inv, of "''a''"] by auto
qed

end
