(* ===== verification/Allocator.thy ===== *)
theory Allocator
  imports GS_Prelude
begin

text \<open>
  \<^verbatim>\<open>allocator/allocator.go\<close>: the back-pressure allocator that bounds the block memory queued
  for all peers and for each peer.

  Byte counts are \<open>u64\<close> and wrap as in Go. A response channel (\<^verbatim>\<open>make(chan error, 1)\<close>) is
  a number; \<open>sent\<close> lists the values sent on channels, in order (\<open>None\<close> is \<^verbatim>\<open>nil\<close>). The
  priority queue is the third-party package \<^verbatim>\<open>go-ipfs-pq\<close>: its elements are the peers
  (it holds the same \<^verbatim>\<open>*peerStatus\<close> pointers as the map), and which element it reports as
  the head is the parameter \<open>peek\<close>, constrained by \<open>pq_peek_min\<close>. An operation that does not
  return, or reads a status that is not there, is \<open>None\<close>; the development shows that neither
  happens.
\<close>

section \<open>State and operations\<close>

datatype alloc_err = ErrPeerDeallocated | ErrNoAllocationsForPeer | ErrNoSuchPeer

record pending_allocation =
  pa_p :: peer_id
  pa_amount :: u64
  pa_response :: nat
  pa_allocIndex :: u64

record peer_status =
  ps_p :: peer_id
  ps_totalAllocated :: u64
  ps_pendingAllocations :: "pending_allocation list"

record allocator =
  maxAllowedAllocatedTotal :: u64
  maxAllowedAllocatedPerPeer :: u64
  totalAllocatedAllPeers :: u64
  nextAllocIndex :: u64
  peerStatuses :: "(peer_id, peer_status) gomap"
  peerStatusQueue :: "peer_id list"
  nextChan :: nat
  sent :: "(nat \<times> alloc_err option) list"

type_synonym peek_fn = "(peer_id \<Rightarrow> peer_id \<Rightarrow> bool) \<Rightarrow> peer_id list \<Rightarrow> peer_id"

definition NewAllocator :: "u64 \<Rightarrow> u64 \<Rightarrow> allocator" where
  "NewAllocator maxTotal maxPerPeer =
     \<lparr>maxAllowedAllocatedTotal = maxTotal, maxAllowedAllocatedPerPeer = maxPerPeer,
      totalAllocatedAllPeers = 0, nextAllocIndex = 0, peerStatuses = [], peerStatusQueue = [],
      nextChan = 0, sent = []\<rparr>"

definition AllocatedForPeer :: "allocator \<Rightarrow> peer_id \<Rightarrow> u64" where
  "AllocatedForPeer a p =
     (case mget (peerStatuses a) p of None \<Rightarrow> 0 | Some status \<Rightarrow> ps_totalAllocated status)"

definition newPeerStatus :: "peer_id \<Rightarrow> peer_status" where
  "newPeerStatus p = \<lparr>ps_p = p, ps_totalAllocated = 0, ps_pendingAllocations = []\<rparr>"

definition AllocateBlockMemory :: "allocator \<Rightarrow> peer_id \<Rightarrow> u64 \<Rightarrow> nat \<times> allocator" where
  "AllocateBlockMemory a p amount =
     (let responseChan = nextChan a;
          a0 = a\<lparr>nextChan := Suc responseChan\<rparr>;
          (status, a1) =
            (case mget (peerStatuses a0) p of
               Some status \<Rightarrow> (status, a0)
             | None \<Rightarrow>
                 (newPeerStatus p,
                  a0\<lparr>peerStatusQueue := peerStatusQueue a0 @ [p],
                     peerStatuses := mput p (newPeerStatus p) (peerStatuses a0)\<rparr>))
      in if totalAllocatedAllPeers a1 + amount \<le> maxAllowedAllocatedTotal a1 \<and>
            ps_totalAllocated status + amount \<le> maxAllowedAllocatedPerPeer a1 \<and>
            ps_pendingAllocations status = []
         then (responseChan,
               a1\<lparr>totalAllocatedAllPeers := totalAllocatedAllPeers a1 + amount,
                  peerStatuses :=
                    mput p (status\<lparr>ps_totalAllocated := ps_totalAllocated status + amount\<rparr>)
                      (peerStatuses a1),
                  sent := sent a1 @ [(responseChan, None)]\<rparr>)
         else (responseChan,
               a1\<lparr>nextAllocIndex := nextAllocIndex a1 + 1,
                  peerStatuses :=
                    mput p (status\<lparr>ps_pendingAllocations := ps_pendingAllocations status @
                        [\<lparr>pa_p = p, pa_amount = amount, pa_response = responseChan,
                          pa_allocIndex = nextAllocIndex a1\<rparr>]\<rparr>)
                      (peerStatuses a1)\<rparr>))"

definition makePeerStatusCompare :: "u64 \<Rightarrow> peer_status \<Rightarrow> peer_status \<Rightarrow> bool" where
  "makePeerStatusCompare maxPerPeer pa pb =
     (case ps_pendingAllocations pa of
        [] \<Rightarrow>
          (case ps_pendingAllocations pb of
             [] \<Rightarrow> ps_totalAllocated pa < ps_totalAllocated pb
           | _ # _ \<Rightarrow> False)
      | a # _ \<Rightarrow>
          (case ps_pendingAllocations pb of
             [] \<Rightarrow> True
           | b # _ \<Rightarrow>
               if ps_totalAllocated pa + pa_amount a > maxPerPeer then False
               else if ps_totalAllocated pb + pa_amount b > maxPerPeer then True
               else if pa_allocIndex a < pa_allocIndex b then True
               else False))"

text \<open>The comparator as the queue calls it: on the elements' current statuses.\<close>

definition statusOf :: "allocator \<Rightarrow> peer_id \<Rightarrow> peer_status" where
  "statusOf a p = (case mget (peerStatuses a) p of None \<Rightarrow> newPeerStatus p | Some st \<Rightarrow> st)"

definition queueLess :: "allocator \<Rightarrow> peer_id \<Rightarrow> peer_id \<Rightarrow> bool" where
  "queueLess a p q =
     makePeerStatusCompare (maxAllowedAllocatedPerPeer a) (statusOf a p) (statusOf a q)"

text \<open>\<^verbatim>\<open>false\<close> of the Go function is \<open>None\<close>: nothing was changed.\<close>

definition processNextPendingAllocationForPeer ::
  "allocator \<Rightarrow> peer_id \<Rightarrow> peer_status \<Rightarrow> allocator option" where
  "processNextPendingAllocationForPeer a p nextPeer =
     (case ps_pendingAllocations nextPeer of
        [] \<Rightarrow> None
      | pending # rest \<Rightarrow>
          if totalAllocatedAllPeers a + pa_amount pending > maxAllowedAllocatedTotal a then None
          else if ps_totalAllocated nextPeer + pa_amount pending > maxAllowedAllocatedPerPeer a
          then None
          else Some (a\<lparr>totalAllocatedAllPeers := totalAllocatedAllPeers a + pa_amount pending,
                       peerStatuses :=
                         mput p (nextPeer\<lparr>ps_totalAllocated :=
                              ps_totalAllocated nextPeer + pa_amount pending,
                            ps_pendingAllocations := rest\<rparr>) (peerStatuses a),
                       sent := sent a @ [(pa_response pending, None)]\<rparr>))"

partial_function (option) processPendingAllocations :: "peek_fn \<Rightarrow> allocator \<Rightarrow> allocator option" where
  "processPendingAllocations peek a =
     (if peerStatusQueue a = [] then Some a
      else
        let nextPeer = peek (queueLess a) (peerStatusQueue a)
        in case mget (peerStatuses a) nextPeer of
             None \<Rightarrow> None
           | Some status \<Rightarrow>
               if ps_pendingAllocations status \<noteq> [] then
                 (case processNextPendingAllocationForPeer a nextPeer status of
                    None \<Rightarrow> Some a
                  | Some a' \<Rightarrow> processPendingAllocations peek a')
               else if ps_totalAllocated status > 0 then Some a
               else processPendingAllocations peek
                      (a\<lparr>peerStatusQueue := removeAll nextPeer (peerStatusQueue a),
                         peerStatuses := mdel (ps_p status) (peerStatuses a)\<rparr>))"

declare processPendingAllocations.simps [code]

definition ReleaseBlockMemory ::
  "peek_fn \<Rightarrow> allocator \<Rightarrow> peer_id \<Rightarrow> u64 \<Rightarrow> (alloc_err + allocator) option" where
  "ReleaseBlockMemory peek a p amount =
     (case mget (peerStatuses a) p of
        None \<Rightarrow> Some (Inl ErrNoAllocationsForPeer)
      | Some status \<Rightarrow>
          let (status', amount') =
                (if ps_totalAllocated status \<ge> amount
                 then (status\<lparr>ps_totalAllocated := ps_totalAllocated status - amount\<rparr>, amount)
                 else (status\<lparr>ps_totalAllocated := 0\<rparr>, ps_totalAllocated status));
              total' = (if totalAllocatedAllPeers a \<ge> amount'
                        then totalAllocatedAllPeers a - amount' else 0)
          in map_option Inr (processPendingAllocations peek
               (a\<lparr>peerStatuses := mput p status' (peerStatuses a),
                  totalAllocatedAllPeers := total'\<rparr>)))"

definition ReleasePeerMemory :: "peek_fn \<Rightarrow> allocator \<Rightarrow> peer_id \<Rightarrow> (alloc_err + allocator) option" where
  "ReleasePeerMemory peek a p =
     (case mget (peerStatuses a) p of
        None \<Rightarrow> Some (Inl ErrNoSuchPeer)
      | Some status \<Rightarrow>
          let total' = (if totalAllocatedAllPeers a \<ge> ps_totalAllocated status
                        then totalAllocatedAllPeers a - ps_totalAllocated status else 0)
          in map_option Inr (processPendingAllocations peek
               (a\<lparr>peerStatusQueue := removeAll p (peerStatusQueue a),
                  peerStatuses := mdel p (peerStatuses a),
                  sent := sent a @ map (\<lambda>pa. (pa_response pa, Some ErrPeerDeallocated))
                            (ps_pendingAllocations status),
                  totalAllocatedAllPeers := total'\<rparr>)))"

record response_stats =
  rs_MaxAllowedAllocatedTotal :: u64
  rs_MaxAllowedAllocatedPerPeer :: u64
  rs_TotalAllocatedAllPeers :: u64
  rs_TotalPendingAllocations :: u64
  rs_NumPeersWithPendingAllocations :: u64

definition Stats :: "allocator \<Rightarrow> response_stats" where
  "Stats a =
     (let pendingOf = (\<lambda>status. foldl (\<lambda>n pa. n + pa_amount pa) 0 (ps_pendingAllocations status));
          (num, tot) =
            foldl (\<lambda>(num, tot) status.
                     if pendingOf status > 0 then (num + 1, tot + pendingOf status) else (num, tot))
              (0, 0) (mvals (peerStatuses a))
      in \<lparr>rs_MaxAllowedAllocatedTotal = maxAllowedAllocatedTotal a,
          rs_MaxAllowedAllocatedPerPeer = maxAllowedAllocatedPerPeer a,
          rs_TotalAllocatedAllPeers = totalAllocatedAllPeers a,
          rs_TotalPendingAllocations = tot,
          rs_NumPeersWithPendingAllocations = num\<rparr>)"


section \<open>The priority queue's contract\<close>

text \<open>
  What \<^verbatim>\<open>go-ipfs-pq\<close> documents: for a comparator that orders the elements, \<^verbatim>\<open>Peek\<close>
  returns an element of the queue that no other precedes.
\<close>

definition strict_weak_order :: "('a \<Rightarrow> 'a \<Rightarrow> bool) \<Rightarrow> bool" where
  "strict_weak_order before \<longleftrightarrow>
     (\<forall>x. \<not> before x x) \<and> (\<forall>x y z. before x y \<longrightarrow> before y z \<longrightarrow> before x z) \<and>
     (\<forall>x y z. before x z \<longrightarrow> before x y \<or> before y z)"

definition pq_peek_min :: "peek_fn \<Rightarrow> bool" where
  "pq_peek_min peek \<longleftrightarrow>
     (\<forall>before q. strict_weak_order before \<longrightarrow> q \<noteq> [] \<longrightarrow>
        peek before q \<in> set q \<and> (\<forall>x \<in> set q. \<not> before x (peek before q)))"

text \<open>The first element that nothing in the queue precedes: one queue that meets the contract.\<close>

fun first_min :: "peek_fn" where
  "first_min before [] = []"
| "first_min before [x] = x"
| "first_min before (x # y # ys) =
     (let m = first_min before (y # ys) in if before m x then m else x)"

lemma first_min_contract: "pq_peek_min first_min"
proof -
  have "first_min before q \<in> set q \<and> (\<forall>x \<in> set q. \<not> before x (first_min before q))"
    if "strict_weak_order before" "q \<noteq> []" for before and q :: "peer_id list"
    using that
  proof (induction before q rule: first_min.induct)
    case (3 before x y ys)
    define m where "m = first_min before (y # ys)"
    from 3(2) have w: "\<And>x. \<not> before x x" "\<And>x y z. before x y \<Longrightarrow> before y z \<Longrightarrow> before x z"
      "\<And>x y z. before x z \<Longrightarrow> before x y \<or> before y z"
      unfolding strict_weak_order_def by blast+
    from 3(1)[OF 3(2)] have m: "m \<in> set (y # ys)" "\<And>z. z \<in> set (y # ys) \<Longrightarrow> \<not> before z m"
      unfolding m_def by blast+
    show ?case
    proof (cases "before m x")
      case True
      then have "\<not> before x m" using w(1,2) by blast
      with True m show ?thesis by (auto simp: Let_def simp flip: m_def)
    next
      case False
      then have "\<not> before z x" if "z \<in> set (y # ys)" for z
        using m(2)[OF that] w(3) by blast
      with False w(1) show ?thesis by (auto simp: Let_def simp flip: m_def)
    qed
  qed (auto simp: strict_weak_order_def)
  then show ?thesis unfolding pq_peek_min_def by blast
qed

text \<open>The comparator ranks a status: an allocation that fits its peer's limit by age, then the
  peers whose first allocation does not fit, then those with nothing pending by what they hold.\<close>

definition status_rank :: "u64 \<Rightarrow> peer_status \<Rightarrow> nat \<times> nat" where
  "status_rank maxPerPeer st =
     (case ps_pendingAllocations st of
        [] \<Rightarrow> (2, unat (ps_totalAllocated st))
      | a # _ \<Rightarrow> if ps_totalAllocated st + pa_amount a > maxPerPeer then (1, 0)
                 else (0, unat (pa_allocIndex a)))"

lemma compare_rank:
  "makePeerStatusCompare m x y \<longleftrightarrow>
     fst (status_rank m x) < fst (status_rank m y) \<or>
     fst (status_rank m x) = fst (status_rank m y) \<and> snd (status_rank m x) < snd (status_rank m y)"
  by (auto simp: makePeerStatusCompare_def status_rank_def word_less_nat_alt split: list.splits)

lemma queueLess_order: "strict_weak_order (queueLess a)"
  unfolding strict_weak_order_def queueLess_def compare_rank by auto

lemma peek_queueLess:
  assumes "pq_peek_min peek" "peerStatusQueue a \<noteq> []"
  shows "peek (queueLess a) (peerStatusQueue a) \<in> set (peerStatusQueue a)"
    and "\<And>q. q \<in> set (peerStatusQueue a) \<Longrightarrow>
           \<not> queueLess a q (peek (queueLess a) (peerStatusQueue a))"
  using assms queueLess_order unfolding pq_peek_min_def by blast+

section \<open>Invariant\<close>

text \<open>An amount that does not make the limit checks wrap around.\<close>

definition amount_ok :: "u64 \<Rightarrow> u64 \<Rightarrow> u64 \<Rightarrow> bool" where
  "amount_ok maxTotal maxPerPeer amount \<longleftrightarrow>
     unat maxTotal + unat amount < 2 ^ 64 \<and> unat maxPerPeer + unat amount < 2 ^ 64"

definition status_ok :: "u64 \<Rightarrow> u64 \<Rightarrow> peer_id \<Rightarrow> peer_status \<Rightarrow> bool" where
  "status_ok maxTotal maxPerPeer p st \<longleftrightarrow>
     ps_p st = p \<and> ps_totalAllocated st \<le> maxPerPeer \<and>
     (\<forall>pa \<in> set (ps_pendingAllocations st). amount_ok maxTotal maxPerPeer (pa_amount pa))"

definition total_of :: "(peer_id, peer_status) gomap \<Rightarrow> nat" where
  "total_of m = msum (\<lambda>st. unat (ps_totalAllocated st)) m"

text \<open>Where every response channel handed out is: answered, or waiting in a peer's list.\<close>

definition pending_chans :: "(peer_id, peer_status) gomap \<Rightarrow> nat multiset" where
  "pending_chans m = msum (\<lambda>st. mset (map pa_response (ps_pendingAllocations st))) m"

definition alloc_chans :: "allocator \<Rightarrow> nat multiset" where
  "alloc_chans a = mset (map fst (sent a)) + pending_chans (peerStatuses a)"

definition issued :: "nat \<Rightarrow> nat multiset" where
  "issued n = mset [0..<n]"

lemma issued_Suc [simp]: "issued (Suc n) = add_mset n (issued n)"
  by (simp add: issued_def del: mset_upt flip: mset_append) (simp add: issued_def del: mset_upt)

definition alloc_inv :: "u64 \<Rightarrow> u64 \<Rightarrow> allocator \<Rightarrow> bool" where
  "alloc_inv mt mp a \<longleftrightarrow>
     maxAllowedAllocatedTotal a = mt \<and> maxAllowedAllocatedPerPeer a = mp \<and>
     mwf (peerStatuses a) \<and>
     distinct (peerStatusQueue a) \<and> set (peerStatusQueue a) = dom (mget (peerStatuses a)) \<and>
     (\<forall>p st. mget (peerStatuses a) p = Some st \<longrightarrow> status_ok mt mp p st) \<and>
     unat (totalAllocatedAllPeers a) = total_of (peerStatuses a) \<and>
     totalAllocatedAllPeers a \<le> mt \<and>
     alloc_chans a = issued (nextChan a)"

definition alloc_measure :: "allocator \<Rightarrow> nat" where
  "alloc_measure a =
     length (peerStatusQueue a) + msum (\<lambda>st. length (ps_pendingAllocations st)) (peerStatuses a)"

lemma alloc_inv_status:
  "alloc_inv mt mp a \<Longrightarrow> mget (peerStatuses a) p = Some st \<Longrightarrow> status_ok mt mp p st"
  by (simp add: alloc_inv_def)

lemma alloc_inv_wf: "alloc_inv mt mp a \<Longrightarrow> mwf (peerStatuses a)"
  by (simp add: alloc_inv_def)

lemma new_allocator_inv: "alloc_inv mt mp (NewAllocator mt mp)"
  by (simp add: alloc_inv_def NewAllocator_def total_of_def alloc_chans_def pending_chans_def
      issued_def)

text \<open>Replacing one peer's status: how the two sums of the invariant move.\<close>

lemma total_of_mput:
  "mwf m \<Longrightarrow> mget m p = Some st \<Longrightarrow>
     total_of (mput p st' m) + unat (ps_totalAllocated st) = total_of m + unat (ps_totalAllocated st')"
  by (simp add: total_of_def msum_mput msum_lookup[of m p st])

lemma total_of_mdel:
  "mwf m \<Longrightarrow> mget m p = Some st \<Longrightarrow>
     total_of m = unat (ps_totalAllocated st) + total_of (mdel p m)"
  by (simp add: total_of_def msum_lookup[of m p st])

lemma pending_chans_mput:
  "mwf m \<Longrightarrow> mget m p = Some st \<Longrightarrow>
     pending_chans (mput p st' m) + mset (map pa_response (ps_pendingAllocations st)) =
     pending_chans m + mset (map pa_response (ps_pendingAllocations st'))"
  by (simp add: pending_chans_def msum_mput msum_lookup[of m p st])

lemma pending_chans_mdel:
  "mwf m \<Longrightarrow> mget m p = Some st \<Longrightarrow>
     pending_chans m = mset (map pa_response (ps_pendingAllocations st)) + pending_chans (mdel p m)"
  by (simp add: pending_chans_def msum_lookup[of m p st])

lemma total_of_member:
  "mwf m \<Longrightarrow> mget m p = Some st \<Longrightarrow> unat (ps_totalAllocated st) \<le> total_of m"
  by (simp add: total_of_def msum_member_le[of m p st "\<lambda>st. unat (ps_totalAllocated st)"])

section \<open>Every operation keeps the invariant\<close>

lemma amount_ok_no_wrap:
  "amount_ok mt mp amount \<Longrightarrow> t \<le> mt \<Longrightarrow> unat (t + amount) = unat t + unat amount"
  "amount_ok mt mp amount \<Longrightarrow> t \<le> mp \<Longrightarrow> unat (t + amount) = unat t + unat amount"
  by (rule unat_plus_no_wrap; simp add: amount_ok_def word_le_nat_alt)+

text \<open>Adding \<open>amount\<close> to a peer within both limits.\<close>

lemma grant_inv:
  assumes inv: "alloc_inv mt mp a" and st: "mget (peerStatuses a) p = Some st"
    and ok: "amount_ok mt mp amount"
    and fits: "totalAllocatedAllPeers a + amount \<le> mt" "ps_totalAllocated st + amount \<le> mp"
    and pend: "pend = ps_pendingAllocations st \<and> nc = Suc (nextChan a) \<and> c = nextChan a \<or>
               (\<exists>pa. ps_pendingAllocations st = pa # pend \<and> c = pa_response pa) \<and> nc = nextChan a"
  shows "alloc_inv mt mp
           (a\<lparr>totalAllocatedAllPeers := totalAllocatedAllPeers a + amount,
              peerStatuses := mput p (st\<lparr>ps_totalAllocated := ps_totalAllocated st + amount,
                                         ps_pendingAllocations := pend\<rparr>) (peerStatuses a),
              nextChan := nc,
              sent := sent a @ [(c, None)]\<rparr>)" (is "alloc_inv mt mp ?a'")
proof -
  let ?st' = "st\<lparr>ps_totalAllocated := ps_totalAllocated st + amount, ps_pendingAllocations := pend\<rparr>"
  have sok: "status_ok mt mp p st" using inv st by (rule alloc_inv_status)
  have wf: "mwf (peerStatuses a)" using inv by (rule alloc_inv_wf)
  have t: "unat (totalAllocatedAllPeers a) = total_of (peerStatuses a)"
    "totalAllocatedAllPeers a \<le> mt" using inv by (simp_all add: alloc_inv_def)
  have "set pend \<subseteq> set (ps_pendingAllocations st)" using pend by auto
  then have sok': "status_ok mt mp p ?st'"
    using sok fits(2) unfolding status_ok_def by auto
  have "total_of (mput p ?st' (peerStatuses a)) = total_of (peerStatuses a) + unat amount"
    using total_of_mput[OF wf st, of ?st'] amount_ok_no_wrap(2)[OF ok] sok
    by (simp add: status_ok_def)
  then have tot: "unat (totalAllocatedAllPeers a + amount) = total_of (mput p ?st' (peerStatuses a))"
    using amount_ok_no_wrap(1)[OF ok t(2)] t(1) by simp
  have ch: "alloc_chans a = issued (nextChan a)" using inv by (simp add: alloc_inv_def)
  have "alloc_chans ?a' = issued nc"
    using pend
  proof (elim disjE exE conjE)
    fix pa assume pa: "ps_pendingAllocations st = pa # pend" "c = pa_response pa" "nc = nextChan a"
    have "pending_chans (peerStatuses a) = add_mset c (pending_chans (mput p ?st' (peerStatuses a)))"
      using pending_chans_mput[OF wf st, of ?st'] pa by simp
    then show ?thesis using ch pa by (simp add: alloc_chans_def)
  qed (use pending_chans_mput[OF wf st, of ?st'] ch in \<open>auto simp: alloc_chans_def\<close>)
  then show ?thesis
    using inv sok' tot fits(1) st unfolding alloc_inv_def by (auto simp: insert_absorb domI)
qed

lemma new_peer_inv:
  assumes inv: "alloc_inv mt mp a" and none: "mget (peerStatuses a) p = None"
  shows "alloc_inv mt mp (a\<lparr>peerStatusQueue := peerStatusQueue a @ [p],
                            peerStatuses := mput p (newPeerStatus p) (peerStatuses a)\<rparr>)"
proof -
  have wf: "mwf (peerStatuses a)" using inv by (rule alloc_inv_wf)
  have eq: "total_of (mput p (newPeerStatus p) (peerStatuses a)) = total_of (peerStatuses a)"
    "pending_chans (mput p (newPeerStatus p) (peerStatuses a)) = pending_chans (peerStatuses a)"
    using wf none
    by (simp_all add: total_of_def pending_chans_def msum_mput msum_mdel_absent newPeerStatus_def)
  have "p \<notin> set (peerStatusQueue a)" using inv none by (auto simp: alloc_inv_def)
  moreover have "status_ok mt mp p (newPeerStatus p)" by (simp add: status_ok_def newPeerStatus_def)
  ultimately show ?thesis using inv eq by (auto simp: alloc_inv_def alloc_chans_def)
qed

lemma enqueue_inv:
  assumes inv: "alloc_inv mt mp a" and st: "mget (peerStatuses a) p = Some st"
    and ok: "amount_ok mt mp (pa_amount pa)" and c: "pa_response pa = nextChan a"
  shows "alloc_inv mt mp
           (a\<lparr>nextChan := Suc (nextChan a), nextAllocIndex := i,
              peerStatuses := mput p (st\<lparr>ps_pendingAllocations := ps_pendingAllocations st @ [pa]\<rparr>)
                (peerStatuses a)\<rparr>)"
proof -
  let ?st' = "st\<lparr>ps_pendingAllocations := ps_pendingAllocations st @ [pa]\<rparr>"
  have sok: "status_ok mt mp p ?st'"
    using alloc_inv_status[OF inv st] ok by (auto simp: status_ok_def)
  have wf: "mwf (peerStatuses a)" using inv by (rule alloc_inv_wf)
  have "total_of (mput p ?st' (peerStatuses a)) = total_of (peerStatuses a)"
    using total_of_mput[OF wf st, of ?st'] by simp
  moreover have "pending_chans (mput p ?st' (peerStatuses a)) =
      add_mset (nextChan a) (pending_chans (peerStatuses a))"
    using pending_chans_mput[OF wf st, of ?st'] c by simp
  ultimately show ?thesis
    using inv sok st by (auto simp: alloc_inv_def alloc_chans_def insert_absorb domI)
qed

text \<open>The two branches of \<open>AllocateBlockMemory\<close>.\<close>

lemma statusOf_lookup: "mget (peerStatuses a) p = Some st \<Longrightarrow> statusOf a p = st"
  by (simp add: statusOf_def)

lemma status_same_pending:
  "ps_pendingAllocations st = q \<Longrightarrow>
     st\<lparr>ps_totalAllocated := t, ps_pendingAllocations := q\<rparr> = st\<lparr>ps_totalAllocated := t\<rparr>"
  by (cases st) simp

lemma allocate_inv [gs_inv]:
  assumes inv: "alloc_inv mt mp a" and ok: "amount_ok mt mp amount"
    and res: "AllocateBlockMemory a p amount = (c, a')"
  shows "alloc_inv mt mp a'" and "c = nextChan a" and "nextChan a' = Suc c"
proof -
  define b where "b = (case mget (peerStatuses a) p of
      Some st \<Rightarrow> a
    | None \<Rightarrow> a\<lparr>peerStatusQueue := peerStatusQueue a @ [p],
               peerStatuses := mput p (newPeerStatus p) (peerStatuses a)\<rparr>)"
  define st where "st = statusOf a p"
  have b: "alloc_inv mt mp b" "mget (peerStatuses b) p = Some st" "nextChan b = nextChan a"
    "maxAllowedAllocatedTotal b = mt" "maxAllowedAllocatedPerPeer b = mp"
    using inv new_peer_inv[OF inv]
    by (auto simp: b_def st_def statusOf_def newPeerStatus_def alloc_inv_def split: option.splits)
  define pa where "pa = \<lparr>pa_p = p, pa_amount = amount, pa_response = nextChan b,
      pa_allocIndex = nextAllocIndex b\<rparr>"
  have split: "AllocateBlockMemory a p amount =
      (nextChan b,
       if totalAllocatedAllPeers b + amount \<le> mt \<and> ps_totalAllocated st + amount \<le> mp \<and>
          ps_pendingAllocations st = []
       then b\<lparr>totalAllocatedAllPeers := totalAllocatedAllPeers b + amount,
              peerStatuses := mput p (st\<lparr>ps_totalAllocated := ps_totalAllocated st + amount,
                                         ps_pendingAllocations := ps_pendingAllocations st\<rparr>)
                (peerStatuses b),
              nextChan := Suc (nextChan b),
              sent := sent b @ [(nextChan b, None)]\<rparr>
       else b\<lparr>nextChan := Suc (nextChan b), nextAllocIndex := nextAllocIndex b + 1,
              peerStatuses := mput p (st\<lparr>ps_pendingAllocations := ps_pendingAllocations st @ [pa]\<rparr>)
                (peerStatuses b)\<rparr>)"
    using b(4,5)
    by (cases "mget (peerStatuses a) p"; cases a)
      (auto simp: AllocateBlockMemory_def b_def st_def statusOf_def pa_def Let_def newPeerStatus_def
        status_same_pending)
  show "alloc_inv mt mp a'"
    using res grant_inv[OF b(1,2) ok, of "ps_pendingAllocations st" "Suc (nextChan b)" "nextChan b"]
      enqueue_inv[OF b(1,2), of pa "nextAllocIndex b + 1"] ok
    unfolding split by (auto simp: pa_def status_same_pending split: if_splits)
  show "c = nextChan a" and "nextChan a' = Suc c"
    using res b(3) unfolding split by auto
qed

text \<open>One turn of \<open>processPendingAllocations\<close>: an allocation granted, or an idle peer dropped.\<close>

lemma process_next_inv:
  assumes inv: "alloc_inv mt mp a" and st: "mget (peerStatuses a) p = Some st"
    and res: "processNextPendingAllocationForPeer a p st = Some a'"
  shows "alloc_inv mt mp a'" and "alloc_measure a' < alloc_measure a"
proof -
  obtain pa rest where pend: "ps_pendingAllocations st = pa # rest"
    using res by (auto simp: processNextPendingAllocationForPeer_def split: list.splits)
  have lim: "maxAllowedAllocatedTotal a = mt" "maxAllowedAllocatedPerPeer a = mp"
    using inv by (simp_all add: alloc_inv_def)
  have a': "totalAllocatedAllPeers a + pa_amount pa \<le> mt"
    "ps_totalAllocated st + pa_amount pa \<le> mp"
    "a' = a\<lparr>totalAllocatedAllPeers := totalAllocatedAllPeers a + pa_amount pa,
            peerStatuses := mput p (st\<lparr>ps_totalAllocated := ps_totalAllocated st + pa_amount pa,
                                       ps_pendingAllocations := rest\<rparr>) (peerStatuses a),
            nextChan := nextChan a,
            sent := sent a @ [(pa_response pa, None)]\<rparr>"
    using res pend lim
    by (auto simp: processNextPendingAllocationForPeer_def not_less split: if_splits)
  have ok: "amount_ok mt mp (pa_amount pa)"
    using alloc_inv_status[OF inv st] pend by (simp add: status_ok_def)
  show "alloc_inv mt mp a'"
    unfolding a'(3) using grant_inv[OF inv st ok a'(1,2)] pend by blast
  show "alloc_measure a' < alloc_measure a"
    using alloc_inv_wf[OF inv] st pend
    by (simp add: a'(3) alloc_measure_def msum_mput msum_lookup[of _ p st])
qed

lemma drop_peer_inv:
  assumes inv: "alloc_inv mt mp a" and st: "mget (peerStatuses a) p = Some st"
    and err: "sent' = sent a @ map (\<lambda>pa. (pa_response pa, e)) (ps_pendingAllocations st)"
  shows "alloc_inv mt mp (a\<lparr>peerStatusQueue := removeAll p (peerStatusQueue a),
                            peerStatuses := mdel p (peerStatuses a),
                            sent := sent',
                            totalAllocatedAllPeers :=
                              totalAllocatedAllPeers a - ps_totalAllocated st\<rparr>)"
    and "ps_totalAllocated st \<le> totalAllocatedAllPeers a"
    and "p \<in> set (peerStatusQueue a)"
proof -
  have wf: "mwf (peerStatuses a)" using inv by (rule alloc_inv_wf)
  have t: "unat (totalAllocatedAllPeers a) = total_of (peerStatuses a)"
    "totalAllocatedAllPeers a \<le> mt" using inv by (simp_all add: alloc_inv_def)
  show le: "ps_totalAllocated st \<le> totalAllocatedAllPeers a"
    using total_of_member[OF wf st] t by (simp add: word_le_nat_alt)
  have tot: "unat (totalAllocatedAllPeers a - ps_totalAllocated st) = total_of (mdel p (peerStatuses a))"
    using total_of_mdel[OF wf st] t(1) by (simp add: unat_minus_le[OF le])
  have "totalAllocatedAllPeers a - ps_totalAllocated st \<le> mt"
    using t(2) unat_minus_le[OF le] by (simp add: word_le_nat_alt)
  moreover have "mset (map fst sent') + pending_chans (mdel p (peerStatuses a)) = alloc_chans a"
    by (simp add: err alloc_chans_def pending_chans_mdel[OF wf st] comp_def multiset.map_comp)
  ultimately show "alloc_inv mt mp (a\<lparr>peerStatusQueue := removeAll p (peerStatusQueue a),
                            peerStatuses := mdel p (peerStatuses a), sent := sent',
                            totalAllocatedAllPeers :=
                              totalAllocatedAllPeers a - ps_totalAllocated st\<rparr>)"
    using inv tot by (auto simp: alloc_inv_def alloc_chans_def distinct_removeAll)
  show "p \<in> set (peerStatusQueue a)" using inv st by (auto simp: alloc_inv_def)
qed

section \<open>The loop returns, and what holds then\<close>

text \<open>The state in which the loop stops: its head cannot be served.\<close>

definition settled :: "allocator \<Rightarrow> bool" where
  "settled a \<longleftrightarrow>
     (\<forall>p st. mget (peerStatuses a) p = Some st \<longrightarrow>
        (case ps_pendingAllocations st of
           [] \<Rightarrow> ps_totalAllocated st > 0 \<or>
                 (\<exists>q stq. mget (peerStatuses a) q = Some stq \<and> ps_pendingAllocations stq \<noteq> [])
         | pa # _ \<Rightarrow>
             ps_totalAllocated st + pa_amount pa > maxAllowedAllocatedPerPeer a \<or>
             (\<exists>q stq pb rest. mget (peerStatuses a) q = Some stq \<and>
                ps_pendingAllocations stq = pb # rest \<and> pa_allocIndex pb \<le> pa_allocIndex pa \<and>
                ps_totalAllocated stq + pa_amount pb \<le> maxAllowedAllocatedPerPeer a \<and>
                totalAllocatedAllPeers a + pa_amount pb > maxAllowedAllocatedTotal a)))"

lemma settled_head:
  assumes dom: "set (peerStatusQueue a) = dom (mget (peerStatuses a))"
    and head: "mget (peerStatuses a) p = Some st"
    and least: "\<And>q. q \<in> set (peerStatusQueue a) \<Longrightarrow> \<not> queueLess a q p"
    and stuck: "if ps_pendingAllocations st \<noteq> []
                then processNextPendingAllocationForPeer a p st = None
                else ps_totalAllocated st > 0"
  shows "settled a"
  unfolding settled_def
proof (intro allI impI)
  fix q stq assume q: "mget (peerStatuses a) q = Some stq"
  have nless: "\<not> makePeerStatusCompare (maxAllowedAllocatedPerPeer a) stq st"
    using least[of q] q head dom unfolding queueLess_def by (auto simp: statusOf_lookup)
  show "case ps_pendingAllocations stq of
           [] \<Rightarrow> ps_totalAllocated stq > 0 \<or>
                 (\<exists>q stq. mget (peerStatuses a) q = Some stq \<and> ps_pendingAllocations stq \<noteq> [])
         | pa # _ \<Rightarrow>
             ps_totalAllocated stq + pa_amount pa > maxAllowedAllocatedPerPeer a \<or>
             (\<exists>q stq pb rest. mget (peerStatuses a) q = Some stq \<and>
                ps_pendingAllocations stq = pb # rest \<and> pa_allocIndex pb \<le> pa_allocIndex pa \<and>
                ps_totalAllocated stq + pa_amount pb \<le> maxAllowedAllocatedPerPeer a \<and>
                totalAllocatedAllPeers a + pa_amount pb > maxAllowedAllocatedTotal a)"
  proof (cases "ps_pendingAllocations stq")
    case Nil
    show ?thesis
    proof (cases "ps_pendingAllocations st")
      case Nil' : Nil
      with nless stuck Nil show ?thesis
        by (auto simp: makePeerStatusCompare_def not_less)
    next
      case (Cons pb rest)
      with Nil head show ?thesis by fastforce
    qed
  next
    case (Cons pa rest)
    then obtain pb rest' where pb: "ps_pendingAllocations st = pb # rest'"
      using nless by (cases "ps_pendingAllocations st") (auto simp: makePeerStatusCompare_def)
    with Cons nless stuck head show ?thesis
      by (auto simp: makePeerStatusCompare_def processNextPendingAllocationForPeer_def not_less
          split: if_splits)
  qed
qed

lemma process_pending_returns:
  assumes peek: "pq_peek_min peek" and "alloc_inv mt mp a"
  shows "\<exists>a' gs. processPendingAllocations peek a = Some a' \<and> alloc_inv mt mp a' \<and> settled a' \<and>
           dom (mget (peerStatuses a')) \<subseteq> dom (mget (peerStatuses a)) \<and>
           nextChan a' = nextChan a \<and> sent a' = sent a @ map (\<lambda>c. (c, None)) gs"
  using assms(2)
proof (induction a rule: measure_induct_rule[of alloc_measure])
  case (less a)
  show ?case
  proof (cases "peerStatusQueue a = []")
    case True
    with less.prems have "peerStatuses a = []"
      by (auto simp: alloc_inv_def empty_iff_lookup)
    then have "settled a" by (simp add: settled_def)
    with True less.prems show ?thesis by (simp add: processPendingAllocations.simps)
  next
    case False
    define p where "p = peek (queueLess a) (peerStatusQueue a)"
    have dom: "set (peerStatusQueue a) = dom (mget (peerStatuses a))"
      using less.prems by (simp add: alloc_inv_def)
    obtain st where st: "mget (peerStatuses a) p = Some st"
      using peek_queueLess(1)[OF peek False] dom by (auto simp: p_def)
    note unfolded = processPendingAllocations.simps[of peek a] False st
    note head = settled_head[OF dom st peek_queueLess(2)[OF peek False, folded p_def]]
    consider (stop) "if ps_pendingAllocations st \<noteq> []
        then processNextPendingAllocationForPeer a p st = None else ps_totalAllocated st > 0"
      | (grant) a' where "processNextPendingAllocationForPeer a p st = Some a'"
          "ps_pendingAllocations st \<noteq> []"
      | (drop) "ps_pendingAllocations st = []" "ps_totalAllocated st = 0"
      by (cases "ps_pendingAllocations st = []"; cases "ps_totalAllocated st = 0";
          cases "processNextPendingAllocationForPeer a p st") (auto simp: word_neq_0_conv)
    then show ?thesis
    proof cases
      case stop
      then have "processPendingAllocations peek a = Some a"
        by (auto simp: unfolded Let_def simp flip: p_def split: if_splits)
      with head[OF _ stop] less.prems show ?thesis by simp
    next
      case grant
      have "processPendingAllocations peek a = processPendingAllocations peek a'"
        using grant by (auto simp: unfolded Let_def simp flip: p_def)
      moreover obtain c where "sent a' = sent a @ [(c, None)]" "nextChan a' = nextChan a"
        "dom (mget (peerStatuses a')) \<subseteq> dom (mget (peerStatuses a))"
        using grant(1) st
        by (auto simp: processNextPendingAllocationForPeer_def domIff split: list.splits if_splits)
      moreover obtain a'' gs where "processPendingAllocations peek a' = Some a''"
        "alloc_inv mt mp a''" "settled a''"
        "dom (mget (peerStatuses a'')) \<subseteq> dom (mget (peerStatuses a'))" "nextChan a'' = nextChan a'"
        "sent a'' = sent a' @ map (\<lambda>c. (c, None)) gs"
        using less.IH[OF process_next_inv(2)[OF less.prems st grant(1)]
          process_next_inv(1)[OF less.prems st grant(1)]] by blast
      ultimately show ?thesis by (intro exI[of _ a''] exI[of _ "c # gs"]) auto
    next
      case drop
      let ?b = "a\<lparr>peerStatusQueue := removeAll p (peerStatusQueue a),
                  peerStatuses := mdel p (peerStatuses a)\<rparr>"
      have psp: "ps_p st = p" using alloc_inv_status[OF less.prems st] by (simp add: status_ok_def)
      have eq: "processPendingAllocations peek a = processPendingAllocations peek ?b"
        using drop psp by (simp add: unfolded Let_def flip: p_def)
      have inv: "alloc_inv mt mp ?b"
        using drop_peer_inv(1)[OF less.prems st, of "sent a" None] drop by simp
      have "alloc_measure ?b < alloc_measure a"
        using drop_peer_inv(3)[OF less.prems st refl] alloc_inv_wf[OF less.prems] st drop
          length_removeAll_less[of p "peerStatusQueue a"]
        by (simp add: alloc_measure_def msum_lookup[of _ p st])
      note IH = less.IH[OF this inv]
      have "dom (mget (peerStatuses ?b)) \<subseteq> dom (mget (peerStatuses a))"
        by (auto simp: domIff split: if_splits)
      with IH have "\<exists>a' gs. processPendingAllocations peek ?b = Some a' \<and> alloc_inv mt mp a' \<and>
          settled a' \<and> dom (mget (peerStatuses a')) \<subseteq> dom (mget (peerStatuses a)) \<and>
          nextChan a' = nextChan ?b \<and> sent a' = sent ?b @ map (\<lambda>c. (c, None)) gs" by blast
      with eq show ?thesis by simp
    qed
  qed
qed

lemma release_block_start:
  assumes inv: "alloc_inv mt mp a" and st: "mget (peerStatuses a) p = Some st"
    and d: "d = min (ps_totalAllocated st) amount"
    and b: "b = a\<lparr>peerStatuses := mput p (st\<lparr>ps_totalAllocated := ps_totalAllocated st - d\<rparr>) (peerStatuses a),
                  totalAllocatedAllPeers := totalAllocatedAllPeers a - d\<rparr>"
  shows "ReleaseBlockMemory peek a p amount = map_option Inr (processPendingAllocations peek b)" and "alloc_inv mt mp b"
proof -
  let ?st' = "st\<lparr>ps_totalAllocated := ps_totalAllocated st - d\<rparr>"
  have wf: "mwf (peerStatuses a)" using inv by (rule alloc_inv_wf)
  have t: "unat (totalAllocatedAllPeers a) = total_of (peerStatuses a)"
    "totalAllocatedAllPeers a \<le> mt" using inv by (simp_all add: alloc_inv_def)
  have dst: "d \<le> ps_totalAllocated st" by (simp add: d)
  have "ps_totalAllocated st \<le> totalAllocatedAllPeers a"
    using total_of_member[OF wf st] t by (simp add: word_le_nat_alt)
  with dst have dt: "d \<le> totalAllocatedAllPeers a" by simp
  have sok: "status_ok mt mp p ?st'"
    using alloc_inv_status[OF inv st] unat_minus_le[OF dst]
    by (auto simp: status_ok_def word_le_nat_alt)
  have "unat (totalAllocatedAllPeers a - d) = total_of (mput p ?st' (peerStatuses a))"
    using total_of_mput[OF wf st, of ?st'] t(1) dst
    by (simp add: unat_minus_le[OF dt] unat_minus_le[OF dst] word_le_nat_alt)
  moreover have "pending_chans (mput p ?st' (peerStatuses a)) = pending_chans (peerStatuses a)"
    using pending_chans_mput[OF wf st, of ?st'] by simp
  moreover have "totalAllocatedAllPeers a - d \<le> mt"
    using t(2) unat_minus_le[OF dt] by (simp add: word_le_nat_alt)
  ultimately show "alloc_inv mt mp b"
    using inv sok st by (auto simp: b alloc_inv_def alloc_chans_def insert_absorb domI)
  show "ReleaseBlockMemory peek a p amount = map_option Inr (processPendingAllocations peek b)"
    using st dt by (auto simp: b ReleaseBlockMemory_def d min_def Let_def split: if_splits)
qed

lemma release_block_returns:
  assumes peek: "pq_peek_min peek" and inv: "alloc_inv mt mp a"
    and st: "mget (peerStatuses a) p = Some st"
  shows "\<exists>a' gs. ReleaseBlockMemory peek a p amount = Some (Inr a') \<and> alloc_inv mt mp a' \<and>
           settled a' \<and> nextChan a' = nextChan a \<and> sent a' = sent a @ map (\<lambda>c. (c, None)) gs"
  using process_pending_returns[OF peek release_block_start(2)[OF inv st refl refl, of amount]]
  by (auto simp: release_block_start(1)[OF inv st refl refl])

lemma release_peer_start:
  assumes inv: "alloc_inv mt mp a" and st: "mget (peerStatuses a) p = Some st"
    and b: "b = a\<lparr>peerStatusQueue := removeAll p (peerStatusQueue a), peerStatuses := mdel p (peerStatuses a),
              sent := sent a @ map (\<lambda>pa. (pa_response pa, Some ErrPeerDeallocated)) (ps_pendingAllocations st),
              totalAllocatedAllPeers := totalAllocatedAllPeers a - ps_totalAllocated st\<rparr>"
  shows "ReleasePeerMemory peek a p = map_option Inr (processPendingAllocations peek b)" and "alloc_inv mt mp b"
  using st drop_peer_inv(2)[OF inv st refl] drop_peer_inv(1)[OF inv st refl] by (simp_all add: b ReleasePeerMemory_def Let_def)

lemma release_peer_returns:
  assumes peek: "pq_peek_min peek" and inv: "alloc_inv mt mp a"
    and st: "mget (peerStatuses a) p = Some st"
  shows "\<exists>a' gs. ReleasePeerMemory peek a p = Some (Inr a') \<and> alloc_inv mt mp a' \<and> settled a' \<and>
           mget (peerStatuses a') p = None \<and> nextChan a' = nextChan a \<and>
           sent a' = sent a @ map (\<lambda>pa. (pa_response pa, Some ErrPeerDeallocated))
             (ps_pendingAllocations st) @ map (\<lambda>c. (c, None)) gs"
  using process_pending_returns[OF peek release_peer_start(2)[OF inv st refl]]
  by (fastforce simp: release_peer_start(1)[OF inv st refl] dom_def)

section \<open>Reachable allocators\<close>

inductive alloc_reach :: "peek_fn \<Rightarrow> u64 \<Rightarrow> u64 \<Rightarrow> allocator \<Rightarrow> bool"
  for peek :: peek_fn and mt mp :: u64 where
  new: "alloc_reach peek mt mp (NewAllocator mt mp)"
| allocate: "alloc_reach peek mt mp a \<Longrightarrow> amount_ok mt mp amount \<Longrightarrow>
    AllocateBlockMemory a p amount = (c, a') \<Longrightarrow> alloc_reach peek mt mp a'"
| release: "alloc_reach peek mt mp a \<Longrightarrow> ReleaseBlockMemory peek a p amount = Some (Inr a') \<Longrightarrow>
    alloc_reach peek mt mp a'"
| release_peer: "alloc_reach peek mt mp a \<Longrightarrow> ReleasePeerMemory peek a p = Some (Inr a') \<Longrightarrow>
    alloc_reach peek mt mp a'"

lemma release_known:
  "ReleaseBlockMemory peek a p amount = Some (Inr a') \<Longrightarrow> \<exists>st. mget (peerStatuses a) p = Some st"
  "ReleasePeerMemory peek a p = Some (Inr a') \<Longrightarrow> \<exists>st. mget (peerStatuses a) p = Some st"
  by (auto simp: ReleaseBlockMemory_def ReleasePeerMemory_def split: option.splits)

lemma reach_inv:
  "alloc_reach peek mt mp a \<Longrightarrow> pq_peek_min peek \<Longrightarrow> alloc_inv mt mp a"
proof (induction rule: alloc_reach.induct)
  case new
  show ?case by (rule new_allocator_inv)
next
  case (allocate a amount p c a')
  then show ?case using allocate_inv(1) by blast
next
  case (release a p amount a')
  then obtain st where "mget (peerStatuses a) p = Some st" using release_known(1) by blast
  with release release_block_returns[of peek mt mp a p st amount] show ?case by auto
next
  case (release_peer a p a')
  then obtain st where "mget (peerStatuses a) p = Some st" using release_known(2) by blast
  with release_peer release_peer_returns[of peek mt mp a p st] show ?case by auto
qed

section \<open>Properties\<close>

text \<open>C11: In every reachable state of the allocator, whatever sequence of allocations and releases
  led to it, the memory accounted to all peers is within the total limit, the memory of each
  peer is within the per-peer limit, and the total is the sum over the peers.\<close>

theorem allocator_limits:
  assumes "pq_peek_min peek" and "alloc_reach peek mt mp a"
  shows "totalAllocatedAllPeers a \<le> mt \<and> AllocatedForPeer a p \<le> mp \<and>
         unat (totalAllocatedAllPeers a) =
           (\<Sum>q \<leftarrow> mkeys (peerStatuses a). unat (AllocatedForPeer a q))"
proof (intro conjI)
  have inv: "alloc_inv mt mp a" using reach_inv assms by blast
  then show "totalAllocatedAllPeers a \<le> mt" by (simp add: alloc_inv_def)
  show "AllocatedForPeer a p \<le> mp"
    using alloc_inv_status[OF inv, of p]
    by (auto simp: AllocatedForPeer_def status_ok_def split: option.splits)
  have "unat (AllocatedForPeer a q) = unat (ps_totalAllocated st)"
    if "(q, st) \<in> set (peerStatuses a)" for q st
    using that mwf_in_set[OF alloc_inv_wf[OF inv]] by (simp add: AllocatedForPeer_def)
  then have "map (\<lambda>q. unat (AllocatedForPeer a q)) (mkeys (peerStatuses a)) =
      map (\<lambda>st. unat (ps_totalAllocated st)) (mvals (peerStatuses a))"
    unfolding mkeys_def mvals_def by (auto intro: map_cong)
  then show "unat (totalAllocatedAllPeers a) =
      (\<Sum>q \<leftarrow> mkeys (peerStatuses a). unat (AllocatedForPeer a q))"
    using inv by (simp add: alloc_inv_def total_of_def msum_def)
qed

text \<open>C20: Releasing memory always returns, although it loops until nothing more can be granted. It
  fails exactly for a peer the allocator does not know; releasing a whole peer answers each of
  its waiting allocations with the error that the peer was deallocated and forgets the peer.\<close>

theorem allocator_releases_return:
  assumes "pq_peek_min peek" and "alloc_reach peek mt mp a"
  shows "case mget (peerStatuses a) p of
           None \<Rightarrow> ReleaseBlockMemory peek a p amount = Some (Inl ErrNoAllocationsForPeer) \<and>
                   ReleasePeerMemory peek a p = Some (Inl ErrNoSuchPeer)
         | Some st \<Rightarrow>
             (\<exists>a'. ReleaseBlockMemory peek a p amount = Some (Inr a') \<and>
                   alloc_reach peek mt mp a') \<and>
             (\<exists>a' granted. ReleasePeerMemory peek a p = Some (Inr a') \<and>
                   alloc_reach peek mt mp a' \<and> mget (peerStatuses a') p = None \<and>
                   sent a' = sent a @
                     map (\<lambda>pa. (pa_response pa, Some ErrPeerDeallocated)) (ps_pendingAllocations st) @
                     map (\<lambda>c. (c, None)) granted)"
proof (cases "mget (peerStatuses a) p")
  case None
  then show ?thesis by (simp add: ReleaseBlockMemory_def ReleasePeerMemory_def)
next
  case (Some st)
  have inv: "alloc_inv mt mp a" using reach_inv assms by blast
  from release_block_returns[OF assms(1) inv Some, of amount] release_peer_returns[OF assms(1) inv Some]
  show ?thesis
    using Some alloc_reach.release[OF assms(2)] alloc_reach.release_peer[OF assms(2)] by fastforce
qed

text \<open>C21: Every response channel the allocator has handed out either has received exactly one value
  or belongs to exactly one waiting allocation; no channel is answered twice (a second send on
  the one-element buffer would block) and none is lost.\<close>

theorem allocator_answers_once:
  assumes "pq_peek_min peek" and "alloc_reach peek mt mp a" and "c < nextChan a"
  shows "length (filter (\<lambda>(c', _). c' = c) (sent a)) +
           (\<Sum>st \<leftarrow> mvals (peerStatuses a).
              length (filter (\<lambda>pa. pa_response pa = c) (ps_pendingAllocations st))) = 1"
proof -
  have cf: "count (mset (map f xs)) c = length (filter (\<lambda>x. f x = c) xs)" for f :: "'x \<Rightarrow> nat" and xs
    by (induction xs) auto
  have "count (alloc_chans a) c = count (issued (nextChan a)) c"
    using reach_inv[OF assms(2,1)] by (simp add: alloc_inv_def)
  also have "\<dots> = 1" using assms(3) by (simp add: issued_def)
  finally have *: "count (mset (map fst (sent a))) c + count (pending_chans (peerStatuses a)) c = 1"
    by (simp add: alloc_chans_def)
  have "count (pending_chans m) c = (\<Sum>st \<leftarrow> mvals m.
      length (filter (\<lambda>pa. pa_response pa = c) (ps_pendingAllocations st)))" for m
    unfolding pending_chans_def by (induction m) (auto simp: cf[symmetric] mvals_def)
  with * show ?thesis by (simp add: cf[symmetric] case_prod_unfold del: mset_map)
qed

text \<open>C22: After a release nothing that could be served is left waiting without a reason: a waiting
  allocation either exceeds its own peer's limit or stands behind an allocation that is not
  younger, fits its peer, and exceeds the total limit; and a peer that holds nothing and waits
  for nothing is kept only while some other allocation waits.\<close>

theorem release_leaves_no_grantable:
  assumes "pq_peek_min peek" and "alloc_reach peek mt mp a"
    and "ReleaseBlockMemory peek a p amount = Some (Inr a') \<or>
         ReleasePeerMemory peek a p = Some (Inr a')"
  shows "settled a'"
proof -
  have inv: "alloc_inv mt mp a" using reach_inv assms by blast
  obtain st where st: "mget (peerStatuses a) p = Some st" using assms(3) release_known by blast
  show ?thesis
    using assms(3) release_block_returns[OF assms(1) inv st, of amount]
      release_peer_returns[OF assms(1) inv st] by auto
qed

subsection \<open>A run: two peers, one allocation granted only after a release\<close>

definition demo_alloc :: allocator where
  "demo_alloc = snd (AllocateBlockMemory (snd (AllocateBlockMemory (snd (AllocateBlockMemory
     (NewAllocator 100 60) ''A'' 50)) ''B'' 60)) ''A'' 20)"

lemma demo_alloc_reach: "alloc_reach first_min 100 60 demo_alloc"
proof -
  have ok: "amount_ok 100 60 50" "amount_ok 100 60 60" "amount_ok 100 60 20"
    by (simp_all add: amount_ok_def)
  show ?thesis
    unfolding demo_alloc_def
    by (rule alloc_reach.allocate[OF alloc_reach.allocate[OF alloc_reach.allocate[OF
          alloc_reach.new ok(1) surjective_pairing] ok(2) surjective_pairing] ok(3) surjective_pairing])
qed

theorem allocator_limits_witness:
  "totalAllocatedAllPeers demo_alloc \<le> 100 \<and> AllocatedForPeer demo_alloc ''A'' \<le> 60 \<and>
   totalAllocatedAllPeers demo_alloc = 50"
  using allocator_limits[OF first_min_contract demo_alloc_reach, of "''A''"] by code_simp

theorem allocator_releases_return_witness:
  "mget (peerStatuses demo_alloc) ''B'' \<noteq> None \<and>
   (\<exists>a' granted. ReleasePeerMemory first_min demo_alloc ''B'' = Some (Inr a') \<and>
      sent a' = sent demo_alloc @ [(1, Some ErrPeerDeallocated)] @ map (\<lambda>c. (c, None)) granted)"
proof -
  have "map_option ps_pendingAllocations (mget (peerStatuses demo_alloc) ''B'') =
      Some [\<lparr>pa_p = ''B'', pa_amount = 60, pa_response = 1, pa_allocIndex = 0\<rparr>]" by code_simp
  with allocator_releases_return[OF first_min_contract demo_alloc_reach, of "''B''" 0]
  show ?thesis by (auto split: option.splits)
qed

theorem allocator_answers_once_witness:
  "(1::nat) < nextChan demo_alloc \<and>
   length (filter (\<lambda>(c', _). c' = 1) (sent demo_alloc)) +
   (\<Sum>st \<leftarrow> mvals (peerStatuses demo_alloc).
      length (filter (\<lambda>pa. pa_response pa = 1) (ps_pendingAllocations st))) = 1"
proof -
  have "(1::nat) < nextChan demo_alloc" by code_simp
  with allocator_answers_once[OF first_min_contract demo_alloc_reach this] show ?thesis by blast
qed

theorem release_leaves_no_grantable_witness:
  "\<exists>a'. ReleaseBlockMemory first_min demo_alloc ''A'' 30 = Some (Inr a') \<and> settled a' \<and>
        sent a' = [(0, None), (1, None), (2, None)]"
proof -
  have run: "case ReleaseBlockMemory first_min demo_alloc ''A'' 30 of
      Some (Inr a') \<Rightarrow> sent a' = [(0, None), (1, None), (2, None)] | _ \<Rightarrow> False" by code_simp
  then obtain a' where a': "ReleaseBlockMemory first_min demo_alloc ''A'' 30 = Some (Inr a')"
    by (auto split: option.splits sum.splits)
  with run release_leaves_no_grantable[OF first_min_contract demo_alloc_reach disjI1[OF a']]
  show ?thesis by simp
qed

end
