(* ===== verification/GS_Types.thy ===== *)
theory GS_Types
  imports GS_Prelude
begin

text \<open>
  The types of \<^verbatim>\<open>graphsync.go\<close> and the status codes of \<^verbatim>\<open>responsecode.go\<close>.

  A status code is an \<^verbatim>\<open>int32\<close> on which no arithmetic is done, so it is an \<open>int\<close>. An IPLD node
  is third-party data: a type variable \<open>'n\<close>, with \<open>None\<close> for the nil interface value. A link is
  its CID and a path the list of its segments. The errors a component returns or puts on an
  error channel are the values of \<open>gs_error\<close>; \<open>NilDereference\<close> stands for the panic of a nil dereference.
\<close>

type_synonym status_code = int
type_synonym priority = int
type_synonym ext_name = string
type_synonym path = "string list"

definition RequestAcknowledged :: status_code where "RequestAcknowledged = 10"
definition AdditionalPeers :: status_code where "AdditionalPeers = 11"
definition NotEnoughGas :: status_code where "NotEnoughGas = 12"
definition OtherProtocol :: status_code where "OtherProtocol = 13"
definition PartialResponse :: status_code where "PartialResponse = 14"
definition RequestPaused :: status_code where "RequestPaused = 15"
definition RequestCompletedFull :: status_code where "RequestCompletedFull = 20"
definition RequestCompletedPartial :: status_code where "RequestCompletedPartial = 21"
definition RequestRejected :: status_code where "RequestRejected = 30"
definition RequestFailedBusy :: status_code where "RequestFailedBusy = 31"
definition RequestFailedUnknown :: status_code where "RequestFailedUnknown = 32"
definition RequestFailedLegal :: status_code where "RequestFailedLegal = 33"
definition RequestFailedContentNotFound :: status_code where "RequestFailedContentNotFound = 34"
definition RequestCancelled :: status_code where "RequestCancelled = 35"

lemmas status_codes =
  RequestAcknowledged_def AdditionalPeers_def NotEnoughGas_def OtherProtocol_def
  PartialResponse_def RequestPaused_def RequestCompletedFull_def RequestCompletedPartial_def
  RequestRejected_def RequestFailedBusy_def RequestFailedUnknown_def RequestFailedLegal_def
  RequestFailedContentNotFound_def RequestCancelled_def

definition ResponseCodeToName :: "(status_code, string) gomap" where
  "ResponseCodeToName =
    [(RequestAcknowledged, ''RequestAcknowledged''), (AdditionalPeers, ''AdditionalPeers''),
     (NotEnoughGas, ''NotEnoughGas''), (OtherProtocol, ''OtherProtocol''),
     (PartialResponse, ''PartialResponse''), (RequestPaused, ''RequestPaused''),
     (RequestCompletedFull, ''RequestCompletedFull''),
     (RequestCompletedPartial, ''RequestCompletedPartial''),
     (RequestRejected, ''RequestRejected''), (RequestFailedBusy, ''RequestFailedBusy''),
     (RequestFailedUnknown, ''RequestFailedUnknown''), (RequestFailedLegal, ''RequestFailedLegal''),
     (RequestFailedContentNotFound, ''RequestFailedContentNotFound''),
     (RequestCancelled, ''RequestCancelled'')]"

datatype gs_error =
    RequestClientCancelledErr
  | RequestFailedBusyErr
  | RequestFailedContentNotFoundErr
  | RequestFailedLegalErr
  | RequestFailedUnknownErr
  | RequestCancelledErr
  | RequestNotFoundErr
  | RemoteMissingBlockErr cid path
  | RemoteIncorrectResponseError cid cid path
  | UnknownStatusErr status_code
  | ErrContextCancelled
  | ErrSkipMe
  | ErrPausedE
  | ErrNetworkErrorE
  | ErrFirstBlockLoadE
  | ErrCancelledByCommand
  | NilDereference
  | OtherErr string

definition IsSuccess :: "status_code \<Rightarrow> bool" where
  "IsSuccess c \<longleftrightarrow> c = RequestCompletedFull \<or> c = RequestCompletedPartial"

definition IsFailure :: "status_code \<Rightarrow> bool" where
  "IsFailure c \<longleftrightarrow>
     c = RequestFailedBusy \<or> c = RequestFailedContentNotFound \<or> c = RequestFailedLegal \<or>
     c = RequestFailedUnknown \<or> c = RequestCancelled \<or> c = RequestRejected"

definition IsTerminal :: "status_code \<Rightarrow> bool" where
  "IsTerminal c \<longleftrightarrow> IsSuccess c \<or> IsFailure c"

definition AsError :: "status_code \<Rightarrow> gs_error option" where
  "AsError c =
     (if IsSuccess c then None
      else if c = RequestFailedBusy then Some RequestFailedBusyErr
      else if c = RequestFailedContentNotFound then Some RequestFailedContentNotFoundErr
      else if c = RequestFailedLegal then Some RequestFailedLegalErr
      else if c = RequestFailedUnknown then Some RequestFailedUnknownErr
      else if c = RequestCancelled then Some RequestCancelledErr
      else Some (UnknownStatusErr c))"

datatype link_action =
  LinkActionPresent | LinkActionDuplicateNotSent | LinkActionMissing | LinkActionDuplicateDAGSkipped

definition DidFollowLink :: "link_action \<Rightarrow> bool" where
  "DidFollowLink l \<longleftrightarrow> l = LinkActionPresent \<or> l = LinkActionDuplicateNotSent"

datatype request_type = RequestTypeNew | RequestTypeCancel | RequestTypeUpdate

datatype request_state = Queued | Running | Paused | CompletingSend

record 'n ext_data =
  ed_Name :: ext_name
  ed_Data :: "'n option"

record block =
  blk_Cid :: cid
  blk_RawData :: bytes

definition ExtensionDoNotSendCIDs :: ext_name where
  "ExtensionDoNotSendCIDs = ''graphsync/do-not-send-cids''"
definition ExtensionsDoNotSendFirstBlocks :: ext_name where
  "ExtensionsDoNotSendFirstBlocks = ''graphsync/do-not-send-first-blocks''"
definition ExtensionDeDupByKey :: ext_name where
  "ExtensionDeDupByKey = ''graphsync/dedup-by-key''"

section \<open>Status codes and the errors they stand for\<close>

lemma success_not_failure: "IsSuccess c \<Longrightarrow> \<not> IsFailure c"
  by (auto simp: IsSuccess_def IsFailure_def status_codes)

lemma AsError_None: "AsError c = None \<longleftrightarrow> IsSuccess c"
  by (simp add: AsError_def)

text \<open>A status code turns into no error exactly when it is a success code; every code that
  terminates a request in failure turns into the error of its own, distinct from the errors of
  the other codes, except \<^verbatim>\<open>RequestRejected\<close>, which \<^verbatim>\<open>IsFailure\<close> counts as a failure but
  \<^verbatim>\<open>AsError\<close> reports as an unknown status code.\<close>

theorem status_code_errors:
  "(AsError c = None \<longleftrightarrow> IsSuccess c) \<and>
   (IsTerminal c \<longrightarrow> IsTerminal d \<longrightarrow> AsError c = AsError d \<longrightarrow> c = d \<or> IsSuccess c \<and> IsSuccess d) \<and>
   (IsFailure c \<longrightarrow> AsError c = Some (UnknownStatusErr c) \<longleftrightarrow> c = RequestRejected)"
  by (auto simp: AsError_def IsTerminal_def IsSuccess_def IsFailure_def status_codes split: if_splits)

theorem status_code_errors_witness:
  "IsFailure RequestRejected \<and> AsError RequestRejected = Some (UnknownStatusErr RequestRejected)"
  using status_code_errors[of RequestRejected RequestRejected] by (simp add: IsFailure_def)

end
