(* ===== verification/Message.thy ===== *)
theory Message
  imports GS_Types
begin

text \<open>
  \<^verbatim>\<open>message/message.go\<close> and \<^verbatim>\<open>message/builder.go\<close>: requests, responses and messages, and the
  builder that collects the content of one outgoing message.

  A nil extension map is \<open>None\<close>. The nil and the empty form of the other maps and slices
  behave alike in every operation and are both the empty list.
\<close>

section \<open>Requests, responses, messages\<close>

type_synonym 'n ext_map = "(ext_name, 'n option) gomap"

record 'n gs_request =
  gsr_root :: cid
  gsr_selector :: "'n option"
  gsr_priority :: priority
  gsr_id :: request_id
  gsr_extensions :: "'n ext_map option"
  gsr_requestType :: request_type

record link_metadatum =
  md_Link :: cid
  md_Action :: link_action

record 'n gs_response =
  gsp_requestID :: request_id
  gsp_status :: status_code
  gsp_metadata :: "link_metadatum list"
  gsp_extensions :: "'n ext_map option"

record 'n gs_message =
  gsm_requests :: "(request_id, 'n gs_request) gomap"
  gsm_responses :: "(request_id, 'n gs_response) gomap"
  gsm_blocks :: "(cid, block) gomap"

abbreviation cid_Undef :: cid where "cid_Undef \<equiv> []"

definition toExtensionsMap :: "'n ext_data list \<Rightarrow> 'n ext_map option" where
  "toExtensionsMap extensions =
     (if length extensions > 0
      then Some (foldl (\<lambda>m e. mput (ed_Name e) (ed_Data e) m) [] extensions)
      else None)"

definition newRequest ::
  "request_id \<Rightarrow> cid \<Rightarrow> 'n option \<Rightarrow> priority \<Rightarrow> request_type \<Rightarrow> 'n ext_map option \<Rightarrow> 'n gs_request" where
  "newRequest rid root selector prio rtype exts =
     \<lparr>gsr_root = root, gsr_selector = selector, gsr_priority = prio, gsr_id = rid,
      gsr_extensions = exts, gsr_requestType = rtype\<rparr>"

definition NewRequest ::
  "request_id \<Rightarrow> cid \<Rightarrow> 'n option \<Rightarrow> priority \<Rightarrow> 'n ext_data list \<Rightarrow> 'n gs_request" where
  "NewRequest rid root selector prio exts =
     newRequest rid root selector prio RequestTypeNew (toExtensionsMap exts)"

definition NewCancelRequest :: "request_id \<Rightarrow> 'n gs_request" where
  "NewCancelRequest rid = newRequest rid cid_Undef None 0 RequestTypeCancel None"

definition NewUpdateRequest :: "request_id \<Rightarrow> 'n ext_data list \<Rightarrow> 'n gs_request" where
  "NewUpdateRequest rid exts =
     newRequest rid cid_Undef None 0 RequestTypeUpdate (toExtensionsMap exts)"

definition newResponse ::
  "request_id \<Rightarrow> status_code \<Rightarrow> link_metadatum list \<Rightarrow> 'n ext_map option \<Rightarrow> 'n gs_response" where
  "newResponse rid status md exts =
     \<lparr>gsp_requestID = rid, gsp_status = status, gsp_metadata = md, gsp_extensions = exts\<rparr>"

definition NewResponse ::
  "request_id \<Rightarrow> status_code \<Rightarrow> link_metadatum list \<Rightarrow> 'n ext_data list \<Rightarrow> 'n gs_response" where
  "NewResponse rid status md exts = newResponse rid status md (toExtensionsMap exts)"

definition NewMessage ::
  "(request_id, 'n gs_request) gomap \<Rightarrow> (request_id, 'n gs_response) gomap \<Rightarrow>
   (cid, block) gomap \<Rightarrow> 'n gs_message" where
  "NewMessage reqs resps blks = \<lparr>gsm_requests = reqs, gsm_responses = resps, gsm_blocks = blks\<rparr>"

definition gsm_Empty :: "'n gs_message \<Rightarrow> bool" where
  "gsm_Empty gsm \<longleftrightarrow>
     length (gsm_blocks gsm) = 0 \<and> length (gsm_requests gsm) = 0 \<and> length (gsm_responses gsm) = 0"

definition Requests :: "'n gs_message \<Rightarrow> 'n gs_request list" where
  "Requests gsm = foldl (\<lambda>rs (_, request). rs @ [request]) [] (gsm_requests gsm)"

definition Responses :: "'n gs_message \<Rightarrow> 'n gs_response list" where
  "Responses gsm = foldl (\<lambda>rs (_, response). rs @ [response]) [] (gsm_responses gsm)"

definition Blocks :: "'n gs_message \<Rightarrow> block list" where
  "Blocks gsm = foldl (\<lambda>bs (_, block). bs @ [block]) [] (gsm_blocks gsm)"

definition ResponseCodes :: "'n gs_message \<Rightarrow> (request_id, status_code) gomap" where
  "ResponseCodes gsm =
     foldl (\<lambda>codes (rid, response). mput rid (gsp_status response) codes) [] (gsm_responses gsm)"

definition copy_map :: "('k, 'v) gomap \<Rightarrow> ('k, 'v) gomap" where
  "copy_map m = mput_all [] m"

definition Clone :: "'n gs_message \<Rightarrow> 'n gs_message" where
  "Clone gsm = \<lparr>gsm_requests = copy_map (gsm_requests gsm),
                gsm_responses = copy_map (gsm_responses gsm),
                gsm_blocks = copy_map (gsm_blocks gsm)\<rparr>"

definition ext_lookup :: "'n ext_map option \<Rightarrow> ext_name \<Rightarrow> 'n option \<times> bool" where
  "ext_lookup exts name =
     (case exts of
        None \<Rightarrow> (None, False)
      | Some m \<Rightarrow> (case mget m name of None \<Rightarrow> (None, False) | Some val \<Rightarrow> (val, True)))"

definition req_Extension :: "'n gs_request \<Rightarrow> ext_name \<Rightarrow> 'n option \<times> bool" where
  "req_Extension gsr name = ext_lookup (gsr_extensions gsr) name"

definition resp_Extension :: "'n gs_response \<Rightarrow> ext_name \<Rightarrow> 'n option \<times> bool" where
  "resp_Extension gsr name = ext_lookup (gsp_extensions gsr) name"

definition ext_names :: "'n ext_map option \<Rightarrow> ext_name list" where
  "ext_names exts = (case exts of None \<Rightarrow> [] | Some m \<Rightarrow> mkeys m)"

definition req_ExtensionNames :: "'n gs_request \<Rightarrow> ext_name list" where
  "req_ExtensionNames gsr = ext_names (gsr_extensions gsr)"

definition resp_ExtensionNames :: "'n gs_response \<Rightarrow> ext_name list" where
  "resp_ExtensionNames gsr = ext_names (gsp_extensions gsr)"

definition md_Iterate :: "(cid \<Rightarrow> link_action \<Rightarrow> 's \<Rightarrow> 's) \<Rightarrow> link_metadatum list \<Rightarrow> 's \<Rightarrow> 's" where
  "md_Iterate iter mds s = foldl (\<lambda>s md. iter (md_Link md) (md_Action md) s) s mds"

text \<open>The two loops of \<open>MergeExtensions\<close>.\<close>

fun mergeNew ::
  "(ext_name \<Rightarrow> 'n option \<Rightarrow> 'n option \<Rightarrow> gs_error + 'n option) \<Rightarrow> 'n ext_map \<Rightarrow> 'n ext_map \<Rightarrow>
   'n ext_map \<Rightarrow> gs_error + 'n ext_map" where
  "mergeNew mergeFunc old [] combined = Inr combined"
| "mergeNew mergeFunc old ((name, newData) # rest) combined =
     (case mget old name of
        None \<Rightarrow> mergeNew mergeFunc old rest (mput name newData combined)
      | Some oldData \<Rightarrow>
          (case mergeFunc name oldData newData of
             Inl err \<Rightarrow> Inl err
           | Inr resultData \<Rightarrow> mergeNew mergeFunc old rest (mput name resultData combined)))"

definition keepOld :: "'n ext_map \<Rightarrow> 'n ext_map \<Rightarrow> 'n ext_map" where
  "keepOld old combined =
     foldl (\<lambda>c (name, oldData). if mhas c name then c else mput name oldData c) combined old"

definition MergeExtensions ::
  "'n gs_request \<Rightarrow> 'n ext_data list \<Rightarrow>
   (ext_name \<Rightarrow> 'n option \<Rightarrow> 'n option \<Rightarrow> gs_error + 'n option) \<Rightarrow> gs_error + 'n gs_request" where
  "MergeExtensions gsr extensions mergeFunc =
     (case gsr_extensions gsr of
        None \<Rightarrow> Inr (newRequest (gsr_id gsr) (gsr_root gsr) (gsr_selector gsr) (gsr_priority gsr)
                      (gsr_requestType gsr) (toExtensionsMap extensions))
      | Some old \<Rightarrow>
          (let newExtensionMap = (case toExtensionsMap extensions of None \<Rightarrow> [] | Some m \<Rightarrow> m) in
           case mergeNew mergeFunc old newExtensionMap [] of
             Inl err \<Rightarrow> Inl err
           | Inr combined \<Rightarrow>
               Inr (newRequest (gsr_id gsr) (gsr_root gsr) (gsr_selector gsr) (gsr_priority gsr)
                      (gsr_requestType gsr) (Some (keepOld old combined)))))"

text \<open>The error that \<^verbatim>\<open>ReplaceExtensions\<close> discards never arises (\<open>merge_replace_ok\<close>); the zero
  request stands in that branch.\<close>

definition zeroRequest :: "'n gs_request" where
  "zeroRequest = newRequest [] cid_Undef None 0 RequestTypeNew None"

definition ReplaceExtensions :: "'n gs_request \<Rightarrow> 'n ext_data list \<Rightarrow> 'n gs_request" where
  "ReplaceExtensions gsr extensions =
     (case MergeExtensions gsr extensions (\<lambda>name oldData newData. Inr newData) of
        Inl _ \<Rightarrow> zeroRequest
      | Inr req \<Rightarrow> req)"

section \<open>The builder\<close>

record 'n builder =
  b_outgoingBlocks :: "(cid, block) gomap"
  b_blkSize :: u64
  b_completedResponses :: "(request_id, status_code) gomap"
  b_outgoingResponses :: "(request_id, link_metadatum list) gomap"
  b_extensions :: "(request_id, 'n ext_data list) gomap"
  b_requests :: "(request_id, 'n gs_request) gomap"

definition NewBuilder :: "'n builder" where
  "NewBuilder = \<lparr>b_outgoingBlocks = [], b_blkSize = 0, b_completedResponses = [],
                 b_outgoingResponses = [], b_extensions = [], b_requests = []\<rparr>"

definition AddRequest :: "'n builder \<Rightarrow> 'n gs_request \<Rightarrow> 'n builder" where
  "AddRequest b request = b\<lparr>b_requests := mput (gsr_id request) request (b_requests b)\<rparr>"

definition rawLen :: "block \<Rightarrow> u64" where
  "rawLen block = of_nat (length (blk_RawData block))"

definition AddBlock :: "'n builder \<Rightarrow> block \<Rightarrow> 'n builder" where
  "AddBlock b block =
     b\<lparr>b_blkSize := b_blkSize b + rawLen block,
       b_outgoingBlocks := mput (blk_Cid block) block (b_outgoingBlocks b)\<rparr>"

definition touchResponse :: "'n builder \<Rightarrow> request_id \<Rightarrow> 'n builder" where
  "touchResponse b rid =
     (if mhas (b_outgoingResponses b) rid then b
      else b\<lparr>b_outgoingResponses := mput rid [] (b_outgoingResponses b)\<rparr>)"

definition AddExtensionData :: "'n builder \<Rightarrow> request_id \<Rightarrow> 'n ext_data \<Rightarrow> 'n builder" where
  "AddExtensionData b rid ext =
     touchResponse
       (b\<lparr>b_extensions := mput rid (mgetd [] (b_extensions b) rid @ [ext]) (b_extensions b)\<rparr>) rid"

definition BlockSize :: "'n builder \<Rightarrow> u64" where
  "BlockSize b = b_blkSize b"

definition AddLink :: "'n builder \<Rightarrow> request_id \<Rightarrow> cid \<Rightarrow> link_action \<Rightarrow> 'n builder" where
  "AddLink b rid lnk linkAction =
     b\<lparr>b_outgoingResponses :=
         mput rid (mgetd [] (b_outgoingResponses b) rid @ [\<lparr>md_Link = lnk, md_Action = linkAction\<rparr>])
           (b_outgoingResponses b)\<rparr>"

definition AddResponseCode :: "'n builder \<Rightarrow> request_id \<Rightarrow> status_code \<Rightarrow> 'n builder" where
  "AddResponseCode b rid status =
     touchResponse (b\<lparr>b_completedResponses := mput rid status (b_completedResponses b)\<rparr>) rid"

definition b_Empty :: "'n builder \<Rightarrow> bool" where
  "b_Empty b \<longleftrightarrow>
     length (b_requests b) = 0 \<and> length (b_outgoingBlocks b) = 0 \<and> length (b_outgoingResponses b) = 0"

definition dropResponse :: "'n builder \<Rightarrow> request_id \<Rightarrow> 'n builder" where
  "dropResponse b rid =
     b\<lparr>b_completedResponses := mdel rid (b_completedResponses b),
       b_extensions := mdel rid (b_extensions b),
       b_outgoingResponses := mdel rid (b_outgoingResponses b)\<rparr>"

definition saveBlock ::
  "(cid, block) gomap \<Rightarrow> (cid, block) gomap \<times> u64 \<Rightarrow> link_metadatum \<Rightarrow> (cid, block) gomap \<times> u64" where
  "saveBlock outgoing sn item =
     (case mget outgoing (md_Link item) of
        Some block \<Rightarrow>
          if md_Action item = LinkActionPresent \<and> \<not> mhas (fst sn) (md_Link item)
          then (mput (md_Link item) block (fst sn), snd sn + rawLen block)
          else sn
      | None \<Rightarrow> sn)"

definition ScrubResponses :: "'n builder \<Rightarrow> request_id list \<Rightarrow> u64 \<times> 'n builder" where
  "ScrubResponses b requestIDs =
     (let b1 = foldl dropResponse b requestIDs;
          oldSize = b_blkSize b1;
          (savedBlocks, newBlkSize) =
            foldl (\<lambda>sn (_, metadata). foldl (saveBlock (b_outgoingBlocks b1)) sn metadata)
              ([], 0) (b_outgoingResponses b1)
      in (oldSize - newBlkSize, b1\<lparr>b_blkSize := newBlkSize, b_outgoingBlocks := savedBlocks\<rparr>))"

definition responseCode :: "status_code \<Rightarrow> bool \<Rightarrow> status_code" where
  "responseCode status isComplete = (if \<not> isComplete then PartialResponse else status)"

definition Build :: "'n builder \<Rightarrow> 'n gs_message" where
  "Build b =
     (let responses = foldl (\<lambda>rs (rid, linkMap).
            mput rid (NewResponse rid
              (responseCode (mgetd 0 (b_completedResponses b) rid) (mhas (b_completedResponses b) rid))
              linkMap (mgetd [] (b_extensions b) rid)) rs) [] (b_outgoingResponses b)
      in \<lparr>gsm_requests = b_requests b, gsm_responses = responses, gsm_blocks = b_outgoingBlocks b\<rparr>)"

section \<open>Requests and messages: what the accessors return\<close>

lemma copy_map_lookup: "mwf m \<Longrightarrow> mget (copy_map m) = mget m"
  by (simp add: copy_map_def mget_mput_all_empty)

lemma foldl_snoc_map: "foldl (\<lambda>rs (k, v). rs @ [v]) acc m = acc @ mvals m"
  by (induction m arbitrary: acc) (auto simp: mvals_def)

lemma accessors:
  "Requests gsm = mvals (gsm_requests gsm)" "Responses gsm = mvals (gsm_responses gsm)"
  "Blocks gsm = mvals (gsm_blocks gsm)"
  by (simp_all add: Requests_def Responses_def Blocks_def foldl_snoc_map)

lemma toExtensionsMap_lookup:
  "ext_lookup (toExtensionsMap exts) name =
     (case mget (rev (map (\<lambda>e. (ed_Name e, ed_Data e)) exts)) name of
        None \<Rightarrow> (None, False) | Some d \<Rightarrow> (d, True))"
proof -
  have "foldl (\<lambda>m e. mput (ed_Name e) (ed_Data e) m) m exts =
      mput_all m (map (\<lambda>e. (ed_Name e, ed_Data e)) exts)" for m
    by (induction exts arbitrary: m) auto
  then show ?thesis
    by (auto simp: toExtensionsMap_def ext_lookup_def mget_mput_all rev_map split: option.splits)
qed

lemma toExtensionsMap_wf: "toExtensionsMap exts = Some m \<Longrightarrow> mwf m"
proof -
  have "mwf m \<Longrightarrow> mwf (foldl (\<lambda>m e. mput (ed_Name e) (ed_Data e) m) m exts)" for m :: "'a ext_map"
    by (induction exts arbitrary: m) auto
  then show "toExtensionsMap exts = Some m \<Longrightarrow> mwf m"
    by (auto simp: toExtensionsMap_def split: if_splits)
qed

text \<open>The merge loop: entries whose name is new are taken over, the others are merged, and the
  first merge error ends it.\<close>

definition merged ::
  "(ext_name \<Rightarrow> 'n option \<Rightarrow> 'n option \<Rightarrow> gs_error + 'n option) \<Rightarrow> 'n ext_map \<Rightarrow>
   ext_name \<Rightarrow> 'n option \<Rightarrow> gs_error + 'n option" where
  "merged mergeFunc old name newData =
     (case mget old name of None \<Rightarrow> Inr newData | Some oldData \<Rightarrow> mergeFunc name oldData newData)"

lemma mergeNew_step:
  "mergeNew mergeFunc old ((name, newData) # rest) combined =
     (case merged mergeFunc old name newData of
        Inl err \<Rightarrow> Inl err | Inr d \<Rightarrow> mergeNew mergeFunc old rest (mput name d combined))"
  by (simp add: merged_def split: option.splits)

lemma mergeNew_ok:
  assumes "mergeNew mergeFunc old new combined = Inr res" and "mwf new"
  shows "case mget new name of
           None \<Rightarrow> mget res name = mget combined name
         | Some newData \<Rightarrow> (\<exists>d. merged mergeFunc old name newData = Inr d \<and> mget res name = Some d)"
  using assms
proof (induction new arbitrary: combined)
  case (Cons e new)
  obtain k v where e: "e = (k, v)" by (cases e)
  obtain d where d: "merged mergeFunc old k v = Inr d"
      "mergeNew mergeFunc old new (mput k d combined) = Inr res"
    using Cons.prems(1)[unfolded e mergeNew_step] by (auto split: sum.splits)
  have wf: "mwf new" "k = name \<Longrightarrow> mget new name = None"
    using Cons.prems(2) e by (auto simp: map_of_eq_None_iff)
  show ?case using Cons.IH[OF d(2) wf(1)] d(1) wf(2) e by (auto split: option.splits)
qed simp

lemma mergeNew_error:
  assumes "mergeNew mergeFunc old new combined = Inl err" and "mwf new"
  shows "\<exists>name newData. mget new name = Some newData \<and> merged mergeFunc old name newData = Inl err"
  using assms
proof (induction new arbitrary: combined)
  case (Cons e new)
  obtain k v where e: "e = (k, v)" by (cases e)
  show ?case
  proof (cases "merged mergeFunc old k v")
    case (Inl err')
    with Cons.prems(1)[unfolded e mergeNew_step] have "err' = err" by simp
    with Inl e show ?thesis by (intro exI[of _ k]) simp
  next
    case (Inr d)
    with Cons.prems(1)[unfolded e mergeNew_step]
    have "mergeNew mergeFunc old new (mput k d combined) = Inl err" by simp
    from Cons.IH[OF this] Cons.prems(2) e
    obtain name nd where "mget new name = Some nd" "merged mergeFunc old name nd = Inl err" by auto
    with Cons.prems(2) e show ?thesis
      by (intro exI[of _ name]) (auto dest: map_of_SomeD simp: rev_image_eqI)
  qed
qed simp

lemma keepOld_lookup:
  "mget (keepOld old combined) name = (case mget combined name of None \<Rightarrow> mget old name | Some d \<Rightarrow> Some d)"
proof -
  have "mget (foldl (\<lambda>c (name, oldData). if mhas c name then c else mput name oldData c) c xs) name =
      (case mget c name of None \<Rightarrow> mget xs name | Some d \<Rightarrow> Some d)" for c xs
  proof (induction xs arbitrary: c)
    case (Cons x xs)
    then show ?case
      by (cases x; cases "mhas c (fst x)") (auto simp: mhas_def split: option.splits)
  qed (simp split: option.splits)
  then show ?thesis by (simp add: keepOld_def)
qed

definition ext_given :: "'n ext_data list \<Rightarrow> ext_name \<Rightarrow> 'n option option" where
  "ext_given exts name = mget (rev (map (\<lambda>e. (ed_Name e, ed_Data e)) exts)) name"

definition ext_present :: "'n gs_request \<Rightarrow> ext_name \<Rightarrow> 'n option option" where
  "ext_present gsr name = (case gsr_extensions gsr of None \<Rightarrow> None | Some m \<Rightarrow> mget m name)"

text \<open>What a merge makes of one name.\<close>

definition merge_entry ::
  "(ext_name \<Rightarrow> 'n option \<Rightarrow> 'n option \<Rightarrow> gs_error + 'n option) \<Rightarrow> ext_name \<Rightarrow>
   'n option option \<Rightarrow> 'n option option \<Rightarrow> 'n option \<times> bool" where
  "merge_entry mergeFunc name old new =
     (case (old, new) of
        (None, None) \<Rightarrow> (None, False)
      | (Some oldData, None) \<Rightarrow> (oldData, True)
      | (None, Some newData) \<Rightarrow> (newData, True)
      | (Some oldData, Some newData) \<Rightarrow>
          (case mergeFunc name oldData newData of Inr d \<Rightarrow> (d, True) | Inl _ \<Rightarrow> (None, False)))"

abbreviation new_map :: "'n ext_data list \<Rightarrow> 'n ext_map" where
  "new_map exts \<equiv> (case toExtensionsMap exts of None \<Rightarrow> [] | Some m \<Rightarrow> m)"

lemma new_map_lookup: "mget (new_map exts) name = ext_given exts name"
  using toExtensionsMap_lookup[of exts name]
  by (cases "toExtensionsMap exts") (auto simp: ext_given_def ext_lookup_def split: option.splits)

lemma new_map_wf: "mwf (new_map exts)"
  using toExtensionsMap_wf by (auto split: option.splits)

lemma merge_into_nil:
  "gsr_extensions gsr = None \<Longrightarrow>
     \<exists>req. MergeExtensions gsr exts mergeFunc = Inr req \<and> req\<lparr>gsr_extensions := None\<rparr> = gsr \<and>
       (\<forall>name. req_Extension req name = merge_entry mergeFunc name None (ext_given exts name))"
  by (auto simp: MergeExtensions_def newRequest_def req_Extension_def toExtensionsMap_lookup ext_given_def
      merge_entry_def split: option.splits)

lemma merge_into_map:
  assumes old: "gsr_extensions gsr = Some m" and ok: "mergeNew mergeFunc m (new_map exts) [] = Inr res"
  shows "\<exists>req. MergeExtensions gsr exts mergeFunc = Inr req \<and> req\<lparr>gsr_extensions := Some m\<rparr> = gsr \<and>
       (\<forall>name. req_Extension req name = merge_entry mergeFunc name (mget m name) (ext_given exts name))"
proof -
  have "ext_lookup (Some (keepOld m res)) name = merge_entry mergeFunc name (mget m name) (ext_given exts name)"
    for name
    using mergeNew_ok[OF ok new_map_wf, of name]
    by (auto simp: ext_lookup_def keepOld_lookup new_map_lookup merged_def merge_entry_def split: option.splits)
  with old ok show ?thesis by (simp add: MergeExtensions_def newRequest_def req_Extension_def)
qed

lemma merge_fails:
  assumes "gsr_extensions gsr = Some m" and "mergeNew mergeFunc m (new_map exts) [] = Inl err"
  shows "MergeExtensions gsr exts mergeFunc = Inl err \<and>
     (\<exists>name oldData newData. mget m name = Some oldData \<and> ext_given exts name = Some newData \<and>
        mergeFunc name oldData newData = Inl err)"
  using mergeNew_error[OF assms(2) new_map_wf] assms
  by (fastforce simp: MergeExtensions_def merged_def new_map_lookup split: option.splits)

lemma merge_replace_ok:
  "MergeExtensions gsr exts (\<lambda>name oldData newData. Inr newData) = Inr (ReplaceExtensions gsr exts)"
proof -
  have "\<not> (\<exists>e. mergeNew (\<lambda>name oldData newData. Inr newData) m (new_map exts) [] = Inl e)" for m
    using mergeNew_error[OF _ new_map_wf, of "\<lambda>name oldData newData. Inr newData"]
    by (fastforce simp: merged_def split: option.splits)
  then have "\<exists>r. MergeExtensions gsr exts (\<lambda>name oldData newData. Inr newData) = Inr r"
    by (auto simp: MergeExtensions_def split: option.splits sum.splits)
  then show ?thesis by (auto simp: ReplaceExtensions_def)
qed

text \<open>Merging extensions into a request either fails with an error the merge function returned
  for a name that both have, or changes nothing of the request but its extensions, where a
  name in both carries the merged data, a new name the new data and an old name the old data;
  when the same new name is given twice the last one counts. \<^verbatim>\<open>ReplaceExtensions\<close> is the case
  where the new data always wins, which never fails.\<close>

theorem merge_extensions_lookup:
  "(case MergeExtensions gsr exts mergeFunc of
      Inl err \<Rightarrow> (\<exists>name oldData newData. ext_present gsr name = Some oldData \<and>
                   ext_given exts name = Some newData \<and> mergeFunc name oldData newData = Inl err)
    | Inr req \<Rightarrow>
        req\<lparr>gsr_extensions := gsr_extensions gsr\<rparr> = gsr \<and>
        (\<forall>name. req_Extension req name =
           merge_entry mergeFunc name (ext_present gsr name) (ext_given exts name))) \<and>
   MergeExtensions gsr exts (\<lambda>name oldData newData. Inr newData) = Inr (ReplaceExtensions gsr exts)"
proof (cases "gsr_extensions gsr")
  case None
  with merge_into_nil[OF None, of exts mergeFunc] show ?thesis
    by (auto simp: ext_present_def merge_replace_ok)
next
  case (Some m)
  show ?thesis
  proof (cases "mergeNew mergeFunc m (new_map exts) []")
    case (Inl err)
    from merge_fails[OF Some Inl] Some show ?thesis by (auto simp: ext_present_def merge_replace_ok)
  next
    case (Inr res)
    from merge_into_map[OF Some Inr] Some show ?thesis by (auto simp: ext_present_def merge_replace_ok)
  qed
qed

section \<open>The builder as a sequence of operations\<close>

datatype 'n b_op =
    OpAddRequest "'n gs_request"
  | OpAddBlock block
  | OpAddExtensionData request_id "'n ext_data"
  | OpAddLink request_id cid link_action
  | OpAddResponseCode request_id status_code
  | OpScrub "request_id list"

primrec b_apply :: "'n b_op \<Rightarrow> 'n builder \<Rightarrow> 'n builder" where
  "b_apply (OpAddRequest r) b = AddRequest b r"
| "b_apply (OpAddBlock blk) b = AddBlock b blk"
| "b_apply (OpAddExtensionData rid e) b = AddExtensionData b rid e"
| "b_apply (OpAddLink rid c act) b = AddLink b rid c act"
| "b_apply (OpAddResponseCode rid st) b = AddResponseCode b rid st"
| "b_apply (OpScrub rids) b = snd (ScrubResponses b rids)"

definition b_run :: "'n b_op list \<Rightarrow> 'n builder" where
  "b_run ops = fold b_apply ops NewBuilder"

text \<open>What the builder holds for one request: the links in order, the last status code, the
  extensions in order. \<open>None\<close> when the message would have no response for it.\<close>

type_synonym 'n response_part = "(link_metadatum list \<times> status_code option \<times> 'n ext_data list) option"

definition b_part :: "'n builder \<Rightarrow> request_id \<Rightarrow> 'n response_part" where
  "b_part b rid =
     map_option (\<lambda>links. (links, mget (b_completedResponses b) rid, mgetd [] (b_extensions b) rid))
       (mget (b_outgoingResponses b) rid)"

definition part_content :: "'n response_part \<Rightarrow> link_metadatum list \<times> status_code option \<times> 'n ext_data list" where
  "part_content part = (case part of None \<Rightarrow> ([], None, []) | Some c \<Rightarrow> c)"

fun part_step :: "request_id \<Rightarrow> 'n b_op \<Rightarrow> 'n response_part \<Rightarrow> 'n response_part" where
  "part_step rid (OpAddExtensionData r e) part =
     (if r = rid then (case part_content part of (ls, st, es) \<Rightarrow> Some (ls, st, es @ [e])) else part)"
| "part_step rid (OpAddLink r c act) part =
     (if r = rid
      then (case part_content part of (ls, st, es) \<Rightarrow> Some (ls @ [\<lparr>md_Link = c, md_Action = act\<rparr>], st, es))
      else part)"
| "part_step rid (OpAddResponseCode r code) part =
     (if r = rid then (case part_content part of (ls, st, es) \<Rightarrow> Some (ls, Some code, es)) else part)"
| "part_step rid (OpScrub rids) part = (if rid \<in> set rids then None else part)"
| "part_step rid _ part = part"

definition builder_inv :: "'n builder \<Rightarrow> bool" where
  "builder_inv b \<longleftrightarrow>
     mwf (b_outgoingResponses b) \<and> mwf (b_outgoingBlocks b) \<and>
     (\<forall>rid. mhas (b_completedResponses b) rid \<or> mhas (b_extensions b) rid \<longrightarrow>
        mhas (b_outgoingResponses b) rid) \<and>
     (\<forall>c blk. mget (b_outgoingBlocks b) c = Some blk \<longrightarrow> blk_Cid blk = c)"

lemma builder_inv_new: "builder_inv NewBuilder"
  by (simp add: builder_inv_def NewBuilder_def)

subsection \<open>Scrubbing\<close>

lemma dropAll_fields:
  fixes b :: "'n builder"
  defines "b1 rids \<equiv> foldl dropResponse b rids"
  shows "mget (b_outgoingResponses (b1 rids)) rid =
           (if rid \<in> set rids then None else mget (b_outgoingResponses b) rid)"
    and "mget (b_completedResponses (b1 rids)) rid =
           (if rid \<in> set rids then None else mget (b_completedResponses b) rid)"
    and "mget (b_extensions (b1 rids)) rid =
           (if rid \<in> set rids then None else mget (b_extensions b) rid)"
    and "b_outgoingBlocks (b1 rids) = b_outgoingBlocks b" and "b_blkSize (b1 rids) = b_blkSize b"
    and "b_requests (b1 rids) = b_requests b"
    and "mwf (b_outgoingResponses b) \<Longrightarrow> mwf (b_outgoingResponses (b1 rids))"
  unfolding b1_def
  by (induction rids rule: rev_induct) (auto simp: dropResponse_def)

text \<open>The scan that keeps the blocks still referenced as present.\<close>

definition keep_blocks :: "(cid, block) gomap \<Rightarrow> link_metadatum list \<Rightarrow> (cid, block) gomap \<times> u64" where
  "keep_blocks outgoing mds = foldl (saveBlock outgoing) ([], 0) mds"

lemma keep_blocks_spec:
  "mget (fst (keep_blocks outgoing mds)) c =
     (if \<lparr>md_Link = c, md_Action = LinkActionPresent\<rparr> \<in> set mds then mget outgoing c else None)"
  "mwf (fst (keep_blocks outgoing mds))"
  "snd (keep_blocks outgoing mds) = msum rawLen (fst (keep_blocks outgoing mds))"
proof (induction mds rule: rev_induct)
  case (snoc md mds)
  define s where "s = keep_blocks outgoing mds"
  have step: "keep_blocks outgoing (mds @ [md]) = saveBlock outgoing s md"
    by (simp add: keep_blocks_def s_def)
  note IH = snoc.IH[folded s_def]
  {
    case 1
    show ?case unfolding step using IH(1)
      by (cases md) (auto simp: saveBlock_def mhas_def split: option.splits if_splits)
  next
    case 2
    show ?case unfolding step using IH(2) by (auto simp: saveBlock_def split: option.splits)
  next
    case 3
    show ?case unfolding step using IH(2,3)
      by (auto simp: saveBlock_def mhas_def msum_mput msum_mdel_absent add.commute split: option.splits)
  }
qed (simp_all add: keep_blocks_def)

lemma scrub_fields:
  assumes "ScrubResponses b rids = (freed, b')"
  defines "kept \<equiv> keep_blocks (b_outgoingBlocks b)
                    (concat (mvals (b_outgoingResponses (foldl dropResponse b rids))))"
  shows "b' = (foldl dropResponse b rids)\<lparr>b_blkSize := snd kept, b_outgoingBlocks := fst kept\<rparr>"
    and "freed = b_blkSize b - snd kept"
proof -
  have flat: "foldl (\<lambda>sn (_, metadata). foldl f sn metadata) s m = foldl f s (concat (mvals m))"
    for f :: "(cid, block) gomap \<times> u64 \<Rightarrow> link_metadatum \<Rightarrow> (cid, block) gomap \<times> u64" and s
      and m :: "(request_id, link_metadatum list) gomap"
    by (induction m arbitrary: s) (auto simp: mvals_def)
  show "b' = (foldl dropResponse b rids)\<lparr>b_blkSize := snd kept, b_outgoingBlocks := fst kept\<rparr>"
    and "freed = b_blkSize b - snd kept"
    using assms(1)
    by (auto simp: ScrubResponses_def Let_def flat kept_def keep_blocks_def dropAll_fields
        split: prod.splits)
qed

lemma touch_fields:
  "mget (b_outgoingResponses (touchResponse b rid)) r =
     (if r = rid then Some (mgetd [] (b_outgoingResponses b) rid) else mget (b_outgoingResponses b) r)"
  "b_completedResponses (touchResponse b rid) = b_completedResponses b"
  "b_extensions (touchResponse b rid) = b_extensions b"
  "b_outgoingBlocks (touchResponse b rid) = b_outgoingBlocks b"
  "b_requests (touchResponse b rid) = b_requests b"
  "b_blkSize (touchResponse b rid) = b_blkSize b"
  "mwf (b_outgoingResponses b) \<Longrightarrow> mwf (b_outgoingResponses (touchResponse b rid))"
  by (auto simp: touchResponse_def mhas_def mgetd_def split: option.splits)

lemma builder_inv_scrub:
  assumes inv: "builder_inv b" and "ScrubResponses b rids = (freed, b')"
  shows "builder_inv b'"
proof -
  define mds where "mds = concat (mvals (b_outgoingResponses (foldl dropResponse b rids)))"
  note b' = scrub_fields(1)[OF assms(2), folded mds_def]
  have "mwf (fst (keep_blocks (b_outgoingBlocks b) mds))" by (rule keep_blocks_spec)
  moreover have "mwf (b_outgoingResponses (foldl dropResponse b rids))"
    using inv dropAll_fields(7) by (auto simp: builder_inv_def)
  ultimately show ?thesis
    using inv unfolding b' builder_inv_def
    by (auto simp: mhas_def dropAll_fields keep_blocks_spec(1) split: if_splits)
qed

lemma builder_inv_apply [gs_inv]: "builder_inv b \<Longrightarrow> builder_inv (b_apply op b)"
proof (cases op)
  case (OpScrub rids)
  then show "builder_inv b \<Longrightarrow> ?thesis"
    using builder_inv_scrub[OF _ surjective_pairing, of b rids] by simp
qed (auto simp: builder_inv_def AddRequest_def AddBlock_def AddExtensionData_def AddLink_def
      AddResponseCode_def mhas_def touch_fields split: if_splits)

lemma builder_inv_run: "builder_inv (b_run ops)"
  unfolding b_run_def by (induction ops rule: rev_induct) (auto simp: builder_inv_new gs_inv)

lemma part_apply:
  assumes inv: "builder_inv b"
  shows "b_part (b_apply op b) rid = part_step rid op (b_part b rid)"
proof -
  have none: "mget (b_completedResponses b) rid = None" "mget (b_extensions b) rid = None"
    if "mget (b_outgoingResponses b) rid = None"
    using inv that by (auto simp: builder_inv_def mhas_def)
  show ?thesis
  proof (cases op)
    case (OpScrub rids)
    obtain freed b' where "ScrubResponses b rids = (freed, b')" by fastforce
    with OpScrub show ?thesis using scrub_fields(1)[of b rids freed b']
      by (auto simp: b_part_def dropAll_fields mgetd_def)
  qed (use none in \<open>auto simp: b_part_def part_content_def AddRequest_def AddBlock_def
      AddExtensionData_def AddLink_def AddResponseCode_def touch_fields mgetd_def split: option.splits\<close>)
qed

lemma part_run: "b_part (b_run ops) rid = fold (part_step rid) ops None"
proof (induction ops rule: rev_induct)
  case Nil
  show ?case by (simp add: b_run_def NewBuilder_def b_part_def)
next
  case (snoc op ops)
  have "b_run (ops @ [op]) = b_apply op (b_run ops)" by (simp add: b_run_def)
  with snoc show ?case by (simp add: part_apply[OF builder_inv_run])
qed

lemma Build_response:
  assumes "builder_inv b"
  shows "mget (gsm_responses (Build b)) rid =
     map_option (\<lambda>(ls, code, es). NewResponse rid (case code of None \<Rightarrow> PartialResponse | Some st \<Rightarrow> st) ls es)
       (b_part b rid)"
proof -
  define g where "g = (\<lambda>(rid, linkMap). (rid, NewResponse rid
              (responseCode (mgetd 0 (b_completedResponses b) rid) (mhas (b_completedResponses b) rid))
              linkMap (mgetd [] (b_extensions b) rid)))"
  let ?m = "map g (b_outgoingResponses b)"
  have "map fst ?m = map fst (b_outgoingResponses b)" by (simp add: g_def case_prod_beta)
  then have wf: "mwf ?m" using assms unfolding builder_inv_def by metis
  have "gsm_responses (Build b) = mput_all [] ?m"
    unfolding Build_def g_def mput_all_def by (simp add: foldl_map case_prod_unfold Let_def)
  then have "mget (gsm_responses (Build b)) rid = mget ?m rid"
    using mget_mput_all_empty[OF wf] by simp
  also have "\<dots> = map_option (\<lambda>l. snd (g (rid, l))) (mget (b_outgoingResponses b) rid)"
  proof -
    have "mget (map g m) rid = map_option (\<lambda>l. snd (g (rid, l))) (mget m rid)" for m
      by (induction m) (auto simp: g_def)
    then show ?thesis by blast
  qed
  finally show ?thesis
    by (cases "mget (b_outgoingResponses b) rid"; cases "mget (b_completedResponses b) rid")
      (auto simp: b_part_def g_def responseCode_def mhas_def)
qed

text \<open>C10: For every sequence of builder operations and every request, the built message contains a
  response exactly when something was added for that request since it was last scrubbed; the
  response carries every link added since then in order, all extensions with the last data
  given for a name, and the last status code, or the code for a partial response when none was
  added.\<close>

theorem builder_build_refines:
  "mget (gsm_responses (Build (b_run ops))) rid =
     (case fold (part_step rid) ops None of
        None \<Rightarrow> None
      | Some (links, code, exts) \<Rightarrow>
          Some \<lparr>gsp_requestID = rid,
                gsp_status = (case code of None \<Rightarrow> PartialResponse | Some st \<Rightarrow> st),
                gsp_metadata = links,
                gsp_extensions = toExtensionsMap exts\<rparr>)"
  by (auto simp: Build_response[OF builder_inv_run] part_run NewResponse_def newResponse_def
      split: option.splits)

subsection \<open>Block accounting\<close>

definition added_size :: "'n b_op list \<Rightarrow> nat" where
  "added_size ops = (\<Sum>op \<leftarrow> ops. case op of OpAddBlock blk \<Rightarrow> length (blk_RawData blk) | _ \<Rightarrow> 0)"

definition blocks_size :: "(cid, block) gomap \<Rightarrow> nat" where
  "blocks_size m = msum (\<lambda>blk. length (blk_RawData blk)) m"

lemma blocks_size_mput_le:
  "mwf m \<Longrightarrow> blocks_size (mput c blk m) \<le> length (blk_RawData blk) + blocks_size m"
  by (cases "mget m c") (auto simp: blocks_size_def msum_mput msum_lookup[of m c] msum_mdel_absent)

text \<open>A sub-map is not larger.\<close>

lemma blocks_size_submap:
  assumes "mwf m" "mwf m'" "\<And>c blk. mget m' c = Some blk \<Longrightarrow> mget m c = Some blk"
  shows "blocks_size m' \<le> blocks_size m"
proof -
  have d: "distinct m" "distinct m'" using assms(1,2) unfolding distinct_map by blast+
  have "(c, blk) \<in> set m" if "(c, blk) \<in> set m'" for c blk
    using that assms(3) mwf_in_set[OF assms(1)] mwf_in_set[OF assms(2)] by blast
  then have "set m' \<subseteq> set m" by auto
  then have "mset_set (set m') \<subseteq># mset_set (set m)" by (rule subset_imp_msubset_mset_set) simp
  then have "mset m' \<subseteq># mset m" unfolding mset_set_set[OF d(1)] mset_set_set[OF d(2)] .
  then have "(\<Sum>e \<in># mset m'. length (blk_RawData (snd e))) \<le> (\<Sum>e \<in># mset m. length (blk_RawData (snd e)))"
    by (auto simp: subset_mset.le_iff_add)
  then show ?thesis by (simp add: blocks_size_def msum_mset)
qed

lemma msum_rawLen: "msum rawLen m = of_nat (blocks_size m)"
  unfolding blocks_size_def by (induction m) (simp_all add: rawLen_def)

lemma unat_msum_rawLen: "blocks_size m < 2 ^ 64 \<Longrightarrow> unat (msum rawLen m) = blocks_size m"
  by (simp add: msum_rawLen unat_of_nat_u64)

definition size_inv :: "nat \<Rightarrow> 'n builder \<Rightarrow> bool" where
  "size_inv bound b \<longleftrightarrow> blocks_size (b_outgoingBlocks b) \<le> unat (b_blkSize b) \<and> unat (b_blkSize b) \<le> bound"

lemma scrub_blocks:
  assumes inv: "builder_inv b" and scrub: "ScrubResponses b rids = (freed, b')"
  shows "mget (b_outgoingBlocks b') c =
           (if \<exists>rid mds. rid \<notin> set rids \<and> mget (b_outgoingResponses b) rid = Some mds \<and>
                \<lparr>md_Link = c, md_Action = LinkActionPresent\<rparr> \<in> set mds
            then mget (b_outgoingBlocks b) c else None)"
    and "blocks_size (b_outgoingBlocks b') \<le> blocks_size (b_outgoingBlocks b)"
    and "b_blkSize b' = msum rawLen (b_outgoingBlocks b')"
    and "freed = b_blkSize b - b_blkSize b'"
proof -
  define m where "m = b_outgoingResponses (foldl dropResponse b rids)"
  note b' = scrub_fields[OF scrub, folded m_def]
  have wf: "mwf m" unfolding m_def by (rule dropAll_fields(7)) (use inv in \<open>simp add: builder_inv_def\<close>)
  have "x \<in> set (concat (mvals m)) \<longleftrightarrow> (\<exists>rid mds. mget m rid = Some mds \<and> x \<in> set mds)" for x
    by (simp add: mvals_def mwf_in_set[OF wf, symmetric] Bex_def)
  moreover have "mget m rid = (if rid \<in> set rids then None else mget (b_outgoingResponses b) rid)" for rid
    unfolding m_def by (rule dropAll_fields)
  ultimately show look: "mget (b_outgoingBlocks b') c =
       (if \<exists>rid mds. rid \<notin> set rids \<and> mget (b_outgoingResponses b) rid = Some mds \<and>
                \<lparr>md_Link = c, md_Action = LinkActionPresent\<rparr> \<in> set mds
        then mget (b_outgoingBlocks b) c else None)" for c
    by (simp add: b' keep_blocks_spec(1)) (metis option.discI)
  show "blocks_size (b_outgoingBlocks b') \<le> blocks_size (b_outgoingBlocks b)"
    using inv builder_inv_scrub[OF inv scrub] look
    by (intro blocks_size_submap) (auto simp: builder_inv_def split: if_splits)
  show "b_blkSize b' = msum rawLen (b_outgoingBlocks b')" by (simp add: b' keep_blocks_spec(3))
  show "freed = b_blkSize b - b_blkSize b'" by (simp add: b')
qed

lemma size_inv_apply:
  assumes inv: "builder_inv b" and size: "size_inv n b"
    and fits: "n + added_size [op] < 2 ^ 64"
  shows "size_inv (n + added_size [op]) (b_apply op b)"
proof (cases op)
  case (OpAddBlock blk)
  let ?l = "length (blk_RawData blk)"
  have "unat (b_blkSize b) + ?l < 2 ^ 64" using fits size by (simp add: OpAddBlock added_size_def size_inv_def)
  moreover from this have l: "unat (rawLen blk) = ?l" by (simp add: rawLen_def unat_of_nat_u64)
  ultimately have "unat (b_blkSize b + rawLen blk) = unat (b_blkSize b) + ?l"
    by (subst unat_plus_no_wrap) simp_all
  with blocks_size_mput_le[of "b_outgoingBlocks b" "blk_Cid blk" blk] inv size show ?thesis
    by (simp add: OpAddBlock AddBlock_def size_inv_def added_size_def builder_inv_def)
next
  case (OpScrub rids)
  obtain freed b' where s: "ScrubResponses b rids = (freed, b')" by fastforce
  have "blocks_size (b_outgoingBlocks b') \<le> unat (b_blkSize b)" "unat (b_blkSize b) \<le> n"
    using scrub_blocks(2)[OF inv s] size by (simp_all add: size_inv_def)
  moreover from this have "unat (b_blkSize b') = blocks_size (b_outgoingBlocks b')"
    unfolding scrub_blocks(3)[OF inv s] by (intro unat_msum_rawLen) (use fits in linarith)
  ultimately show ?thesis using s by (simp add: OpScrub size_inv_def added_size_def)
qed (use size in \<open>simp_all add: size_inv_def added_size_def AddRequest_def AddExtensionData_def
      AddLink_def AddResponseCode_def touch_fields\<close>)

lemma size_inv_run: "added_size ops < 2 ^ 64 \<Longrightarrow> size_inv (added_size ops) (b_run ops)"
proof (induction ops rule: rev_induct)
  case Nil
  show ?case by (simp add: b_run_def NewBuilder_def size_inv_def added_size_def blocks_size_def)
next
  case (snoc op ops)
  have split: "added_size (ops @ [op]) = added_size ops + added_size [op]"
    by (simp add: added_size_def)
  have run: "b_run (ops @ [op]) = b_apply op (b_run ops)" by (simp add: b_run_def)
  have "size_inv (added_size ops) (b_run ops)" using snoc split by simp
  then show ?case
    unfolding split run using snoc.prems split by (intro size_inv_apply builder_inv_run) simp_all
qed

text \<open>C23: Scrubbing responses from a message keeps exactly the blocks that a remaining response
  still refers to as present, accounts the new size to be the size of those blocks, and reports
  as freed what the accounted size lost, without the subtraction wrapping around.\<close>

theorem scrub_responses_effect:
  assumes "added_size ops < 2 ^ 64" and "ScrubResponses (b_run ops) rids = (freed, b')"
  shows "(\<forall>c. mget (b_outgoingBlocks b') c =
            (if \<exists>rid mds. rid \<notin> set rids \<and> mget (b_outgoingResponses (b_run ops)) rid = Some mds \<and>
                 \<lparr>md_Link = c, md_Action = LinkActionPresent\<rparr> \<in> set mds
             then mget (b_outgoingBlocks (b_run ops)) c else None)) \<and>
         unat (BlockSize b') = blocks_size (b_outgoingBlocks b') \<and>
         unat freed + unat (BlockSize b') = unat (BlockSize (b_run ops))"
proof (intro conjI allI)
  note s = scrub_blocks[OF builder_inv_run assms(2)]
  have size: "blocks_size (b_outgoingBlocks b') \<le> unat (b_blkSize (b_run ops))"
    using s(2) size_inv_run[OF assms(1)] by (simp add: size_inv_def)
  show eq: "unat (BlockSize b') = blocks_size (b_outgoingBlocks b')"
    unfolding BlockSize_def s(3)
    by (rule unat_msum_rawLen, rule le_less_trans[OF size unat_u64_less])
  then have "b_blkSize b' \<le> b_blkSize (b_run ops)"
    using size by (simp add: BlockSize_def word_le_nat_alt)
  then show "unat freed + unat (BlockSize b') = unat (BlockSize (b_run ops))"
    unfolding s(4) by (simp add: BlockSize_def unat_minus_le word_le_nat_alt)
qed (rule scrub_blocks(1)[OF builder_inv_run assms(2)])

definition demo_b_ops :: "unit b_op list" where
  "demo_b_ops =
     [OpAddLink ''r1'' ''a'' LinkActionPresent, OpAddBlock \<lparr>blk_Cid = ''a'', blk_RawData = [1, 2]\<rparr>,
      OpAddLink ''r2'' ''b'' LinkActionPresent, OpAddBlock \<lparr>blk_Cid = ''b'', blk_RawData = [3]\<rparr>,
      OpAddResponseCode ''r2'' RequestCompletedFull]"

theorem scrub_responses_effect_witness:
  "added_size demo_b_ops < 2 ^ 64 \<and>
   unat (fst (ScrubResponses (b_run demo_b_ops) [''r1''])) +
     unat (BlockSize (snd (ScrubResponses (b_run demo_b_ops) [''r1'']))) =
     unat (BlockSize (b_run demo_b_ops)) \<and>
   fst (ScrubResponses (b_run demo_b_ops) [''r1'']) = 2"
proof -
  have "added_size demo_b_ops < 2 ^ 64" by (simp add: added_size_def demo_b_ops_def)
  moreover have "fst (ScrubResponses (b_run demo_b_ops) [''r1'']) = 2" by code_simp
  ultimately show ?thesis using scrub_responses_effect[OF _ surjective_pairing, of demo_b_ops "[''r1'']"] by simp
qed

end
