(* ===== verification/Message_Wire.thy ===== *)
theory Message_Wire
  imports Message
begin

text \<open>
  \<^verbatim>\<open>message/ipldbind/message.go\<close> and \<^verbatim>\<open>message/v2/message.go\<close>: the wire form of a message and
  the protocol-v2 handler that translates between the two and frames the encoded bytes.

  Parameters (third-party code): the UUID check of \<^verbatim>\<open>uuid.FromBytes\<close>, CID prefixes and hashing
  (\<^verbatim>\<open>Prefix().Bytes()\<close>, \<^verbatim>\<open>PrefixFromBytes\<close>, \<^verbatim>\<open>Sum\<close>), the block constructor
  \<^verbatim>\<open>NewBlockWithCid\<close>, the DAG-CBOR codec with bindnode, and the reader of \<^verbatim>\<open>go-msgio\<close>. They are the
  fields of \<open>wire_env\<close>. An optional field of the bound structs is an \<open>option\<close>.
\<close>

section \<open>Bound structures\<close>

record 'n ib_extensions =
  ibe_Keys :: "string list"
  ibe_Values :: "(string, 'n option) gomap"

record 'n ib_request =
  ibq_Id :: bytes
  ibq_RequestType :: request_type
  ibq_Priority :: "priority option"
  ibq_Root :: "cid option"
  ibq_Selector :: "'n option"
  ibq_Extensions :: "'n ib_extensions option"

record 'n ib_response =
  ibp_Id :: bytes
  ibp_Status :: status_code
  ibp_Metadata :: "link_metadatum list option"
  ibp_Extensions :: "'n ib_extensions option"

record ib_block =
  ibb_Prefix :: bytes
  ibb_Data :: bytes

record 'n ib_message =
  ibm_Requests :: "'n ib_request list option"
  ibm_Responses :: "'n ib_response list option"
  ibm_Blocks :: "ib_block list option"

record 'n ib_root =
  Gs2 :: "'n ib_message option"

text \<open>\<^verbatim>\<open>NewGraphSyncExtensions\<close> on the names and the accessor of a request or response.\<close>

definition NewGraphSyncExtensions ::
  "ext_name list \<Rightarrow> (ext_name \<Rightarrow> 'n option \<times> bool) \<Rightarrow> 'n ib_extensions option" where
  "NewGraphSyncExtensions names extension =
     (if length names = 0 then None
      else
        let (keys, vals) =
          foldl (\<lambda>(keys, vals) name.
                   let (data, _) = extension name
                   in (keys @ [name], mput name (case data of None \<Rightarrow> None | Some d \<Rightarrow> Some d) vals))
            ([], []) names
        in Some \<lparr>ibe_Keys = keys, ibe_Values = vals\<rparr>)"

definition ToExtensionsList :: "'n ib_extensions \<Rightarrow> 'n ext_data list" where
  "ToExtensionsList gse =
     foldl (\<lambda>exts (name, data).
        case data of
          None \<Rightarrow> exts @ [\<lparr>ed_Name = name, ed_Data = None\<rparr>]
        | Some d \<Rightarrow> exts @ [\<lparr>ed_Name = name, ed_Data = Some d\<rparr>]) [] (ibe_Values gse)"

section \<open>The handler\<close>

record 'n wire_env =
  uuidOk :: "bytes \<Rightarrow> bool"
  cidPrefixBytes :: "cid \<Rightarrow> bytes"
  prefixFromBytes :: "bytes \<Rightarrow> gs_error + bytes"
  prefixSum :: "bytes \<Rightarrow> bytes \<Rightarrow> gs_error + cid"
  newBlockWithCid :: "bytes \<Rightarrow> cid \<Rightarrow> gs_error + block"
  encodeCbor :: "'n ib_root \<Rightarrow> gs_error + bytes"
  decodeCbor :: "bytes \<Rightarrow> gs_error + 'n ib_root"
  readMsg :: "bytes \<Rightarrow> gs_error + bytes"

text \<open>A request ID is the string of its bytes.\<close>

definition rid_Bytes :: "request_id \<Rightarrow> bytes" where
  "rid_Bytes r = map of_char r"

definition bytes_rid :: "bytes \<Rightarrow> request_id" where
  "bytes_rid b = map char_of b"

definition ParseRequestID :: "'n wire_env \<Rightarrow> bytes \<Rightarrow> gs_error + request_id" where
  "ParseRequestID E b =
     (if \<not> uuidOk E b then Inl (OtherErr ''invalid UUID'') else Inr (bytes_rid b))"

definition toIPLD_request :: "'n gs_request \<Rightarrow> 'n ib_request" where
  "toIPLD_request request =
     (let req = \<lparr>ibq_Id = rid_Bytes (gsr_id request), ibq_RequestType = gsr_requestType request,
                 ibq_Priority = None, ibq_Root = None, ibq_Selector = None,
                 ibq_Extensions = NewGraphSyncExtensions (req_ExtensionNames request)
                                    (req_Extension request)\<rparr>;
          req = (if gsr_root request \<noteq> cid_Undef then req\<lparr>ibq_Root := Some (gsr_root request)\<rparr> else req);
          req = (case gsr_selector request of
                   Some selector \<Rightarrow> req\<lparr>ibq_Selector := Some selector\<rparr> | None \<Rightarrow> req)
      in if gsr_priority request \<noteq> 0 then req\<lparr>ibq_Priority := Some (gsr_priority request)\<rparr> else req)"

definition toIPLD_response :: "'n gs_response \<Rightarrow> 'n ib_response" where
  "toIPLD_response response =
     (let res = \<lparr>ibp_Id = rid_Bytes (gsp_requestID response), ibp_Status = gsp_status response,
                 ibp_Metadata = None,
                 ibp_Extensions = NewGraphSyncExtensions (resp_ExtensionNames response)
                                    (resp_Extension response)\<rparr>
      in if length (gsp_metadata response) > 0
         then res\<lparr>ibp_Metadata := Some (gsp_metadata response)\<rparr> else res)"

definition toIPLD :: "'n wire_env \<Rightarrow> 'n gs_message \<Rightarrow> 'n ib_root" where
  "toIPLD E gsm =
     (let ibm = \<lparr>ibm_Requests = None, ibm_Responses = None, ibm_Blocks = None\<rparr>;
          ibm = (if length (Requests gsm) > 0
                 then ibm\<lparr>ibm_Requests := Some (map toIPLD_request (Requests gsm))\<rparr> else ibm);
          ibm = (if length (Responses gsm) > 0
                 then ibm\<lparr>ibm_Responses := Some (map toIPLD_response (Responses gsm))\<rparr> else ibm);
          ibm = (if length (Blocks gsm) > 0
                 then ibm\<lparr>ibm_Blocks := Some (map (\<lambda>b. \<lparr>ibb_Prefix = cidPrefixBytes E (blk_Cid b),
                                                        ibb_Data = blk_RawData b\<rparr>) (Blocks gsm))\<rparr>
                 else ibm)
      in \<lparr>Gs2 = Some ibm\<rparr>)"

fun fromIPLD_requests ::
  "'n wire_env \<Rightarrow> 'n ib_request list \<Rightarrow> (request_id, 'n gs_request) gomap \<Rightarrow>
   gs_error + (request_id, 'n gs_request) gomap" where
  "fromIPLD_requests E [] requests = Inr requests"
| "fromIPLD_requests E (req # rest) requests =
     (case ParseRequestID E (ibq_Id req) of
        Inl err \<Rightarrow> Inl err
      | Inr rid \<Rightarrow>
          if ibq_RequestType req = RequestTypeCancel
          then fromIPLD_requests E rest (mput rid (NewCancelRequest rid) requests)
          else
            let ext = (case ibq_Extensions req of None \<Rightarrow> [] | Some e \<Rightarrow> ToExtensionsList e)
            in if ibq_RequestType req = RequestTypeUpdate
               then fromIPLD_requests E rest (mput rid (NewUpdateRequest rid ext) requests)
               else
                 let root = (case ibq_Root req of None \<Rightarrow> cid_Undef | Some r \<Rightarrow> r);
                     selector = (case ibq_Selector req of None \<Rightarrow> None | Some s \<Rightarrow> Some s);
                     prio = (case ibq_Priority req of None \<Rightarrow> 0 | Some p \<Rightarrow> p)
                 in fromIPLD_requests E rest
                      (mput rid (NewRequest rid root selector prio ext) requests))"

fun fromIPLD_responses ::
  "'n wire_env \<Rightarrow> 'n ib_response list \<Rightarrow> (request_id, 'n gs_response) gomap \<Rightarrow>
   gs_error + (request_id, 'n gs_response) gomap" where
  "fromIPLD_responses E [] responses = Inr responses"
| "fromIPLD_responses E (res # rest) responses =
     (case ParseRequestID E (ibp_Id res) of
        Inl err \<Rightarrow> Inl err
      | Inr rid \<Rightarrow>
          let md = (case ibp_Metadata res of None \<Rightarrow> [] | Some m \<Rightarrow> m);
              ext = (case ibp_Extensions res of None \<Rightarrow> [] | Some e \<Rightarrow> ToExtensionsList e)
          in fromIPLD_responses E rest (mput rid (NewResponse rid (ibp_Status res) md ext) responses))"

fun fromIPLD_blocks ::
  "'n wire_env \<Rightarrow> ib_block list \<Rightarrow> (cid, block) gomap \<Rightarrow> gs_error + (cid, block) gomap" where
  "fromIPLD_blocks E [] blks = Inr blks"
| "fromIPLD_blocks E (b # rest) blks =
     (case prefixFromBytes E (ibb_Prefix b) of
        Inl err \<Rightarrow> Inl err
      | Inr pref \<Rightarrow>
          (case prefixSum E pref (ibb_Data b) of
             Inl err \<Rightarrow> Inl err
           | Inr c \<Rightarrow>
               (case newBlockWithCid E (ibb_Data b) c of
                  Inl err \<Rightarrow> Inl err
                | Inr blk \<Rightarrow> fromIPLD_blocks E rest (mput (blk_Cid blk) blk blks))))"

definition fromIPLD :: "'n wire_env \<Rightarrow> 'n ib_root \<Rightarrow> gs_error + 'n gs_message" where
  "fromIPLD E ibm =
     (case Gs2 ibm of
        None \<Rightarrow> Inl (OtherErr ''invalid GraphSyncMessageRoot, no inner message'')
      | Some gs2 \<Rightarrow>
          (case (case ibm_Requests gs2 of None \<Rightarrow> Inr [] | Some rs \<Rightarrow> fromIPLD_requests E rs []) of
             Inl err \<Rightarrow> Inl err
           | Inr requests \<Rightarrow>
               (case (case ibm_Responses gs2 of None \<Rightarrow> Inr [] | Some rs \<Rightarrow> fromIPLD_responses E rs []) of
                  Inl err \<Rightarrow> Inl err
                | Inr responses \<Rightarrow>
                    (case (case ibm_Blocks gs2 of None \<Rightarrow> Inr [] | Some bs \<Rightarrow> fromIPLD_blocks E bs []) of
                       Inl err \<Rightarrow> Inl err
                     | Inr blks \<Rightarrow> Inr (NewMessage requests responses blks)))))"

text \<open>\<^verbatim>\<open>binary.PutUvarint\<close>: seven bits per byte, least significant first, and the two byte buffers of
  \<^verbatim>\<open>ToNet\<close>. \<open>put_at i bs out\<close> is \<^verbatim>\<open>copy(out[i:], bs)\<close>.\<close>

fun uvarint :: "nat \<Rightarrow> bytes" where
  "uvarint x = (if x \<ge> 128 then (x mod 128 + 128) # uvarint (x div 128) else [x])"

declare uvarint.simps [simp del]

definition put_at :: "nat \<Rightarrow> bytes \<Rightarrow> bytes \<Rightarrow> bytes" where
  "put_at i bs out =
     (let n = min (length bs) (length out - i)
      in take i out @ take n bs @ drop (i + n) out)"

definition MaxVarintLen64 :: nat where "MaxVarintLen64 = 10"

definition ToNet :: "'n wire_env \<Rightarrow> 'n gs_message \<Rightarrow> gs_error + bytes" where
  "ToNet E gsm =
     (let lbuf = replicate MaxVarintLen64 0 in
      case encodeCbor E (toIPLD E gsm) of
        Inl err \<Rightarrow> Inl err
      | Inr payload \<Rightarrow>
          let buf = lbuf @ payload;
              lbuf' = put_at 0 (uvarint (length buf - MaxVarintLen64)) lbuf;
              lbuflen = length (uvarint (length buf - MaxVarintLen64));
              out = put_at (MaxVarintLen64 - lbuflen) (take lbuflen lbuf') buf
          in Inr (drop (MaxVarintLen64 - lbuflen) out))"

definition FromMsgReader :: "'n wire_env \<Rightarrow> bytes \<Rightarrow> gs_error + 'n gs_message" where
  "FromMsgReader E r =
     (case readMsg E r of
        Inl err \<Rightarrow> Inl err
      | Inr msg \<Rightarrow>
          (case decodeCbor E msg of
             Inl err \<Rightarrow> Inl err
           | Inr ipldGSM \<Rightarrow> fromIPLD E ipldGSM))"

definition FromNet :: "'n wire_env \<Rightarrow> bytes \<Rightarrow> gs_error + 'n gs_message" where
  "FromNet E r = FromMsgReader E r"

section \<open>Round trip\<close>

text \<open>Messages as the rest of the program builds them: no empty (but non-nil) extension map, cancel
  and update requests with nothing but what they carry, entries filed under their own ID, and
  blocks whose CID is the hash of their data.\<close>

definition ext_normal :: "'n ext_map option \<Rightarrow> bool" where
  "ext_normal exts \<longleftrightarrow> (case exts of None \<Rightarrow> True | Some m \<Rightarrow> m \<noteq> [] \<and> mwf m)"

definition request_normal :: "'n gs_request \<Rightarrow> bool" where
  "request_normal r \<longleftrightarrow> ext_normal (gsr_extensions r) \<and>
     (case gsr_requestType r of
        RequestTypeNew \<Rightarrow> True
      | RequestTypeCancel \<Rightarrow> r = NewCancelRequest (gsr_id r)
      | RequestTypeUpdate \<Rightarrow> gsr_root r = cid_Undef \<and> gsr_selector r = None \<and> gsr_priority r = 0)"

definition block_certified :: "'n wire_env \<Rightarrow> block \<Rightarrow> bool" where
  "block_certified E blk \<longleftrightarrow>
     (\<exists>pref. prefixFromBytes E (cidPrefixBytes E (blk_Cid blk)) = Inr pref \<and>
             prefixSum E pref (blk_RawData blk) = Inr (blk_Cid blk)) \<and>
     newBlockWithCid E (blk_RawData blk) (blk_Cid blk) = Inr blk"

definition wire_ok :: "'n wire_env \<Rightarrow> 'n gs_message \<Rightarrow> bool" where
  "wire_ok E gsm \<longleftrightarrow>
     mwf (gsm_requests gsm) \<and> mwf (gsm_responses gsm) \<and> mwf (gsm_blocks gsm) \<and>
     (\<forall>(rid, r) \<in> set (gsm_requests gsm).
        gsr_id r = rid \<and> uuidOk E (rid_Bytes rid) \<and> request_normal r) \<and>
     (\<forall>(rid, r) \<in> set (gsm_responses gsm).
        gsp_requestID r = rid \<and> uuidOk E (rid_Bytes rid) \<and> ext_normal (gsp_extensions r)) \<and>
     (\<forall>(c, blk) \<in> set (gsm_blocks gsm). blk_Cid blk = c \<and> block_certified E blk)"

lemma ToExtensionsList_map:
  "ToExtensionsList gse = map (\<lambda>(n, d). \<lparr>ed_Name = n, ed_Data = d\<rparr>) (ibe_Values gse)"
proof -
  have "foldl (\<lambda>exts (name, data). case data of
          None \<Rightarrow> exts @ [\<lparr>ed_Name = name, ed_Data = None\<rparr>]
        | Some d \<Rightarrow> exts @ [\<lparr>ed_Name = name, ed_Data = Some d\<rparr>]) acc m =
      acc @ map (\<lambda>(n, d). \<lparr>ed_Name = n, ed_Data = d\<rparr>) m" for acc and m :: "(string \<times> 'a option) list"
    by (induction m arbitrary: acc) (auto split: option.splits)
  then show ?thesis by (simp add: ToExtensionsList_def)
qed

lemma toExtensionsMap_list:
  "m \<noteq> [] \<Longrightarrow> mwf m \<Longrightarrow> toExtensionsMap (map (\<lambda>(n, d). \<lparr>ed_Name = n, ed_Data = d\<rparr>) m) = Some m"
proof -
  have "foldl (\<lambda>m e. mput (ed_Name e) (ed_Data e) m) acc (map (\<lambda>(n, d). \<lparr>ed_Name = n, ed_Data = d\<rparr>) m) =
      mput_all acc m" for acc
    by (induction m arbitrary: acc) auto
  then show "m \<noteq> [] \<Longrightarrow> mwf m \<Longrightarrow> ?thesis" by (simp add: toExtensionsMap_def mput_all_self)
qed

lemma NewGraphSyncExtensions_some:
  assumes "m \<noteq> []" "mwf m"
  shows "NewGraphSyncExtensions (mkeys m) (ext_lookup (Some m)) =
    Some \<lparr>ibe_Keys = mkeys m, ibe_Values = m\<rparr>"
proof -
  have "foldl (\<lambda>(keys, vals) name. let (data, _) = ext_lookup (Some m) name
           in (keys @ [name], mput name (case data of None \<Rightarrow> None | Some d \<Rightarrow> Some d) vals)) (ks, vs) (mkeys xs)
      = (ks @ mkeys xs, mput_all vs xs)" if "set xs \<subseteq> set m" for ks vs xs
    using that
  proof (induction xs arbitrary: ks vs)
    case (Cons e xs)
    obtain k v where e: "e = (k, v)" by (cases e)
    have "mget m k = Some v" using Cons.prems e mwf_in_set[OF assms(2)] by simp
    then have "ext_lookup (Some m) k = (v, True)" by (simp add: ext_lookup_def)
    moreover have "(case v of None \<Rightarrow> None | Some d \<Rightarrow> Some d) = v" by (simp split: option.splits)
    ultimately show ?case using Cons e by (simp add: mkeys_def)
  qed (simp add: mkeys_def)
  from this[OF subset_refl, of "[]" "[]"] show ?thesis
    using assms by (simp add: NewGraphSyncExtensions_def mput_all_self) (simp add: mkeys_def)
qed

lemma ext_roundtrip:
  "ext_normal exts \<Longrightarrow>
   toExtensionsMap (case NewGraphSyncExtensions (ext_names exts) (ext_lookup exts) of
                      None \<Rightarrow> [] | Some e \<Rightarrow> ToExtensionsList e) = exts"
  by (cases exts)
    (simp_all add: ext_normal_def ext_names_def NewGraphSyncExtensions_some ToExtensionsList_map
      toExtensionsMap_list, simp add: NewGraphSyncExtensions_def toExtensionsMap_def)

lemma rid_roundtrip [simp]: "bytes_rid (rid_Bytes r) = r"
  by (simp add: bytes_rid_def rid_Bytes_def comp_def)

lemma request_roundtrip:
  assumes "uuidOk E (rid_Bytes (gsr_id r))" "request_normal r"
  shows "fromIPLD_requests E (toIPLD_request r # rest) acc = fromIPLD_requests E rest (mput (gsr_id r) r acc)"
proof -
  have *: "toExtensionsMap (case NewGraphSyncExtensions (req_ExtensionNames r) (req_Extension r) of
                      None \<Rightarrow> [] | Some e \<Rightarrow> ToExtensionsList e) = gsr_extensions r"
    using ext_roundtrip[of "gsr_extensions r"] assms(2)
    by (simp add: request_normal_def req_ExtensionNames_def req_Extension_def[abs_def])
  have p: "ParseRequestID E (ibq_Id (toIPLD_request r)) = Inr (gsr_id r)"
    using assms(1) by (simp add: ParseRequestID_def toIPLD_request_def Let_def split: option.splits)
  have f: "ibq_RequestType (toIPLD_request r) = gsr_requestType r"
    "ibq_Extensions (toIPLD_request r) = NewGraphSyncExtensions (req_ExtensionNames r) (req_Extension r)"
    "(case ibq_Root (toIPLD_request r) of None \<Rightarrow> cid_Undef | Some c \<Rightarrow> c) = gsr_root r"
    "(case ibq_Selector (toIPLD_request r) of None \<Rightarrow> None | Some s \<Rightarrow> Some s) = gsr_selector r"
    "(case ibq_Priority (toIPLD_request r) of None \<Rightarrow> 0 | Some p \<Rightarrow> p) = gsr_priority r"
    by (simp_all add: toIPLD_request_def Let_def split: option.splits)
  show ?thesis
  proof (cases "gsr_requestType r")
    case RequestTypeNew
    then have "NewRequest (gsr_id r) (gsr_root r) (gsr_selector r) (gsr_priority r)
        (case NewGraphSyncExtensions (req_ExtensionNames r) (req_Extension r) of
           None \<Rightarrow> [] | Some e \<Rightarrow> ToExtensionsList e) = r"
      using * by (simp add: NewRequest_def newRequest_def)
    with RequestTypeNew show ?thesis by (simp add: p f Let_def)
  next
    case RequestTypeCancel
    with assms(2) have "NewCancelRequest (gsr_id r) = r" by (simp add: request_normal_def)
    with RequestTypeCancel show ?thesis by (simp add: p f)
  next
    case RequestTypeUpdate
    with assms(2) have "NewUpdateRequest (gsr_id r)
        (case NewGraphSyncExtensions (req_ExtensionNames r) (req_Extension r) of
           None \<Rightarrow> [] | Some e \<Rightarrow> ToExtensionsList e) = r"
      using * by (simp add: request_normal_def NewUpdateRequest_def newRequest_def)
    with RequestTypeUpdate show ?thesis by (simp add: p f Let_def)
  qed
qed

lemma requests_roundtrip:
  assumes "\<And>rid r. (rid, r) \<in> set m \<Longrightarrow> gsr_id r = rid \<and> uuidOk E (rid_Bytes rid) \<and> request_normal r"
  shows "fromIPLD_requests E (map toIPLD_request (mvals m)) acc = Inr (mput_all acc m)"
  using assms
proof (induction m arbitrary: acc)
  case (Cons e m)
  obtain rid r where e: "e = (rid, r)" by (cases e)
  then have "gsr_id r = rid" "uuidOk E (rid_Bytes (gsr_id r))" "request_normal r"
    using Cons.prems[of rid r] by auto
  moreover have "mvals (e # m) = r # mvals m" by (simp add: mvals_def e)
  moreover have "fromIPLD_requests E (map toIPLD_request (mvals m)) (mput rid r acc) =
      Inr (mput_all (mput rid r acc) m)" by (rule Cons.IH) (rule Cons.prems[OF list.set_intros(2)])
  ultimately show ?case unfolding e by (simp only: list.map request_roundtrip mput_all_simps)
qed (simp add: mvals_def)

lemma responses_roundtrip:
  assumes "\<And>rid r. (rid, r) \<in> set m \<Longrightarrow>
      gsp_requestID r = rid \<and> uuidOk E (rid_Bytes rid) \<and> ext_normal (gsp_extensions r)"
  shows "fromIPLD_responses E (map toIPLD_response (mvals m)) acc = Inr (mput_all acc m)"
  using assms
proof (induction m arbitrary: acc)
  case (Cons e m)
  obtain rid r where e: "e = (rid, r)" by (cases e)
  then have ok: "gsp_requestID r = rid" "uuidOk E (rid_Bytes rid)" "ext_normal (gsp_extensions r)"
    using Cons.prems[of rid r] by auto
  have *: "toExtensionsMap (case NewGraphSyncExtensions (resp_ExtensionNames r) (resp_Extension r) of
                      None \<Rightarrow> [] | Some e \<Rightarrow> ToExtensionsList e) = gsp_extensions r"
    using ext_roundtrip[OF ok(3)]
    by (simp add: resp_ExtensionNames_def resp_Extension_def[abs_def])
  have "fromIPLD_responses E (toIPLD_response r # rest) acc = fromIPLD_responses E rest (mput rid r acc)"
    for rest using ok * by (cases r)
      (auto simp: toIPLD_response_def ParseRequestID_def Let_def NewResponse_def newResponse_def
        split: option.splits)
  moreover have "mvals (e # m) = r # mvals m" by (simp add: mvals_def e)
  moreover have "fromIPLD_responses E (map toIPLD_response (mvals m)) (mput rid r acc) =
      Inr (mput_all (mput rid r acc) m)" by (rule Cons.IH) (rule Cons.prems[OF list.set_intros(2)])
  ultimately show ?case unfolding e by (simp only: list.map mput_all_simps)
qed (simp add: mvals_def)

lemma blocks_roundtrip:
  assumes "\<And>c blk. (c, blk) \<in> set m \<Longrightarrow> blk_Cid blk = c \<and> block_certified E blk"
  shows "fromIPLD_blocks E (map (\<lambda>b. \<lparr>ibb_Prefix = cidPrefixBytes E (blk_Cid b),
            ibb_Data = blk_RawData b\<rparr>) (mvals m)) acc = Inr (mput_all acc m)"
  using assms
proof (induction m arbitrary: acc)
  case (Cons e m)
  obtain c blk where e: "e = (c, blk)" by (cases e)
  then have ok: "blk_Cid blk = c" "block_certified E blk" using Cons.prems[of c blk] by auto
  have "fromIPLD_blocks E (map (\<lambda>b. \<lparr>ibb_Prefix = cidPrefixBytes E (blk_Cid b),
            ibb_Data = blk_RawData b\<rparr>) (mvals m)) (mput c blk acc) = Inr (mput_all (mput c blk acc) m)"
    by (rule Cons.IH) (rule Cons.prems[OF list.set_intros(2)])
  with ok show ?case by (auto simp: e mvals_def block_certified_def)
qed (simp add: mvals_def)

lemma ipld_roundtrip: "wire_ok E gsm \<Longrightarrow> fromIPLD E (toIPLD E gsm) = Inr gsm"
proof -
  assume ok: "wire_ok E gsm"
  have wf: "mwf (gsm_requests gsm)" "mwf (gsm_responses gsm)" "mwf (gsm_blocks gsm)"
    using ok by (simp_all add: wire_ok_def)
  have "fromIPLD_requests E (map toIPLD_request (mvals (gsm_requests gsm))) [] =
      Inr (mput_all [] (gsm_requests gsm))"
    by (rule requests_roundtrip) (use ok in \<open>auto simp: wire_ok_def\<close>)
  moreover have "fromIPLD_responses E (map toIPLD_response (mvals (gsm_responses gsm))) [] =
      Inr (mput_all [] (gsm_responses gsm))"
    by (rule responses_roundtrip) (use ok in \<open>auto simp: wire_ok_def\<close>)
  moreover have "fromIPLD_blocks E (map (\<lambda>b. \<lparr>ibb_Prefix = cidPrefixBytes E (blk_Cid b),
            ibb_Data = blk_RawData b\<rparr>) (mvals (gsm_blocks gsm))) [] = Inr (mput_all [] (gsm_blocks gsm))"
    by (rule blocks_roundtrip) (use ok in \<open>auto simp: wire_ok_def\<close>)
  ultimately show ?thesis
    unfolding mput_all_self[OF wf(1)] mput_all_self[OF wf(2)] mput_all_self[OF wf(3)]
    by (cases gsm) (auto simp: fromIPLD_def toIPLD_def Let_def accessors NewMessage_def mvals_def)
qed

section \<open>Framing\<close>

lemma uvarint_length: "x < 128 ^ Suc k \<Longrightarrow> length (uvarint x) \<le> Suc k"
proof (induction k arbitrary: x)
  case 0
  then show ?case by (subst uvarint.simps) simp
next
  case (Suc k)
  show ?case
  proof (cases "x \<ge> 128")
    case True
    have "x div 128 < 128 ^ Suc k" using Suc.prems by (simp add: less_mult_imp_div_less)
    from Suc.IH[OF this] True show ?thesis by (subst uvarint.simps) simp
  qed (subst uvarint.simps, simp)
qed

text \<open>The placeholder bytes of the buffer are overwritten so that the length stands directly before
  the payload.\<close>

lemma frame_buffer:
  assumes "length v \<le> n"
  shows "drop (n - length v)
           (put_at (n - length v) (take (length v) (put_at 0 v (replicate n 0))) (replicate n 0 @ payload)) =
         v @ payload"
  using assms by (simp add: put_at_def min_def)

lemma ToNet_frame:
  assumes enc: "encodeCbor E (toIPLD E gsm) = Inr payload" and len: "length payload < 2 ^ 64"
  shows "ToNet E gsm = Inr (uvarint (length payload) @ payload)"
proof -
  have "(2::nat) ^ 64 \<le> 128 ^ Suc 9" by simp
  with len have "length payload < 128 ^ Suc 9" by (rule less_le_trans)
  then have l: "length (uvarint (length payload)) \<le> MaxVarintLen64"
    unfolding MaxVarintLen64_def using uvarint_length[of "length payload" 9] by linarith
  show ?thesis
    unfolding ToNet_def Let_def enc by (simp add: frame_buffer[OF l])
qed

text \<open>C14: A message written to the network with the v2 protocol and read back is the same message,
  requests, responses, metadata, extensions and blocks alike, given that the CBOR codec returns
  what it encoded, that the reader returns the payload of a length-prefixed frame, and that the
  blocks hash to their CIDs.\<close>

theorem message_wire_roundtrip:
  assumes "wire_ok E gsm"
    and "encodeCbor E (toIPLD E gsm) = Inr payload" and "length payload < 2 ^ 64"
    and "decodeCbor E payload = Inr (toIPLD E gsm)"
    and "readMsg E (uvarint (length payload) @ payload) = Inr payload"
  shows "\<exists>out. ToNet E gsm = Inr out \<and> FromNet E out = Inr gsm"
  using ToNet_frame[OF assms(2,3)] assms ipld_roundtrip[OF assms(1)]
  by (simp add: FromNet_def FromMsgReader_def)

section \<open>What a received message guarantees\<close>

text \<open>The request a wire request stands for, once its ID is parsed.\<close>

definition request_of :: "request_id \<Rightarrow> 'n ib_request \<Rightarrow> 'n gs_request" where
  "request_of rid req =
     (let ext = (case ibq_Extensions req of None \<Rightarrow> [] | Some e \<Rightarrow> ToExtensionsList e)
      in case ibq_RequestType req of
           RequestTypeCancel \<Rightarrow> NewCancelRequest rid
         | RequestTypeUpdate \<Rightarrow> NewUpdateRequest rid ext
         | RequestTypeNew \<Rightarrow>
             NewRequest rid (case ibq_Root req of None \<Rightarrow> cid_Undef | Some r \<Rightarrow> r)
               (case ibq_Selector req of None \<Rightarrow> None | Some s \<Rightarrow> Some s)
               (case ibq_Priority req of None \<Rightarrow> 0 | Some p \<Rightarrow> p) ext)"

lemma fromIPLD_requests_step:
  "fromIPLD_requests E (req # rest) acc =
     (case ParseRequestID E (ibq_Id req) of
        Inl err \<Rightarrow> Inl err
      | Inr rid \<Rightarrow> fromIPLD_requests E rest (mput rid (request_of rid req) acc))"
  by (cases "ibq_RequestType req") (simp_all add: request_of_def Let_def split: sum.split)

lemma toExtensionsMap_normal: "ext_normal (toExtensionsMap ext)"
proof (cases "toExtensionsMap ext")
  case (Some m)
  then have "ext \<noteq> []" by (auto simp: toExtensionsMap_def split: if_splits)
  then have "ext_lookup (Some m) (ed_Name (last ext)) \<noteq> (None, False)"
    using toExtensionsMap_lookup[of ext "ed_Name (last ext)"] Some
    by (cases ext rule: rev_cases) simp_all
  then have "m \<noteq> []" by (auto simp: ext_lookup_def)
  with Some toExtensionsMap_wf show ?thesis by (auto simp: ext_normal_def)
qed (simp add: ext_normal_def)

lemma request_of_normal: "gsr_id (request_of rid req) = rid \<and> request_normal (request_of rid req)"
proof -
  have "ext_normal None" by (simp add: ext_normal_def)
  then show ?thesis
    by (cases "ibq_RequestType req")
      (simp_all add: request_of_def Let_def NewCancelRequest_def NewUpdateRequest_def NewRequest_def
        newRequest_def request_normal_def toExtensionsMap_normal)
qed

lemma fromIPLD_requests_keys:
  assumes "fromIPLD_requests E rs acc = Inr m" and "mget m rid = Some r"
    and "\<forall>rid r. mget acc rid = Some r \<longrightarrow> gsr_id r = rid \<and> request_normal r"
  shows "gsr_id r = rid \<and> request_normal r"
  using assms
proof (induction rs arbitrary: acc)
  case (Cons req rest)
  obtain i where i: "fromIPLD_requests E rest (mput i (request_of i req) acc) = Inr m"
    using Cons.prems(1)[unfolded fromIPLD_requests_step] by (auto split: sum.splits)
  show ?case
    by (rule Cons.IH[OF i Cons.prems(2)]) (use Cons.prems(3) request_of_normal in auto)
qed simp

lemma fromIPLD_responses_keys:
  assumes "fromIPLD_responses E rs acc = Inr m" and "mget m rid = Some r"
    and "\<forall>rid r. mget acc rid = Some r \<longrightarrow> gsp_requestID r = rid"
  shows "gsp_requestID r = rid"
  using assms
proof (induction rs arbitrary: acc)
  case (Cons res rest)
  obtain i st md ext where i: "fromIPLD_responses E rest (mput i (NewResponse i st md ext) acc) = Inr m"
    using Cons.prems(1) by (auto simp: Let_def split: sum.splits)
  show ?case
    by (rule Cons.IH[OF i Cons.prems(2)])
      (use Cons.prems(3) in \<open>auto simp: NewResponse_def newResponse_def\<close>)
qed simp

definition hashes_to :: "'n wire_env \<Rightarrow> bytes \<Rightarrow> cid \<Rightarrow> bool" where
  "hashes_to E data c \<longleftrightarrow>
     (\<exists>prefix pref. prefixFromBytes E prefix = Inr pref \<and> prefixSum E pref data = Inr c)"

lemma fromIPLD_blocks_keys:
  assumes "fromIPLD_blocks E bs acc = Inr m" and "mget m c = Some blk"
    and "\<forall>d c b. newBlockWithCid E d c = Inr b \<longrightarrow> b = \<lparr>blk_Cid = c, blk_RawData = d\<rparr>"
    and "\<forall>c blk. mget acc c = Some blk \<longrightarrow> blk_Cid blk = c \<and> hashes_to E (blk_RawData blk) c"
  shows "blk_Cid blk = c \<and> hashes_to E (blk_RawData blk) c"
  using assms
proof (induction bs arbitrary: acc)
  case (Cons b rest)
  obtain pref i blk' where b: "prefixFromBytes E (ibb_Prefix b) = Inr pref"
      "prefixSum E pref (ibb_Data b) = Inr i" "newBlockWithCid E (ibb_Data b) i = Inr blk'"
      "fromIPLD_blocks E rest (mput (blk_Cid blk') blk' acc) = Inr m"
    using Cons.prems(1) by (auto split: sum.splits)
  have "blk' = \<lparr>blk_Cid = i, blk_RawData = ibb_Data b\<rparr>" using Cons.prems(3) b(3) by blast
  moreover have "hashes_to E (ibb_Data b) i" using b(1,2) by (auto simp: hashes_to_def)
  ultimately show ?case
    by (intro Cons.IH[OF b(4) Cons.prems(2,3)]) (use Cons.prems(4) in auto)
qed simp

lemma fromIPLD_parts:
  assumes "fromIPLD E root = Inr gsm"
  shows "\<exists>qs ps bs. fromIPLD_requests E qs [] = Inr (gsm_requests gsm) \<and>
           fromIPLD_responses E ps [] = Inr (gsm_responses gsm) \<and>
           fromIPLD_blocks E bs [] = Inr (gsm_blocks gsm)"
proof -
  have opt: "(case x of None \<Rightarrow> Inr [] | Some rs \<Rightarrow> f rs) = (Inr m :: gs_error + 'y list) \<Longrightarrow>
      f [] = Inr [] \<Longrightarrow> \<exists>rs. f rs = Inr m" for f m and x :: "'x list option"
    by (cases x) auto
  obtain gs2 where gs2: "Gs2 root = Some gs2" using assms by (cases "Gs2 root") (auto simp: fromIPLD_def)
  define a where "a = (case ibm_Requests gs2 of None \<Rightarrow> Inr [] | Some rs \<Rightarrow> fromIPLD_requests E rs [])"
  define b where "b = (case ibm_Responses gs2 of None \<Rightarrow> Inr [] | Some rs \<Rightarrow> fromIPLD_responses E rs [])"
  define c where "c = (case ibm_Blocks gs2 of None \<Rightarrow> Inr [] | Some bs \<Rightarrow> fromIPLD_blocks E bs [])"
  have "a = Inr (gsm_requests gsm) \<and> b = Inr (gsm_responses gsm) \<and> c = Inr (gsm_blocks gsm)"
    using assms unfolding fromIPLD_def gs2 option.case a_def[symmetric] b_def[symmetric] c_def[symmetric]
    by (cases a; cases b; cases c) (auto simp: NewMessage_def)
  then show ?thesis unfolding a_def b_def c_def by (auto dest!: opt)
qed

text \<open>C24: In every message accepted from the network the requests and responses are filed under
  their own request IDs in the form the program builds itself, and every block is filed under a
  CID that was computed by hashing the block's own data, so a peer cannot pass off data under a
  CID it does not hash to.\<close>

theorem received_message_certified:
  assumes "\<forall>d c b. newBlockWithCid E d c = Inr b \<longrightarrow> b = \<lparr>blk_Cid = c, blk_RawData = d\<rparr>"
    and "FromNet E r = Inr gsm"
  shows "(\<forall>rid q. mget (gsm_requests gsm) rid = Some q \<longrightarrow> gsr_id q = rid \<and> request_normal q) \<and>
         (\<forall>rid p. mget (gsm_responses gsm) rid = Some p \<longrightarrow> gsp_requestID p = rid) \<and>
         (\<forall>c blk. mget (gsm_blocks gsm) c = Some blk \<longrightarrow>
            blk_Cid blk = c \<and> hashes_to E (blk_RawData blk) c)"
proof -
  obtain root where "fromIPLD E root = Inr gsm"
    using assms(2) by (auto simp: FromNet_def FromMsgReader_def split: sum.splits)
  then obtain qs ps bs where
      d: "fromIPLD_requests E qs [] = Inr (gsm_requests gsm)"
      "fromIPLD_responses E ps [] = Inr (gsm_responses gsm)"
      "fromIPLD_blocks E bs [] = Inr (gsm_blocks gsm)"
    using fromIPLD_parts by blast
  show ?thesis
    using fromIPLD_requests_keys[OF d(1)] fromIPLD_responses_keys[OF d(2)]
      fromIPLD_blocks_keys[OF d(3) _ assms(1)] by simp
qed

subsection \<open>A concrete codec\<close>

text \<open>A hash that is the length of the data, one message, and a codec that knows this message.\<close>

definition demo_msg :: "nat gs_message" where
  "demo_msg =
     \<lparr>gsm_requests = [(''q'', NewRequest ''q'' ''r'' (Some 7) 3 [\<lparr>ed_Name = ''e'', ed_Data = Some 1\<rparr>])],
      gsm_responses = [(''p'', NewResponse ''p'' PartialResponse
                          [\<lparr>md_Link = replicate 2 CHR ''x'', md_Action = LinkActionPresent\<rparr>] [])],
      gsm_blocks = [(replicate 2 CHR ''x'', \<lparr>blk_Cid = replicate 2 CHR ''x'', blk_RawData = [5, 6]\<rparr>)]\<rparr>"

definition demo_root :: "nat ib_root" where
  "demo_root = \<lparr>Gs2 = Some
     \<lparr>ibm_Requests = Some [\<lparr>ibq_Id = rid_Bytes ''q'', ibq_RequestType = RequestTypeNew,
        ibq_Priority = Some 3, ibq_Root = Some ''r'', ibq_Selector = Some 7,
        ibq_Extensions = Some \<lparr>ibe_Keys = [''e''], ibe_Values = [(''e'', Some 1)]\<rparr>\<rparr>],
      ibm_Responses = Some [\<lparr>ibp_Id = rid_Bytes ''p'', ibp_Status = 14,
        ibp_Metadata = Some [\<lparr>md_Link = ''xx'', md_Action = LinkActionPresent\<rparr>], ibp_Extensions = None\<rparr>],
      ibm_Blocks = Some [\<lparr>ibb_Prefix = [], ibb_Data = [5, 6]\<rparr>]\<rparr>\<rparr>"

definition demo_env :: "nat wire_env" where
  "demo_env = \<lparr>uuidOk = (\<lambda>b. length b = 1), cidPrefixBytes = (\<lambda>c. []), prefixFromBytes = Inr,
     prefixSum = (\<lambda>_ d. Inr (replicate (length d) CHR ''x'')),
     newBlockWithCid = (\<lambda>d c. Inr \<lparr>blk_Cid = c, blk_RawData = d\<rparr>),
     encodeCbor = (\<lambda>_. Inr [9, 9]), decodeCbor = (\<lambda>_. Inr demo_root), readMsg = (\<lambda>r. Inr (drop 1 r))\<rparr>"

lemma demo_wire_ok: "wire_ok demo_env demo_msg" and demo_root: "toIPLD demo_env demo_msg = demo_root"
proof -
  show "toIPLD demo_env demo_msg = demo_root" by code_simp
  show "wire_ok demo_env demo_msg"
    by (simp add: wire_ok_def demo_env_def demo_msg_def rid_Bytes_def request_normal_def ext_normal_def
        NewRequest_def newRequest_def NewResponse_def newResponse_def toExtensionsMap_def
        block_certified_def numeral_2_eq_2)
qed

theorem message_wire_roundtrip_witness:
  "wire_ok demo_env demo_msg \<and>
   (\<exists>out. ToNet demo_env demo_msg = Inr out \<and> FromNet demo_env out = Inr demo_msg)"
proof -
  have "encodeCbor demo_env (toIPLD demo_env demo_msg) = Inr [9, 9]"
    "decodeCbor demo_env [9, 9] = Inr (toIPLD demo_env demo_msg)"
    by (simp_all only: demo_root) (simp_all add: demo_env_def)
  moreover have "readMsg demo_env (uvarint (length [9::nat, 9]) @ [9, 9]) = Inr [9, 9]"
    by (simp add: demo_env_def uvarint.simps)
  ultimately show ?thesis using message_wire_roundtrip[OF demo_wire_ok, of "[9, 9]"] demo_wire_ok by simp
qed

theorem received_message_certified_witness:
  "\<exists>gsm. FromNet demo_env [2, 9, 9] = Inr gsm \<and> mget (gsm_blocks gsm) ''xx'' \<noteq> None \<and>
     (\<forall>c blk. mget (gsm_blocks gsm) c = Some blk \<longrightarrow> hashes_to demo_env (blk_RawData blk) c)"
proof -
  have rt: "FromNet demo_env [2, 9, 9] = Inr demo_msg"
    using ipld_roundtrip[OF demo_wire_ok]
    by (simp add: FromNet_def FromMsgReader_def demo_root) (simp add: demo_env_def)
  have "\<forall>d c b. newBlockWithCid demo_env d c = Inr b \<longrightarrow> b = \<lparr>blk_Cid = c, blk_RawData = d\<rparr>"
    by (simp add: demo_env_def)
  from received_message_certified[OF this rt] rt show ?thesis
    by (intro exI[of _ demo_msg]) (simp add: demo_msg_def numeral_2_eq_2)
qed

end
