(* ===== verification/Publisher.thy ===== *)
theory Publisher
  imports GS_Prelude
begin

text \<open>
  \<^verbatim>\<open>notifications/publisher.go\<close>: the event publisher, a command queue drained by one goroutine that
  keeps the registry of subscriptions.

  The calls to a subscriber's \<^verbatim>\<open>OnNext\<close> and \<^verbatim>\<open>OnClose\<close> are logged in order in \<open>reg_out\<close> (\<open>Some\<close>
  an event, \<open>None\<close> a close). A Go set (a map to \<^verbatim>\<open>struct{}\<close>) is the list of its elements. The
  goroutine waits in \<^verbatim>\<open>dequeue\<close> when no command is left; \<open>start\<close> returns the registry it has
  reached then.
\<close>

section \<open>State and operations\<close>

datatype ('t, 's, 'e) cmd =
    Subscribe_cmd 't 's
  | Pub_cmd 't 'e
  | UnsubAll_cmd 's
  | CloseTopic_cmd 't
  | Shutdown_cmd

record ('t, 's, 'e) publisher =
  ps_closed :: bool
  ps_cmds :: "('t, 's, 'e) cmd list"

definition NewPublisher :: "('t, 's, 'e) publisher" where
  "NewPublisher = \<lparr>ps_closed = False, ps_cmds = []\<rparr>"

definition ps_queue :: "('t, 's, 'e) publisher \<Rightarrow> ('t, 's, 'e) cmd \<Rightarrow> ('t, 's, 'e) publisher" where
  "ps_queue ps c = ps\<lparr>ps_cmds := ps_cmds ps @ [c]\<rparr>"

definition Publish :: "('t, 's, 'e) publisher \<Rightarrow> 't \<Rightarrow> 'e \<Rightarrow> ('t, 's, 'e) publisher" where
  "Publish ps topic event = (if ps_closed ps then ps else ps_queue ps (Pub_cmd topic event))"

definition ps_Shutdown :: "('t, 's, 'e) publisher \<Rightarrow> ('t, 's, 'e) publisher" where
  "ps_Shutdown ps =
     (if ps_closed ps then ps else ps_queue (ps\<lparr>ps_closed := True\<rparr>) Shutdown_cmd)"

definition ps_Close :: "('t, 's, 'e) publisher \<Rightarrow> 't \<Rightarrow> ('t, 's, 'e) publisher" where
  "ps_Close ps topic = (if ps_closed ps then ps else ps_queue ps (CloseTopic_cmd topic))"

definition Subscribe :: "('t, 's, 'e) publisher \<Rightarrow> 't \<Rightarrow> 's \<Rightarrow> bool \<times> ('t, 's, 'e) publisher" where
  "Subscribe ps topic sub =
     (if ps_closed ps then (False, ps) else (True, ps_queue ps (Subscribe_cmd topic sub)))"

definition Unsubscribe :: "('t, 's, 'e) publisher \<Rightarrow> 's \<Rightarrow> bool \<times> ('t, 's, 'e) publisher" where
  "Unsubscribe ps sub =
     (if ps_closed ps then (False, ps) else (True, ps_queue ps (UnsubAll_cmd sub)))"

record ('t, 's, 'e) registry =
  reg_topics :: "('t, 's list) gomap"
  reg_revTopics :: "('s, 't list) gomap"
  reg_out :: "('s \<times> 't \<times> 'e option) list"

definition reg_add :: "('t, 's, 'e) registry \<Rightarrow> 't \<Rightarrow> 's \<Rightarrow> ('t, 's, 'e) registry" where
  "reg_add reg topic sub =
     (let subs = mgetd [] (reg_topics reg) topic;
          tops = mgetd [] (reg_revTopics reg) sub
      in reg\<lparr>reg_topics := mput topic (List.insert sub subs) (reg_topics reg),
             reg_revTopics := mput sub (List.insert topic tops) (reg_revTopics reg)\<rparr>)"

definition reg_send :: "('t, 's, 'e) registry \<Rightarrow> 't \<Rightarrow> 'e \<Rightarrow> ('t, 's, 'e) registry" where
  "reg_send reg topic msg =
     foldl (\<lambda>reg sub. reg\<lparr>reg_out := reg_out reg @ [(sub, topic, Some msg)]\<rparr>) reg
       (mgetd [] (reg_topics reg) topic)"

definition reg_remove :: "'t \<Rightarrow> 's \<Rightarrow> ('t, 's, 'e) registry \<Rightarrow> ('t, 's, 'e) registry" where
  "reg_remove topic sub reg =
     (case mget (reg_topics reg) topic of
        None \<Rightarrow> reg
      | Some subs \<Rightarrow>
          if sub \<notin> set subs then reg
          else
            let subs' = removeAll sub subs;
                tops' = removeAll topic (mgetd [] (reg_revTopics reg) sub);
                topics' = (if subs' = [] then mdel topic (reg_topics reg)
                           else mput topic subs' (reg_topics reg));
                rev' = (if tops' = [] then mdel sub (reg_revTopics reg)
                        else mput sub tops' (reg_revTopics reg))
            in reg\<lparr>reg_topics := topics', reg_revTopics := rev',
                   reg_out := reg_out reg @ [(sub, topic, None)]\<rparr>)"

definition reg_removeTopic :: "('t, 's, 'e) registry \<Rightarrow> 't \<Rightarrow> ('t, 's, 'e) registry" where
  "reg_removeTopic reg topic =
     foldl (\<lambda>reg sub. reg_remove topic sub reg) reg (mgetd [] (reg_topics reg) topic)"

definition reg_removeSubscriber :: "('t, 's, 'e) registry \<Rightarrow> 's \<Rightarrow> ('t, 's, 'e) registry" where
  "reg_removeSubscriber reg sub =
     foldl (\<lambda>reg topic. reg_remove topic sub reg) reg (mgetd [] (reg_revTopics reg) sub)"

definition emptyRegistry :: "('t, 's, 'e) registry" where
  "emptyRegistry = \<lparr>reg_topics = [], reg_revTopics = [], reg_out = []\<rparr>"

text \<open>The last loop of \<^verbatim>\<open>start\<close>: every subscription is removed.\<close>

definition reg_removeAll :: "('t, 's, 'e) registry \<Rightarrow> ('t, 's, 'e) registry" where
  "reg_removeAll reg =
     foldl (\<lambda>reg (topic, subs). foldl (\<lambda>reg sub. reg_remove topic sub reg) reg subs) reg
       (reg_topics reg)"

fun start :: "('t, 's, 'e) registry \<Rightarrow> ('t, 's, 'e) cmd list \<Rightarrow> ('t, 's, 'e) registry" where
  "start reg [] = reg"
| "start reg (UnsubAll_cmd sub # cmds) = start (reg_removeSubscriber reg sub) cmds"
| "start reg (Shutdown_cmd # cmds) = reg_removeAll reg"
| "start reg (Subscribe_cmd topic sub # cmds) = start (reg_add reg topic sub) cmds"
| "start reg (Pub_cmd topic msg # cmds) = start (reg_send reg topic msg) cmds"
| "start reg (CloseTopic_cmd topic # cmds) = start (reg_removeTopic reg topic) cmds"

section \<open>The registry as a relation\<close>

definition subscribed :: "('t, 's, 'e) registry \<Rightarrow> 't \<Rightarrow> 's \<Rightarrow> bool" where
  "subscribed reg topic sub \<longleftrightarrow> sub \<in> set (mgetd [] (reg_topics reg) topic)"

text \<open>What one subscriber sees of one topic.\<close>

definition view :: "'t \<Rightarrow> 's \<Rightarrow> ('t, 's, 'e) registry \<Rightarrow> 'e option list" where
  "view topic sub reg = map (snd \<circ> snd) (filter (\<lambda>(s, t, e). s = sub \<and> t = topic) (reg_out reg))"

definition reg_inv :: "('t, 's, 'e) registry \<Rightarrow> bool" where
  "reg_inv reg \<longleftrightarrow>
     mwf (reg_topics reg) \<and>
     (\<forall>t. distinct (mgetd [] (reg_topics reg) t)) \<and> (\<forall>s. distinct (mgetd [] (reg_revTopics reg) s)) \<and>
     (\<forall>t s. s \<in> set (mgetd [] (reg_topics reg) t) \<longleftrightarrow> t \<in> set (mgetd [] (reg_revTopics reg) s))"

definition reg_state :: "'t \<Rightarrow> 's \<Rightarrow> ('t, 's, 'e) registry \<Rightarrow> bool \<times> 'e option list" where
  "reg_state topic sub reg = (subscribed reg topic sub, view topic sub reg)"

lemma reg_inv_empty: "reg_inv emptyRegistry"
  by (simp add: reg_inv_def emptyRegistry_def)

lemma reg_inv_mem: "reg_inv reg \<Longrightarrow> subscribed reg t s \<longleftrightarrow> t \<in> set (mgetd [] (reg_revTopics reg) s)"
  by (simp add: reg_inv_def subscribed_def)

lemma add_spec:
  "reg_inv reg \<Longrightarrow> reg_inv (reg_add reg t s)"
  "reg_state t' s' (reg_add reg t s) =
     (if t' = t \<and> s' = s then (True, view t' s' reg) else reg_state t' s' reg)"
  by (auto simp: reg_inv_def reg_add_def Let_def reg_state_def subscribed_def view_def)

lemma remove_effect:
  assumes "reg_inv reg"
  shows "reg_inv (reg_remove t s reg)"
    and "reg_state t' s' (reg_remove t s reg) =
       (if t' = t \<and> s' = s \<and> subscribed reg t s then (False, view t' s' reg @ [None])
        else reg_state t' s' reg)"
    and "mgetd [] (reg_topics (reg_remove t s reg)) t' =
       (if t' = t then removeAll s (mgetd [] (reg_topics reg) t) else mgetd [] (reg_topics reg) t')"
    and "mgetd [] (reg_revTopics (reg_remove t s reg)) s' =
       (if s' = s then removeAll t (mgetd [] (reg_revTopics reg) s) else mgetd [] (reg_revTopics reg) s')"
proof -
  have inv: "mwf (reg_topics reg)" "\<And>t. distinct (mgetd [] (reg_topics reg) t)"
    "\<And>s. distinct (mgetd [] (reg_revTopics reg) s)"
    "\<And>t s. s \<in> set (mgetd [] (reg_topics reg) t) \<longleftrightarrow> t \<in> set (mgetd [] (reg_revTopics reg) s)"
    using assms unfolding reg_inv_def by blast+
  have top: "mgetd [] (reg_topics (reg_remove t s reg)) t' =
      (if t' = t then removeAll s (mgetd [] (reg_topics reg) t) else mgetd [] (reg_topics reg) t')" for t'
    by (cases "mget (reg_topics reg) t") (auto simp: reg_remove_def Let_def)
  have rev: "mgetd [] (reg_revTopics (reg_remove t s reg)) s' =
      (if s' = s then removeAll t (mgetd [] (reg_revTopics reg) s) else mgetd [] (reg_revTopics reg) s')" for s'
    using inv(4)[of s t] by (cases "mget (reg_topics reg) t") (auto simp: reg_remove_def Let_def)
  have wf: "mwf (reg_topics (reg_remove t s reg))"
    using inv(1) by (auto simp: reg_remove_def Let_def split: option.splits)
  have out: "view t' s' (reg_remove t s reg) =
      (if t' = t \<and> s' = s \<and> subscribed reg t s then view t' s' reg @ [None] else view t' s' reg)"
    by (cases "mget (reg_topics reg) t") (auto simp: reg_remove_def Let_def view_def subscribed_def)
  show "mgetd [] (reg_topics (reg_remove t s reg)) t' =
       (if t' = t then removeAll s (mgetd [] (reg_topics reg) t) else mgetd [] (reg_topics reg) t')"
    by (rule top)
  show "mgetd [] (reg_revTopics (reg_remove t s reg)) s' =
       (if s' = s then removeAll t (mgetd [] (reg_revTopics reg) s) else mgetd [] (reg_revTopics reg) s')"
    by (rule rev)
  show "reg_inv (reg_remove t s reg)"
    unfolding reg_inv_def top rev using wf inv(2,3) inv(4) by (auto simp: distinct_removeAll)
  show "reg_state t' s' (reg_remove t s reg) =
       (if t' = t \<and> s' = s \<and> subscribed reg t s then (False, view t' s' reg @ [None])
        else reg_state t' s' reg)"
    using out top[of t'] by (auto simp: reg_state_def subscribed_def)
qed

text \<open>Removing a list of distinct (topic, subscriber) pairs closes each that is subscribed, once.\<close>

lemma remove_pairs:
  assumes "reg_inv reg" and "distinct ps"
  defines "res \<equiv> foldl (\<lambda>reg (t, s). reg_remove t s reg) reg ps"
  shows "reg_inv res \<and> reg_state t s res =
     (if (t, s) \<in> set ps \<and> subscribed reg t s then (False, view t s reg @ [None]) else reg_state t s reg)"
  using assms(1,2) unfolding res_def
proof (induction ps arbitrary: reg)
  case (Cons p ps)
  obtain t1 s1 where p: "p = (t1, s1)" by (cases p)
  let ?r = "reg_remove t1 s1 reg"
  have IH: "reg_inv (foldl (\<lambda>reg (t, s). reg_remove t s reg) ?r ps) \<and>
      reg_state t s (foldl (\<lambda>reg (t, s). reg_remove t s reg) ?r ps) =
      (if (t, s) \<in> set ps \<and> subscribed ?r t s then (False, view t s ?r @ [None]) else reg_state t s ?r)"
    using Cons.prems by (intro Cons.IH remove_effect(1)) auto
  have st: "reg_state t s ?r =
      (if t = t1 \<and> s = s1 \<and> subscribed reg t1 s1 then (False, view t s reg @ [None]) else reg_state t s reg)"
    by (rule remove_effect(2)[OF Cons.prems(1)])
  have "(t, s) \<in> set ps \<Longrightarrow> \<not> (t = t1 \<and> s = s1)" using Cons.prems(2) p by auto
  with IH st show ?case by (auto simp: p reg_state_def split: if_splits)
qed simp

lemma removeTopic_spec:
  assumes "reg_inv reg"
  shows "reg_inv (reg_removeTopic reg topic) \<and> reg_state t s (reg_removeTopic reg topic) =
     (if t = topic \<and> subscribed reg t s then (False, view t s reg @ [None]) else reg_state t s reg)"
proof -
  let ?ps = "map (Pair topic) (mgetd [] (reg_topics reg) topic)"
  have "reg_removeTopic reg topic = foldl (\<lambda>reg (t, s). reg_remove t s reg) reg ?ps"
    by (simp add: reg_removeTopic_def foldl_map)
  moreover have "distinct ?ps" using assms by (simp add: reg_inv_def distinct_map inj_on_def)
  ultimately show ?thesis
    using remove_pairs[OF assms, of ?ps t s] by (auto simp: subscribed_def)
qed

lemma removeSubscriber_spec:
  assumes "reg_inv reg"
  shows "reg_inv (reg_removeSubscriber reg sub) \<and> reg_state t s (reg_removeSubscriber reg sub) =
     (if s = sub \<and> subscribed reg t s then (False, view t s reg @ [None]) else reg_state t s reg)"
proof -
  let ?ps = "map (\<lambda>t. (t, sub)) (mgetd [] (reg_revTopics reg) sub)"
  have "reg_removeSubscriber reg sub = foldl (\<lambda>reg (t, s). reg_remove t s reg) reg ?ps"
    by (simp add: reg_removeSubscriber_def foldl_map)
  moreover have "distinct ?ps" using assms by (simp add: reg_inv_def distinct_map inj_on_def)
  ultimately show ?thesis
    using remove_pairs[OF assms, of ?ps t s] reg_inv_mem[OF assms, of t sub] by auto
qed

lemma removeAll_spec:
  assumes "reg_inv reg"
  shows "reg_state t s (reg_removeAll reg) =
     (if subscribed reg t s then (False, view t s reg @ [None]) else reg_state t s reg)"
proof -
  let ?pairs = "\<lambda>m. concat (map (\<lambda>(t, ss). map (Pair t) ss) m)"
  have fold_pairs: "foldl (\<lambda>reg (t, ss). foldl (\<lambda>reg s. reg_remove t s reg) reg ss) r m =
      foldl (\<lambda>reg (t, s). reg_remove t s reg) r (?pairs m)" for r and m :: "('a, 'b list) gomap"
    by (induction m arbitrary: r) (auto simp: foldl_map)
  have wf: "mwf (reg_topics reg)" and d: "\<And>t. distinct (mgetd [] (reg_topics reg) t)"
    using assms by (simp_all add: reg_inv_def)
  have entry: "mget (reg_topics reg) k = Some v \<Longrightarrow> distinct v" for k v
    using d[of k] by simp
  have "distinct (?pairs m)" if "mwf m" "\<forall>(k, v) \<in> set m. distinct v" for m :: "('a, 'b list) gomap"
    using that
  proof (induction m)
    case (Cons e m)
    obtain k v where e: "e = (k, v)" by (cases e)
    have "k \<notin> fst ` set m" using Cons.prems(1) e by simp
    then have "set (map (Pair k) v) \<inter> set (?pairs m) = {}" by (fastforce simp: image_iff)
    with Cons e show ?case by (simp add: distinct_map inj_on_def)
  qed simp
  moreover have "\<forall>(k, v) \<in> set (reg_topics reg). distinct v"
    using entry by (auto simp: mwf_in_set[OF wf])
  ultimately have "distinct (?pairs (reg_topics reg))" using wf by blast
  moreover have "(t, s) \<in> set (?pairs (reg_topics reg)) \<longleftrightarrow> subscribed reg t s"
    using mwf_in_set[OF wf] by (fastforce simp: subscribed_def mgetd_def split: option.splits)
  ultimately show ?thesis
    using remove_pairs[OF assms, of "?pairs (reg_topics reg)" t s]
    by (simp add: reg_removeAll_def fold_pairs)
qed

lemma send_spec:
  assumes "reg_inv reg"
  shows "reg_inv (reg_send reg topic msg) \<and> reg_state t s (reg_send reg topic msg) =
     (if t = topic \<and> subscribed reg t s then (True, view t s reg @ [Some msg]) else reg_state t s reg)"
proof -
  have fold: "foldl (\<lambda>reg sub. reg\<lparr>reg_out := reg_out reg @ [(sub, topic, Some msg)]\<rparr>) r xs =
      r\<lparr>reg_out := reg_out r @ map (\<lambda>x. (x, topic, Some msg)) xs\<rparr>" for r xs
    by (induction xs arbitrary: r) auto
  have once: "distinct xs \<Longrightarrow> filter (\<lambda>x. x = s) xs = (if s \<in> set xs then [s] else [])"
    for xs :: "'b list" by (induction xs) auto
  have "distinct (mgetd [] (reg_topics reg) topic)" using assms by (simp add: reg_inv_def)
  from once[OF this] show ?thesis
    using assms
    by (auto simp: reg_send_def fold reg_inv_def reg_state_def subscribed_def view_def filter_map comp_def)
qed

section \<open>Refinement: one subscriber, one topic\<close>

text \<open>The abstract state of a subscription: whether it is on, and what was delivered.\<close>

fun sub_step :: "'t \<Rightarrow> 's \<Rightarrow> ('t, 's, 'e) cmd \<Rightarrow> bool \<times> 'e option list \<Rightarrow> bool \<times> 'e option list" where
  "sub_step t s (Subscribe_cmd t' s') (on, seen) = (on \<or> t' = t \<and> s' = s, seen)"
| "sub_step t s (Pub_cmd t' e) (on, seen) = (on, if on \<and> t' = t then seen @ [Some e] else seen)"
| "sub_step t s (UnsubAll_cmd s') (on, seen) =
     (if on \<and> s' = s then (False, seen @ [None]) else (on, seen))"
| "sub_step t s (CloseTopic_cmd t') (on, seen) =
     (if on \<and> t' = t then (False, seen @ [None]) else (on, seen))"
| "sub_step t s Shutdown_cmd (on, seen) = (if on then (False, seen @ [None]) else (on, seen))"

lemma start_refines:
  assumes "reg_inv reg" and "Shutdown_cmd \<notin> set (butlast cmds)"
  shows "reg_state t s (start reg cmds) = fold (sub_step t s) cmds (reg_state t s reg)"
  using assms
proof (induction reg cmds rule: start.induct)
  case (2 reg sub cmds)
  then show ?case using removeSubscriber_spec[OF "2.prems"(1), of sub t s]
    by (cases cmds) (auto simp: reg_state_def split: if_splits)
next
  case (3 reg cmds)
  then have "cmds = []" by (cases cmds) auto
  then show ?case using removeAll_spec[OF "3.prems"(1), of t s] by (simp add: reg_state_def)
next
  case (4 reg topic sub cmds)
  have "subscribed (reg_add reg topic sub) t s \<longleftrightarrow> subscribed reg t s \<or> topic = t \<and> sub = s"
    "view t s (reg_add reg topic sub) = view t s reg"
    using add_spec(2)[of t s reg topic sub] by (auto simp: reg_state_def split: if_splits)
  with 4 show ?case using add_spec(1)[OF "4.prems"(1), of topic sub]
    by (cases cmds) (auto simp: reg_state_def split: if_splits)
next
  case (5 reg topic msg cmds)
  then show ?case using send_spec[OF "5.prems"(1), of topic msg t s]
    by (cases cmds) (auto simp: reg_state_def split: if_splits)
next
  case (6 reg topic cmds)
  then show ?case using removeTopic_spec[OF "6.prems"(1), of topic t s]
    by (cases cmds) (auto simp: reg_state_def split: if_splits)
qed simp

text \<open>The calls clients make.\<close>

datatype ('t, 's, 'e) ps_call =
  CallPublish 't 'e | CallClose 't | CallSubscribe 't 's | CallUnsubscribe 's | CallShutdown

fun ps_do :: "('t, 's, 'e) ps_call \<Rightarrow> ('t, 's, 'e) publisher \<Rightarrow> ('t, 's, 'e) publisher" where
  "ps_do (CallPublish t e) ps = Publish ps t e"
| "ps_do (CallClose t) ps = ps_Close ps t"
| "ps_do (CallSubscribe t s) ps = snd (Subscribe ps t s)"
| "ps_do (CallUnsubscribe s) ps = snd (Unsubscribe ps s)"
| "ps_do CallShutdown ps = ps_Shutdown ps"

fun call_cmd :: "('t, 's, 'e) ps_call \<Rightarrow> ('t, 's, 'e) cmd" where
  "call_cmd (CallPublish t e) = Pub_cmd t e"
| "call_cmd (CallClose t) = CloseTopic_cmd t"
| "call_cmd (CallSubscribe t s) = Subscribe_cmd t s"
| "call_cmd (CallUnsubscribe s) = UnsubAll_cmd s"
| "call_cmd CallShutdown = Shutdown_cmd"

text \<open>Calls up to and including the first shutdown.\<close>

fun until_shutdown :: "('t, 's, 'e) ps_call list \<Rightarrow> ('t, 's, 'e) ps_call list" where
  "until_shutdown [] = []"
| "until_shutdown (CallShutdown # calls) = [CallShutdown]"
| "until_shutdown (c # calls) = c # until_shutdown calls"

lemma ps_do_closed: "ps_closed ps \<Longrightarrow> ps_do c ps = ps"
  by (cases c) (simp_all add: Publish_def ps_Close_def Subscribe_def Unsubscribe_def ps_Shutdown_def)

lemma ps_do_open:
  "\<not> ps_closed ps \<Longrightarrow> ps_cmds (ps_do c ps) = ps_cmds ps @ [call_cmd c] \<and>
     (ps_closed (ps_do c ps) \<longleftrightarrow> c = CallShutdown)"
  by (cases c)
    (simp_all add: Publish_def ps_Close_def Subscribe_def Unsubscribe_def ps_Shutdown_def ps_queue_def)

lemma fold_closed: "ps_closed ps \<Longrightarrow> fold ps_do calls ps = ps"
  by (induction calls) (simp_all add: ps_do_closed)

lemma queued_calls:
  "\<not> ps_closed ps \<Longrightarrow> ps_cmds (fold ps_do calls ps) = ps_cmds ps @ map call_cmd (until_shutdown calls)"
proof (induction calls arbitrary: ps)
  case (Cons c calls)
  show ?case
  proof (cases "c = CallShutdown")
    case True
    with ps_do_open[OF Cons.prems, of c] show ?thesis by (simp add: fold_closed)
  next
    case False
    then have "until_shutdown (c # calls) = c # until_shutdown calls" by (cases c) simp_all
    with False ps_do_open[OF Cons.prems, of c] Cons.IH show ?thesis by simp
  qed
qed simp

lemma no_early_shutdown: "Shutdown_cmd \<notin> set (butlast (map call_cmd (until_shutdown calls)))"
proof (induction calls)
  case (Cons c calls)
  then show ?case by (cases c; cases "until_shutdown calls") auto
qed simp

text \<open>C25: Whatever calls clients make on a publisher, what a subscriber is told about a topic is
  determined by the calls up to the first shutdown, in order: every event published on the
  topic while it is subscribed, exactly once, and exactly one close for each time the
  subscription ends, by closing the topic, by unsubscribing, or by the shutdown; calls after a
  shutdown have no effect.\<close>

theorem publisher_delivers_in_order:
  "view t s (start emptyRegistry (ps_cmds (fold ps_do calls NewPublisher))) =
     snd (fold (sub_step t s) (map call_cmd (until_shutdown calls)) (False, []))"
proof -
  have "ps_cmds (fold ps_do calls NewPublisher) = map call_cmd (until_shutdown calls)"
    by (subst queued_calls) (simp_all add: NewPublisher_def)
  moreover have "reg_state t s emptyRegistry = (False, [])"
    by (simp add: reg_state_def emptyRegistry_def subscribed_def view_def)
  moreover note start_refines[OF reg_inv_empty no_early_shutdown, of t s calls]
  ultimately show ?thesis unfolding reg_state_def by (metis snd_conv)
qed

end
