(* ===== verification/Message_Queue.thy ===== *)
theory Message_Queue
  imports Message
begin

text \<open>
  \<^verbatim>\<open>messagequeue/builder.go\<close> and \<^verbatim>\<open>messagequeue/messagequeue.go\<close>: the queue of outgoing messages of one
  peer and the loop that sends them.

  Calls to other components (the allocator, the event publisher, the network, the response
  streams) are appended in order to the log \<open>mq_log\<close>; what the network answers and which branch
  of a \<^verbatim>\<open>select\<close> is taken are arguments. \<open>'s\<close> is the type of subscribers and \<open>'c\<close> that of response
  streams. The capacity-one channel \<^verbatim>\<open>outgoingWork\<close> is a flag. The critical sections under
  \<^verbatim>\<open>buildersLk\<close> (\<open>buildMessage\<close>, \<open>extractOutgoingMessage\<close>, \<open>scrubResponses\<close>) are atomic, and a
  send runs to its end before the next operation.
\<close>

section \<open>The queue's builder\<close>

record block_data =
  bd_sendBlock :: bool
  bd_link :: cid
  bd_index :: i64
  bd_size :: u64

record ('n, 's, 'c) mq_builder =
  mb_Builder :: "'n builder"
  mb_topic :: u64
  mb_responseStreams :: "(request_id, 'c) gomap"
  mb_subscribers :: "(request_id, 's) gomap"
  mb_blockData :: "(request_id, block_data list) gomap"

definition mb_NewBuilder :: "u64 \<Rightarrow> ('n, 's, 'c) mq_builder" where
  "mb_NewBuilder topic =
     \<lparr>mb_Builder = NewBuilder, mb_topic = topic, mb_responseStreams = [], mb_subscribers = [],
      mb_blockData = []\<rparr>"

definition SetResponseStream :: "request_id \<Rightarrow> 'c \<Rightarrow> ('n, 's, 'c) mq_builder \<Rightarrow> ('n, 's, 'c) mq_builder" where
  "SetResponseStream rid stream b = b\<lparr>mb_responseStreams := mput rid stream (mb_responseStreams b)\<rparr>"

definition SetSubscriber :: "request_id \<Rightarrow> 's \<Rightarrow> ('n, 's, 'c) mq_builder \<Rightarrow> ('n, 's, 'c) mq_builder" where
  "SetSubscriber rid subscriber b = b\<lparr>mb_subscribers := mput rid subscriber (mb_subscribers b)\<rparr>"

definition AddBlockData :: "request_id \<Rightarrow> block_data \<Rightarrow> ('n, 's, 'c) mq_builder \<Rightarrow> ('n, 's, 'c) mq_builder" where
  "AddBlockData rid bd b =
     b\<lparr>mb_blockData := mput rid (mgetd [] (mb_blockData b) rid @ [bd]) (mb_blockData b)\<rparr>"

text \<open>The embedded builder's methods.\<close>

definition on_builder :: "('n builder \<Rightarrow> 'n builder) \<Rightarrow> ('n, 's, 'c) mq_builder \<Rightarrow> ('n, 's, 'c) mq_builder" where
  "on_builder f b = b\<lparr>mb_Builder := f (mb_Builder b)\<rparr>"

definition mb_Empty :: "('n, 's, 'c) mq_builder \<Rightarrow> bool" where
  "mb_Empty b = b_Empty (mb_Builder b)"

definition mb_BlockSize :: "('n, 's, 'c) mq_builder \<Rightarrow> u64" where
  "mb_BlockSize b = BlockSize (mb_Builder b)"

definition mb_ScrubResponses ::
  "('n, 's, 'c) mq_builder \<Rightarrow> request_id list \<Rightarrow> u64 \<times> ('n, 's, 'c) mq_builder" where
  "mb_ScrubResponses b requestIDs =
     (let b1 = foldl (\<lambda>b rid. b\<lparr>mb_responseStreams := mdel rid (mb_responseStreams b),
                               mb_subscribers := mdel rid (mb_subscribers b),
                               mb_blockData := mdel rid (mb_blockData b)\<rparr>) b requestIDs;
          (freed, inner) = ScrubResponses (mb_Builder b1) requestIDs
      in (freed, b1\<lparr>mb_Builder := inner\<rparr>))"

record mq_metadata =
  mdt_BlockData :: "(request_id, block_data list) gomap"
  mdt_ResponseCodes :: "(request_id, status_code) gomap"

record 'c internal_metadata =
  im_public :: mq_metadata
  im_topic :: u64
  im_msgSize :: u64
  im_responseStreams :: "(request_id, 'c) gomap"

datatype mq_event = EvQueued mq_metadata | EvSent mq_metadata | EvError string mq_metadata

datatype ('n, 's, 'c) mq_call =
    CallAllocate u64
  | CallRelease u64
  | CallReleasePeer
  | CallSubscribe u64 's
  | CallPublish u64 mq_event
  | CallCloseTopic u64
  | CallCloseStream 'c
  | CallOpenSender
  | CallSendMsg "'n gs_message"
  | CallResetSender
  | CallCloseSender
  | CallPublisherShutdown

text \<open>\<^verbatim>\<open>Builder.build\<close>; the second component are the subscriptions it makes.\<close>

definition mb_build ::
  "('n, 's, 'c) mq_builder \<Rightarrow> 'n gs_message \<times> 'c internal_metadata \<times> ('n, 's, 'c) mq_call list" where
  "mb_build b =
     (let message = Build (mb_Builder b)
      in (message,
          \<lparr>im_public = \<lparr>mdt_BlockData = mb_blockData b, mdt_ResponseCodes = ResponseCodes message\<rparr>,
           im_topic = mb_topic b, im_msgSize = mb_BlockSize b,
           im_responseStreams = mb_responseStreams b\<rparr>,
          map (\<lambda>(_, subscriber). CallSubscribe (mb_topic b) subscriber) (mb_subscribers b)))"

section \<open>The queue\<close>

record ('n, 's, 'c) message_queue =
  mq_builders :: "('n, 's, 'c) mq_builder list"
  mq_nextBuilderTopic :: u64
  mq_outgoingWork :: bool
  mq_sender :: bool
  mq_maxRetries :: nat
  mq_log :: "('n, 's, 'c) mq_call list"

definition maxBlockSize :: u64 where
  "maxBlockSize = 512 * 1024"

definition mq_New :: "nat \<Rightarrow> ('n, 's, 'c) message_queue" where
  "mq_New maxRetries =
     \<lparr>mq_builders = [], mq_nextBuilderTopic = 0, mq_outgoingWork = False, mq_sender = False,
      mq_maxRetries = maxRetries, mq_log = []\<rparr>"

definition call :: "('n, 's, 'c) mq_call list \<Rightarrow> ('n, 's, 'c) message_queue \<Rightarrow> ('n, 's, 'c) message_queue" where
  "call cs mq = mq\<lparr>mq_log := mq_log mq @ cs\<rparr>"

definition signalWork :: "('n, 's, 'c) message_queue \<Rightarrow> ('n, 's, 'c) message_queue" where
  "signalWork mq = mq\<lparr>mq_outgoingWork := True\<rparr>"

definition shouldBeginNewResponse :: "('n, 's, 'c) mq_builder list \<Rightarrow> u64 \<Rightarrow> bool" where
  "shouldBeginNewResponse builders blkSize =
     (if length builders = 0 then True
      else if blkSize = 0 then False
      else mb_BlockSize (builders ! (length builders - 1)) + blkSize > maxBlockSize)"

definition buildMessage ::
  "('n, 's, 'c) message_queue \<Rightarrow> u64 \<Rightarrow> (('n, 's, 'c) mq_builder \<Rightarrow> ('n, 's, 'c) mq_builder) \<Rightarrow>
   bool \<times> ('n, 's, 'c) message_queue" where
  "buildMessage mq blkSize buildMessageFn =
     (let mq1 = (if shouldBeginNewResponse (mq_builders mq) blkSize
                 then mq\<lparr>mq_nextBuilderTopic := mq_nextBuilderTopic mq + 1,
                         mq_builders := mq_builders mq @ [mb_NewBuilder (mq_nextBuilderTopic mq)]\<rparr>
                 else mq);
          i = length (mq_builders mq1) - 1;
          builder = buildMessageFn (mq_builders mq1 ! i)
      in (\<not> mb_Empty builder, mq1\<lparr>mq_builders := (mq_builders mq1)[i := builder]\<rparr>))"

text \<open>\<open>ctxDone\<close>: the context ended before the memory was granted.\<close>

definition AllocateAndBuildMessage ::
  "('n, 's, 'c) message_queue \<Rightarrow> u64 \<Rightarrow> (('n, 's, 'c) mq_builder \<Rightarrow> ('n, 's, 'c) mq_builder) \<Rightarrow> bool \<Rightarrow>
   ('n, 's, 'c) message_queue" where
  "AllocateAndBuildMessage mq blkSize buildMessageFn ctxDone =
     (let mq1 = (if blkSize > 0 then call [CallAllocate blkSize] mq else mq)
      in if blkSize > 0 \<and> ctxDone then mq1
         else
           let (work, mq2) = buildMessage mq1 blkSize buildMessageFn
           in if work then signalWork mq2 else mq2)"

text \<open>\<open>None\<close> is \<^verbatim>\<open>errEmptyMessage\<close>.\<close>

definition extractOutgoingMessage ::
  "('n, 's, 'c) message_queue \<Rightarrow>
   ('n gs_message \<times> 'c internal_metadata) option \<times> ('n, 's, 'c) message_queue" where
  "extractOutgoingMessage mq =
     (case mq_builders mq of
        [] \<Rightarrow> (None, mq)
      | builder # rest \<Rightarrow>
          let mq1 = mq\<lparr>mq_builders := rest\<rparr>;
              mq2 = (if length rest > 0 then signalWork mq1 else mq1)
          in if mb_Empty builder then (None, mq2)
             else
               let (message, metadata, subs) = mb_build builder
               in (Some (message, metadata), call subs mq2))"

fun scrubBuilders ::
  "('n, 's, 'c) mq_builder list \<Rightarrow> request_id list \<Rightarrow> u64 \<Rightarrow> ('n, 's, 'c) mq_builder list \<Rightarrow>
   u64 \<times> ('n, 's, 'c) mq_builder list" where
  "scrubBuilders [] requestIDs totalFreed newBuilders = (totalFreed, newBuilders)"
| "scrubBuilders (builder # rest) requestIDs totalFreed newBuilders =
     (let (totalFreed', builder') = mb_ScrubResponses builder requestIDs
      in scrubBuilders rest requestIDs totalFreed'
           (if \<not> mb_Empty builder' then newBuilders @ [builder'] else newBuilders))"

definition scrubResponses ::
  "('n, 's, 'c) message_queue \<Rightarrow> request_id list \<Rightarrow> u64 \<times> ('n, 's, 'c) message_queue" where
  "scrubResponses mq requestIDs =
     (let (totalFreed, newBuilders) = scrubBuilders (mq_builders mq) requestIDs 0 []
      in (totalFreed, mq\<lparr>mq_builders := newBuilders\<rparr>))"

definition scrubResponseStreams ::
  "('n, 's, 'c) message_queue \<Rightarrow> (request_id, 'c) gomap \<Rightarrow> ('n, 's, 'c) message_queue" where
  "scrubResponseStreams mq responseStreams =
     (let mq1 = call (map (\<lambda>(_, stream). CallCloseStream stream) responseStreams) mq;
          (totalFreed, mq2) = scrubResponses mq1 (mkeys responseStreams)
      in if totalFreed > 0 then call [CallRelease totalFreed] mq2 else mq2)"

definition publishQueued :: "'c internal_metadata \<Rightarrow> ('n, 's, 'c) message_queue \<Rightarrow> ('n, 's, 'c) message_queue" where
  "publishQueued metadata mq = call [CallPublish (im_topic metadata) (EvQueued (im_public metadata))] mq"

definition publishSent :: "'c internal_metadata \<Rightarrow> ('n, 's, 'c) message_queue \<Rightarrow> ('n, 's, 'c) message_queue" where
  "publishSent metadata mq =
     call [CallPublish (im_topic metadata) (EvSent (im_public metadata)), CallRelease (im_msgSize metadata)] mq"

definition publishError ::
  "'c internal_metadata \<Rightarrow> string \<Rightarrow> ('n, 's, 'c) message_queue \<Rightarrow> ('n, 's, 'c) message_queue" where
  "publishError metadata err mq =
     call [CallPublish (im_topic metadata) (EvError err (im_public metadata)), CallRelease (im_msgSize metadata)]
       (scrubResponseStreams mq (im_responseStreams metadata))"

text \<open>Outcomes of the network: opening a sender succeeds or not; a send attempt succeeds, or fails
  and then the queue is found shut down, its context ended, or the wait elapses and the sender is
  opened again.\<close>

datatype wake = WakeDone | WakeCtxDone | WakeTimeout

record attempt =
  at_sendOk :: bool
  at_wake :: wake
  at_openOk :: bool

definition initializeSender :: "bool \<Rightarrow> ('n, 's, 'c) message_queue \<Rightarrow> bool \<times> ('n, 's, 'c) message_queue" where
  "initializeSender openOk mq =
     (if mq_sender mq then (True, mq)
      else let mq1 = call [CallOpenSender] mq
           in if openOk then (True, mq1\<lparr>mq_sender := True\<rparr>) else (False, mq1))"

definition attemptSendAndRecovery ::
  "'n gs_message \<Rightarrow> 'c internal_metadata \<Rightarrow> attempt \<Rightarrow> ('n, 's, 'c) message_queue \<Rightarrow>
   bool \<times> ('n, 's, 'c) message_queue" where
  "attemptSendAndRecovery message metadata att mq =
     (let mq1 = call [CallSendMsg message] mq
      in if at_sendOk att then (True, publishSent metadata mq1)
         else
           let mq2 = (call [CallResetSender] mq1)\<lparr>mq_sender := False\<rparr>
           in case at_wake att of
                WakeDone \<Rightarrow> (True, publishError metadata ''queue shutdown'' mq2)
              | WakeCtxDone \<Rightarrow> (True, publishError metadata ''context cancelled'' mq2)
              | WakeTimeout \<Rightarrow>
                  (case initializeSender (at_openOk att) mq2 of
                     (False, mq3) \<Rightarrow> (True, publishError metadata ''couldnt open sender again'' mq3)
                   | (True, mq3) \<Rightarrow> (False, mq3)))"

fun sendAttempts ::
  "nat \<Rightarrow> 'n gs_message \<Rightarrow> 'c internal_metadata \<Rightarrow> (nat \<Rightarrow> attempt) \<Rightarrow> ('n, 's, 'c) message_queue \<Rightarrow>
   bool \<times> ('n, 's, 'c) message_queue" where
  "sendAttempts 0 message metadata atts mq = (False, mq)"
| "sendAttempts (Suc n) message metadata atts mq =
     (case attemptSendAndRecovery message metadata (atts 0) mq of
        (True, mq1) \<Rightarrow> (True, mq1)
      | (False, mq1) \<Rightarrow> sendAttempts n message metadata (\<lambda>i. atts (Suc i)) mq1)"

definition sendMessage ::
  "bool \<Rightarrow> (nat \<Rightarrow> attempt) \<Rightarrow> ('n, 's, 'c) message_queue \<Rightarrow> ('n, 's, 'c) message_queue" where
  "sendMessage openOk atts mq =
     (case extractOutgoingMessage mq of
        (None, mq1) \<Rightarrow> mq1
      | (Some (message, metadata), mq1) \<Rightarrow>
          let mq2 = publishQueued metadata mq1;
              mq3 =
                (case initializeSender openOk mq2 of
                   (False, mq') \<Rightarrow> publishError metadata ''cant open message sender to peer'' mq'
                 | (True, mq') \<Rightarrow>
                     (case sendAttempts (mq_maxRetries mq') message metadata atts mq' of
                        (True, mq'') \<Rightarrow> mq''
                      | (False, mq'') \<Rightarrow> publishError metadata ''expended retries on SendMsg'' mq''))
          in call [CallCloseTopic (im_topic metadata)] mq3)"

text \<open>What \<open>sendMessage\<close> does after it took a message out of the queue.\<close>

definition sendOut ::
  "bool \<Rightarrow> (nat \<Rightarrow> attempt) \<Rightarrow> 'n gs_message \<Rightarrow> 'c internal_metadata \<Rightarrow> ('n, 's, 'c) message_queue \<Rightarrow> ('n, 's, 'c) message_queue" where
  "sendOut openOk atts message metadata mq =
     call [CallCloseTopic (im_topic metadata)]
       (case initializeSender openOk mq of
          (False, mq') \<Rightarrow> publishError metadata ''cant open message sender to peer'' mq'
        | (True, mq') \<Rightarrow>
            (case sendAttempts (mq_maxRetries mq') message metadata atts mq' of
               (True, mq'') \<Rightarrow> mq''
             | (False, mq'') \<Rightarrow> publishError metadata ''expended retries on SendMsg'' mq''))"

lemma sendMessage_split:
  "sendMessage openOk atts mq =
     (case extractOutgoingMessage mq of
        (None, mq1) \<Rightarrow> mq1
      | (Some (message, metadata), mq1) \<Rightarrow> sendOut openOk atts message metadata (publishQueued metadata mq1))"
  by (cases "extractOutgoingMessage mq") (simp add: sendMessage_def sendOut_def Let_def split: option.split)

text \<open>The drain loop of the shutdown branch of \<^verbatim>\<open>runQueue\<close>.\<close>

lemma scrubBuilders_length: "length (snd (scrubBuilders bs rids n acc)) \<le> length bs + length acc"
proof (induction bs arbitrary: n acc)
  case (Cons b bs)
  obtain n' b' where b': "mb_ScrubResponses b rids = (n', b')" by fastforce
  show ?case
    using Cons[of n' "if \<not> mb_Empty b' then acc @ [b'] else acc"] by (auto simp: b' split: if_splits)
qed simp

lemma publishError_length: "length (mq_builders (publishError metadata err mq)) \<le> length (mq_builders mq)"
  using scrubBuilders_length[of "mq_builders mq" "mkeys (im_responseStreams metadata)" 0 "[]"]
  by (auto simp: publishError_def scrubResponseStreams_def scrubResponses_def call_def Let_def
      split: prod.splits)

function drain :: "('n, 's, 'c) message_queue \<Rightarrow> ('n, 's, 'c) message_queue" where
  "drain mq =
     (case extractOutgoingMessage mq of
        (None, mq1) \<Rightarrow> mq1
      | (Some (message, metadata), mq1) \<Rightarrow>
          drain (call [CallCloseTopic (im_topic metadata)]
                   (publishError metadata ''message queue shutdown'' mq1)))"
  by auto
termination
proof (relation "measure (\<lambda>mq. length (mq_builders mq))", goal_cases)
  case (2 mq a mq1 y message metadata)
  then have "length (mq_builders mq1) < length (mq_builders mq)"
    by (auto simp: extractOutgoingMessage_def Let_def call_def signalWork_def
        split: list.splits if_splits prod.splits)
  with publishError_length[of metadata "''message queue shutdown''" mq1] show ?case by (simp add: call_def)
qed simp

declare drain.simps [simp del]

datatype queue_select = SelWork | SelDone | SelCtxDone

text \<open>One turn of \<^verbatim>\<open>runQueue\<close>: \<open>True\<close> when the loop returns, after the deferred calls.\<close>

definition runQueue_step ::
  "queue_select \<Rightarrow> bool \<Rightarrow> (nat \<Rightarrow> attempt) \<Rightarrow> ('n, 's, 'c) message_queue \<Rightarrow> bool \<times> ('n, 's, 'c) message_queue" where
  "runQueue_step sel openOk atts mq =
     (case sel of
        SelWork \<Rightarrow> (False, sendMessage openOk atts (mq\<lparr>mq_outgoingWork := False\<rparr>))
      | SelDone \<Rightarrow>
          let mq1 = (if mq_outgoingWork mq then drain (mq\<lparr>mq_outgoingWork := False\<rparr>) else mq);
              mq2 = (if mq_sender mq1 then call [CallCloseSender] mq1 else mq1)
          in (True, call [CallReleasePeer, CallPublisherShutdown] mq2)
      | SelCtxDone \<Rightarrow>
          let mq1 = (if mq_sender mq then call [CallResetSender] mq else mq)
          in (True, call [CallReleasePeer, CallPublisherShutdown] mq1))"

section \<open>Scrubbing the queue\<close>

lemma scrubBuilders_spec:
  "scrubBuilders bs rids n acc =
     (if bs = [] then n else fst (mb_ScrubResponses (last bs) rids),
      acc @ filter (\<lambda>b. \<not> mb_Empty b) (map (\<lambda>b. snd (mb_ScrubResponses b rids)) bs))"
proof (induction bs arbitrary: n acc)
  case (Cons b bs)
  obtain n' b' where "mb_ScrubResponses b rids = (n', b')" by fastforce
  with Cons show ?case by (cases bs) auto
qed simp

lemma mb_Scrub_fields:
  fixes b :: "('n, 's, 'c) mq_builder"
  shows "mb_Builder (snd (mb_ScrubResponses b rids)) = snd (ScrubResponses (mb_Builder b) rids)"
    and "fst (mb_ScrubResponses b rids) = fst (ScrubResponses (mb_Builder b) rids)"
    and "mb_topic (snd (mb_ScrubResponses b rids)) = mb_topic b"
    and "mget (mb_subscribers (snd (mb_ScrubResponses b rids))) rid =
           (if rid \<in> set rids then None else mget (mb_subscribers b) rid)"
    and "mget (mb_responseStreams (snd (mb_ScrubResponses b rids))) rid =
           (if rid \<in> set rids then None else mget (mb_responseStreams b) rid)"
proof -
  define g where "g = (\<lambda>(b :: ('n, 's, 'c) mq_builder) rid.
      b\<lparr>mb_responseStreams := mdel rid (mb_responseStreams b),
        mb_subscribers := mdel rid (mb_subscribers b), mb_blockData := mdel rid (mb_blockData b)\<rparr>)"
  have f: "mb_Builder (foldl g b rids) = mb_Builder b" "mb_topic (foldl g b rids) = mb_topic b"
    "mget (mb_subscribers (foldl g b rids)) rid = (if rid \<in> set rids then None else mget (mb_subscribers b) rid)"
    "mget (mb_responseStreams (foldl g b rids)) rid =
       (if rid \<in> set rids then None else mget (mb_responseStreams b) rid)" for b
    by (induction rids arbitrary: b) (auto simp: g_def)
  show "mb_Builder (snd (mb_ScrubResponses b rids)) = snd (ScrubResponses (mb_Builder b) rids)"
    "fst (mb_ScrubResponses b rids) = fst (ScrubResponses (mb_Builder b) rids)"
    "mb_topic (snd (mb_ScrubResponses b rids)) = mb_topic b"
    "mget (mb_subscribers (snd (mb_ScrubResponses b rids))) rid =
           (if rid \<in> set rids then None else mget (mb_subscribers b) rid)"
    "mget (mb_responseStreams (snd (mb_ScrubResponses b rids))) rid =
           (if rid \<in> set rids then None else mget (mb_responseStreams b) rid)"
    unfolding mb_ScrubResponses_def g_def[symmetric]
    by (simp_all add: Let_def f split: prod.splits)
qed

text \<open>Scrubbing requests from the queue scrubs every queued message, in order, and drops the
  messages that become empty; but the number of bytes it reports as freed, which is what is
  given back to the allocator, is only that of the last message of the queue, whatever was freed
  from the others.\<close>

theorem scrub_reports_last_builder_only:
  "mq_builders (snd (scrubResponses mq rids)) =
     filter (\<lambda>b. \<not> mb_Empty b) (map (\<lambda>b. snd (mb_ScrubResponses b rids)) (mq_builders mq)) \<and>
   fst (scrubResponses mq rids) =
     (case rev (mq_builders mq) of
        [] \<Rightarrow> 0
      | b # _ \<Rightarrow> fst (ScrubResponses (mb_Builder b) rids))"
  by (cases "mq_builders mq" rule: rev_cases)
    (simp_all add: scrubResponses_def scrubBuilders_spec mb_Scrub_fields(2))

section \<open>Sending\<close>

definition scrubbed :: "('n, 's, 'c) mq_builder list \<Rightarrow> request_id list \<Rightarrow> ('n, 's, 'c) mq_builder list" where
  "scrubbed bs rids = filter (\<lambda>b. \<not> mb_Empty b) (map (\<lambda>b. snd (mb_ScrubResponses b rids)) bs)"

lemma close_calls: "map (\<lambda>(_, stream). CallCloseStream stream) m = map CallCloseStream (mvals m)"
  by (induction m) (auto simp: mvals_def)

lemma publishError_effect:
  "\<exists>freed. (freed = [] \<or> (\<exists>n. freed = [CallRelease n])) \<and>
     mq_log (publishError md err mq) =
       mq_log mq @ map CallCloseStream (mvals (im_responseStreams md)) @ freed @
       [CallPublish (im_topic md) (EvError err (im_public md)), CallRelease (im_msgSize md)] \<and>
     mq_builders (publishError md err mq) = scrubbed (mq_builders mq) (mkeys (im_responseStreams md))"
  by (auto simp: publishError_def scrubResponseStreams_def scrubResponses_def scrubBuilders_spec
      scrubbed_def call_def Let_def close_calls)

text \<open>How a message is settled: some traffic with the network, then either the event that it was sent
  or the event that it failed.\<close>

definition settles ::
  "nat \<Rightarrow> 'n gs_message \<Rightarrow> 'c internal_metadata \<Rightarrow> ('n, 's, 'c) message_queue \<Rightarrow>
   ('n, 's, 'c) message_queue \<Rightarrow> bool" where
  "settles k message md mq mq' \<longleftrightarrow>
     (\<exists>pre mq1. mq_log mq1 = mq_log mq @ pre \<and> mq_builders mq1 = mq_builders mq \<and>
        set pre \<subseteq> {CallOpenSender, CallSendMsg message, CallResetSender} \<and>
        length (filter (\<lambda>c. c = CallSendMsg message) pre) \<le> k \<and>
        (mq' = publishSent md mq1 \<and> pre \<noteq> [] \<and> last pre = CallSendMsg message \<or>
         (\<exists>err. mq' = publishError md err mq1)))"

lemma settles_prepend:
  assumes "settles k message md mq1 mq'" "mq_log mq1 = mq_log mq @ pre0" "mq_builders mq1 = mq_builders mq"
    "set pre0 \<subseteq> {CallOpenSender, CallSendMsg message, CallResetSender}"
    "length (filter (\<lambda>c. c = CallSendMsg message) pre0) + k \<le> k'"
  shows "settles k' message md mq mq'"
proof -
  obtain pre mq2 where pre: "mq_log mq2 = mq_log mq1 @ pre" "mq_builders mq2 = mq_builders mq1"
      "set pre \<subseteq> {CallOpenSender, CallSendMsg message, CallResetSender}"
      "length (filter (\<lambda>c. c = CallSendMsg message) pre) \<le> k"
      "mq' = publishSent md mq2 \<and> pre \<noteq> [] \<and> last pre = CallSendMsg message \<or>
         (\<exists>err. mq' = publishError md err mq2)"
    using assms(1) unfolding settles_def by blast
  show ?thesis
    unfolding settles_def using pre assms(2-) by (intro exI[of _ "pre0 @ pre"] exI[of _ mq2]) auto
qed

lemma attempt_settles:
  fixes mq :: "('n, 's, 'c) message_queue"
  assumes "attemptSendAndRecovery message md att mq = (fin, mq')"
  shows "if fin then settles 1 message md mq mq'
         else mq_log mq' = mq_log mq @ [CallSendMsg message, CallResetSender, CallOpenSender] \<and>
              mq_builders mq' = mq_builders mq"
proof -
  define pre where "pre = (if at_sendOk att then [CallSendMsg message]
    else if at_wake att = WakeTimeout then [CallSendMsg message, CallResetSender, CallOpenSender]
    else [CallSendMsg message, CallResetSender]   :: ('n, 's, 'c) mq_call list)"
  define mq1 where "mq1 = mq\<lparr>mq_log := mq_log mq @ pre, mq_sender := at_sendOk att \<and> mq_sender mq\<rparr>"
  have "mq_log mq1 = mq_log mq @ pre" "mq_builders mq1 = mq_builders mq" by (simp_all add: mq1_def)
  moreover have "fin \<Longrightarrow> mq' = publishSent md mq1 \<and> pre = [CallSendMsg message] \<or>
      mq' = publishError md ''queue shutdown'' mq1 \<or> mq' = publishError md ''context cancelled'' mq1 \<or>
      mq' = publishError md ''couldnt open sender again'' mq1"
    using assms
    by (cases "at_wake att"; cases mq)
      (auto simp: attemptSendAndRecovery_def initializeSender_def call_def Let_def pre_def mq1_def
        split: if_splits)
  moreover have "set pre \<subseteq> {CallOpenSender, CallSendMsg message, CallResetSender}"
    "length (filter (\<lambda>c. c = CallSendMsg message) pre) \<le> 1" by (auto simp: pre_def)
  ultimately have "fin \<Longrightarrow> settles 1 message md mq mq'" unfolding settles_def by (metis last.simps list.discI)
  moreover have "\<not> fin \<Longrightarrow> mq_log mq' = mq_log mq @ [CallSendMsg message, CallResetSender, CallOpenSender] \<and>
              mq_builders mq' = mq_builders mq"
    using assms
    by (auto simp: attemptSendAndRecovery_def initializeSender_def call_def Let_def
        split: if_splits wake.splits)
  ultimately show ?thesis by simp
qed

lemma sendAttempts_settles:
  assumes "sendAttempts k message md atts mq = (fin, mq')"
  shows "if fin then settles k message md mq mq'
         else \<exists>pre. mq_log mq' = mq_log mq @ pre \<and> mq_builders mq' = mq_builders mq \<and>
           set pre \<subseteq> {CallOpenSender, CallSendMsg message, CallResetSender} \<and>
           length (filter (\<lambda>c. c = CallSendMsg message) pre) = k"
  using assms
proof (induction k arbitrary: atts mq)
  case (Suc k)
  obtain f1 mq1 where a: "attemptSendAndRecovery message md (atts 0) mq = (f1, mq1)" by fastforce
  note st = attempt_settles[OF a]
  show ?case
  proof (cases f1)
    case True
    with Suc.prems a have "fin" "mq' = mq1" by auto
    moreover have "settles (Suc k) message md mq mq1"
      by (rule settles_prepend[of 1 _ _ mq _ _ "[]"]) (use st True in auto)
    ultimately show ?thesis by simp
  next
    case False
    with Suc.prems a have rest: "sendAttempts k message md (\<lambda>i. atts (Suc i)) mq1 = (fin, mq')" by simp
    from False st have l: "mq_log mq1 = mq_log mq @ [CallSendMsg message, CallResetSender, CallOpenSender]"
      "mq_builders mq1 = mq_builders mq" by auto
    show ?thesis
    proof (cases fin)
      case True
      with Suc.IH[OF rest] have "settles k message md mq1 mq'" by simp
      from settles_prepend[OF this l] True show ?thesis by simp
    next
      case fin: False
      with Suc.IH[OF rest] obtain pre where "mq_log mq' = mq_log mq1 @ pre"
          "mq_builders mq' = mq_builders mq1" "set pre \<subseteq> {CallOpenSender, CallSendMsg message, CallResetSender}"
          "length (filter (\<lambda>c. c = CallSendMsg message) pre) = k" by auto
      with l fin show ?thesis
        by (auto intro!: exI[of _ "[CallSendMsg message, CallResetSender, CallOpenSender] @ pre"])
    qed
  qed
qed simp

lemma sendOut_settles:
  fixes mq :: "('n, 's, 'c) message_queue"
  shows "\<exists>mq3. settles (mq_maxRetries mq) message md mq mq3 \<and> sendOut openOk atts message md mq = call [CallCloseTopic (im_topic md)] mq3"
proof -
  obtain ok mq1 where i: "initializeSender openOk mq = (ok, mq1)" by fastforce
  have i': "\<exists>pre0. mq_log mq1 = mq_log mq @ pre0 \<and> set pre0 \<subseteq> {CallOpenSender}"
    "mq_builders mq1 = mq_builders mq" "mq_maxRetries mq1 = mq_maxRetries mq"
    using i by (auto simp: initializeSender_def call_def Let_def split: if_splits)
  then obtain pre0 where pre0: "mq_log mq1 = mq_log mq @ pre0" "set pre0 \<subseteq> {CallOpenSender}" by blast
  have none: "filter (\<lambda>c. c = CallSendMsg message) pre0 = []" using pre0(2) by (auto simp: filter_empty_conv)
  have sub: "set pre0 \<subseteq> {CallOpenSender, CallSendMsg message, CallResetSender}" using pre0(2) by auto
  show ?thesis
  proof (cases ok)
    case False
    then have "sendOut openOk atts message md mq =
        call [CallCloseTopic (im_topic md)] (publishError md ''cant open message sender to peer'' mq1)"
      by (simp add: sendOut_def i)
    moreover have "settles (mq_maxRetries mq) message md mq (publishError md ''cant open message sender to peer'' mq1)"
      unfolding settles_def using pre0(1) sub i'(2) none by (intro exI[of _ pre0] exI[of _ mq1]) auto
    ultimately show ?thesis by blast
  next
    case True
    obtain fin mq2 where s: "sendAttempts (mq_maxRetries mq1) message md atts mq1 = (fin, mq2)" by fastforce
    note st = sendAttempts_settles[OF s]
    show ?thesis
    proof (cases fin)
      case fin: True
      with st have "settles (mq_maxRetries mq1) message md mq1 mq2" by simp
      from settles_prepend[OF this pre0(1) i'(2) sub] show ?thesis
        using True fin s none i i'(3) by (auto simp: sendOut_def)
    next
      case False
      with st obtain pre where "mq_log mq2 = mq_log mq1 @ pre" "mq_builders mq2 = mq_builders mq1"
        "set pre \<subseteq> {CallOpenSender, CallSendMsg message, CallResetSender}"
        "length (filter (\<lambda>c. c = CallSendMsg message) pre) = mq_maxRetries mq1" by auto
      then have "settles (mq_maxRetries mq) message md mq (publishError md ''expended retries on SendMsg'' mq2)"
        unfolding settles_def using pre0 sub none i' by (intro exI[of _ "pre0 @ pre"] exI[of _ mq2]) auto
      moreover have "sendOut openOk atts message md mq =
          call [CallCloseTopic (im_topic md)] (publishError md ''expended retries on SendMsg'' mq2)"
        using True False s i by (simp add: sendOut_def)
      ultimately show ?thesis by blast
    qed
  qed
qed

lemma sendMessage_settles:
  fixes mq :: "('n, 's, 'c) message_queue"
  assumes b: "mq_builders mq = b # rest" "\<not> mb_Empty b" and build: "mb_build b = (message, md, subs)"
  shows "\<exists>mq3 mq0. settles (mq_maxRetries mq) message md mq0 mq3 \<and>
           mq_builders mq0 = rest \<and>
           mq_log mq0 = mq_log mq @ subs @ [CallPublish (im_topic md) (EvQueued (im_public md))] \<and>
           sendMessage openOk atts mq = call [CallCloseTopic (im_topic md)] mq3"
proof -
  define mq0 where "mq0 = publishQueued md (call subs (if length rest > 0 then signalWork (mq\<lparr>mq_builders := rest\<rparr>)
    else mq\<lparr>mq_builders := rest\<rparr>))"
  have f: "mq_builders mq0 = rest" "mq_maxRetries mq0 = mq_maxRetries mq"
    "mq_log mq0 = mq_log mq @ subs @ [CallPublish (im_topic md) (EvQueued (im_public md))]"
    by (auto simp: mq0_def publishQueued_def call_def signalWork_def)
  have "sendMessage openOk atts mq = sendOut openOk atts message md mq0"
    using b build by (simp add: sendMessage_split extractOutgoingMessage_def mq0_def Let_def)
  with sendOut_settles[of mq0 message md openOk atts] f show ?thesis by metis
qed

lemma send_message_outcome:
  fixes mq :: "('n, 's, 'c) message_queue"
  assumes "mq_builders mq = b # rest" and "\<not> mb_Empty b" and "mb_build b = (message, md, subs)"
  shows "\<exists>net fin. set net \<subseteq> {CallOpenSender, CallSendMsg message, CallResetSender} \<and>
     length (filter (\<lambda>c. c = CallSendMsg message) net) \<le> mq_maxRetries mq \<and>
     mq_log (sendMessage openOk atts mq) =
       mq_log mq @ subs @ [CallPublish (im_topic md) (EvQueued (im_public md))] @ net @ fin @
       [CallRelease (im_msgSize md), CallCloseTopic (im_topic md)] \<and>
     (net \<noteq> [] \<and> last net = CallSendMsg message \<and>
        fin = [CallPublish (im_topic md) (EvSent (im_public md))] \<and>
        mq_builders (sendMessage openOk atts mq) = rest \<or>
      (\<exists>err freed. fin = map CallCloseStream (mvals (im_responseStreams md)) @ freed @
           [CallPublish (im_topic md) (EvError err (im_public md))] \<and>
         (freed = [] \<or> (\<exists>n. freed = [CallRelease n])) \<and>
         mq_builders (sendMessage openOk atts mq) = scrubbed rest (mkeys (im_responseStreams md))))"
proof -
  obtain mq3 mq0 where st: "settles (mq_maxRetries mq) message md mq0 mq3" "mq_builders mq0 = rest"
      "mq_log mq0 = mq_log mq @ subs @ [CallPublish (im_topic md) (EvQueued (im_public md))]"
      "sendMessage openOk atts mq = call [CallCloseTopic (im_topic md)] mq3"
    using sendMessage_settles[OF assms] by blast
  then obtain pre mq1 where pre: "mq_log mq1 = mq_log mq0 @ pre" "mq_builders mq1 = rest"
      "set pre \<subseteq> {CallOpenSender, CallSendMsg message, CallResetSender}"
      "length (filter (\<lambda>c. c = CallSendMsg message) pre) \<le> mq_maxRetries mq"
      "mq3 = publishSent md mq1 \<and> pre \<noteq> [] \<and> last pre = CallSendMsg message \<or>
         (\<exists>err. mq3 = publishError md err mq1)"
    unfolding settles_def by auto
  from pre(5) show ?thesis
  proof
    assume sent: "mq3 = publishSent md mq1 \<and> pre \<noteq> [] \<and> last pre = CallSendMsg message"
    then show ?thesis
      using pre st by (intro exI[of _ pre] exI[of _ "[CallPublish (im_topic md) (EvSent (im_public md))]"])
        (simp add: publishSent_def call_def)
  next
    assume "\<exists>err. mq3 = publishError md err mq1"
    then obtain err where err: "mq3 = publishError md err mq1" by blast
    obtain freed where "freed = [] \<or> (\<exists>n. freed = [CallRelease n])"
       "mq_log mq3 = mq_log mq1 @ map CallCloseStream (mvals (im_responseStreams md)) @ freed @
         [CallPublish (im_topic md) (EvError err (im_public md)), CallRelease (im_msgSize md)]"
       "mq_builders mq3 = scrubbed rest (mkeys (im_responseStreams md))"
      using publishError_effect[of md err mq1] unfolding err pre(2) by blast
    then show ?thesis
      using pre st by (intro exI[of _ pre]
          exI[of _ "map CallCloseStream (mvals (im_responseStreams md)) @ freed @
           [CallPublish (im_topic md) (EvError err (im_public md))]"])
        (auto simp: call_def)
  qed
qed

text \<open>C8: Sending the next message of the queue always settles it: after the subscriptions and the
  event that it is queued, the message is handed to the network at most \<^verbatim>\<open>maxRetries\<close> times, and then
  exactly one final event is published, followed by the release of the message's memory and the
  close of its topic. The event is that it was sent only when the last thing that happened was a
  send; otherwise it is an error, the response streams of the message are closed first, and what
  those requests still had in the queue is removed.\<close>

theorem send_message_settles_once:
  fixes mq :: "('n, 's, 'c) message_queue"
  assumes "mq_builders mq = b # rest" and "\<not> mb_Empty b" and "mb_build b = (message, md, subs)"
  shows "\<exists>net fin. set net \<subseteq> {CallOpenSender, CallSendMsg message, CallResetSender} \<and>
     length (filter (\<lambda>c. c = CallSendMsg message) net) \<le> mq_maxRetries mq \<and>
     mq_log (sendMessage openOk atts mq) =
       mq_log mq @ subs @ [CallPublish (im_topic md) (EvQueued (im_public md))] @ net @ fin @
       [CallRelease (im_msgSize md), CallCloseTopic (im_topic md)] \<and>
     (net \<noteq> [] \<and> last net = CallSendMsg message \<and>
        fin = [CallPublish (im_topic md) (EvSent (im_public md))] \<and>
        mq_builders (sendMessage openOk atts mq) = rest \<or>
      (\<exists>err freed. fin = map CallCloseStream (mvals (im_responseStreams md)) @ freed @
           [CallPublish (im_topic md) (EvError err (im_public md))] \<and>
         (freed = [] \<or> (\<exists>n. freed = [CallRelease n])) \<and>
         mq_builders (sendMessage openOk atts mq) = scrubbed rest (mkeys (im_responseStreams md))))"
  using send_message_outcome[OF assms] .

section \<open>The size of a queued message\<close>

text \<open>A build function that adds at most the bytes it announced.\<close>

definition fills :: "u64 \<Rightarrow> (('n, 's, 'c) mq_builder \<Rightarrow> ('n, 's, 'c) mq_builder) \<Rightarrow> bool" where
  "fills n fn \<longleftrightarrow>
     (\<forall>b. \<exists>ops. mb_Builder (fn b) = fold b_apply ops (mb_Builder b) \<and> added_size ops \<le> unat n)"

definition mb_ok :: "nat \<Rightarrow> ('n, 's, 'c) mq_builder \<Rightarrow> bool" where
  "mb_ok M b \<longleftrightarrow> builder_inv (mb_Builder b) \<and> size_inv M (mb_Builder b)"

lemma mb_ok_new: "mb_ok M (mb_NewBuilder t)"
  by (simp add: mb_ok_def mb_NewBuilder_def builder_inv_new size_inv_def)
    (simp add: NewBuilder_def blocks_size_def)

lemma mb_ok_fold:
  assumes "builder_inv b" "size_inv m b" "m + added_size ops < 2 ^ 64"
  shows "builder_inv (fold b_apply ops b) \<and> size_inv (m + added_size ops) (fold b_apply ops b)"
  using assms
proof (induction ops rule: rev_induct)
  case (snoc op ops)
  have split: "added_size (ops @ [op]) = added_size ops + added_size [op]" by (simp add: added_size_def)
  with snoc have IH: "builder_inv (fold b_apply ops b)" "size_inv (m + added_size ops) (fold b_apply ops b)"
    by auto
  have "size_inv (m + added_size ops + added_size [op]) (b_apply op (fold b_apply ops b))"
    by (rule size_inv_apply[OF IH]) (use snoc.prems(3) split in linarith)
  with builder_inv_apply[OF IH(1)] split show ?case by (simp add: add.assoc)
qed (simp add: added_size_def)

lemma mb_ok_scrub: "M < 2 ^ 64 \<Longrightarrow> mb_ok M b \<Longrightarrow> mb_ok M (snd (mb_ScrubResponses b rids))"
  using mb_ok_fold[of "mb_Builder b" M "[OpScrub rids]"]
  by (simp add: mb_ok_def mb_Scrub_fields(1) added_size_def)

lemma mb_ok_scrubbed:
  "M < 2 ^ 64 \<Longrightarrow> \<forall>b \<in> set bs. mb_ok M b \<Longrightarrow> \<forall>b \<in> set (scrubbed bs rids). mb_ok M b"
  by (auto simp: scrubbed_def mb_ok_scrub)

lemma publishError_builders:
  "mq_builders (publishError md err mq) = scrubbed (mq_builders mq) (mkeys (im_responseStreams md))"
  using publishError_effect[of md err mq] by auto

lemma extract_builders:
  "mq_builders (snd (extractOutgoingMessage mq)) = tl (mq_builders mq)"
  by (auto simp: extractOutgoingMessage_def Let_def call_def signalWork_def split: list.splits prod.splits)

lemma sendMessage_ok:
  assumes M: "M < 2 ^ 64" and ok: "\<forall>b \<in> set (mq_builders mq). mb_ok M b"
  shows "\<forall>b \<in> set (mq_builders (sendMessage openOk atts mq)). mb_ok M b"
proof (cases "mq_builders mq")
  case Nil
  then show ?thesis by (simp add: sendMessage_def extractOutgoingMessage_def)
next
  case (Cons b rest)
  with ok have rest: "\<forall>b \<in> set rest. mb_ok M b" by simp
  show ?thesis
  proof (cases "mb_Empty b")
    case True
    with Cons have "sendMessage openOk atts mq = snd (extractOutgoingMessage mq)"
      by (simp add: sendMessage_def extractOutgoingMessage_def Let_def)
    with rest Cons extract_builders[of mq] show ?thesis by simp
  next
    case False
    obtain message md subs where "mb_build b = (message, md, subs)" by (cases "mb_build b")
    from send_message_outcome[OF Cons False this, of openOk atts] rest mb_ok_scrubbed[OF M rest]
    show ?thesis by auto
  qed
qed

lemma drain_ok:
  "M < 2 ^ 64 \<Longrightarrow> \<forall>b \<in> set (mq_builders mq). mb_ok M b \<Longrightarrow> \<forall>b \<in> set (mq_builders (drain mq)). mb_ok M b"
proof (induction mq rule: drain.induct)
  case (1 mq)
  obtain r mq1 where e: "extractOutgoingMessage mq = (r, mq1)" by fastforce
  then have "mq_builders mq1 = tl (mq_builders mq)" using extract_builders[of mq] by simp
  with 1(3) have ok1: "\<forall>b \<in> set (mq_builders mq1). mb_ok M b"
    by (cases "mq_builders mq") auto
  show ?case
  proof (cases r)
    case None
    with e ok1 show ?thesis by (simp add: drain.simps)
  next
    case (Some x)
    obtain message md where x: "x = (message, md)" by (cases x)
    let ?n = "call [CallCloseTopic (im_topic md)] (publishError md ''message queue shutdown'' mq1)"
    have "\<forall>b \<in> set (mq_builders ?n). mb_ok M b"
      using mb_ok_scrubbed[OF 1(2) ok1] by (simp add: call_def publishError_builders)
    from 1(1)[OF e[symmetric] Some x[symmetric] 1(2) this] show ?thesis
      using e Some x by (subst drain.simps) simp
  qed
qed

lemma buildMessage_ok:
  fixes mq :: "('n, 's, 'c) message_queue"
  assumes ok: "\<forall>b \<in> set (mq_builders mq). mb_ok (max 524288 M) b"
    and fn: "fills n fn" and n: "unat n \<le> M" and M: "2 * M + 524288 < 2 ^ 64"
  shows "\<forall>b \<in> set (mq_builders (snd (buildMessage mq n fn))). mb_ok (max 524288 M) b"
proof -
  have grow: "mb_ok (max 524288 M) (fn b)"
    if b: "mb_ok m b" and m: "m + unat n \<le> max 524288 M" for b :: "('n, 's, 'c) mq_builder" and m
  proof -
    obtain ops where ops: "mb_Builder (fn b) = fold b_apply ops (mb_Builder b)" "added_size ops \<le> unat n"
      using fn by (auto simp: fills_def)
    have "m + added_size ops < 2 ^ 64" using ops(2) m M by linarith
    from mb_ok_fold[OF _ _ this, of "mb_Builder b"] b ops m show ?thesis
      by (auto simp: mb_ok_def size_inv_def)
  qed
  have upd: "\<forall>b \<in> set (xs[length xs - 1 := y]). Q b" if "\<forall>b \<in> set xs. Q b" "Q y"
    for xs :: "('n, 's, 'c) mq_builder list" and y and Q
    using that set_update_subset_insert[of xs "length xs - 1" y] by auto
  show ?thesis
  proof (cases "shouldBeginNewResponse (mq_builders mq) n")
    case True
    have "mb_ok (max 524288 M) (fn (mb_NewBuilder (mq_nextBuilderTopic mq)))"
      by (rule grow[OF mb_ok_new[of 0]]) (use n in simp)
    with ok True show ?thesis by (auto simp: buildMessage_def Let_def nth_append list_update_append)
  next
    case False
    let ?b = "mq_builders mq ! (length (mq_builders mq) - 1)"
    have ne: "mq_builders mq \<noteq> []" using False by (auto simp: shouldBeginNewResponse_def)
    then have b: "mb_ok (max 524288 M) ?b" using ok by simp
    have "mb_ok (max 524288 M) (fn ?b)"
    proof (cases "n = 0")
      case True
      then show ?thesis by (intro grow[OF b]) simp
    next
      case n0: False
      have le: "mb_BlockSize ?b + n \<le> maxBlockSize"
        using False n0 ne by (simp add: shouldBeginNewResponse_def not_less)
      have "unat (mb_BlockSize ?b) + unat n < 2 ^ 64"
        using b n M by (auto simp: mb_ok_def size_inv_def mb_BlockSize_def BlockSize_def)
      with le have "unat (mb_BlockSize ?b) + unat n \<le> 524288"
        by (simp add: word_le_nat_alt unat_plus_no_wrap maxBlockSize_def)
      moreover have "mb_ok (unat (mb_BlockSize ?b)) ?b"
        using b by (auto simp: mb_ok_def size_inv_def mb_BlockSize_def BlockSize_def)
      ultimately show ?thesis by (intro grow) auto
    qed
    with ok False upd show ?thesis by (simp add: buildMessage_def Let_def)
  qed
qed

text \<open>The states of a queue whose build functions add at most what they announce, with
  announcements of at most \<open>M\<close> bytes.\<close>

inductive mq_reach :: "nat \<Rightarrow> ('n, 's, 'c) message_queue \<Rightarrow> bool" for M :: nat where
  new: "mq_reach M (mq_New maxRetries)"
| build: "mq_reach M mq \<Longrightarrow> fills n fn \<Longrightarrow> unat n \<le> M \<Longrightarrow>
    mq_reach M (AllocateAndBuildMessage mq n fn ctxDone)"
| run: "mq_reach M mq \<Longrightarrow> runQueue_step sel openOk atts mq = (fin, mq') \<Longrightarrow> mq_reach M mq'"

lemma mq_reach_ok:
  "mq_reach M mq \<Longrightarrow> 2 * M + 524288 < 2 ^ 64 \<Longrightarrow> \<forall>b \<in> set (mq_builders mq). mb_ok (max 524288 M) b"
proof (induction rule: mq_reach.induct)
  case (new maxRetries)
  then show ?case by (simp add: mq_New_def)
next
  case (build mq n fn ctxDone)
  have "\<forall>b \<in> set (mq_builders (call [CallAllocate n] mq)). mb_ok (max 524288 M) b"
    using build by (simp add: call_def)
  from buildMessage_ok[OF this build.hyps(2,3) build.prems]
    buildMessage_ok[OF build.IH[OF build.prems] build.hyps(2,3) build.prems] build.IH[OF build.prems]
  show ?case
    by (auto simp: AllocateAndBuildMessage_def Let_def signalWork_def call_def split: prod.splits if_splits)
next
  case (run mq sel openOk atts fin mq')
  let ?w = "mq\<lparr>mq_outgoingWork := False\<rparr>"
  have M: "max 524288 M < 2 ^ 64" using run.prems by simp
  have ok: "\<forall>b \<in> set (mq_builders mq). mb_ok (max 524288 M) b" "\<forall>b \<in> set (mq_builders ?w). mb_ok (max 524288 M) b"
    using run by simp_all
  from run.hyps(2) sendMessage_ok[OF M ok(2)] drain_ok[OF M ok(2)] ok(1) show ?case
    by (auto simp: runQueue_step_def Let_def call_def split: queue_select.splits if_splits)
qed


subsection \<open>A run: two transactions in one message, the second of which is announced at 3 bytes\<close>

definition demo_fn :: "(unit, nat, nat) mq_builder \<Rightarrow> (unit, nat, nat) mq_builder" where
  "demo_fn b = SetSubscriber ''r'' 7 (SetResponseStream ''r'' 1
     (on_builder (\<lambda>b. AddLink (AddBlock b \<lparr>blk_Cid = ''c'', blk_RawData = [1, 2, 3]\<rparr>) ''r'' ''c''
        LinkActionPresent) b))"

lemma demo_fn_fills: "fills 3 demo_fn"
  unfolding fills_def
  by (intro allI exI[of _ "[OpAddBlock \<lparr>blk_Cid = ''c'', blk_RawData = [1, 2, 3]\<rparr>,
        OpAddLink ''r'' ''c'' LinkActionPresent]"])
    (simp add: demo_fn_def SetSubscriber_def SetResponseStream_def on_builder_def added_size_def)

definition demo_mq :: "(unit, nat, nat) message_queue" where
  "demo_mq = AllocateAndBuildMessage (mq_New 2) 3 demo_fn False"

lemma demo_mq_reach: "mq_reach 3 demo_mq"
  unfolding demo_mq_def by (intro mq_reach.build mq_reach.new demo_fn_fills) simp


theorem send_message_settles_once_witness:
  "\<exists>net fin. mq_log (sendMessage True (\<lambda>_. \<lparr>at_sendOk = False, at_wake = WakeTimeout, at_openOk = True\<rparr>) demo_mq) =
     [CallAllocate 3, CallSubscribe 0 7, CallPublish 0 (EvQueued \<lparr>mdt_BlockData = [], mdt_ResponseCodes = [(''r'', 14)]\<rparr>)] @
     net @ fin @ [CallRelease 3, CallCloseTopic 0]"
proof -
  obtain b where b: "mq_builders demo_mq = b # []" "\<not> mb_Empty b"
      "snd (mb_build b) = (\<lparr>im_public = \<lparr>mdt_BlockData = [], mdt_ResponseCodes = [(''r'', 14)]\<rparr>,
         im_topic = 0, im_msgSize = 3, im_responseStreams = [(''r'', 1)]\<rparr>, [CallSubscribe 0 7])"
  proof -
    have "map (\<lambda>b. (mb_Empty b, snd (mb_build b))) (mq_builders demo_mq) =
        [(False, \<lparr>im_public = \<lparr>mdt_BlockData = [], mdt_ResponseCodes = [(''r'', 14)]\<rparr>,
         im_topic = 0, im_msgSize = 3, im_responseStreams = [(''r'', 1)]\<rparr>, [CallSubscribe 0 7])]"
      by code_simp
    with that show thesis by auto
  qed
  have "mq_log demo_mq = [CallAllocate 3]" by code_simp
  moreover obtain message where "mb_build b = (message, \<lparr>im_public = \<lparr>mdt_BlockData = [],
      mdt_ResponseCodes = [(''r'', 14)]\<rparr>, im_topic = 0, im_msgSize = 3, im_responseStreams = [(''r'', 1)]\<rparr>,
      [CallSubscribe 0 7])" using b(3) by (cases "mb_build b") simp
  ultimately show ?thesis
    using send_message_settles_once[OF b(1,2), of message _ _ True
        "\<lambda>_. \<lparr>at_sendOk = False, at_wake = WakeTimeout, at_openOk = True\<rparr>"] by fastforce
qed

end
