(* ===== verification/Peer_Manager.thy ===== *)
theory Peer_Manager
  imports GS_Types
begin

text \<open>
  \<^verbatim>\<open>peermanager/peermanager.go\<close>, \<^verbatim>\<open>persistenceoptions/persistenceoptions.go\<close> and
  \<^verbatim>\<open>peerstate/peerstate.go\<close>: the reference-counted pool of per-peer processes, the registry of named
  link systems, and the diagnostics that compare request states with the task queue.

  A process is a pointer, modelled by the number of its creation; the calls to its \<^verbatim>\<open>Startup\<close> and
  \<^verbatim>\<open>Shutdown\<close> are logged. \<open>isProcess\<close> says whether the handler the factory makes is a
  \<^verbatim>\<open>PeerProcess\<close> (message queues are, link trackers are not).
\<close>

section \<open>The pool\<close>

record peer_instance =
  pi_refcnt :: int
  pi_process :: nat

record peer_manager =
  pm_peerProcesses :: "(peer_id, peer_instance) gomap"
  pm_created :: nat
  pm_isProcess :: bool
  pm_started :: "nat list"
  pm_stopped :: "nat list"

definition pm_New :: "bool \<Rightarrow> peer_manager" where
  "pm_New isProcess = \<lparr>pm_peerProcesses = [], pm_created = 0, pm_isProcess = isProcess,
     pm_started = [], pm_stopped = []\<rparr>"

definition ConnectedPeers :: "peer_manager \<Rightarrow> peer_id list" where
  "ConnectedPeers pm = mkeys (pm_peerProcesses pm)"

definition getOrCreate :: "peer_manager \<Rightarrow> peer_id \<Rightarrow> peer_instance \<times> peer_manager" where
  "getOrCreate pm p =
     (case mget (pm_peerProcesses pm) p of
        Some pqi \<Rightarrow> (pqi, pm)
      | None \<Rightarrow>
          let pq = pm_created pm;
              pqi = \<lparr>pi_refcnt = 0, pi_process = pq\<rparr>
          in (pqi, pm\<lparr>pm_created := Suc pq,
                      pm_started := (if pm_isProcess pm then pm_started pm @ [pq] else pm_started pm),
                      pm_peerProcesses := mput p pqi (pm_peerProcesses pm)\<rparr>))"

definition pm_Connected :: "peer_manager \<Rightarrow> peer_id \<Rightarrow> peer_manager" where
  "pm_Connected pm p =
     (let (pq, pm1) = getOrCreate pm p
      in pm1\<lparr>pm_peerProcesses := mput p (pq\<lparr>pi_refcnt := pi_refcnt pq + 1\<rparr>) (pm_peerProcesses pm1)\<rparr>)"

definition pm_Disconnected :: "peer_manager \<Rightarrow> peer_id \<Rightarrow> peer_manager" where
  "pm_Disconnected pm p =
     (case mget (pm_peerProcesses pm) p of
        None \<Rightarrow> pm
      | Some pq \<Rightarrow>
          let pq1 = pq\<lparr>pi_refcnt := pi_refcnt pq - 1\<rparr>
          in if pi_refcnt pq1 > 0
             then pm\<lparr>pm_peerProcesses := mput p pq1 (pm_peerProcesses pm)\<rparr>
             else pm\<lparr>pm_peerProcesses := mdel p (pm_peerProcesses pm),
                     pm_stopped := (if pm_isProcess pm then pm_stopped pm @ [pi_process pq1]
                                    else pm_stopped pm)\<rparr>)"

definition GetProcess :: "peer_manager \<Rightarrow> peer_id \<Rightarrow> nat \<times> peer_manager" where
  "GetProcess pm p =
     (case mget (pm_peerProcesses pm) p of
        Some pqi \<Rightarrow> (pi_process pqi, pm)
      | None \<Rightarrow> let (pqi, pm1) = getOrCreate pm p in (pi_process pqi, pm1))"

datatype pm_op = PmConnected peer_id | PmDisconnected peer_id | PmGetProcess peer_id

fun pm_step :: "pm_op \<Rightarrow> peer_manager \<Rightarrow> peer_manager" where
  "pm_step (PmConnected p) pm = pm_Connected pm p"
| "pm_step (PmDisconnected p) pm = pm_Disconnected pm p"
| "pm_step (PmGetProcess p) pm = snd (GetProcess pm p)"

definition live :: "peer_manager \<Rightarrow> nat multiset" where
  "live pm = image_mset (pi_process \<circ> snd) (mset (pm_peerProcesses pm))"

definition pm_inv :: "peer_manager \<Rightarrow> bool" where
  "pm_inv pm \<longleftrightarrow>
     mwf (pm_peerProcesses pm) \<and>
     (if pm_isProcess pm
      then pm_started pm = [0..<pm_created pm] \<and> mset (pm_started pm) = mset (pm_stopped pm) + live pm
      else pm_started pm = [] \<and> pm_stopped pm = []) \<and>
     (\<forall>p pq. mget (pm_peerProcesses pm) p = Some pq \<longrightarrow> pi_refcnt pq \<ge> 0 \<and> pi_process pq < pm_created pm)"

lemma live_mput:
  "mwf m \<Longrightarrow> mget m p = Some q \<Longrightarrow> pi_process q' = pi_process q \<Longrightarrow>
     image_mset (pi_process \<circ> snd) (mset (mput p q' m)) = image_mset (pi_process \<circ> snd) (mset m)"
  by (simp add: mset_mput mset_lookup[of m p q])

lemma live_new:
  "mwf m \<Longrightarrow> mget m p = None \<Longrightarrow>
     image_mset (pi_process \<circ> snd) (mset (mput p q m)) = add_mset (pi_process q) (image_mset (pi_process \<circ> snd) (mset m))"
  by (simp add: mset_mput mdel_absent)

lemma live_del:
  "mwf m \<Longrightarrow> mget m p = Some q \<Longrightarrow>
     image_mset (pi_process \<circ> snd) (mset m) = add_mset (pi_process q) (image_mset (pi_process \<circ> snd) (mset (mdel p m)))"
  by (simp add: mset_lookup[of m p q])

lemma getOrCreate_inv:
  assumes "pm_inv pm" "getOrCreate pm p = (pq, pm1)"
  shows "pm_inv pm1" "mget (pm_peerProcesses pm1) p = Some pq"
    "pm_isProcess pm1 = pm_isProcess pm"
  using assms
  by (auto simp: getOrCreate_def pm_inv_def live_def Let_def live_new less_SucI split: option.splits if_splits)

lemma pm_step_inv [gs_inv]:
  assumes "pm_inv pm"
  shows "pm_inv (pm_step op pm)"
proof (cases op)
  case (PmConnected p)
  obtain pq pm1 where g: "getOrCreate pm p = (pq, pm1)" by fastforce
  note i = getOrCreate_inv[OF assms g]
  show ?thesis
    using i live_mput[OF _ i(2), of "pq\<lparr>pi_refcnt := pi_refcnt pq + 1\<rparr>"]
    by (auto simp: PmConnected pm_Connected_def g pm_inv_def live_def)
next
  case (PmDisconnected p)
  show ?thesis
  proof (cases "mget (pm_peerProcesses pm) p")
    case (Some pq)
    with assms live_mput[OF _ Some, of "pq\<lparr>pi_refcnt := pi_refcnt pq - 1\<rparr>"] live_del[OF _ Some]
    show ?thesis
      by (auto simp: PmDisconnected pm_Disconnected_def pm_inv_def live_def Let_def)
  qed (use assms in \<open>simp add: PmDisconnected pm_Disconnected_def\<close>)
next
  case (PmGetProcess p)
  obtain pq pm1 where g: "getOrCreate pm p = (pq, pm1)" by fastforce
  with assms getOrCreate_inv(1)[OF assms g] show ?thesis
    by (auto simp: PmGetProcess GetProcess_def split: option.splits)
qed

lemma pm_run_inv: "pm_inv (fold pm_step ops (pm_New isP))"
proof (induction ops rule: rev_induct)
  case Nil
  show ?case by (simp add: pm_inv_def pm_New_def live_def)
qed (simp add: gs_inv)

text \<open>Whatever connects, disconnects and lookups happen, every message-queue process the pool
  creates is started exactly once, in order of creation, and each is either stopped exactly once
  or is the process of exactly one peer, the one a lookup for that peer returns.\<close>

theorem peer_process_lifecycle:
  "let pm = fold pm_step ops (pm_New True) in
     pm_started pm = [0..<pm_created pm] \<and>
     mset (pm_started pm) = mset (pm_stopped pm) + live pm \<and>
     (\<forall>p. case mget (pm_peerProcesses pm) p of
            None \<Rightarrow> fst (GetProcess pm p) = pm_created pm
          | Some pq \<Rightarrow> fst (GetProcess pm p) = pi_process pq \<and> pi_process pq \<in># live pm)"
proof -
  define pm where "pm = fold pm_step ops (pm_New True)"
  have inv: "pm_inv pm" unfolding pm_def by (rule pm_run_inv)
  have "pm_isProcess (pm_step op pm) = pm_isProcess pm" for op and pm
    by (cases op) (auto simp: pm_Connected_def pm_Disconnected_def GetProcess_def getOrCreate_def Let_def
        split: option.splits prod.splits)
  then have "pm_isProcess pm" unfolding pm_def by (induction ops rule: rev_induct) (auto simp: pm_New_def)
  moreover have "pi_process pq \<in># live pm" if "mget (pm_peerProcesses pm) p = Some pq" for p pq
    using live_del[OF _ that] inv by (auto simp: live_def pm_inv_def)
  ultimately show ?thesis
    using inv unfolding pm_def[symmetric] Let_def pm_inv_def
    by (auto simp: GetProcess_def getOrCreate_def Let_def split: option.splits)
qed

section \<open>Persistence options\<close>

type_synonym 'ls persistence_options = "(string, 'ls) gomap"

definition po_Register :: "'ls persistence_options \<Rightarrow> string \<Rightarrow> 'ls \<Rightarrow> gs_error + 'ls persistence_options" where
  "po_Register po name linkSystem =
     (if mhas po name then Inl (OtherErr ''persistence option already registered'')
      else Inr (mput name linkSystem po))"

definition po_Unregister :: "'ls persistence_options \<Rightarrow> string \<Rightarrow> gs_error + 'ls persistence_options" where
  "po_Unregister po name =
     (if \<not> mhas po name then Inl (OtherErr ''persistence option is not registered'')
      else Inr (mdel name po))"

definition po_GetLinkSystem :: "'ls persistence_options \<Rightarrow> string \<Rightarrow> 'ls option" where
  "po_GetLinkSystem po name = mget po name"

section \<open>Diagnostics\<close>

text \<open>The messages name the kind of inconsistency; the formatted ID and state are the arguments.\<close>

datatype diagnostic =
    ActiveNotRunning request_state
  | ActiveUntracked
  | PendingNotQueued request_state
  | PendingUntracked
  | RunningNotActive
  | QueuedNotPending

record peer_state =
  RequestStates :: "(request_id, request_state) gomap"
  TQ_Active :: "request_id list"
  TQ_Pending :: "request_id list"

type_synonym diag_map = "(request_id, diagnostic list) gomap"

definition diag_add :: "request_id \<Rightarrow> diagnostic \<Rightarrow> diag_map \<Rightarrow> diag_map" where
  "diag_add rid d m = mput rid (mgetd [] m rid @ [d]) m"

definition checkActive ::
  "peer_state \<Rightarrow> request_id list \<times> diag_map \<Rightarrow> request_id \<Rightarrow> request_id list \<times> diag_map" where
  "checkActive ps = (\<lambda>(matched, dg) rid.
     case mget (RequestStates ps) rid of
       Some status \<Rightarrow> (List.insert rid matched,
          if status \<noteq> Running then diag_add rid (ActiveNotRunning status) dg else dg)
     | None \<Rightarrow> (matched, diag_add rid ActiveUntracked dg))"

definition checkPending ::
  "peer_state \<Rightarrow> request_id list \<times> diag_map \<Rightarrow> request_id \<Rightarrow> request_id list \<times> diag_map" where
  "checkPending ps = (\<lambda>(matched, dg) rid.
     case mget (RequestStates ps) rid of
       Some status \<Rightarrow> (List.insert rid matched,
          if status \<noteq> Queued then diag_add rid (PendingNotQueued status) dg else dg)
     | None \<Rightarrow> (matched, diag_add rid PendingUntracked dg))"

definition checkTracked ::
  "request_id list \<Rightarrow> request_id list \<Rightarrow> diag_map \<Rightarrow> request_id \<times> request_state \<Rightarrow> diag_map" where
  "checkTracked matchedActive matchedPending = (\<lambda>dg (rid, state).
     let dg' = (if state = Running \<and> rid \<notin> set matchedActive
                then diag_add rid RunningNotActive dg else dg)
     in if state = Queued \<and> rid \<notin> set matchedPending
        then diag_add rid QueuedNotPending dg' else dg')"

definition Diagnostics :: "peer_state \<Rightarrow> diag_map" where
  "Diagnostics ps =
     (let (matchedActive, dg1) = foldl (checkActive ps) ([], []) (TQ_Active ps);
          (matchedPending, dg2) = foldl (checkPending ps) ([], dg1) (TQ_Pending ps)
      in foldl (checkTracked matchedActive matchedPending) dg2 (RequestStates ps))"

definition consistent :: "peer_state \<Rightarrow> bool" where
  "consistent ps \<longleftrightarrow>
     (\<forall>rid \<in> set (TQ_Active ps). mget (RequestStates ps) rid = Some Running) \<and>
     (\<forall>rid \<in> set (TQ_Pending ps). mget (RequestStates ps) rid = Some Queued) \<and>
     (\<forall>(rid, st) \<in> set (RequestStates ps).
        (st = Running \<longrightarrow> rid \<in> set (TQ_Active ps)) \<and> (st = Queued \<longrightarrow> rid \<in> set (TQ_Pending ps)))"

lemma diag_add_nonempty [simp]: "diag_add rid d m \<noteq> []"
  by (metis diag_add_def map_of.simps(1) mget_mput fun_upd_same option.discI)

lemma active_fold:
  "snd (foldl (checkActive ps) (m, dg) rids) = [] \<longleftrightarrow>
     dg = [] \<and> (\<forall>rid \<in> set rids. mget (RequestStates ps) rid = Some Running)"
  "(\<forall>rid \<in> set rids. mget (RequestStates ps) rid = Some Running) \<Longrightarrow>
     set (fst (foldl (checkActive ps) (m, dg) rids)) = set m \<union> set rids"
  by (induction rids arbitrary: m dg) (auto simp: checkActive_def split: option.splits)

lemma pending_fold:
  "snd (foldl (checkPending ps) (m, dg) rids) = [] \<longleftrightarrow>
     dg = [] \<and> (\<forall>rid \<in> set rids. mget (RequestStates ps) rid = Some Queued)"
  "(\<forall>rid \<in> set rids. mget (RequestStates ps) rid = Some Queued) \<Longrightarrow>
     set (fst (foldl (checkPending ps) (m, dg) rids)) = set m \<union> set rids"
  by (induction rids arbitrary: m dg) (auto simp: checkPending_def split: option.splits)

lemma tracked_fold:
  "foldl (checkTracked A P) dg sts = [] \<longleftrightarrow>
     dg = [] \<and> (\<forall>(rid, st) \<in> set sts. (st = Running \<longrightarrow> rid \<in> set A) \<and> (st = Queued \<longrightarrow> rid \<in> set P))"
  by (induction sts arbitrary: dg) (auto simp: checkTracked_def Let_def split: if_splits)

text \<open>C27: The diagnostics of a peer are empty exactly when its request states and its task queue
  agree: every active task is a running request, every pending task a queued one, and every
  running or queued request that is tracked is in the respective queue.\<close>

theorem diagnostics_empty_iff_consistent:
  "Diagnostics ps = [] \<longleftrightarrow> consistent ps"
proof -
  obtain mA dA where a: "foldl (checkActive ps) ([], []) (TQ_Active ps) = (mA, dA)" by fastforce
  obtain mP dP where p: "foldl (checkPending ps) ([], dA) (TQ_Pending ps) = (mP, dP)" by fastforce
  have "Diagnostics ps = [] \<longleftrightarrow> dP = [] \<and>
      (\<forall>(rid, st) \<in> set (RequestStates ps). (st = Running \<longrightarrow> rid \<in> set mA) \<and> (st = Queued \<longrightarrow> rid \<in> set mP))"
    by (simp add: Diagnostics_def a p tracked_fold)
  then show ?thesis
    using active_fold[where ps = ps and m = "[]" and dg = "[]" and rids = "TQ_Active ps"]
      pending_fold[where ps = ps and m = "[]" and dg = dA and rids = "TQ_Pending ps"]
    unfolding consistent_def a p by auto
qed

end
