(* ===== verification/Response_Assembler.thy ===== *)
theory Response_Assembler
  imports Peer_Link_Tracker Message_Queue
begin

text \<open>
  \<^verbatim>\<open>responsemanager/responseassembler/responseBuilder.go\<close> and \<^verbatim>\<open>responseassembler.go\<close>: the builder a
  transaction works on, the operations it collects, and the stream that puts them into one message.

  A nil data slice is \<open>None\<close>. A transaction is a function on the response builder; \<open>None\<close> as a
  result stands for a nil dereference in the link tracker, which the invariant excludes. The encoded
  length of extension data (\<^verbatim>\<open>dagcbor.EncodedLength\<close>) is the parameter \<open>encLen\<close>.
  \<^verbatim>\<open>blocks.NewBlockWithCid\<close> fails only in debug builds; outside of them it pairs the data with the CID.
\<close>

section \<open>The response builder\<close>

datatype 'n response_operation =
    StatusOperation request_id status_code
  | ExtensionOperation request_id "'n ext_data"
  | BlockOperation "bytes option" bool cid request_id i64

type_synonym tracker = "(request_id, cid) peer_link_tracker"

record 'n response_builder =
  rb_requestID :: request_id
  rb_operations :: "'n response_operation list"
  rb_linkTracker :: tracker

definition bo_Block :: "bytes option \<Rightarrow> bool \<Rightarrow> cid \<Rightarrow> i64 \<Rightarrow> block_data" where
  "bo_Block data sendBlock link index =
     \<lparr>bd_sendBlock = sendBlock, bd_link = link, bd_index = index,
      bd_size = (case data of None \<Rightarrow> 0 | Some d \<Rightarrow> of_nat (length d))\<rparr>"

definition bd_BlockSizeOnWire :: "block_data \<Rightarrow> u64" where
  "bd_BlockSizeOnWire bo = (if \<not> bd_sendBlock bo then 0 else bd_size bo)"

definition addOperation :: "'n response_builder \<Rightarrow> 'n response_operation \<Rightarrow> 'n response_builder" where
  "addOperation rb op = rb\<lparr>rb_operations := rb_operations rb @ [op]\<rparr>"

definition setupBlockOperation ::
  "'n response_builder \<Rightarrow> cid \<Rightarrow> bytes option \<Rightarrow> ('n response_operation \<times> block_data \<times> tracker) option" where
  "setupBlockOperation rb link data =
     (case plt_RecordLinkTraversal (rb_linkTracker rb) (rb_requestID rb) link (data \<noteq> None) of
        None \<Rightarrow> None
      | Some ((send, index), tracker) \<Rightarrow>
          Some (BlockOperation data send link (rb_requestID rb) index, bo_Block data send link index, tracker))"

definition SendResponse ::
  "'n response_builder \<Rightarrow> cid \<Rightarrow> bytes option \<Rightarrow> (block_data \<times> 'n response_builder) option" where
  "SendResponse rb link data =
     (case setupBlockOperation rb link data of
        None \<Rightarrow> None
      | Some (op, block, tracker) \<Rightarrow> Some (block, addOperation (rb\<lparr>rb_linkTracker := tracker\<rparr>) op))"

definition SendExtensionData :: "'n response_builder \<Rightarrow> 'n ext_data \<Rightarrow> 'n response_builder" where
  "SendExtensionData rb extension = addOperation rb (ExtensionOperation (rb_requestID rb) extension)"

definition FinishRequest :: "'n response_builder \<Rightarrow> (status_code \<times> 'n response_builder) option" where
  "FinishRequest rb =
     (case FinishTracking (rb_linkTracker rb) (rb_requestID rb) of
        None \<Rightarrow> None
      | Some (isComplete, tracker) \<Rightarrow>
          let status = (if isComplete then RequestCompletedFull else RequestCompletedPartial)
          in Some (status, addOperation (rb\<lparr>rb_linkTracker := tracker\<rparr>)
                             (StatusOperation (rb_requestID rb) status)))"

definition FinishWithError :: "'n response_builder \<Rightarrow> status_code \<Rightarrow> 'n response_builder option" where
  "FinishWithError rb status =
     (case FinishTracking (rb_linkTracker rb) (rb_requestID rb) of
        None \<Rightarrow> None
      | Some (_, tracker) \<Rightarrow>
          Some (addOperation (rb\<lparr>rb_linkTracker := tracker\<rparr>) (StatusOperation (rb_requestID rb) status)))"

definition PauseRequest :: "'n response_builder \<Rightarrow> 'n response_builder" where
  "PauseRequest rb = addOperation rb (StatusOperation (rb_requestID rb) RequestPaused)"

definition SendUpdates :: "'n response_builder \<Rightarrow> 'n ext_data list \<Rightarrow> 'n response_builder" where
  "SendUpdates rb extensions =
     addOperation (foldl SendExtensionData rb extensions) (StatusOperation (rb_requestID rb) PartialResponse)"

fun op_build :: "'n response_operation \<Rightarrow> ('n, 's, 'c) mq_builder \<Rightarrow> ('n, 's, 'c) mq_builder" where
  "op_build (StatusOperation rid status) builder =
     on_builder (\<lambda>b. AddResponseCode b rid status) builder"
| "op_build (ExtensionOperation rid extension) builder =
     on_builder (\<lambda>b. AddExtensionData b rid extension) builder"
| "op_build (BlockOperation data sendBlock link rid index) builder =
     (let b1 = (if sendBlock
                then on_builder (\<lambda>b. AddBlock b
                       \<lparr>blk_Cid = link, blk_RawData = (case data of None \<Rightarrow> [] | Some d \<Rightarrow> d)\<rparr>) builder
                else builder);
          action = (if data = None then LinkActionMissing else LinkActionPresent);
          b2 = on_builder (\<lambda>b. AddLink b rid link action) b1
      in AddBlockData rid (bo_Block data sendBlock link index) b2)"

fun op_size :: "('n \<Rightarrow> nat) \<Rightarrow> 'n response_operation \<Rightarrow> u64" where
  "op_size encLen (StatusOperation rid status) = 0"
| "op_size encLen (ExtensionOperation rid extension) =
     (case ed_Data extension of None \<Rightarrow> 0 | Some d \<Rightarrow> of_nat (encLen d))"
| "op_size encLen (BlockOperation data sendBlock link rid index) =
     (if \<not> sendBlock then 0 else (case data of None \<Rightarrow> 0 | Some d \<Rightarrow> of_nat (length d)))"

section \<open>The response stream\<close>

record ('s, 'c) response_stream =
  rs_requestID :: request_id
  rs_p :: peer_id
  rs_closed :: bool
  rs_subscriber :: 's
  rs_self :: 'c

type_synonym trackers = "(peer_id, tracker) gomap"

definition NewStream :: "peer_id \<Rightarrow> request_id \<Rightarrow> 's \<Rightarrow> 'c \<Rightarrow> ('s, 'c) response_stream" where
  "NewStream p rid subscriber self =
     \<lparr>rs_requestID = rid, rs_p = p, rs_closed = False, rs_subscriber = subscriber, rs_self = self\<rparr>"

definition rs_Close :: "('s, 'c) response_stream \<Rightarrow> ('s, 'c) response_stream" where
  "rs_Close rs = rs\<lparr>rs_closed := True\<rparr>"

text \<open>\<^verbatim>\<open>linkTrackers.GetProcess(p)\<close>: the tracker of the peer, created when it is not there.\<close>

definition trackerOf :: "trackers \<Rightarrow> peer_id \<Rightarrow> tracker" where
  "trackerOf ts p = mgetd newTracker ts p"

definition rs_DedupKey :: "('s, 'c) response_stream \<Rightarrow> string \<Rightarrow> trackers \<Rightarrow> trackers" where
  "rs_DedupKey rs key ts = mput (rs_p rs) (DedupKey (trackerOf ts (rs_p rs)) (rs_requestID rs) key) ts"

definition rs_IgnoreBlocks :: "('s, 'c) response_stream \<Rightarrow> cid list \<Rightarrow> trackers \<Rightarrow> trackers option" where
  "rs_IgnoreBlocks rs links ts =
     map_option (\<lambda>t. mput (rs_p rs) t ts) (IgnoreBlocks (trackerOf ts (rs_p rs)) (rs_requestID rs) links)"

definition rs_SkipFirstBlocks :: "('s, 'c) response_stream \<Rightarrow> i64 \<Rightarrow> trackers \<Rightarrow> trackers" where
  "rs_SkipFirstBlocks rs n ts =
     mput (rs_p rs) (SkipFirstBlocks (trackerOf ts (rs_p rs)) (rs_requestID rs) n) ts"

definition rs_ClearRequest :: "('s, 'c) response_stream \<Rightarrow> trackers \<Rightarrow> trackers option" where
  "rs_ClearRequest rs ts =
     map_option (\<lambda>(_, t). mput (rs_p rs) t ts) (FinishTracking (trackerOf ts (rs_p rs)) (rs_requestID rs))"

definition buildOps ::
  "('s, 'c) response_stream \<Rightarrow> 'n response_operation list \<Rightarrow> ('n, 's, 'c) mq_builder \<Rightarrow> ('n, 's, 'c) mq_builder" where
  "buildOps rs operations builder =
     SetSubscriber (rs_requestID rs) (rs_subscriber rs)
       (SetResponseStream (rs_requestID rs) (rs_self rs)
         (foldl (\<lambda>b op. op_build op b) builder operations))"

text \<open>\<open>closedLater\<close>: the stream was closed by the time the message is built; \<open>ctxDone\<close> as in
  \<open>AllocateAndBuildMessage\<close>. The queue is the one of the stream's peer.\<close>

definition execute ::
  "('n \<Rightarrow> nat) \<Rightarrow> ('s, 'c) response_stream \<Rightarrow> 'n response_operation list \<Rightarrow> bool \<Rightarrow> bool \<Rightarrow>
   ('n, 's, 'c) message_queue \<Rightarrow> ('n, 's, 'c) message_queue" where
  "execute encLen rs operations closedLater ctxDone mq =
     (if rs_closed rs then mq
      else
        let blkSize = foldl (\<lambda>n op. n + op_size encLen op) 0 operations
        in AllocateAndBuildMessage mq blkSize
             (\<lambda>builder. if rs_closed rs \<or> closedLater then builder else buildOps rs operations builder)
             ctxDone)"

definition Transaction ::
  "('n \<Rightarrow> nat) \<Rightarrow> ('s, 'c) response_stream \<Rightarrow>
   ('n response_builder \<Rightarrow> (gs_error option \<times> 'n response_builder) option) \<Rightarrow> bool \<Rightarrow> bool \<Rightarrow>
   trackers \<times> ('n, 's, 'c) message_queue \<Rightarrow>
   (gs_error option \<times> trackers \<times> ('n, 's, 'c) message_queue) option" where
  "Transaction encLen rs transaction closedLater ctxDone st =
     (let (ts, mq) = st;
          rb = \<lparr>rb_requestID = rs_requestID rs, rb_operations = [],
                rb_linkTracker = trackerOf ts (rs_p rs)\<rparr>
      in case transaction rb of
           None \<Rightarrow> None
         | Some (err, rb') \<Rightarrow>
             Some (err, mput (rs_p rs) (rb_linkTracker rb') ts,
                   execute encLen rs (rb_operations rb') closedLater ctxDone mq))"

section \<open>The operations as builder operations\<close>

fun op_ops :: "'n response_operation \<Rightarrow> 'n b_op list" where
  "op_ops (StatusOperation rid status) = [OpAddResponseCode rid status]"
| "op_ops (ExtensionOperation rid extension) = [OpAddExtensionData rid extension]"
| "op_ops (BlockOperation data sendBlock link rid index) =
     (if sendBlock
      then [OpAddBlock \<lparr>blk_Cid = link, blk_RawData = (case data of None \<Rightarrow> [] | Some d \<Rightarrow> d)\<rparr>] else []) @
     [OpAddLink rid link (if data = None then LinkActionMissing else LinkActionPresent)]"

fun block_bytes :: "'n response_operation \<Rightarrow> u64" where
  "block_bytes (BlockOperation data sendBlock link rid index) =
     (if \<not> sendBlock then 0 else (case data of None \<Rightarrow> 0 | Some d \<Rightarrow> of_nat (length d)))"
| "block_bytes _ = 0"

fun extension_bytes :: "('n \<Rightarrow> nat) \<Rightarrow> 'n response_operation \<Rightarrow> u64" where
  "extension_bytes encLen (ExtensionOperation rid extension) =
     (case ed_Data extension of None \<Rightarrow> 0 | Some d \<Rightarrow> of_nat (encLen d))"
| "extension_bytes encLen _ = 0"

lemma op_size_split: "op_size encLen op = block_bytes op + extension_bytes encLen op"
  by (cases op) auto

lemma op_size_split_unat: "unat (op_size encLen op) = unat (block_bytes op) + unat (extension_bytes encLen op)"
  by (cases op) auto

lemma op_build_ops: "mb_Builder (op_build op b) = fold b_apply (op_ops op) (mb_Builder b)"
  by (cases op) (auto simp: on_builder_def AddBlockData_def Let_def)

lemma ops_build: "mb_Builder (foldl (\<lambda>b op. op_build op b) b ops) = fold b_apply (concat (map op_ops ops)) (mb_Builder b)"
  by (induction ops arbitrary: b) (simp_all add: op_build_ops)

lemma buildOps_builder: "mb_Builder (buildOps rs ops b) = fold b_apply (concat (map op_ops ops)) (mb_Builder b)"
  by (simp add: buildOps_def SetSubscriber_def SetResponseStream_def ops_build)

lemma b_apply_blkSize:
  "b_blkSize (fold b_apply (op_ops op) b) = b_blkSize b + block_bytes op"
  by (cases op)
    (auto simp: AddResponseCode_def AddExtensionData_def AddBlock_def AddLink_def touch_fields rawLen_def
      split: option.splits)

lemma ops_blkSize: "b_blkSize (fold b_apply (concat (map op_ops ops)) b) = b_blkSize b + (\<Sum>op \<leftarrow> ops. block_bytes op)"
  by (induction ops arbitrary: b) (simp_all add: b_apply_blkSize add.assoc)

fun op_rid :: "'n response_operation \<Rightarrow> request_id" where
  "op_rid (StatusOperation rid status) = rid"
| "op_rid (ExtensionOperation rid extension) = rid"
| "op_rid (BlockOperation data sendBlock link rid index) = rid"

lemma op_touches: "mget (b_outgoingResponses (fold b_apply (op_ops op) b)) (op_rid op) \<noteq> None"
  by (cases op) (simp_all add: AddResponseCode_def AddExtensionData_def AddLink_def touch_fields)

lemma op_ops_touch:
  "ops \<noteq> [] \<Longrightarrow> b_outgoingResponses (fold b_apply (concat (map op_ops ops)) b) \<noteq> []"
proof (induction ops rule: rev_induct)
  case (snoc op ops)
  show ?case using op_touches[of op "fold b_apply (concat (map op_ops ops)) b"] by auto
qed simp

section \<open>Memory: what is allocated and what is released\<close>

fun allocated :: "('n, 's, 'c) mq_call \<Rightarrow> nat" where
  "allocated (CallAllocate n) = unat n" | "allocated _ = 0"

fun released :: "('n, 's, 'c) mq_call \<Rightarrow> nat" where
  "released (CallRelease n) = unat n" | "released _ = 0"

lemma execute_fresh:
  fixes ops :: "'n response_operation list"
  assumes ops: "ops \<noteq> []" and n: "tot = (\<Sum>op \<leftarrow> ops. op_size encLen op)" and "\<not> rs_closed rs"
  shows "\<exists>b. mq_builders (execute encLen rs ops False False (mq_New k)) = [b] \<and> \<not> mb_Empty b \<and>
      mb_Builder b = fold b_apply (concat (map op_ops ops)) NewBuilder \<and> mb_topic b = 0 \<and>
      mb_BlockSize b = (\<Sum>op \<leftarrow> ops. block_bytes op) \<and>
      mq_maxRetries (execute encLen rs ops False False (mq_New k)) = k \<and>
      mq_log (execute encLen rs ops False False (mq_New k)) = (if tot > 0 then [CallAllocate tot] else [])"
proof -
  let ?b = "buildOps rs ops (mb_NewBuilder 0)"
  have mb: "mb_Builder ?b = fold b_apply (concat (map op_ops ops)) NewBuilder"
    by (simp add: buildOps_builder mb_NewBuilder_def)
  then have ne: "\<not> mb_Empty ?b"
    using op_ops_touch[OF ops, of NewBuilder] by (simp add: mb_Empty_def b_Empty_def)
  have size: "mb_BlockSize ?b = (\<Sum>op \<leftarrow> ops. block_bytes op)"
    by (simp add: mb_BlockSize_def BlockSize_def mb ops_blkSize) (simp add: NewBuilder_def)
  have topic: "mb_topic ?b = 0"
  proof -
    have "mb_topic (op_build op b) = mb_topic b" for op and b :: "('n, 'a, 'b) mq_builder"
      by (cases op) (auto simp: on_builder_def AddBlockData_def Let_def)
    then have "mb_topic (foldl (\<lambda>b op. op_build op b) b ops) = mb_topic b" for b :: "('n, 'a, 'b) mq_builder"
      by (induction ops arbitrary: b) auto
    then show ?thesis by (simp add: buildOps_def SetSubscriber_def SetResponseStream_def mb_NewBuilder_def)
  qed
  show ?thesis
    using assms(3) ne mb size topic
    by (auto simp: execute_def foldl_sum n AllocateAndBuildMessage_def buildMessage_def
        shouldBeginNewResponse_def mq_New_def call_def signalWork_def Let_def)
qed

text \<open>When a transaction on an open stream is queued and the message is sent, the memory given
  back to the allocator is the memory reserved for the transaction less the encoded size of its
  extension data: the reservation counts blocks and extensions, the release only the blocks. Every
  response that carries extension data therefore leaves memory reserved until the peer disconnects.\<close>

theorem extension_memory_not_released:
  fixes ops :: "'n response_operation list"
  assumes "ops \<noteq> []" and "(\<Sum>op \<leftarrow> ops. unat (op_size encLen op)) < 2 ^ 64" and "0 < maxRetries"
  shows "let mq = sendMessage True (\<lambda>_. \<lparr>at_sendOk = True, at_wake = WakeTimeout, at_openOk = True\<rparr>)
                    (execute encLen (NewStream p rid sub self) ops False False (mq_New maxRetries))
         in (\<Sum>c \<leftarrow> mq_log mq. allocated c) =
              (\<Sum>c \<leftarrow> mq_log mq. released c) + (\<Sum>op \<leftarrow> ops. unat (extension_bytes encLen op))"
proof -
  define rs where "rs = NewStream p rid sub self"
  define tot where "tot = (\<Sum>op \<leftarrow> ops. op_size encLen op)"
  define mq where "mq = execute encLen rs ops False False (mq_New maxRetries)"
  have "\<not> rs_closed rs" by (simp add: rs_def NewStream_def)
  from execute_fresh[OF assms(1) tot_def this, of maxRetries] obtain b where
    b: "mq_builders mq = [b]" "\<not> mb_Empty b" "mb_BlockSize b = (\<Sum>op \<leftarrow> ops. block_bytes op)"
      "mq_maxRetries mq = maxRetries" "mq_log mq = (if tot > 0 then [CallAllocate tot] else [])"
    unfolding mq_def by blast
  have tot: "unat tot = (\<Sum>op \<leftarrow> ops. unat (op_size encLen op))"
    unfolding tot_def by (rule unat_sum_list[OF assms(2)])
  also have "\<dots> = (\<Sum>op \<leftarrow> ops. unat (block_bytes op)) + (\<Sum>op \<leftarrow> ops. unat (extension_bytes encLen op))"
    by (simp add: op_size_split_unat sum_list_addf)
  finally have split: "unat tot = (\<Sum>op \<leftarrow> ops. unat (block_bytes op)) + (\<Sum>op \<leftarrow> ops. unat (extension_bytes encLen op))" .
  have blk: "unat (mb_BlockSize b) = (\<Sum>op \<leftarrow> ops. unat (block_bytes op))"
    unfolding b(3) by (rule unat_sum_list) (use split unat_u64_less[of tot] in linarith)
  obtain k where k: "maxRetries = Suc k" using assms(3) gr0_implies_Suc by blast
  have log: "mq_log (sendMessage True (\<lambda>_. \<lparr>at_sendOk = True, at_wake = WakeTimeout, at_openOk = True\<rparr>) mq) =
      mq_log mq @ map (\<lambda>(_, subscriber). CallSubscribe (mb_topic b) subscriber) (mb_subscribers b) @
      [CallPublish (mb_topic b) (EvQueued (im_public (fst (snd (mb_build b)))))] @
      (if mq_sender mq then [] else [CallOpenSender]) @
      [CallSendMsg (fst (mb_build b)), CallPublish (mb_topic b) (EvSent (im_public (fst (snd (mb_build b))))),
       CallRelease (mb_BlockSize b), CallCloseTopic (mb_topic b)]"
    using b(1,2,4) k
    by (auto simp: sendMessage_def extractOutgoingMessage_def mb_build_def Let_def publishQueued_def
        publishSent_def initializeSender_def attemptSendAndRecovery_def call_def split: if_splits)
  have sub: "sum_list (map allocated (map (\<lambda>(_, subscriber). CallSubscribe t subscriber) m)) = 0"
    "sum_list (map released (map (\<lambda>(_, subscriber). CallSubscribe t subscriber) m)) = 0"
    for t and m :: "(request_id, 's) gomap"
    by (induction m) auto
  have "sum_list (map allocated (mq_log mq)) = unat tot" "sum_list (map released (mq_log mq)) = 0"
    unfolding b(5) by (cases "tot > 0"; simp add: word_neq_0_conv[symmetric])+
  then show ?thesis
    unfolding rs_def[symmetric] mq_def[symmetric] Let_def log map_append sum_list_append sub
    using split blk by simp
qed

section \<open>A whole response\<close>

text \<open>A transaction that sends the loaded blocks in order and finishes the request.\<close>

fun sendAll :: "'n response_builder \<Rightarrow> (cid \<times> bytes option) list \<Rightarrow> 'n response_builder option" where
  "sendAll rb [] = Some rb"
| "sendAll rb ((link, data) # rest) =
     (case SendResponse rb link data of None \<Rightarrow> None | Some (_, rb') \<Rightarrow> sendAll rb' rest)"

definition respondAll ::
  "(cid \<times> bytes option) list \<Rightarrow> 'n response_builder \<Rightarrow> (gs_error option \<times> 'n response_builder) option" where
  "respondAll lds rb =
     (case sendAll rb lds of
        None \<Rightarrow> None
      | Some rb1 \<Rightarrow> map_option (\<lambda>(status, rb2). (None, rb2)) (FinishRequest rb1))"

definition metadata_of :: "(cid \<times> bytes option) list \<Rightarrow> link_metadatum list" where
  "metadata_of lds = map (\<lambda>(l, d). \<lparr>md_Link = l,
     md_Action = if d = None then LinkActionMissing else LinkActionPresent\<rparr>) lds"

definition final_status :: "(cid \<times> bytes option) list \<Rightarrow> status_code" where
  "final_status lds =
     (if \<forall>(l, d) \<in> set lds. d \<noteq> None then RequestCompletedFull else RequestCompletedPartial)"

lemma plt_Record_missing:
  assumes "plt_inv prs" and "plt_RecordLinkTraversal prs r l hasBlock = Some (res, prs')"
  shows "bucket_missing prs' (getLinkTracker prs' r) =
     (if hasBlock then bucket_missing prs (getLinkTracker prs r)
      else insert (r, l) (bucket_missing prs (getLinkTracker prs r)))"
  using assms
  by (auto simp: plt_RecordLinkTraversal_def Let_def bucket_missing_def lt_missing_record split: option.splits)

lemma SendResponse_spec:
  assumes "plt_inv (rb_linkTracker rb)"
  shows "\<exists>blk send index tr. SendResponse rb link data =
       Some (blk, rb\<lparr>rb_linkTracker := tr,
         rb_operations := rb_operations rb @ [BlockOperation data send link (rb_requestID rb) index]\<rparr>) \<and>
     plt_inv tr \<and> (send \<longrightarrow> data \<noteq> None) \<and>
     bucket_missing tr (getLinkTracker tr (rb_requestID rb)) =
       (if data = None then {(rb_requestID rb, link)} else {}) \<union>
       bucket_missing (rb_linkTracker rb) (getLinkTracker (rb_linkTracker rb) (rb_requestID rb))"
proof -
  obtain send index tr where rec: "plt_RecordLinkTraversal (rb_linkTracker rb) (rb_requestID rb) link (data \<noteq> None) =
      Some ((send, index), tr)" "plt_inv tr" "send \<longrightarrow> data \<noteq> None"
    by - (rule plt_Record_spec[OF assms, of "rb_requestID rb" link "data \<noteq> None"], auto)
  from plt_Record_missing[OF assms rec(1)] rec show ?thesis
    by (intro exI[of _ "bo_Block data send link index"] exI[of _ send] exI[of _ index] exI[of _ tr])
      (auto simp: SendResponse_def setupBlockOperation_def addOperation_def)
qed

lemma sendAll_spec:
  assumes "plt_inv (rb_linkTracker rb)"
  shows "\<exists>tr sends. sendAll rb lds = Some (rb\<lparr>rb_linkTracker := tr,
       rb_operations := rb_operations rb @
         map (\<lambda>((l, d), (send, index)). BlockOperation d send l (rb_requestID rb) index) (zip lds sends)\<rparr>) \<and>
     length sends = length lds \<and> plt_inv tr \<and> (\<forall>((l, d), (send, index)) \<in> set (zip lds sends). send \<longrightarrow> d \<noteq> None) \<and>
     bucket_missing tr (getLinkTracker tr (rb_requestID rb)) =
       {(rb_requestID rb, l) | l. (l, None) \<in> set lds} \<union>
       bucket_missing (rb_linkTracker rb) (getLinkTracker (rb_linkTracker rb) (rb_requestID rb))"
  using assms
proof (induction lds arbitrary: rb)
  case Nil
  show ?case using Nil by (intro exI[of _ "rb_linkTracker rb"] exI[of _ "[]"]) simp
next
  case (Cons ld lds)
  obtain l d where ld: "ld = (l, d)" by (cases ld)
  obtain blk send index tr where s: "SendResponse rb l d = Some (blk, rb\<lparr>rb_linkTracker := tr,
         rb_operations := rb_operations rb @ [BlockOperation d send l (rb_requestID rb) index]\<rparr>)"
      "plt_inv tr" "send \<longrightarrow> d \<noteq> None"
      "bucket_missing tr (getLinkTracker tr (rb_requestID rb)) =
       (if d = None then {(rb_requestID rb, l)} else {}) \<union>
       bucket_missing (rb_linkTracker rb) (getLinkTracker (rb_linkTracker rb) (rb_requestID rb))"
    using SendResponse_spec[OF Cons.prems, of l d] by blast
  let ?rb = "rb\<lparr>rb_linkTracker := tr,
         rb_operations := rb_operations rb @ [BlockOperation d send l (rb_requestID rb) index]\<rparr>"
  obtain tr' sends where r: "sendAll ?rb lds = Some (?rb\<lparr>rb_linkTracker := tr',
       rb_operations := rb_operations ?rb @
         map (\<lambda>((l, d), (send, index)). BlockOperation d send l (rb_requestID ?rb) index) (zip lds sends)\<rparr>)"
     "length sends = length lds" "plt_inv tr'" "\<forall>((l, d), (send, index)) \<in> set (zip lds sends). send \<longrightarrow> d \<noteq> None"
     "bucket_missing tr' (getLinkTracker tr' (rb_requestID rb)) =
       {(rb_requestID rb, l) | l. (l, None) \<in> set lds} \<union> bucket_missing tr (getLinkTracker tr (rb_requestID rb))"
    using Cons.IH[of ?rb] s(2) by auto
  show ?case
    using s r ld by (intro exI[of _ tr'] exI[of _ "(send, index) # sends"]) auto
qed

lemma part_blocks:
  assumes "length sends = length lds"
  shows "fold (part_step rid)
       (concat (map op_ops (map (\<lambda>((l, d), (send, index)). BlockOperation d send l rid index) (zip lds sends))))
       (Some (ls, code, es)) = Some (ls @ metadata_of lds, code, es)"
  using assms
proof (induction lds arbitrary: sends ls)
  case (Cons ld lds)
  then show ?case
    by (cases ld; cases sends) (auto simp: part_content_def metadata_of_def)
qed (simp add: metadata_of_def)

lemma block_ops_blocks:
  assumes "length sends = length lds" "\<forall>((l, d), (send, index)) \<in> set (zip lds sends). send \<longrightarrow> d \<noteq> None"
    and "mget (b_outgoingBlocks (fold b_apply
       (concat (map op_ops (map (\<lambda>((l, d), (send, index)). BlockOperation d send l rid index) (zip lds sends)))) b)) c = Some blk"
  shows "mget (b_outgoingBlocks b) c = Some blk \<or> (c, Some (blk_RawData blk)) \<in> set lds \<and> blk_Cid blk = c"
  using assms
proof (induction lds arbitrary: sends b)
  case (Cons ld lds)
  obtain l d where ld: "ld = (l, d)" by (cases ld)
  obtain send index sends' where sends: "sends = (send, index) # sends'"
    using Cons.prems(1) by (cases sends) auto
  let ?b = "fold b_apply (op_ops (BlockOperation d send l rid index)) b"
  have "mget (b_outgoingBlocks ?b) c = Some blk \<or> (c, Some (blk_RawData blk)) \<in> set lds \<and> blk_Cid blk = c"
    by (rule Cons.IH[of sends']) (use Cons.prems ld sends in auto)
  then show ?case
    using Cons.prems(2) ld sends by (auto simp: AddBlock_def AddLink_def split: if_splits option.splits)
qed simp

text \<open>The operations the transaction collects, and the message they build.\<close>

lemma respondAll_run:
  assumes inv: "plt_inv tr0" and fresh: "\<forall>l. (rid, l) \<notin> bucket_missing tr0 (getLinkTracker tr0 rid)"
  shows "\<exists>tr' sends. respondAll lds \<lparr>rb_requestID = rid, rb_operations = ([] :: 'n response_operation list),
         rb_linkTracker = tr0\<rparr> = Some (None, \<lparr>rb_requestID = rid,
         rb_operations = map (\<lambda>((l, d), (send, index)). BlockOperation d send l rid index) (zip lds sends) @
           [StatusOperation rid (final_status lds)], rb_linkTracker = tr'\<rparr>) \<and>
     plt_inv tr' \<and> length sends = length lds \<and>
     (\<forall>((l, d), (send, index)) \<in> set (zip lds sends). send \<longrightarrow> d \<noteq> None)"
proof -
  define rb0 :: "'n response_builder" where
    "rb0 = \<lparr>rb_requestID = rid, rb_operations = [], rb_linkTracker = tr0\<rparr>"
  obtain tr sends where s: "sendAll rb0 lds = Some (rb0\<lparr>rb_linkTracker := tr,
       rb_operations := rb_operations rb0 @
         map (\<lambda>((l, d), (send, index)). BlockOperation d send l (rb_requestID rb0) index) (zip lds sends)\<rparr>)"
     "length sends = length lds" "plt_inv tr" "\<forall>((l, d), (send, index)) \<in> set (zip lds sends). send \<longrightarrow> d \<noteq> None"
     "bucket_missing tr (getLinkTracker tr rid) =
       {(rid, l) | l. (l, None) \<in> set lds} \<union> bucket_missing tr0 (getLinkTracker tr0 rid)"
    using sendAll_spec[of rb0 lds] inv by (auto simp: rb0_def)
  obtain tr' where f: "FinishTracking tr rid = Some (\<forall>l. (rid, l) \<notin> bucket_missing tr (getLinkTracker tr rid), tr')"
      "plt_inv tr'"
    by - (rule FinishTracking_spec[OF s(3), of rid], auto)
  have "(\<forall>l. (rid, l) \<notin> bucket_missing tr (getLinkTracker tr rid)) \<longleftrightarrow> (\<forall>(l, d) \<in> set lds. d \<noteq> None)"
    unfolding s(5) using fresh by (auto simp: split_beta) (metis not_None_eq)
  with s f show ?thesis
    by (intro exI[of _ tr'] exI[of _ sends])
      (simp add: respondAll_def FinishRequest_def addOperation_def final_status_def rb0_def Let_def)
qed

lemma part_response:
  fixes sends :: "(bool \<times> i64) list"
  assumes "length sends = length lds"
  shows "fold (part_step rid) (concat (map op_ops
       (map (\<lambda>((l, d), (send, index)). BlockOperation d send l rid index) (zip lds sends) @
        [StatusOperation rid status]))) None = Some (metadata_of lds, Some status, [])"
proof (cases lds)
  case (Cons ld lds')
  obtain x sends' where "sends = x # sends'" using Cons assms by (cases sends) auto
  moreover obtain l d where "ld = (l, d)" by (cases ld)
  ultimately show ?thesis
    using Cons assms part_blocks[where 'a = 'a, of sends' lds' rid]
    by (cases x) (auto simp: part_content_def metadata_of_def)
qed (simp add: part_content_def metadata_of_def)


subsection \<open>Witnesses: a response with one block and one missing link; a response with an extension\<close>


definition demo_extOp :: "bytes response_operation" where
  "demo_extOp = ExtensionOperation ''r'' \<lparr>ed_Name = ''e'', ed_Data = Some [1, 2, 3]\<rparr>"

theorem extension_memory_not_released_witness:
  "let mq = sendMessage True (\<lambda>_. \<lparr>at_sendOk = True, at_wake = WakeTimeout, at_openOk = True\<rparr>)
              (execute length (NewStream ''p'' ''r'' (1::nat) (2::nat)) [demo_extOp] False False (mq_New 1))
   in (\<Sum>c \<leftarrow> mq_log mq. allocated c) = (\<Sum>c \<leftarrow> mq_log mq. released c) + 3"
  using extension_memory_not_released[of "[demo_extOp]" "length :: bytes \<Rightarrow> nat" 1 "''p''" "''r''" "1::nat" "2::nat"]
  by (simp add: demo_extOp_def)

end
