(* ===== verification/Traversal_Record.thy ===== *)
theory Traversal_Record
  imports GS_Types "HOL-Library.Sublist"
begin

text \<open>
  \<^verbatim>\<open>requestmanager/reconciledloader/traversalrecord/traversalrecord.go\<close>: the tree of links a local
  traversal has loaded, and the verifier that replays it against the links of a remote response.

  The verifier's stack holds pointers into the tree from the root down, so it is the list of the
  segments on the way; the tree is read at the time of each operation, as through the pointers, and
  may have grown in between. An empty stack is \<open>None\<close>.
\<close>

section \<open>The record\<close>

datatype traversal_record =
  TR (tr_link: "cid option") (tr_successful: bool) (tr_childSegments: "(string, nat) gomap")
     (tr_children: "(string \<times> traversal_record) list")

definition NewTraversalRecord :: traversal_record where
  "NewTraversalRecord = TR None False [] []"

fun RecordNextStep :: "traversal_record \<Rightarrow> path \<Rightarrow> cid \<Rightarrow> bool \<Rightarrow> traversal_record" where
  "RecordNextStep (TR l s segs children) [] link successful = TR (Some link) successful segs children"
| "RecordNextStep (TR l s segs children) (p # ps) link successful =
     (let (segs', children') =
            (case mget segs p of
               Some _ \<Rightarrow> (segs, children)
             | None \<Rightarrow> (mput p (length children) segs, children @ [(p, NewTraversalRecord)]));
          i = mgetd 0 segs' p
      in TR l s segs'
           (children'[i := (fst (children' ! i), RecordNextStep (snd (children' ! i)) ps link successful)]))"

text \<open>\<open>None\<close> is the panic on a childless record without a link.\<close>

fun AllLinks :: "traversal_record \<Rightarrow> cid list option" where
  "AllLinks (TR l s segs children) =
     (if length children = 0 then (case l of None \<Rightarrow> None | Some c \<Rightarrow> Some [c])
      else
        (case those (map (\<lambda>v. AllLinks (snd v)) children) of
           None \<Rightarrow> None
         | Some links \<Rightarrow> Some ((case l of None \<Rightarrow> [] | Some c \<Rightarrow> [c]) @ concat links)))"

fun GetLinks :: "traversal_record \<Rightarrow> path \<Rightarrow> cid list option" where
  "GetLinks tr [] = Some (case tr_link tr of None \<Rightarrow> [] | Some c \<Rightarrow> [c])"
| "GetLinks tr [next] =
     (case mget (tr_childSegments tr) next of
        Some i \<Rightarrow> AllLinks (snd (tr_children tr ! i))
      | None \<Rightarrow> Some [])"
| "GetLinks tr (next # segs) =
     (case mget (tr_childSegments tr) next of
        None \<Rightarrow> Some []
      | Some i \<Rightarrow> GetLinks (snd (tr_children tr ! i)) segs)"

section \<open>The verifier\<close>

type_synonym verifier = "path option"

fun node_at :: "traversal_record \<Rightarrow> path \<Rightarrow> traversal_record option" where
  "node_at tr [] = Some tr"
| "node_at tr (p # ps) =
     (case mget (tr_children tr) p of None \<Rightarrow> None | Some child \<Rightarrow> node_at child ps)"

definition node :: "traversal_record \<Rightarrow> path \<Rightarrow> traversal_record" where
  "node tr ps = (case node_at tr ps of None \<Rightarrow> NewTraversalRecord | Some n \<Rightarrow> n)"

text \<open>The loop of \<^verbatim>\<open>appendUntilLink\<close>, from the tip down to the first record with a link.\<close>

fun descend :: "traversal_record \<Rightarrow> path" where
  "descend (TR None s segs ((seg, child) # rest)) = seg # descend child"
| "descend tr = []"

definition appendUntilLink :: "traversal_record \<Rightarrow> path \<Rightarrow> path" where
  "appendUntilLink tr stack = stack @ descend (node tr stack)"

definition NewVerifier :: "traversal_record \<Rightarrow> verifier" where
  "NewVerifier root = Some (appendUntilLink root [])"

text \<open>The part of \<^verbatim>\<open>nextLink\<close> that pops the stack; the call \<^verbatim>\<open>nextLink(false)\<close> is the recursive call.\<close>

function popStack :: "traversal_record \<Rightarrow> path \<Rightarrow> verifier" where
  "popStack tr stack =
     (if stack = [] then None
      else
        let parent = node tr (butlast stack);
            childIndex = mgetd 0 (tr_childSegments parent) (last stack)
        in if childIndex = length (tr_children parent) - 1 then popStack tr (butlast stack)
           else Some (appendUntilLink tr (butlast stack @ [fst (tr_children parent ! (childIndex + 1))])))"
  by auto
termination by (relation "measure (\<lambda>(tr, stack). length stack)") auto

declare popStack.simps [simp del]

definition nextLink :: "traversal_record \<Rightarrow> path \<Rightarrow> bool \<Rightarrow> verifier" where
  "nextLink tr stack exploreChildren =
     (let last = node tr stack
      in if length (tr_children last) > 0 \<and> exploreChildren
         then Some (appendUntilLink tr (stack @ [fst (tr_children last ! 0)]))
         else popStack tr stack)"

definition v_Done :: "traversal_record \<Rightarrow> verifier \<Rightarrow> bool" where
  "v_Done tr v =
     (case v of None \<Rightarrow> True | Some stack \<Rightarrow> length stack = 0 \<and> tr_link (node tr stack) = None)"

definition CurrentPath :: "traversal_record \<Rightarrow> verifier \<Rightarrow> path" where
  "CurrentPath tr v = (if v_Done tr v then [] else (case v of None \<Rightarrow> [] | Some stack \<Rightarrow> stack))"

definition VerifyNext :: "traversal_record \<Rightarrow> verifier \<Rightarrow> cid \<Rightarrow> bool \<Rightarrow> gs_error + verifier" where
  "VerifyNext tr v link successful =
     (if v_Done tr v then Inl (OtherErr ''nothing left to verify'')
      else
        case v of
          None \<Rightarrow> Inl (OtherErr ''nothing left to verify'')
        | Some stack \<Rightarrow>
            let next = node tr stack
            in case tr_link next of
                 None \<Rightarrow> Inl NilDereference
               | Some l \<Rightarrow>
                   if l \<noteq> link then Inl (RemoteIncorrectResponseError l link (CurrentPath tr v))
                   else if \<not> tr_successful next \<and> successful
                   then Inl (OtherErr ''verifying against tree with additional data not possible'')
                   else Inr (nextLink tr stack successful))"

section \<open>The steps a record stands for\<close>

type_synonym step = "path \<times> cid \<times> bool"

fun steps :: "traversal_record \<Rightarrow> path \<Rightarrow> step list" where
  "steps (TR l s segs children) pre =
     (case l of None \<Rightarrow> [] | Some c \<Rightarrow> [(pre, c, s)]) @
     concat (map (\<lambda>(seg, child). steps child (pre @ [seg])) children)"

definition record_step :: "traversal_record \<Rightarrow> step \<Rightarrow> traversal_record" where
  "record_step tr st = (case st of (p, c, s) \<Rightarrow> RecordNextStep tr p c s)"

text \<open>A record as traversals make it: the index of the children is in step with them, every record
  below the root holds a link or leads to one, and the flag of a record without a link is unset.\<close>

fun tr_ok :: "traversal_record \<Rightarrow> bool" where
  "tr_ok (TR l s segs children) \<longleftrightarrow>
     segs = zip (map fst children) [0..<length children] \<and> distinct (map fst children) \<and>
     (l = None \<longrightarrow> \<not> s) \<and>
     (\<forall>(seg, child) \<in> set children. tr_ok child \<and> (tr_link child \<noteq> None \<or> tr_children child \<noteq> []))"

lemma tr_ok_new: "tr_ok NewTraversalRecord"
  by (simp add: NewTraversalRecord_def)

lemma zip_index:
  "distinct xs \<Longrightarrow> i < length xs \<Longrightarrow> mget (zip xs [0..<length xs]) (xs ! i) = Some i"
  by (simp add: map_of_zip_nth)

lemma zip_index_None: "mget (zip xs [0..<length xs]) x = None \<longleftrightarrow> x \<notin> set xs"
  by (simp add: map_of_zip_is_None)

lemma tr_ok_child:
  assumes "tr_ok (TR l s segs children)" "mget children p = Some child"
  shows "\<exists>i < length children. children ! i = (p, child) \<and> mget segs p = Some i" "tr_ok child"
    "tr_link child \<noteq> None \<or> tr_children child \<noteq> []"
proof -
  have in_ch: "(p, child) \<in> set children" using assms(2) by (rule map_of_SomeD)
  then obtain i where i: "i < length children" "children ! i = (p, child)" by (auto simp: in_set_conv_nth)
  have "mget (zip (map fst children) [0..<length children]) (map fst children ! i) = Some i"
    using assms(1) i(1) zip_index[of "map fst children" i] by simp
  with i assms(1) show "\<exists>i < length children. children ! i = (p, child) \<and> mget segs p = Some i"
    by auto
  show "tr_ok child" "tr_link child \<noteq> None \<or> tr_children child \<noteq> []" using in_ch assms(1) by auto
qed

section \<open>What is left of a traversal from a position on\<close>

definition siblings_in :: "(string \<times> traversal_record) list \<Rightarrow> string \<Rightarrow> (string \<times> traversal_record) list" where
  "siblings_in children p = tl (dropWhile (\<lambda>c. fst c \<noteq> p) children)"

definition siblings_after :: "traversal_record \<Rightarrow> string \<Rightarrow> (string \<times> traversal_record) list" where
  "siblings_after tr p = siblings_in (tr_children tr) p"

definition steps_of :: "path \<Rightarrow> (string \<times> traversal_record) list \<Rightarrow> step list" where
  "steps_of pre children = concat (map (\<lambda>(seg, child). steps child (pre @ [seg])) children)"

fun after :: "traversal_record \<Rightarrow> path \<Rightarrow> path \<Rightarrow> step list" where
  "after tr pre [] = []"
| "after tr pre (p # ps) =
     (case mget (tr_children tr) p of
        None \<Rightarrow> []
      | Some child \<Rightarrow> after child (pre @ [p]) ps @ steps_of pre (siblings_after tr p))"

definition remaining :: "traversal_record \<Rightarrow> path \<Rightarrow> step list" where
  "remaining tr stack = steps (node tr stack) stack @ after tr [] stack"

definition v_remaining :: "traversal_record \<Rightarrow> verifier \<Rightarrow> step list" where
  "v_remaining tr v = (case v of None \<Rightarrow> [] | Some stack \<Rightarrow> remaining tr stack)"

text \<open>The verifier's stack leads to a record with a link, or to the root of an empty record.\<close>

definition v_ok :: "traversal_record \<Rightarrow> verifier \<Rightarrow> bool" where
  "v_ok tr v =
     (case v of None \<Rightarrow> True
      | Some stack \<Rightarrow> node_at tr stack \<noteq> None \<and>
          (tr_link (node tr stack) \<noteq> None \<or> stack = [] \<and> tr_children tr = []))"

lemma steps_unfold:
  "steps tr pre = (case tr_link tr of None \<Rightarrow> [] | Some c \<Rightarrow> [(pre, c, tr_successful tr)]) @
     steps_of pre (tr_children tr)"
  by (cases tr) (simp add: steps_of_def split: option.split)

lemma steps_of_Nil [simp]: "steps_of pre [] = []"
  by (simp add: steps_of_def)

lemma node_at_append:
  "node_at tr (q @ r) = (case node_at tr q of None \<Rightarrow> None | Some n \<Rightarrow> node_at n r)"
  by (induction q arbitrary: tr) (auto split: option.splits)

lemma node_Nil [simp]: "node tr [] = tr"
  by (simp add: node_def)

lemma node_append: "node_at tr q = Some n \<Longrightarrow> node tr (q @ r) = node n r"
  by (simp add: node_def node_at_append)

lemma after_append:
  "node_at tr q = Some n \<Longrightarrow> after tr pre (q @ r) = after n (pre @ q) r @ after tr pre q"
  by (induction q arbitrary: tr pre) (auto split: option.splits)

lemma tr_ok_node_at: "tr_ok tr \<Longrightarrow> node_at tr q = Some n \<Longrightarrow> tr_ok n"
proof (induction q arbitrary: tr)
  case (Cons p q)
  then show ?case by (cases tr) (auto split: option.splits dest: tr_ok_child(2))
qed simp

lemma tr_ok_node_live:
  assumes "tr_ok tr" "node_at tr q = Some n" "q \<noteq> []"
  shows "tr_link n \<noteq> None \<or> tr_children n \<noteq> []"
proof -
  obtain q' p where q: "q = q' @ [p]" using assms(3) by (metis append_butlast_last_id)
  with assms(2) obtain m where m: "node_at tr q' = Some m" "mget (tr_children m) p = Some n"
    by (auto simp: node_at_append split: option.splits)
  with tr_ok_node_at[OF assms(1) m(1)] show ?thesis
    by (cases m) (auto dest: tr_ok_child(3))
qed

text \<open>Going down to the first link passes no step, and arrives at a link unless there is none.\<close>

lemma descend_spec:
  assumes "tr_ok tr" "tr_link tr \<noteq> None \<or> tr_children tr \<noteq> []"
  shows "\<exists>n. node_at tr (descend tr) = Some n \<and> tr_link n \<noteq> None \<and>
    steps tr pre = steps n (pre @ descend tr) @ after tr pre (descend tr)"
  using assms
proof (induction tr arbitrary: pre rule: descend.induct)
  case (1 s segs seg child rest)
  have ch: "mget (tr_children (TR None s segs ((seg, child) # rest))) seg = Some child" by simp
  with 1 have "tr_ok child" "tr_link child \<noteq> None \<or> tr_children child \<noteq> []" by auto
  from "1.IH"[OF this, of "pre @ [seg]"] show ?case
    by (auto simp: steps_of_def siblings_after_def siblings_in_def)
qed auto

lemma remaining_append:
  assumes "node_at tr q = Some n" "node_at n r = Some m" "steps n q = steps m (q @ r) @ after n q r"
  shows "remaining tr (q @ r) = remaining tr q"
  using assms by (simp add: remaining_def after_append node_def node_at_append)

lemma appendUntilLink_spec:
  assumes "tr_ok tr" "node_at tr q = Some n" "tr_link n \<noteq> None \<or> tr_children n \<noteq> []"
  shows "v_ok tr (Some (appendUntilLink tr q)) \<and> remaining tr (appendUntilLink tr q) = remaining tr q"
proof -
  have node: "node tr q = n" using assms(2) by (simp add: node_def)
  from descend_spec[OF tr_ok_node_at[OF assms(1,2)] assms(3), of q] obtain m where
    m: "node_at n (descend n) = Some m" "tr_link m \<noteq> None"
      "steps n q = steps m (q @ descend n) @ after n q (descend n)" by blast
  then show ?thesis
    using remaining_append[OF assms(2) m(1,3)] assms(2)
    by (simp add: appendUntilLink_def node v_ok_def node_at_append node_def)
qed

lemma siblings_at:
  assumes "tr_ok m" "i < length (tr_children m)" "tr_children m ! i = (p, n)"
  shows "siblings_after m p = drop (Suc i) (tr_children m)"
proof -
  let ?ch = "tr_children m"
  have "distinct (map fst ?ch)" using assms(1) by (cases m) auto
  have before: "\<forall>c \<in> set (take i ?ch). fst c \<noteq> p"
  proof
    fix c assume "c \<in> set (take i ?ch)"
    then obtain j where j: "j < i" "c = ?ch ! j" using assms(2) by (auto simp: in_set_conv_nth)
    have "map fst ?ch ! j \<noteq> map fst ?ch ! i"
      using \<open>distinct (map fst ?ch)\<close> j(1) assms(2) by (subst nth_eq_iff_index_eq) auto
    with j assms show "fst c \<noteq> p" by simp
  qed
  have split: "?ch = take i ?ch @ (p, n) # drop (Suc i) ?ch"
    using id_take_nth_drop[OF assms(2)] assms(3) by simp
  have "dropWhile (\<lambda>c. fst c \<noteq> p) ?ch = dropWhile (\<lambda>c. fst c \<noteq> p) ((p, n) # drop (Suc i) ?ch)"
    using before by (subst split) (auto intro!: dropWhile_append2)
  then show ?thesis by (simp add: siblings_after_def siblings_in_def)
qed

lemma child_at:
  assumes "tr_ok m" "i < length (tr_children m)" "tr_children m ! i = (p, n)"
  shows "mget (tr_children m) p = Some n" "mget (tr_childSegments m) p = Some i"
proof -
  have "distinct (map fst (tr_children m))" using assms(1) by (cases m) auto
  then show *: "mget (tr_children m) p = Some n"
    using assms(2,3) by (metis map_of_eq_Some_iff nth_mem)
  show "mget (tr_childSegments m) p = Some i"
    using assms zip_index[of "map fst (tr_children m)" i] by (cases m) auto
qed

lemma after_snoc:
  assumes "node_at tr q = Some m" "mget (tr_children m) p = Some n"
  shows "after tr [] (q @ [p]) = steps_of q (siblings_after m p) @ after tr [] q"
  using assms by (simp add: after_append)

lemma next_sibling:
  assumes "tr_ok tr" "node_at tr q = Some m" "i < length (tr_children m)" "tr_children m ! i = (p, n)"
  shows "node_at tr (q @ [p]) = Some n"
    "remaining tr (q @ [p]) = steps_of q (drop i (tr_children m)) @ after tr [] q"
proof -
  have ok: "tr_ok m" using assms(1,2) by (rule tr_ok_node_at)
  note child = child_at[OF ok assms(3,4)]
  show at: "node_at tr (q @ [p]) = Some n" using assms(2) child(1) by (simp add: node_at_append)
  show "remaining tr (q @ [p]) = steps_of q (drop i (tr_children m)) @ after tr [] q"
    using after_snoc[OF assms(2) child(1)] siblings_at[OF ok assms(3,4)] at assms(4)
    by (simp add: remaining_def node_def steps_of_def flip: Cons_nth_drop_Suc[OF assms(3)])
qed

text \<open>Popping leaves out the rest of the current record and no more.\<close>

lemma popStack_spec:
  assumes "tr_ok tr" "node_at tr stack \<noteq> None"
  shows "v_ok tr (popStack tr stack) \<and> v_remaining tr (popStack tr stack) = after tr [] stack"
  using assms
proof (induction tr stack rule: popStack.induct)
  case (1 tr stack)
  show ?case
  proof (cases "stack = []")
    case True
    then show ?thesis by (simp add: popStack.simps v_ok_def v_remaining_def)
  next
    case False
    let ?q = "butlast stack" and ?p = "last stack"
    have stack: "stack = ?q @ [?p]" using False by simp
    with 1(3) obtain m n where m: "node_at tr ?q = Some m" "mget (tr_children m) ?p = Some n"
      by (metis (no_types, lifting) node_at.simps(1,2) node_at_append not_Some_eq option.case_eq_if option.sel)
    have ok: "tr_ok m" using 1(2) m(1) by (rule tr_ok_node_at)
    have node: "node tr ?q = m" using m(1) by (simp add: node_def)
    obtain i where i: "i < length (tr_children m)" "tr_children m ! i = (?p, n)"
      "mget (tr_childSegments m) ?p = Some i"
      using ok m(2) tr_ok_child(1) by (metis traversal_record.collapse)
    have sib: "siblings_after m ?p = drop (Suc i) (tr_children m)" by (rule siblings_at[OF ok i(1,2)])
    have aft: "after tr [] stack = steps_of ?q (drop (Suc i) (tr_children m)) @ after tr [] ?q"
      using after_snoc[OF m] sib stack by simp
    show ?thesis
    proof (cases "i = length (tr_children m) - 1")
      case True
      then have "popStack tr stack = popStack tr ?q"
        using False node i(3) by (subst popStack.simps) (simp add: Let_def)
      moreover have "after tr [] stack = after tr [] ?q"
        using aft True by (simp add: steps_of_def)
      ultimately show ?thesis
        using 1(1)[OF False refl refl] node i(3) True 1(2) m(1) by simp
    next
      case notlast: False
      then have lt: "Suc i < length (tr_children m)" using i(1) by simp
      obtain p' n' where next_child: "tr_children m ! Suc i = (p', n')" by fastforce
      have pop: "popStack tr stack = Some (appendUntilLink tr (?q @ [p']))"
        using False notlast node i(3) next_child by (subst popStack.simps) (simp add: Let_def)
      note at = next_sibling[OF 1(2) m(1) lt next_child]
      with appendUntilLink_spec[OF 1(2) at(1) tr_ok_node_live[OF 1(2) at(1)]] pop aft show ?thesis
        by (simp add: v_remaining_def)
    qed
  qed
qed

section \<open>The verifier refines the replay of the steps\<close>

text \<open>What a verifier promises, on the list of the steps that are left: the next link has to be the
  next step's; a step the remote did not follow takes all steps below it with it.\<close>

fun verify_spec :: "step list \<Rightarrow> cid \<Rightarrow> bool \<Rightarrow> gs_error + step list" where
  "verify_spec [] link successful = Inl (OtherErr ''nothing left to verify'')"
| "verify_spec ((p, c, s) # rest) link successful =
     (if c \<noteq> link then Inl (RemoteIncorrectResponseError c link p)
      else if \<not> s \<and> successful
      then Inl (OtherErr ''verifying against tree with additional data not possible'')
      else Inr (if successful then rest else dropWhile (\<lambda>st. prefix p (fst st)) rest))"

lemma steps_prefix: "st \<in> set (steps tr pre) \<Longrightarrow> prefix pre (fst st)"
proof (induction tr arbitrary: pre)
  case (TR l s segs children)
  show ?case
  proof (cases "st \<in> set (steps_of pre children)")
    case True
    then obtain seg child where c: "(seg, child) \<in> set children" "st \<in> set (steps child (pre @ [seg]))"
      by (auto simp: steps_of_def)
    then have "prefix (pre @ [seg]) (fst st)" by (intro TR.IH[of "(seg, child)"]) auto
    then show ?thesis by (meson append_prefixD)
  next
    case False
    with TR.prems show ?thesis by (auto simp: steps_unfold split: option.splits)
  qed
qed

lemma steps_of_prefix:
  "st \<in> set (steps_of pre children) \<Longrightarrow> \<exists>seg \<in> fst ` set children. prefix (pre @ [seg]) (fst st)"
  by (force simp: steps_of_def dest: steps_prefix)

lemma siblings_distinct:
  assumes "tr_ok tr"
  shows "p \<notin> fst ` set (siblings_after tr p)"
proof -
  define d where "d = dropWhile (\<lambda>c. fst c \<noteq> p) (tr_children tr)"
  have "distinct (map fst (tr_children tr))" using assms by (cases tr) auto
  moreover have "tr_children tr = takeWhile (\<lambda>c. fst c \<noteq> p) (tr_children tr) @ d"
    by (simp add: d_def)
  ultimately have "distinct (map fst d)" by (metis distinct_append map_append)
  moreover have "d = [] \<or> fst (hd d) = p"
    using hd_dropWhile[of "\<lambda>c. fst c \<noteq> p" "tr_children tr"] by (auto simp only: d_def)
  ultimately show ?thesis unfolding siblings_after_def siblings_in_def d_def[symmetric] by (cases d) auto
qed

lemma after_not_below:
  "tr_ok tr \<Longrightarrow> st \<in> set (after tr pre q) \<Longrightarrow> \<not> prefix (pre @ q) (fst st)"
proof (induction q arbitrary: tr pre)
  case (Cons p q)
  then obtain child where child: "mget (tr_children tr) p = Some child"
    by (cases "mget (tr_children tr) p") auto
  have ok: "tr_ok child" using Cons.prems(1) child by (cases tr) (auto dest: tr_ok_child(2))
  show ?case
  proof (cases "st \<in> set (after child (pre @ [p]) q)")
    case True
    with Cons.IH[OF ok this] show ?thesis by simp
  next
    case False
    with Cons.prems(2) child have "st \<in> set (steps_of pre (siblings_after tr p))" by simp
    from steps_of_prefix[OF this] obtain seg where
      seg: "seg \<in> fst ` set (siblings_after tr p)" "prefix (pre @ [seg]) (fst st)" by blast
    with siblings_distinct[OF Cons.prems(1)] have "seg \<noteq> p" by metis
    with seg(2) show ?thesis by (auto simp: prefix_def)
  qed
qed simp

lemma drop_below:
  assumes "tr_ok tr" "node_at tr q = Some n"
  shows "dropWhile (\<lambda>st. prefix q (fst st)) (steps_of q (tr_children n) @ after tr [] q) = after tr [] q"
proof -
  have "\<forall>st \<in> set (steps_of q (tr_children n)). prefix q (fst st)"
    using steps_of_prefix append_prefixD by blast
  then have "dropWhile (\<lambda>st. prefix q (fst st)) (steps_of q (tr_children n) @ after tr [] q) =
    dropWhile (\<lambda>st. prefix q (fst st)) (after tr [] q)" by (simp add: dropWhile_append2)
  also have "\<dots> = after tr [] q"
    using after_not_below[OF assms(1), of _ "[]" q] by (cases "after tr [] q") auto
  finally show ?thesis .
qed

lemma nextLink_spec:
  assumes "tr_ok tr" "node_at tr q = Some n"
  shows "v_ok tr (nextLink tr q b) \<and>
    v_remaining tr (nextLink tr q b) =
      (if b then steps_of q (tr_children n) @ after tr [] q else after tr [] q)"
proof (cases "tr_children n \<noteq> [] \<and> b")
  case True
  obtain p child where c: "tr_children n ! 0 = (p, child)" by fastforce
  have pos: "0 < length (tr_children n)" using True by simp
  note at = next_sibling[OF assms pos c]
  from appendUntilLink_spec[OF assms(1) at(1) tr_ok_node_live[OF assms(1) at(1)]] at True c assms(2)
  show ?thesis by (simp add: nextLink_def node_def v_remaining_def Let_def)
next
  case False
  then have "nextLink tr q b = popStack tr q" using assms(2) by (auto simp: nextLink_def node_def Let_def)
  with popStack_spec[OF assms(1)] assms(2) False show ?thesis by (auto simp: steps_of_def)
qed

lemma v_Done_iff: "tr_ok tr \<Longrightarrow> v_ok tr v \<Longrightarrow> v_Done tr v \<longleftrightarrow> v_remaining tr v = []"
  by (auto simp: v_Done_def v_ok_def v_remaining_def remaining_def steps_unfold split: option.splits)

lemma CurrentPath_head:
  "tr_ok tr \<Longrightarrow> v_ok tr v \<Longrightarrow> v_remaining tr v = (p, c, s) # rest \<Longrightarrow> CurrentPath tr v = p"
  by (auto simp: CurrentPath_def v_Done_def v_ok_def v_remaining_def remaining_def steps_unfold
      split: option.splits)

lemma NewVerifier_spec:
  assumes "tr_ok tr"
  shows "v_ok tr (NewVerifier tr)" "v_remaining tr (NewVerifier tr) = steps tr []"
proof -
  have "v_ok tr (NewVerifier tr) \<and> v_remaining tr (NewVerifier tr) = steps tr []"
  proof (cases "tr_link tr \<noteq> None \<or> tr_children tr \<noteq> []")
    case True
    with appendUntilLink_spec[OF assms, of "[]" tr] show ?thesis
      by (simp add: NewVerifier_def v_remaining_def remaining_def)
  next
    case False
    then obtain s segs where "tr = TR None s segs []" by (cases tr) auto
    then show ?thesis
      by (simp add: NewVerifier_def appendUntilLink_def v_ok_def v_remaining_def remaining_def)
  qed
  then show "v_ok tr (NewVerifier tr)" "v_remaining tr (NewVerifier tr) = steps tr []" by simp_all
qed

lemma VerifyNext_spec:
  assumes "tr_ok tr" "v_ok tr v"
  shows "map_sum id (v_remaining tr) (VerifyNext tr v link b) = verify_spec (v_remaining tr v) link b \<and>
    (\<forall>v'. VerifyNext tr v link b = Inr v' \<longrightarrow> v_ok tr v')"
proof (cases "v_Done tr v")
  case True
  with v_Done_iff[OF assms] show ?thesis by (simp add: VerifyNext_def)
next
  case False
  then obtain q where q: "v = Some q" by (auto simp: v_Done_def split: option.splits)
  with assms(2) obtain n where n: "node_at tr q = Some n" by (auto simp: v_ok_def)
  then have node: "node tr q = n" by (simp add: node_def)
  with assms(2) False q n obtain c where c: "tr_link n = Some c"
    by (auto simp: v_ok_def v_Done_def)
  have rem: "v_remaining tr v = (q, c, tr_successful n) # steps_of q (tr_children n) @ after tr [] q"
    using q node c by (simp add: v_remaining_def remaining_def steps_unfold)
  with CurrentPath_head[OF assms] have "CurrentPath tr v = q" by simp
  with False q node c rem nextLink_spec[OF assms(1) n] drop_below[OF assms(1) n] show ?thesis
    by (auto simp: VerifyNext_def Let_def)
qed

section \<open>Recording in traversal order\<close>

text \<open>A traversal visits its links in the order of the tree: the next link is below the last child
  on every level, or starts a new child.\<close>

fun appends_at :: "traversal_record \<Rightarrow> path \<Rightarrow> bool" where
  "appends_at tr [] \<longleftrightarrow> tr_link tr = None \<and> tr_children tr = []"
| "appends_at tr (p # ps) \<longleftrightarrow>
     (case mget (tr_children tr) p of
        None \<Rightarrow> True
      | Some child \<Rightarrow> fst (last (tr_children tr)) = p \<and> appends_at child ps)"

lemma appends_at_new [simp]: "appends_at NewTraversalRecord p"
  by (cases p) (simp_all add: NewTraversalRecord_def)

lemma mget_last:
  assumes "mwf ch" "mget ch p = Some c" "fst (last ch) = p"
  obtains init where "ch = init @ [(p, c)]" "p \<notin> fst ` set init"
proof -
  have "ch \<noteq> []" using assms(2) by auto
  then obtain init c' where ch: "ch = init @ [(p, c')]"
    using assms(3) by (metis append_butlast_last_id prod.collapse)
  with assms(1) have "p \<notin> fst ` set init" by auto
  then have "mget init p = None" by (simp add: map_of_eq_None_iff)
  with ch assms(2) have "c' = c" by (simp add: map_of_append map_add_def)
  with ch \<open>p \<notin> fst ` set init\<close> that show thesis by blast
qed

lemma record_fresh:
  assumes "mget segs p = None"
  shows "RecordNextStep (TR l s segs ch) (p # ps) c b =
    TR l s (segs @ [(p, length ch)]) (ch @ [(p, RecordNextStep NewTraversalRecord ps c b)])"
  using assms by (simp add: mput_append mgetd_def map_of_append map_add_def)

lemma record_last_child:
  assumes "mget segs p = Some (length init)"
  shows "RecordNextStep (TR l s segs (init @ [(p, C)])) (p # ps) c b =
    TR l s segs (init @ [(p, RecordNextStep C ps c b)])"
  using assms by simp

lemma index_fresh: "mget ch p = None \<Longrightarrow> mget (zip (map fst ch) [0..<length ch]) p = None"
  using zip_index_None[of "map fst ch" p] by (simp add: map_of_eq_None_iff)

lemma tr_ok_absent: "tr_ok tr \<Longrightarrow> mget (tr_children tr) p = None \<Longrightarrow> mget (tr_childSegments tr) p = None"
  by (cases tr) (simp add: index_fresh del: map_of_zip_is_None)

lemma index_last:
  assumes "p \<notin> fst ` set init"
  shows "mget (zip (map fst init @ [p]) [0..<Suc (length init)]) p = Some (length init)"
proof -
  have "mget (zip (map fst init) [0..<length init]) p = None"
    using assms zip_index_None[of "map fst init" p] by simp
  then show ?thesis by (simp add: map_of_append map_add_def del: map_of_zip_is_None)
qed

text \<open>The two ways a record grows: the path \<open>ps\<close> is recorded in \<open>C\<close>, the last child or a new one.\<close>

lemma record_grows:
  assumes "tr_ok tr" "appends_at tr (p # ps)"
  obtains init C segs where
    "p \<notin> fst ` set init" "tr_ok C" "appends_at C ps"
    "tr_children tr = init \<and> C = NewTraversalRecord \<or> tr_children tr = init @ [(p, C)]"
    "segs = zip (map fst init @ [p]) [0..<Suc (length init)]"
    "\<And>c b. RecordNextStep tr (p # ps) c b =
       TR (tr_link tr) (tr_successful tr) segs (init @ [(p, RecordNextStep C ps c b)])"
proof -
  obtain l s segs ch where tr: "tr = TR l s segs ch" by (cases tr)
  have segs: "segs = zip (map fst ch) [0..<length ch]" and wf: "mwf ch" using assms(1) tr by auto
  show thesis
  proof (cases "mget ch p")
    case None
    then have "p \<notin> fst ` set ch" by (simp add: map_of_eq_None_iff)
    then show thesis
      using that[of ch NewTraversalRecord] record_fresh[OF index_fresh[OF None]] tr segs tr_ok_new
      by simp
  next
    case (Some C)
    with assms(2) tr have last: "fst (last ch) = p" and app: "appends_at C ps" by simp_all
    from mget_last[OF wf Some last] obtain init where init: "ch = init @ [(p, C)]" "p \<notin> fst ` set init"
      by blast
    have "tr_ok C" using assms(1) tr Some tr_ok_child(2) by blast
    then show thesis
      using that[of init C segs] record_last_child[OF index_last[OF init(2)]] tr init app segs by simp
  qed
qed

lemma record_spec:
  assumes "tr_ok tr" "appends_at tr p"
  shows "tr_ok (RecordNextStep tr p c b) \<and>
    (tr_link (RecordNextStep tr p c b) \<noteq> None \<or> tr_children (RecordNextStep tr p c b) \<noteq> []) \<and>
    steps (RecordNextStep tr p c b) pre = steps tr pre @ [(pre @ p, c, b)]"
  using assms
proof (induction p arbitrary: tr pre)
  case Nil
  then obtain s segs where "tr = TR None s segs []" by (cases tr) auto
  with Nil show ?case by auto
next
  case (Cons p ps)
  from record_grows[OF Cons.prems] obtain init C segs where g:
    "p \<notin> fst ` set init" "tr_ok C" "appends_at C ps"
    "tr_children tr = init \<and> C = NewTraversalRecord \<or> tr_children tr = init @ [(p, C)]"
    "segs = zip (map fst init @ [p]) [0..<Suc (length init)]"
    and rec: "\<And>c b. RecordNextStep tr (p # ps) c b =
       TR (tr_link tr) (tr_successful tr) segs (init @ [(p, RecordNextStep C ps c b)])" by blast
  have IH: "tr_ok (RecordNextStep C ps c b)"
    "tr_link (RecordNextStep C ps c b) \<noteq> None \<or> tr_children (RecordNextStep C ps c b) \<noteq> []"
    "steps (RecordNextStep C ps c b) pre' = steps C pre' @ [(pre' @ ps, c, b)]" for pre'
    using Cons.IH[OF g(2,3)] by blast+
  have ok: "tr_ok (RecordNextStep tr (p # ps) c b)"
    using g(1,4,5) IH(1,2) Cons.prems(1) unfolding rec by (cases tr) fastforce
  have "steps_of pre (tr_children tr) = steps_of pre init @ steps C (pre @ [p])"
    using g(4) by (auto simp: steps_of_def NewTraversalRecord_def)
  then have "steps (RecordNextStep tr (p # ps) c b) pre = steps tr pre @ [(pre @ p # ps, c, b)]"
    using IH(3) unfolding rec steps_unfold[of tr] by (simp add: steps_of_def)
  with ok show ?case by (simp add: rec)
qed

lemma siblings_in_append:
  assumes "a \<in> fst ` set ch"
  shows "siblings_in (ch @ extra) a = siblings_in ch a @ extra"
proof -
  from assms obtain c where c: "c \<in> set ch" "\<not> fst c \<noteq> a" by auto
  then have "dropWhile (\<lambda>c. fst c \<noteq> a) ch \<noteq> []"
    by (metis (mono_tags, lifting) dropWhile_eq_Nil_conv)
  then show ?thesis
    unfolding siblings_in_def dropWhile_append1[of _ _ "\<lambda>c. fst c \<noteq> a", OF c] by (rule tl_append2)
qed

lemma siblings_last:
  assumes "x \<notin> fst ` set init" "tr_children tr = init @ [(x, A)]"
  shows "siblings_after tr x = []"
proof -
  have "dropWhile (\<lambda>c. fst c \<noteq> x) (init @ [(x, A)]) = [(x, A)]"
    using assms(1) by (subst dropWhile_append2) (auto simp: image_iff)
  then show ?thesis by (simp add: siblings_after_def siblings_in_def assms(2))
qed

text \<open>A position stays a position when the record grows, and what is left from it gains the new step.\<close>

lemma position_grows:
  assumes "tr_ok tr" "appends_at tr p" "node_at tr q = Some n"
  shows "\<exists>n'. node_at (RecordNextStep tr p c b) q = Some n' \<and>
    (tr_link n \<noteq> None \<longrightarrow> tr_link n' \<noteq> None) \<and>
    steps n' (pre @ q) @ after (RecordNextStep tr p c b) pre q =
      steps n (pre @ q) @ after tr pre q @ [(pre @ p, c, b)]"
  using assms
proof (induction q arbitrary: tr p pre)
  case Nil
  then have "tr_link tr \<noteq> None \<longrightarrow> tr_link (RecordNextStep tr p c b) \<noteq> None"
    by (cases tr; cases p) (auto simp: Let_def split: option.splits prod.splits)
  with Nil record_spec[OF Nil(1,2), of c b pre] show ?case by simp
next
  case (Cons a q)
  then obtain A where A: "mget (tr_children tr) a = Some A" "node_at A q = Some n"
    by (auto split: option.splits)
  then obtain x ps where p: "p = x # ps" using Cons.prems(2) by (cases p) auto
  obtain init C segs where x: "x \<notin> fst ` set init" and C: "tr_ok C" "appends_at C ps" and
    ch: "tr_children tr = init \<and> C = NewTraversalRecord \<or> tr_children tr = init @ [(x, C)]" and
    "segs = zip (map fst init @ [x]) [0..<Suc (length init)]" and
    rec: "\<And>c b. RecordNextStep tr (x # ps) c b =
       TR (tr_link tr) (tr_successful tr) segs (init @ [(x, RecordNextStep C ps c b)])"
    by (rule record_grows[OF Cons.prems(1) Cons.prems(2)[unfolded p]]) (rule that, assumption+)
  let ?tr' = "RecordNextStep tr p c b" and ?C' = "RecordNextStep C ps c b"
  have init_x: "mget init x = None" using x by (simp add: map_of_eq_None_iff)
  show ?case
  proof (cases "a = x")
    case True
    with A(1) ch init_x have C_A: "C = A" and tr: "tr_children tr = init @ [(x, A)]"
      by (auto simp: map_of_append map_add_def)
    have sib: "siblings_after tr x = []" "siblings_after ?tr' x = []"
      using siblings_last[OF x] tr unfolding p rec by simp_all
    have "mget (tr_children ?tr') x = Some ?C'" using init_x p rec by (simp add: map_of_append map_add_def)
    with Cons.IH[OF C A(2)[folded C_A], of "pre @ [x]"] True A(1) C_A sib p show ?thesis by simp
  next
    case False
    have A': "mget init a = Some A"
      using A(1) ch False by (auto simp: map_of_append map_add_def split: option.splits)
    then have a_init: "a \<in> fst ` set init" by (force dest: map_of_SomeD)
    have here: "mget (tr_children ?tr') a = Some A"
      using False A' unfolding p rec by (simp add: map_of_append map_add_def)
    have "steps_of pre (siblings_after ?tr' a) = steps_of pre (siblings_after tr a) @ [(pre @ p, c, b)]"
    proof -
      have new: "siblings_after ?tr' a = siblings_in init a @ [(x, ?C')]"
        unfolding siblings_after_def p rec using siblings_in_append[OF a_init] by simp
      have "steps_of pre (siblings_after tr a) = steps_of pre (siblings_in init a) @ steps C (pre @ [x])"
        unfolding siblings_after_def using ch siblings_in_append[OF a_init]
        by (auto simp: steps_of_def NewTraversalRecord_def)
      with new record_spec[OF C, of c b "pre @ [x]"] p show ?thesis by (simp add: steps_of_def)
    qed
    with here A show ?thesis by simp
  qed
qed

text \<open>A verifier that has not come to its end sees the steps recorded after it was made.\<close>

lemma verifier_grows:
  assumes "tr_ok tr" "appends_at tr p" "v_ok tr (Some q)" "steps tr [] = [] \<longrightarrow> p = []"
  shows "v_ok (RecordNextStep tr p c b) (Some q) \<and>
    v_remaining (RecordNextStep tr p c b) (Some q) = v_remaining tr (Some q) @ [(p, c, b)]"
proof -
  obtain n where n: "node_at tr q = Some n" and live: "tr_link n \<noteq> None \<or> q = [] \<and> tr_children tr = []"
    using assms(3) by (auto simp: v_ok_def node_def)
  from position_grows[OF assms(1,2) n, of c b "[]"] obtain n' where
    n': "node_at (RecordNextStep tr p c b) q = Some n'" "tr_link n \<noteq> None \<longrightarrow> tr_link n' \<noteq> None"
      "steps n' q @ after (RecordNextStep tr p c b) [] q = steps n q @ after tr [] q @ [(p, c, b)]"
    by auto
  have "tr_link n' \<noteq> None"
  proof (cases "tr_link n")
    case None
    with live n have "q = []" "steps tr [] = []" by (auto simp: steps_unfold)
    with n' assms(4) show ?thesis by (cases tr) auto
  qed (use n' in auto)
  with n n' show ?thesis by (simp add: v_ok_def v_remaining_def remaining_def node_def)
qed

text \<open>Recording below one child is recording in that child.\<close>

definition below :: "string \<Rightarrow> step \<Rightarrow> step" where
  "below p st = (p # fst st, snd st)"

lemma steps_pre: "steps tr (pre @ q) = map (\<lambda>st. (pre @ fst st, snd st)) (steps tr q)"
proof (induction tr arbitrary: q)
  case (TR l s segs children)
  have "steps_of (pre @ q) children = map (\<lambda>st. (pre @ fst st, snd st)) (steps_of q children)"
    using TR.IH by (induction children) (fastforce simp: steps_of_def)+
  then show ?case by (simp add: steps_unfold split: option.split)
qed

lemma steps_below: "steps tr [p] = map (below p) (steps tr [])"
  using steps_pre[of tr "[p]" "[]"] by (simp add: below_def)

lemma record_below:
  assumes "mwf init" "p \<notin> fst ` set init"
  shows "foldl record_step
      (TR l s (zip (map fst init @ [p]) [0..<Suc (length init)]) (init @ [(p, C)])) (map (below p) sts) =
    TR l s (zip (map fst init @ [p]) [0..<Suc (length init)]) (init @ [(p, foldl record_step C sts)])"
proof (induction sts arbitrary: C)
  case (Cons st sts)
  have "record_step (TR l s (zip (map fst init @ [p]) [0..<Suc (length init)]) (init @ [(p, C)])) (below p st) =
    TR l s (zip (map fst init @ [p]) [0..<Suc (length init)]) (init @ [(p, record_step C st)])"
    using record_last_child[OF index_last[OF assms(2)]]
    by (cases st) (simp add: record_step_def below_def del: upt_Suc RecordNextStep.simps)
  with Cons.IH show ?case by (simp del: upt_Suc)
qed simp

lemma record_children:
  assumes "mwf (init @ children)"
    "\<And>seg child. (seg, child) \<in> set children \<Longrightarrow>
       foldl record_step NewTraversalRecord (steps child []) = child \<and> steps child [] \<noteq> []"
  shows "foldl record_step (TR l s (zip (map fst init) [0..<length init]) init) (steps_of [] children) =
    TR l s (zip (map fst (init @ children)) [0..<length (init @ children)]) (init @ children)"
  using assms
proof (induction children arbitrary: init)
  case (Cons e children)
  obtain p C where e: "e = (p, C)" by (cases e)
  have init: "mwf init" "p \<notin> fst ` set init" using Cons.prems(1) e by auto
  from Cons.prems(2)[of p C] e obtain st sts where
    C: "steps C [] = st # sts" "foldl record_step NewTraversalRecord (st # sts) = C"
    by (cases "steps C []") auto
  have none: "mget (zip (map fst init) [0..<length init]) p = None"
    using init(2) by (intro index_fresh) (simp add: map_of_eq_None_iff)
  have "record_step (TR l s (zip (map fst init) [0..<length init]) init) (below p st) =
    TR l s (zip (map fst init @ [p]) [0..<Suc (length init)])
      (init @ [(p, record_step NewTraversalRecord st)])"
    using record_fresh[OF none] by (cases st) (simp add: record_step_def below_def del: RecordNextStep.simps)
  with record_below[OF init, of l s _ sts] C have
    "foldl record_step (TR l s (zip (map fst init) [0..<length init]) init) (steps C [p]) =
     TR l s (zip (map fst (init @ [e])) [0..<length (init @ [e])]) (init @ [e])"
    using e by (simp add: steps_below)
  moreover have "mwf ((init @ [e]) @ children)" using Cons.prems(1) by simp
  note Cons.IH[OF this Cons.prems(2)[OF list.set_intros(2)]]
  ultimately show ?case using e by (simp add: steps_of_def)
qed simp

lemma steps_live: "tr_ok tr \<Longrightarrow> tr_link tr \<noteq> None \<or> tr_children tr \<noteq> [] \<Longrightarrow> steps tr [] \<noteq> []"
  by (drule (1) descend_spec[of _ "[]"]) (auto simp: steps_unfold)

lemma record_steps: "tr_ok tr \<Longrightarrow> foldl record_step NewTraversalRecord (steps tr []) = tr"
proof (induction tr)
  case (TR l s segs children)
  have ch: "foldl record_step NewTraversalRecord (steps child []) = child \<and> steps child [] \<noteq> []"
    if "(seg, child) \<in> set children" for seg child
    using TR.IH[OF that, of child] TR.prems that steps_live[of child] by auto
  have start: "foldl record_step NewTraversalRecord (case l of None \<Rightarrow> [] | Some c \<Rightarrow> [([], c, s)]) = TR l s [] []"
    using TR.prems by (auto simp: NewTraversalRecord_def record_step_def split: option.split)
  have "mwf ([] @ children)" using TR.prems by simp
  note rec = record_children[OF this ch, where l = l and s = s]
  have "steps (TR l s segs children) [] =
    (case l of None \<Rightarrow> [] | Some c \<Rightarrow> [([], c, s)]) @ steps_of [] children"
    by (simp add: steps_of_def)
  with rec start TR.prems show ?case by (simp del: steps.simps)
qed

section \<open>Links of a record\<close>

abbreviation step_link :: "step \<Rightarrow> cid" where
  "step_link st \<equiv> fst (snd st)"

lemma those_Some_map:
  "(\<And>x. x \<in> set xs \<Longrightarrow> f x = Some (g x)) \<Longrightarrow> those (map f xs) = Some (map g xs)"
  by (induction xs) auto

lemma AllLinks_steps:
  assumes "tr_ok tr" "tr_link tr \<noteq> None \<or> tr_children tr \<noteq> []"
  shows "AllLinks tr = Some (map step_link (steps tr pre))"
  using assms
proof (induction tr arbitrary: pre)
  case (TR l s segs children)
  have "AllLinks (snd v) = Some (map step_link (steps (snd v) (pre @ [fst v])))"
    if "v \<in> set children" for v
    using TR.IH[OF that] TR.prems(1) that by (cases v) auto
  then have "those (map (\<lambda>v. AllLinks (snd v)) children) =
    Some (map (\<lambda>v. map step_link (steps (snd v) (pre @ [fst v]))) children)" by (rule those_Some_map)
  with TR.prems(2) show ?case
    by (auto simp: map_concat comp_def case_prod_unfold split: option.split)
qed

lemma GetLinks_steps:
  assumes "tr_ok tr" "path \<noteq> []"
  shows "GetLinks tr path =
    Some (case node_at tr path of None \<Rightarrow> [] | Some n \<Rightarrow> map step_link (steps n path))"
  using assms
proof (induction tr path rule: GetLinks.induct)
  case (2 tr p)
  show ?case
  proof (cases "mget (tr_children tr) p")
    case None
    with tr_ok_absent[of tr p] 2(1) show ?thesis by simp
  next
    case (Some n)
    with 2(1) have "tr_ok n" "tr_link n \<noteq> None \<or> tr_children n \<noteq> []"
      by (cases tr; auto dest: tr_ok_child(2,3))+
    moreover obtain i where "tr_children tr ! i = (p, n)" "mget (tr_childSegments tr) p = Some i"
      using tr_ok_child(1) 2(1) Some by (metis traversal_record.collapse)
    ultimately show ?thesis using AllLinks_steps[of n "[p]"] Some by simp
  qed
next
  case (3 tr p p' ps)
  show ?case
  proof (cases "mget (tr_children tr) p")
    case None
    with tr_ok_absent[of tr p] 3(2) show ?thesis by simp
  next
    case (Some n)
    with 3(2) have ok: "tr_ok n" by (cases tr) (auto dest: tr_ok_child(2))
    obtain i where i: "tr_children tr ! i = (p, n)" "mget (tr_childSegments tr) p = Some i"
      using tr_ok_child(1) 3(2) Some by (metis traversal_record.collapse)
    have "map step_link (steps m (p' # ps)) = map step_link (steps m (p # p' # ps))" for m
      using steps_pre[of m "[p]" "p' # ps"] by simp
    with 3(1)[OF i(2)] i ok Some show ?thesis by (simp split: option.splits)
  qed
qed simp

section \<open>A whole replay\<close>

fun verify_all :: "traversal_record \<Rightarrow> verifier \<Rightarrow> (cid \<times> bool) list \<Rightarrow> gs_error + verifier" where
  "verify_all tr v [] = Inr v"
| "verify_all tr v ((link, b) # ms) =
     (case VerifyNext tr v link b of Inl e \<Rightarrow> Inl e | Inr v' \<Rightarrow> verify_all tr v' ms)"

text \<open>No step lies below a step that failed, as in the record of a traversal.\<close>

fun pruned :: "step list \<Rightarrow> bool" where
  "pruned [] \<longleftrightarrow> True"
| "pruned ((p, c, s) # rest) \<longleftrightarrow>
     (s \<or> (case rest of [] \<Rightarrow> True | st # _ \<Rightarrow> \<not> prefix p (fst st))) \<and> pruned rest"

lemma pruned_drop: "pruned ((p, c, False) # rest) \<Longrightarrow> dropWhile (\<lambda>st. prefix p (fst st)) rest = rest"
  by (cases rest) auto

lemma verify_all_complete:
  assumes "tr_ok tr" "v_ok tr v" "pruned (v_remaining tr v)"
  shows "\<exists>v'. verify_all tr v (map snd (v_remaining tr v)) = Inr v' \<and> v_Done tr v'"
  using assms
proof (induction "v_remaining tr v" arbitrary: v)
  case Nil
  with v_Done_iff[of tr v] show ?case by (simp add: Nil(1)[symmetric])
next
  case (Cons st rest)
  obtain p c s where st: "st = (p, c, s)" by (cases st)
  have rem: "v_remaining tr v = (p, c, s) # rest" using Cons(2) st by simp
  have "verify_spec (v_remaining tr v) c s = Inr rest"
    using Cons.prems(3) rem pruned_drop[of p c rest] by (cases s) auto
  with VerifyNext_spec[OF Cons.prems(1,2), of c s] obtain v' where
    v': "VerifyNext tr v c s = Inr v'" "v_remaining tr v' = rest" "v_ok tr v'"
    by (cases "VerifyNext tr v c s") auto
  have "pruned (v_remaining tr v')" using Cons.prems(3) rem v'(2) by simp
  from Cons(1)[OF v'(2)[symmetric] Cons.prems(1) v'(3) this] v' rem show ?case by simp
qed

lemma verify_all_sound:
  assumes "tr_ok tr" "v_ok tr v" "verify_all tr v ms = Inr v'"
  shows "subseq (map fst ms) (map step_link (v_remaining tr v))"
  using assms
proof (induction ms arbitrary: v)
  case (Cons m ms)
  obtain link b where m: "m = (link, b)" by (cases m)
  with Cons.prems(3) obtain w where w: "VerifyNext tr v link b = Inr w" "verify_all tr w ms = Inr v'"
    by (auto split: sum.splits)
  with VerifyNext_spec[OF Cons.prems(1,2), of link b] have
    spec: "verify_spec (v_remaining tr v) link b = Inr (v_remaining tr w)" and ok: "v_ok tr w" by auto
  obtain p s rest where rem: "v_remaining tr v = (p, link, s) # rest"
    and tl: "v_remaining tr w = (if b then rest else dropWhile (\<lambda>st. prefix p (fst st)) rest)"
    using spec by (cases "(v_remaining tr v, link, b)" rule: verify_spec.cases) (auto split: if_splits)
  have "suffix (v_remaining tr w) rest" by (simp add: tl suffix_dropWhile)
  then have "subseq (map step_link (v_remaining tr w)) (map step_link rest)"
    by (intro subseq_map suffix_imp_subseq)
  with Cons.IH[OF Cons.prems(1) ok w(2)] m rem show ?case by (auto intro: subseq_order.order_trans)
qed simp

section \<open>Properties\<close>

text \<open>A traversal record is a faithful and complete log: recording a link in traversal order adds
  exactly that step at the end of the steps the record stands for and keeps the record well formed;
  recording the steps of a record again, in order, rebuilds it; and the links it lists below a path
  are the links of the steps recorded there, in order.\<close>

theorem record_is_ordered_log:
  assumes "tr_ok tr"
  shows "(appends_at tr p \<longrightarrow>
      tr_ok (RecordNextStep tr p c b) \<and> steps (RecordNextStep tr p c b) [] = steps tr [] @ [(p, c, b)]) \<and>
    foldl record_step NewTraversalRecord (steps tr []) = tr \<and>
    (p \<noteq> [] \<longrightarrow> GetLinks tr p =
       Some (case node_at tr p of None \<Rightarrow> [] | Some n \<Rightarrow> map step_link (steps n p)))"
  using record_spec[OF assms, of p c b "[]"] record_steps[OF assms] GetLinks_steps[OF assms, of p]
  by simp

definition example_record :: traversal_record where
  "example_record = foldl record_step NewTraversalRecord
     [([], ''r'', True), ([''a''], ''x'', True), ([''a'', ''0''], ''y'', False), ([''b''], ''z'', True)]"

lemma example_record_ok: "tr_ok example_record"
  by code_simp

theorem record_is_ordered_log_witness:
  "steps (RecordNextStep example_record [''b'', ''0''] ''w'' True) [] =
     steps example_record [] @ [([''b'', ''0''], ''w'', True)] \<and>
   foldl record_step NewTraversalRecord (steps example_record []) = example_record \<and>
   GetLinks example_record [''a''] = Some [''x'', ''y'']"
proof -
  have "appends_at example_record [''b'', ''0'']" by code_simp
  moreover have "GetLinks example_record [''a''] = Some [''x'', ''y'']" by code_simp
  ultimately show ?thesis
    using record_is_ordered_log[OF example_record_ok, of "[''b'', ''0'']" "''w''" True] by simp
qed

text \<open>C12: The verifier replays the recorded traversal step by step. A fresh verifier has all recorded
  steps before it; it is done exactly when none is left, and its current path is the path of the next
  one. It answers a link of the remote the way the list of the steps left does: an error that names
  the expected link, the received one and the path when they differ, an error when the remote followed
  a link the record could not, else it goes on, past all steps below a link the remote did not follow.
  A step recorded meanwhile comes at the end of what is left.\<close>

theorem verifier_refines_replay:
  assumes "tr_ok tr" "v_ok tr v"
  shows "v_ok tr (NewVerifier tr) \<and> v_remaining tr (NewVerifier tr) = steps tr [] \<and>
    (v_Done tr v \<longleftrightarrow> v_remaining tr v = []) \<and>
    (\<not> v_Done tr v \<longrightarrow> CurrentPath tr v = fst (hd (v_remaining tr v))) \<and>
    map_sum id (v_remaining tr) (VerifyNext tr v link b) = verify_spec (v_remaining tr v) link b \<and>
    (\<forall>v'. VerifyNext tr v link b = Inr v' \<longrightarrow> v_ok tr v') \<and>
    (v \<noteq> None \<longrightarrow> appends_at tr p \<longrightarrow> tr_link tr \<noteq> None \<longrightarrow>
      v_ok (RecordNextStep tr p c s) v \<and>
      v_remaining (RecordNextStep tr p c s) v = v_remaining tr v @ [(p, c, s)])"
proof -
  have "\<not> v_Done tr v \<longrightarrow> CurrentPath tr v = fst (hd (v_remaining tr v))"
    using v_Done_iff[OF assms] CurrentPath_head[OF assms] by (cases "v_remaining tr v") auto
  moreover have "v \<noteq> None \<longrightarrow> appends_at tr p \<longrightarrow> tr_link tr \<noteq> None \<longrightarrow>
      v_ok (RecordNextStep tr p c s) v \<and>
      v_remaining (RecordNextStep tr p c s) v = v_remaining tr v @ [(p, c, s)]"
    using verifier_grows[OF assms(1), of p _ c s] assms(2) by (cases v) (auto simp: steps_unfold)
  ultimately show ?thesis
    using NewVerifier_spec[OF assms(1)] v_Done_iff[OF assms] VerifyNext_spec[OF assms] by blast
qed

theorem verifier_refines_replay_witness:
  "map_sum id (v_remaining example_record) (VerifyNext example_record (Some []) ''r'' False) =
     verify_spec (steps example_record []) ''r'' False \<and>
   VerifyNext example_record (Some []) ''r'' False = Inr None"
proof -
  have "v_ok example_record (Some [])" by code_simp
  moreover have "v_remaining example_record (Some []) = steps example_record []" by code_simp
  moreover have "VerifyNext example_record (Some []) ''r'' False = Inr None" by code_simp
  ultimately show ?thesis using verifier_refines_replay[OF example_record_ok] by metis
qed

text \<open>A remote that reports the very links of the recorded traversal, each followed exactly when it
  was, is accepted to the end, after which the verifier is done; and whatever sequence of links the
  verifier accepts is a subsequence of the recorded links, in their order.\<close>

theorem verifier_accepts_replays_only:
  assumes "tr_ok tr" "pruned (steps tr [])"
  shows "(\<exists>v. verify_all tr (NewVerifier tr) (map snd (steps tr [])) = Inr v \<and> v_Done tr v) \<and>
    (\<forall>ms v. verify_all tr (NewVerifier tr) ms = Inr v \<longrightarrow> subseq (map fst ms) (map step_link (steps tr [])))"
  using verify_all_complete[OF assms(1) NewVerifier_spec(1)[OF assms(1)]]
    verify_all_sound[OF assms(1) NewVerifier_spec(1)[OF assms(1)]] assms
  by (simp add: NewVerifier_spec(2))

theorem verifier_accepts_replays_only_witness:
  "\<exists>v. verify_all example_record (NewVerifier example_record) (map snd (steps example_record [])) = Inr v \<and>
     v_Done example_record v"
proof -
  have "pruned (steps example_record [])" by code_simp
  with verifier_accepts_replays_only[OF example_record_ok] show ?thesis by blast
qed

end
