(* ===== verification/Remote_Queue.thy ===== *)
theory Remote_Queue
  imports GS_Types
begin

text \<open>
  \<^verbatim>\<open>requestmanager/reconciledloader/remotequeue.go\<close>: the linked queue of the remote items a
  reconciled loader has received, with its pool of reusable cells.

  The cells live in an explicit heap, a pointer is an index into it, and the pool holds the pointers
  given back. \<^verbatim>\<open>sync.Pool\<close> may hand out any pooled cell or a new one: the choice is an argument. The
  zero value of an action is \<open>None\<close>, as is a nil block; the trace link of an item is left out. A
  dereference of nil is the result \<open>None\<close> of an operation.
\<close>

section \<open>Cells\<close>

record remote_item =
  ri_link :: cid
  ri_action :: "link_action option"
  ri_block :: "bytes option"

record remoted_linked_item = remote_item +
  rl_next :: "nat option"

record rq_heap =
  cells :: "remoted_linked_item list"
  pool :: "nat list"

definition zero_item :: remote_item where
  "zero_item = \<lparr>ri_link = [], ri_action = None, ri_block = None\<rparr>"

definition zero_cell :: remoted_linked_item where
  "zero_cell = remote_item.extend zero_item \<lparr>rl_next = None\<rparr>"

definition set_cell :: "nat \<Rightarrow> (remoted_linked_item \<Rightarrow> remoted_linked_item) \<Rightarrow> rq_heap \<Rightarrow> rq_heap" where
  "set_cell a f h = h\<lparr>cells := (cells h)[a := f (cells h ! a)]\<rparr>"

definition newRemote :: "nat option \<Rightarrow> rq_heap \<Rightarrow> rq_heap \<times> nat" where
  "newRemote pick h =
     (case pick of
        Some a \<Rightarrow>
          if a \<in> set (pool h) then (set_cell a (rl_next_update (\<lambda>_. None)) (h\<lparr>pool := remove1 a (pool h)\<rparr>), a)
          else (h\<lparr>cells := cells h @ [zero_cell]\<rparr>, length (cells h))
      | None \<Rightarrow> (h\<lparr>cells := cells h @ [zero_cell]\<rparr>, length (cells h)))"

definition pool_put :: "nat \<Rightarrow> rq_heap \<Rightarrow> rq_heap" where
  "pool_put a h = h\<lparr>pool := a # pool h\<rparr>"

fun freeList :: "nat list \<Rightarrow> rq_heap \<Rightarrow> rq_heap" where
  "freeList [] h = h"
| "freeList (ri # remoteItems) h =
     freeList remoteItems (pool_put ri (set_cell ri (ri_block_update (\<lambda>_. None)) h))"

section \<open>The queue\<close>

record remote_queue =
  rq_head :: "nat option"
  rq_tail :: "nat option"
  rq_dataSize :: u64
  rq_lastConsumed :: "nat option"

definition zero_queue :: remote_queue where
  "zero_queue = \<lparr>rq_head = None, rq_tail = None, rq_dataSize = 0, rq_lastConsumed = None\<rparr>"

definition rq_empty :: "remote_queue \<Rightarrow> bool" where
  "rq_empty rq \<longleftrightarrow> rq_head rq = None"

definition rq_first :: "rq_heap \<Rightarrow> remote_queue \<Rightarrow> remote_item" where
  "rq_first h rq =
     (case rq_head rq of None \<Rightarrow> zero_item | Some a \<Rightarrow> remote_item.truncate (cells h ! a))"

definition retryLast :: "remote_queue \<Rightarrow> remote_queue" where
  "retryLast rq =
     (case rq_lastConsumed rq of None \<Rightarrow> rq | Some a \<Rightarrow> rq\<lparr>rq_head := Some a\<rparr>)"

definition block_len :: "bytes option \<Rightarrow> u64" where
  "block_len b = (case b of None \<Rightarrow> 0 | Some d \<Rightarrow> of_nat (length d))"

definition releaseLast :: "rq_heap \<times> remote_queue \<Rightarrow> rq_heap \<times> remote_queue" where
  "releaseLast s =
     (case s of (h, rq) \<Rightarrow>
        case rq_lastConsumed rq of
          None \<Rightarrow> (h, rq)
        | Some a \<Rightarrow> (pool_put a h, rq\<lparr>rq_lastConsumed := None\<rparr>))"

definition consume :: "rq_heap \<times> remote_queue \<Rightarrow> (rq_heap \<times> remote_queue) option" where
  "consume s =
     (case releaseLast s of (h, rq) \<Rightarrow>
        case rq_head rq of
          None \<Rightarrow> None
        | Some a \<Rightarrow>
            let rq = rq\<lparr>rq_dataSize := rq_dataSize rq - block_len (ri_block (cells h ! a))\<rparr>;
                h = set_cell a (ri_block_update (\<lambda>_. None)) h
            in Some (h, rq\<lparr>rq_lastConsumed := Some a, rq_head := rl_next (cells h ! a)\<rparr>))"

partial_function (option) clear_loop :: "rq_heap \<times> remote_queue \<Rightarrow> (rq_heap \<times> remote_queue) option" where
  "clear_loop s =
     (if rq_head (snd s) = None then Some s
      else Option.bind (consume s) (\<lambda>s'. clear_loop s'))"

definition rq_clear :: "rq_heap \<times> remote_queue \<Rightarrow> (rq_heap \<times> remote_queue) option" where
  "rq_clear s = map_option releaseLast (clear_loop s)"

fun rq_queue :: "nat list \<Rightarrow> rq_heap \<times> remote_queue \<Rightarrow> (rq_heap \<times> remote_queue) option" where
  "rq_queue [] s = Some s"
| "rq_queue (newItem # newItems) (h, rq) =
     (let rq = rq\<lparr>rq_dataSize := rq_dataSize rq + block_len (ri_block (cells h ! newItem))\<rparr>
      in case rq_head rq of
           None \<Rightarrow> rq_queue newItems (h, rq\<lparr>rq_tail := Some newItem, rq_head := Some newItem\<rparr>)
         | Some _ \<Rightarrow>
             case rq_tail rq of
               None \<Rightarrow> None
             | Some t \<Rightarrow>
                 rq_queue newItems
                   (set_cell t (rl_next_update (\<lambda>_. Some newItem)) h, rq\<lparr>rq_tail := Some newItem\<rparr>))"

section \<open>The invariant\<close>

text \<open>\<open>chain c p xs\<close>: from the pointer \<open>p\<close> on, the cells are those at \<open>xs\<close>.\<close>

fun chain :: "remoted_linked_item list \<Rightarrow> nat option \<Rightarrow> nat list \<Rightarrow> bool" where
  "chain c p [] \<longleftrightarrow> p = None"
| "chain c p (a # xs) \<longleftrightarrow> p = Some a \<and> a < length c \<and> chain c (rl_next (c ! a)) xs"

definition items_at :: "rq_heap \<Rightarrow> nat list \<Rightarrow> remote_item list" where
  "items_at h xs = map (\<lambda>a. remote_item.truncate (cells h ! a)) xs"

definition data_size :: "remote_item list \<Rightarrow> u64" where
  "data_size items = (\<Sum>i \<leftarrow> items. block_len (ri_block i))"

text \<open>The queue holds the cells \<open>xs\<close>; the cells \<open>own\<close> are held by a caller that has not queued them
  yet; no cell is in two places.\<close>

definition last_ok :: "rq_heap \<Rightarrow> nat option \<Rightarrow> nat list \<Rightarrow> bool" where
  "last_ok h l used = (case l of None \<Rightarrow> True
     | Some a \<Rightarrow> a \<notin> set used \<and> a < length (cells h) \<and> ri_block (cells h ! a) = None)"

definition rq_inv :: "rq_heap \<Rightarrow> remote_queue \<Rightarrow> nat list \<Rightarrow> nat list \<Rightarrow> bool" where
  "rq_inv h rq xs own \<longleftrightarrow>
     chain (cells h) (rq_head rq) xs \<and>
     (xs \<noteq> [] \<longrightarrow> rq_tail rq = Some (last xs)) \<and>
     rq_dataSize rq = data_size (items_at h xs) \<and>
     distinct (xs @ own @ pool h) \<and>
     last_ok h (rq_lastConsumed rq) (xs @ own @ pool h) \<and>
     (\<forall>a \<in> set own. a < length (cells h) \<and> rl_next (cells h ! a) = None) \<and>
     (\<forall>a \<in> set (pool h). a < length (cells h) \<and> ri_block (cells h ! a) = None)"

lemma rq_invI:
  assumes "chain (cells h) (rq_head rq) xs" "xs \<noteq> [] \<Longrightarrow> rq_tail rq = Some (last xs)"
    "rq_dataSize rq = data_size (items_at h xs)" "distinct (xs @ own @ pool h)"
    "last_ok h (rq_lastConsumed rq) (xs @ own @ pool h)"
    "\<And>a. a \<in> set own \<Longrightarrow> a < length (cells h) \<and> rl_next (cells h ! a) = None"
    "\<And>a. a \<in> set (pool h) \<Longrightarrow> a < length (cells h) \<and> ri_block (cells h ! a) = None"
  shows "rq_inv h rq xs own"
  using assms by (simp add: rq_inv_def)

lemma rq_invD:
  assumes "rq_inv h rq xs own"
  shows "chain (cells h) (rq_head rq) xs" "xs \<noteq> [] \<Longrightarrow> rq_tail rq = Some (last xs)"
    "rq_dataSize rq = data_size (items_at h xs)" "distinct (xs @ own @ pool h)"
    "last_ok h (rq_lastConsumed rq) (xs @ own @ pool h)"
    "a \<in> set own \<Longrightarrow> a < length (cells h) \<and> rl_next (cells h ! a) = None"
    "a \<in> set (pool h) \<Longrightarrow> a < length (cells h) \<and> ri_block (cells h ! a) = None"
  using assms by (simp_all add: rq_inv_def)

lemma rq_inv_zero: "rq_inv \<lparr>cells = [], pool = []\<rparr> zero_queue [] []"
  by (simp add: rq_inv_def last_ok_def zero_queue_def items_at_def data_size_def)

lemma chain_cong:
  "(\<And>a. a \<in> set xs \<Longrightarrow> a < length c' \<and> rl_next (c' ! a) = rl_next (c ! a)) \<Longrightarrow> chain c p xs \<Longrightarrow> chain c' p xs"
  by (induction xs arbitrary: p) auto

lemma chain_length: "chain c p xs \<Longrightarrow> a \<in> set xs \<Longrightarrow> a < length c"
  by (induction xs arbitrary: p) auto

lemma set_cell_simps [simp]:
  "pool (set_cell a f h) = pool h" "length (cells (set_cell a f h)) = length (cells h)"
  "a < length (cells h) \<Longrightarrow> cells (set_cell a f h) ! b = (if b = a then f (cells h ! a) else cells h ! b)"
  "b \<noteq> a \<Longrightarrow> cells (set_cell a f h) ! b = cells h ! b"
  by (simp_all add: set_cell_def)

lemma pool_put_simps [simp]: "pool (pool_put a h) = a # pool h" "cells (pool_put a h) = cells h"
  by (simp_all add: pool_put_def)

lemma rq_empty_iff: "rq_inv h rq xs own \<Longrightarrow> rq_empty rq \<longleftrightarrow> xs = []"
  by (cases xs) (auto simp: rq_inv_def rq_empty_def)

lemma rq_first_head: "rq_inv h rq (a # xs) own \<Longrightarrow> rq_first h rq = remote_item.truncate (cells h ! a)"
  by (simp add: rq_inv_def rq_first_def)
section \<open>Every operation keeps it\<close>

lemma releaseLast_inv:
  assumes inv: "rq_inv h rq xs own" and rel: "releaseLast (h, rq) = (h', rq')"
  shows "rq_inv h' rq' xs own" "rq_lastConsumed rq' = None" "rq_head rq' = rq_head rq"
    "rq_dataSize rq' = rq_dataSize rq" "cells h' = cells h"
proof -
  have "rq_inv h' rq' xs own \<and> rq_lastConsumed rq' = None \<and> rq_head rq' = rq_head rq \<and>
    rq_dataSize rq' = rq_dataSize rq \<and> cells h' = cells h"
  proof (cases "rq_lastConsumed rq")
    case None
    with rel inv show ?thesis by (simp add: releaseLast_def)
  next
    case (Some a)
    then have eq: "h' = pool_put a h" "rq' = rq\<lparr>rq_lastConsumed := None\<rparr>"
      using rel by (simp_all add: releaseLast_def)
    have a: "a \<notin> set (xs @ own @ pool h)" "a < length (cells h)" "ri_block (cells h ! a) = None"
      using rq_invD(5)[OF inv] Some by (simp_all add: last_ok_def)
    have "rq_inv h' rq' xs own"
      unfolding eq using rq_invD[OF inv] a by (intro rq_invI) (auto simp: last_ok_def items_at_def)
    with eq show ?thesis by simp
  qed
  then show "rq_inv h' rq' xs own" "rq_lastConsumed rq' = None" "rq_head rq' = rq_head rq"
    "rq_dataSize rq' = rq_dataSize rq" "cells h' = cells h" by simp_all
qed

lemma items_at_cong:
  "(\<And>a. a \<in> set xs \<Longrightarrow> remote_item.truncate (cells h' ! a) = remote_item.truncate (cells h ! a)) \<Longrightarrow>
   items_at h' xs = items_at h xs"
  by (simp add: items_at_def)

lemma data_size_simps [simp]:
  "data_size [] = 0" "data_size (i # is) = block_len (ri_block i) + data_size is"
  "data_size (is @ js) = data_size is + data_size js"
  by (simp_all add: data_size_def)

lemma truncate_simps [simp]:
  "ri_block (remote_item.truncate c) = ri_block c" "ri_link (remote_item.truncate c) = ri_link c"
  "ri_action (remote_item.truncate c) = ri_action c"
  "remote_item.truncate (rl_next_update f c) = remote_item.truncate c"
  by (simp_all add: remote_item.defs)

lemma items_at_simps [simp]:
  "items_at h [] = []" "items_at h (a # xs) = remote_item.truncate (cells h ! a) # items_at h xs"
  "items_at h (xs @ ys) = items_at h xs @ items_at h ys"
  by (simp_all add: items_at_def)

lemma consume_inv:
  assumes inv: "rq_inv h rq (a # xs) own"
  shows "\<exists>h' rq'. consume (h, rq) = Some (h', rq') \<and> rq_inv h' rq' xs own \<and>
    items_at h' xs = items_at h xs \<and> rq_lastConsumed rq' = Some a \<and>
    cells h' = (cells h)[a := (cells h ! a)\<lparr>ri_block := None\<rparr>]"
proof -
  obtain h1 rq1 where r: "releaseLast (h, rq) = (h1, rq1)" by (cases "releaseLast (h, rq)")
  note rel = releaseLast_inv[OF inv r]
  let ?h' = "set_cell a (ri_block_update (\<lambda>_. None)) h1"
  let ?rq' = "rq1\<lparr>rq_dataSize := rq_dataSize rq1 - block_len (ri_block (cells h1 ! a)),
    rq_lastConsumed := Some a, rq_head := rl_next (cells ?h' ! a)\<rparr>"
  have head: "rq_head rq1 = Some a" "a < length (cells h1)" "a \<notin> set xs"
    using rel(1) by (auto simp: rq_inv_def)
  have items: "items_at ?h' xs = items_at h1 xs" using head by (intro items_at_cong) auto
  have ch: "chain (cells h1) (rl_next (cells h1 ! a)) xs" using rel(1) by (simp add: rq_inv_def)
  have "chain (cells ?h') (rl_next (cells h1 ! a)) xs"
    by (rule chain_cong[OF _ ch]) (use head chain_length[OF ch] in auto)
  then have "rq_inv ?h' ?rq' xs own"
  proof (intro rq_invI)
    show "rq_tail ?rq' = Some (last xs)" if "xs \<noteq> []" using rq_invD(2)[OF rel(1)] that by simp
    show "rq_dataSize ?rq' = data_size (items_at ?h' xs)" using rq_invD(3)[OF rel(1)] items by simp
    show "distinct (xs @ own @ pool ?h')" using rq_invD(4)[OF rel(1)] by simp
    show "last_ok ?h' (rq_lastConsumed ?rq') (xs @ own @ pool ?h')"
      using rq_invD(4)[OF rel(1)] head by (simp add: last_ok_def)
    show "b < length (cells ?h') \<and> rl_next (cells ?h' ! b) = None" if "b \<in> set own" for b
      using rq_invD(6)[OF rel(1) that] head by auto
    show "b < length (cells ?h') \<and> ri_block (cells ?h' ! b) = None" if "b \<in> set (pool ?h')" for b
      using rq_invD(7)[OF rel(1), of b] head that by simp
  qed (use head in simp)
  moreover have "consume (h, rq) = Some (?h', ?rq')"
    using r head by (simp add: consume_def Let_def)
  moreover have "items_at h1 xs = items_at h xs" using rel(5) by (simp add: items_at_def)
  moreover have "cells ?h' = (cells h)[a := (cells h ! a)\<lparr>ri_block := None\<rparr>]"
    using rel(5) by (simp add: set_cell_def)
  ultimately show ?thesis using items rel(5) head by simp
qed

lemma consume_empty:
  assumes inv: "rq_inv h rq [] own"
  shows "consume (h, rq) = None"
proof -
  obtain h1 rq1 where r: "releaseLast (h, rq) = (h1, rq1)" by (cases "releaseLast (h, rq)")
  with releaseLast_inv(3)[OF inv r] rq_invD(1)[OF inv] show ?thesis by (simp add: consume_def)
qed

lemma chain_snoc:
  assumes "chain (cells h) p xs" "xs \<noteq> []" "distinct xs" "a \<notin> set xs" "a < length (cells h)"
    "rl_next (cells h ! a) = None"
  shows "chain (cells (set_cell (last xs) (rl_next_update (\<lambda>_. Some a)) h)) p (xs @ [a])"
  using assms
proof (induction xs arbitrary: p)
  case (Cons x xs)
  show ?case
  proof (cases "xs = []")
    case False
    then have "x \<noteq> last xs" using Cons.prems(3) by auto
    with Cons False show ?thesis by simp
  qed (use Cons in auto)
qed simp

lemma queue_inv:
  assumes "rq_inv h rq xs (own @ rest)"
  shows "\<exists>h' rq'. rq_queue own (h, rq) = Some (h', rq') \<and> rq_inv h' rq' (xs @ own) rest \<and>
    items_at h' (xs @ own) = items_at h (xs @ own) \<and> rq_lastConsumed rq' = rq_lastConsumed rq \<and>
    (\<forall>b. b \<notin> set (xs @ own) \<longrightarrow> cells h' ! b = cells h ! b)"
  using assms
proof (induction own arbitrary: h rq xs)
  case (Cons a own)
  let ?rq1 = "rq\<lparr>rq_dataSize := rq_dataSize rq + block_len (ri_block (cells h ! a))\<rparr>"
  have a: "a < length (cells h)" "rl_next (cells h ! a) = None" "a \<notin> set xs"
    using rq_invD(4,6)[OF Cons.prems] by auto
  show ?case
  proof (cases xs)
    case Nil
    let ?rq' = "?rq1\<lparr>rq_tail := Some a, rq_head := Some a\<rparr>"
    have "rq_inv h ?rq' [a] (own @ rest)"
      using rq_invD[OF Cons.prems] Nil a by (intro rq_invI) (auto simp: last_ok_def split: option.splits)
    from Cons.IH[OF this] rq_invD(1)[OF Cons.prems] Nil show ?thesis by (simp add: Let_def)
  next
    case (Cons x xs')
    let ?t = "last xs"
    let ?h' = "set_cell ?t (rl_next_update (\<lambda>_. Some a)) h" and ?rq' = "?rq1\<lparr>rq_tail := Some a\<rparr>"
    have t: "?t < length (cells h)" "?t \<noteq> a" "?t \<in> set xs"
      using Cons a chain_length[OF rq_invD(1)[OF Cons.prems], of ?t] by auto
    have items: "items_at ?h' ys = items_at h ys" for ys
      using t by (intro items_at_cong) auto
    have other: "b \<notin> set xs \<Longrightarrow> cells ?h' ! b = cells h ! b" for b
      using t by (cases "b = ?t") auto
    have "chain (cells ?h') (rq_head rq) (xs @ [a])"
      using rq_invD(1,4)[OF Cons.prems] Cons a by (intro chain_snoc) auto
    then have "rq_inv ?h' ?rq' (xs @ [a]) (own @ rest)"
      using rq_invD[OF Cons.prems] t items a by (intro rq_invI) (auto simp: last_ok_def split: option.splits)
    from Cons.IH[OF this] obtain h' rq' where
      "rq_queue own (?h', ?rq') = Some (h', rq')" "rq_inv h' rq' (xs @ a # own) rest"
      "items_at h' (xs @ a # own) = items_at h (xs @ a # own)"
      "rq_lastConsumed rq' = rq_lastConsumed rq" "\<forall>b. b \<notin> set (xs @ a # own) \<longrightarrow> cells h' ! b = cells h ! b"
      using other by (auto simp: items simp del: items_at_simps)
    with rq_invD(1,2)[OF Cons.prems] Cons show ?thesis by (simp add: Let_def del: items_at_simps)
  qed
qed simp

lemma newRemote_pooled:
  assumes inv: "rq_inv h rq xs own" and a: "a \<in> set (pool h)"
    and h': "h' = set_cell a (rl_next_update (\<lambda>_. None)) (h\<lparr>pool := remove1 a (pool h)\<rparr>)"
  shows "rq_inv h' rq xs (own @ [a])" "items_at h' ys = items_at h ys" "ri_block (cells h' ! a) = None"
proof -
  note D = rq_invD[OF inv]
  have out: "a \<notin> set xs" "a \<notin> set own" "a < length (cells h)" "ri_block (cells h ! a) = None"
    using a D(4) D(7)[OF a] by auto
  have cells: "cells h' ! b = (if b = a then (cells h ! a)\<lparr>rl_next := None\<rparr> else cells h ! b)" for b
    using out(3) by (auto simp: h' set_cell_def)
  have h'_simps: "length (cells h') = length (cells h)" "pool h' = remove1 a (pool h)" by (simp_all add: h')
  show items: "items_at h' ys = items_at h ys" for ys by (rule items_at_cong) (simp add: cells)
  have "chain (cells h') (rq_head rq) xs"
    by (rule chain_cong[OF _ D(1)]) (use out chain_length[OF D(1)] in \<open>auto simp: cells h'_simps\<close>)
  moreover have "distinct (xs @ (own @ [a]) @ pool h')" using D(4) a out by (auto simp: h'_simps)
  moreover have "last_ok h' (rq_lastConsumed rq) (xs @ (own @ [a]) @ pool h')"
    using D(5) a by (auto simp: last_ok_def h'_simps cells notin_set_remove1 split: option.splits)
  ultimately show "rq_inv h' rq xs (own @ [a])"
    using D(2,3,6,7) out
    by (intro rq_invI) (auto simp: cells items h'_simps dest: notin_set_remove1[THEN notE] split: if_splits)
  show "ri_block (cells h' ! a) = None" using out by (simp add: cells)
qed

lemma newRemote_fresh:
  assumes inv: "rq_inv h rq xs own" and h': "h' = h\<lparr>cells := cells h @ [zero_cell]\<rparr>" "a = length (cells h)"
  shows "rq_inv h' rq xs (own @ [a])" "items_at h' (xs @ own) = items_at h (xs @ own)"
    "ri_block (cells h' ! a) = None"
proof -
  note D = rq_invD[OF inv]
  have len: "b < length (cells h)" if "b \<in> set (xs @ own)" for b
    using that D(6) chain_length[OF D(1)] by auto
  have cells: "cells h' ! b = cells h ! b" if "b < length (cells h)" for b
    using that by (simp add: h' nth_append)
  show "items_at h' (xs @ own) = items_at h (xs @ own)"
    using len by (intro items_at_cong) (simp add: cells)
  have items: "items_at h' xs = items_at h xs" using len by (intro items_at_cong) (simp add: cells)
  have "chain (cells h') (rq_head rq) xs"
    by (rule chain_cong[OF _ D(1)]) (use len in \<open>simp add: h' nth_append less_SucI\<close>)
  moreover have "distinct (xs @ (own @ [a]) @ pool h')" using D(4,7) len by (fastforce simp: h')
  moreover have "last_ok h' (rq_lastConsumed rq) (xs @ (own @ [a]) @ pool h')"
    using D(5) by (auto simp: last_ok_def h' nth_append split: option.splits)
  ultimately show "rq_inv h' rq xs (own @ [a])"
    using D(2,3,6,7) items
    by (intro rq_invI) (auto simp: h' nth_append zero_cell_def zero_item_def remote_item.defs less_SucI)
  show "ri_block (cells h' ! a) = None" by (simp add: h' zero_cell_def zero_item_def remote_item.defs)
qed

lemma newRemote_inv:
  assumes inv: "rq_inv h rq xs own" and new: "newRemote pick h = (h', a)"
  shows "rq_inv h' rq xs (own @ [a])" "items_at h' (xs @ own) = items_at h (xs @ own)"
    "ri_block (cells h' ! a) = None"
proof -
  consider (pooled) "a \<in> set (pool h)"
      "h' = set_cell a (rl_next_update (\<lambda>_. None)) (h\<lparr>pool := remove1 a (pool h)\<rparr>)"
    | (fresh) "h' = h\<lparr>cells := cells h @ [zero_cell]\<rparr>" "a = length (cells h)"
    using new by (auto simp: newRemote_def split: option.splits if_splits)
  then have "rq_inv h' rq xs (own @ [a]) \<and> items_at h' (xs @ own) = items_at h (xs @ own) \<and>
    ri_block (cells h' ! a) = None"
  proof cases
    case pooled
    from newRemote_pooled[OF inv this] show ?thesis by blast
  next
    case fresh
    from newRemote_fresh[OF inv this] show ?thesis by blast
  qed
  then show "rq_inv h' rq xs (own @ [a])" "items_at h' (xs @ own) = items_at h (xs @ own)"
    "ri_block (cells h' ! a) = None" by blast+
qed

text \<open>Filling in a cell that is not queued yet.\<close>

lemma set_own_inv:
  assumes inv: "rq_inv h rq xs own" and a: "a \<in> set own" and f: "\<And>c. rl_next (f c) = rl_next c"
  shows "rq_inv (set_cell a f h) rq xs own" "items_at (set_cell a f h) xs = items_at h xs"
proof -
  note D = rq_invD[OF inv]
  have out: "a \<notin> set xs" "a \<notin> set (pool h)" "a < length (cells h)" "rl_next (cells h ! a) = None"
    using a D(4) D(6)[OF a] by auto
  show items: "items_at (set_cell a f h) xs = items_at h xs" using out(1) by (intro items_at_cong) (metis set_cell_simps(4))
  have "chain (cells (set_cell a f h)) (rq_head rq) xs"
    by (rule chain_cong[OF _ D(1)]) (use out chain_length[OF D(1)] in auto)
  moreover have "last_ok (set_cell a f h) (rq_lastConsumed rq) (xs @ own @ pool h)"
    using D(5) a out(3) by (auto simp: last_ok_def split: option.splits)
  ultimately show "rq_inv (set_cell a f h) rq xs own"
    using D items out f by (intro rq_invI) auto
qed

lemma freeList_inv:
  assumes "rq_inv h rq xs (own @ rest)"
  shows "rq_inv (freeList own h) rq xs rest \<and> items_at (freeList own h) xs = items_at h xs"
  using assms
proof (induction own arbitrary: h)
  case (Cons a own)
  let ?h1 = "set_cell a (ri_block_update (\<lambda>_. None)) h"
  have s: "rq_inv ?h1 rq xs (a # own @ rest)" "items_at ?h1 xs = items_at h xs"
    using set_own_inv[OF Cons.prems, of a "ri_block_update (\<lambda>_. None)"] by simp_all
  note D = rq_invD[OF s(1)]
  have a: "a < length (cells h)" using rq_invD(6)[OF Cons.prems, of a] by simp
  have "rq_inv (pool_put a ?h1) rq xs (own @ rest)"
  proof (rule rq_invI)
    show "distinct (xs @ (own @ rest) @ pool (pool_put a ?h1))" using D(4) by auto
    show "last_ok (pool_put a ?h1) (rq_lastConsumed rq) (xs @ (own @ rest) @ pool (pool_put a ?h1))"
      using D(5) by (auto simp: last_ok_def split: option.splits)
    show "b < length (cells (pool_put a ?h1)) \<and> ri_block (cells (pool_put a ?h1) ! b) = None"
      if "b \<in> set (pool (pool_put a ?h1))" for b
      using that D(7)[of b] a by (cases "b = a") auto
    show "b < length (cells (pool_put a ?h1)) \<and> rl_next (cells (pool_put a ?h1) ! b) = None"
      if "b \<in> set (own @ rest)" for b using that D(6)[of b] by auto
  qed (use D(1-3) in \<open>auto simp: items_at_def\<close>)
  from Cons.IH[OF this] s(2) show ?case by (simp add: items_at_def)
qed simp

lemma clear_inv:
  assumes "rq_inv h rq xs own"
  shows "\<exists>h' rq'. rq_clear (h, rq) = Some (h', rq') \<and> rq_inv h' rq' [] own \<and> rq_lastConsumed rq' = None"
proof -
  have "\<exists>h' rq'. clear_loop (h, rq) = Some (h', rq') \<and> rq_inv h' rq' [] own"
    using assms
  proof (induction xs arbitrary: h rq)
    case Nil
    then have "rq_head rq = None" by (auto dest: rq_invD(1))
    with Nil show ?case by (subst clear_loop.simps) simp
  next
    case (Cons a xs)
    then have "rq_head rq \<noteq> None" by (auto dest: rq_invD(1))
    moreover from consume_inv[OF Cons.prems] obtain h1 rq1 where
      "consume (h, rq) = Some (h1, rq1)" "rq_inv h1 rq1 xs own" by blast
    ultimately show ?case using Cons.IH by (subst clear_loop.simps) auto
  qed
  then obtain h1 rq1 where c: "clear_loop (h, rq) = Some (h1, rq1)" "rq_inv h1 rq1 [] own" by blast
  obtain h' rq' where r: "releaseLast (h1, rq1) = (h', rq')" by (cases "releaseLast (h1, rq1)")
  show ?thesis using c r releaseLast_inv(1,2)[OF c(2) r] by (simp add: rq_clear_def)
qed

section \<open>The interface: a first-in first-out queue\<close>

text \<open>What the loader relies on: looking at the front, dropping it, and nothing else changes.\<close>

locale fifo_queue =
  fixes good :: "'s \<Rightarrow> bool" and content :: "'s \<Rightarrow> 'i list" and is_empty :: "'s \<Rightarrow> bool"
    and front :: "'s \<Rightarrow> 'i" and drop_front :: "'s \<Rightarrow> 's option" and enqueue :: "'b \<Rightarrow> 's \<Rightarrow> 's option"
    and batch :: "'b \<Rightarrow> 's \<Rightarrow> 'i list option"
  assumes empty_iff: "good s \<Longrightarrow> is_empty s \<longleftrightarrow> content s = []"
    and front_head: "good s \<Longrightarrow> content s = i # is \<Longrightarrow> front s = i"
    and drop_front_tail: "good s \<Longrightarrow> content s = i # is \<Longrightarrow>
      \<exists>s'. drop_front s = Some s' \<and> good s' \<and> content s' = is"
    and drop_front_empty: "good s \<Longrightarrow> content s = [] \<Longrightarrow> drop_front s = None"
    and enqueue_append: "good s \<Longrightarrow> batch b s = Some is \<Longrightarrow>
      \<exists>s'. enqueue b s = Some s' \<and> good s' \<and> content s' = content s @ is"
begin

lemma drop_front_Some: "good s \<Longrightarrow> drop_front s = Some s' \<Longrightarrow> good s' \<and> content s = front s # content s'"
  using drop_front_empty[of s] drop_front_tail[of s] front_head[of s] by (cases "content s") fastforce+

lemma nonempty: "good s \<Longrightarrow> \<not> is_empty s \<Longrightarrow> \<exists>s'. drop_front s = Some s' \<and> good s' \<and> content s = front s # content s'"
  using empty_iff[of s] drop_front_tail[of s] front_head[of s] by (cases "content s") fastforce+

text \<open>Taking items out one by one gives them in the order they were put in, whatever was enqueued meanwhile.\<close>

lemma drop_after_enqueue:
  assumes "good s" "content s = i # is" "batch b s = Some js"
  shows "\<exists>s1 s2. enqueue b s = Some s1 \<and> drop_front s1 = Some s2 \<and> front s1 = i \<and> content s2 = is @ js \<and> good s2"
proof -
  obtain s1 where s1: "enqueue b s = Some s1" "good s1" "content s1 = i # is @ js"
    using enqueue_append[OF assms(1,3)] assms(2) by auto
  with drop_front_tail[OF s1(2,3)] front_head[OF s1(2,3)] show ?thesis by blast
qed

end

fun walk :: "nat \<Rightarrow> remoted_linked_item list \<Rightarrow> nat option \<Rightarrow> nat list" where
  "walk 0 c p = []"
| "walk (Suc n) c p = (case p of None \<Rightarrow> [] | Some a \<Rightarrow> a # walk n c (rl_next (c ! a)))"

definition rq_content :: "rq_heap \<times> remote_queue \<Rightarrow> remote_item list" where
  "rq_content s = items_at (fst s) (walk (length (cells (fst s))) (cells (fst s)) (rq_head (snd s)))"

definition rq_good :: "rq_heap \<times> remote_queue \<Rightarrow> bool" where
  "rq_good s \<longleftrightarrow> (\<exists>xs. rq_inv (fst s) (snd s) xs [])"

lemma walk_chain: "chain c p xs \<Longrightarrow> length xs \<le> n \<Longrightarrow> walk n c p = xs"
proof (induction xs arbitrary: p n)
  case Nil
  then show ?case by (cases n) auto
next
  case (Cons a xs)
  then show ?case by (cases n) auto
qed

lemma rq_content_chain:
  assumes "chain (cells h) (rq_head rq) xs" "distinct xs"
  shows "rq_content (h, rq) = items_at h xs"
proof -
  have "set xs \<subseteq> {..<length (cells h)}" using chain_length[OF assms(1)] by auto
  with assms(2) have "length xs \<le> length (cells h)"
    by (metis card_lessThan card_mono distinct_card finite_lessThan)
  with walk_chain[OF assms(1)] show ?thesis by (simp add: rq_content_def)
qed

lemma rq_content_inv: "rq_inv h rq xs own \<Longrightarrow> rq_content (h, rq) = items_at h xs"
  using rq_invD(1,4) by (intro rq_content_chain) auto

lemma rq_goodE:
  assumes "rq_good (h, rq)"
  obtains xs where "rq_inv h rq xs []" "rq_content (h, rq) = items_at h xs"
  using assms rq_content_inv by (auto simp: rq_good_def)

lemma rq_good_zero: "rq_good (\<lparr>cells = [], pool = []\<rparr>, zero_queue)" "rq_content (\<lparr>cells = [], pool = []\<rparr>, zero_queue) = []"
  using rq_inv_zero rq_content_inv[OF rq_inv_zero] by (auto simp: rq_good_def)

section \<open>The items of a response\<close>

text \<open>The loop of \<^verbatim>\<open>IngestResponse\<close> over the metadata of a response: one cell per link, the block only
  with the first of the links announced as present.\<close>

fun ingest_items ::
  "nat option list \<Rightarrow> (cid \<times> link_action) list \<Rightarrow> cid list \<Rightarrow> (cid, bytes) gomap \<Rightarrow> rq_heap \<Rightarrow> rq_heap \<times> nat list"
where
  "ingest_items picks [] duplicates blocks h = (h, [])"
| "ingest_items picks ((link, action) # md) duplicates blocks h =
     (let (h, newItem) = newRemote (case picks of [] \<Rightarrow> None | p # _ \<Rightarrow> p) h;
          h = set_cell newItem (ri_link_update (\<lambda>_. link)) h;
          h = set_cell newItem (ri_action_update (\<lambda>_. Some action)) h;
          (duplicates, h) =
            (if action = LinkActionPresent \<and> link \<notin> set duplicates
             then (link # duplicates, set_cell newItem (ri_block_update (\<lambda>_. mget blocks link)) h)
             else (duplicates, h));
          (h, items) = ingest_items (tl picks) md duplicates blocks h
      in (h, newItem # items))"

fun response_items :: "(cid \<times> link_action) list \<Rightarrow> cid list \<Rightarrow> (cid, bytes) gomap \<Rightarrow> remote_item list" where
  "response_items [] duplicates blocks = []"
| "response_items ((link, action) # md) duplicates blocks =
     \<lparr>ri_link = link, ri_action = Some action,
       ri_block = (if action = LinkActionPresent \<and> link \<notin> set duplicates then mget blocks link else None)\<rparr> #
     response_items md (if action = LinkActionPresent then link # duplicates else duplicates) blocks"

lemma response_items_dup: "set d = set d' \<Longrightarrow> response_items md d blocks = response_items md d' blocks"
proof (induction md arbitrary: d d')
  case (Cons e md)
  obtain l a where e: "e = (l, a)" by (cases e)
  have "response_items md (if a = LinkActionPresent then l # d else d) blocks =
    response_items md (if a = LinkActionPresent then l # d' else d') blocks"
    using Cons.prems by (intro Cons.IH) simp
  with e Cons.prems show ?case by simp
qed simp

lemma fill_cell:
  assumes inv: "rq_inv h rq xs (own @ [a])" and nil: "ri_block (cells h ! a) = None"
    and f: "\<And>c. rl_next (f c) = rl_next c"
  shows "rq_inv (set_cell a f h) rq xs (own @ [a])"
    "items_at (set_cell a f h) (xs @ own) = items_at h (xs @ own)"
    "cells (set_cell a f h) ! a = f (cells h ! a)"
proof -
  have a: "a < length (cells h)" "a \<notin> set (xs @ own)" using rq_invD(4,6)[OF inv] by auto
  show "rq_inv (set_cell a f h) rq xs (own @ [a])" by (rule set_own_inv[OF inv _ f]) simp
  show "items_at (set_cell a f h) (xs @ own) = items_at h (xs @ own)"
    using a by (intro items_at_cong) (metis set_cell_simps(4))
  show "cells (set_cell a f h) ! a = f (cells h ! a)" using a by simp
qed

lemma set_cell_comp: "set_cell a f (set_cell a g h) = set_cell a (\<lambda>c. f (g c)) h"
  by (cases "a < length (cells h)") (simp_all add: set_cell_def list_update_beyond)

lemma ingest_items_inv:
  assumes "rq_inv h rq xs own" "ingest_items picks md dups blocks h = (h', as)"
  shows "rq_inv h' rq xs (own @ as) \<and> items_at h' (xs @ own @ as) = items_at h (xs @ own) @ response_items md dups blocks"
  using assms
proof (induction md arbitrary: picks own h dups as)
  case (Cons e md)
  obtain link action where e: "e = (link, action)" by (cases e)
  obtain h1 a where n: "newRemote (case picks of [] \<Rightarrow> None | p # _ \<Rightarrow> p) h = (h1, a)" by fastforce
  let ?first = "action = LinkActionPresent \<and> link \<notin> set dups"
  let ?dups = "if ?first then link # dups else dups"
  let ?f = "\<lambda>c. c\<lparr>ri_link := link, ri_action := Some action,
    ri_block := (if ?first then mget blocks link else ri_block c)\<rparr>"
  obtain as' where m: "ingest_items (tl picks) md ?dups blocks (set_cell a ?f h1) = (h', as')" and as: "as = a # as'"
    using Cons.prems(2) e n by (auto simp: set_cell_comp Let_def split: prod.splits if_splits)
  note new = newRemote_inv[OF Cons.prems(1) n]
  note fill = fill_cell[OF new(1,3), of ?f, simplified]
  have items: "items_at (set_cell a ?f h1) (xs @ own @ [a]) = items_at h (xs @ own) @
      [\<lparr>ri_link = link, ri_action = Some action, ri_block = (if ?first then mget blocks link else None)\<rparr>]"
    using fill(2,3) new(2,3) by (simp add: remote_item.defs)
  have "response_items md ?dups blocks = response_items md (if action = LinkActionPresent then link # dups else dups) blocks"
    by (rule response_items_dup) auto
  with Cons.IH[OF fill(1) m] items as e show ?case by simp
qed simp

definition enqueue_response :: "nat option list \<times> (cid \<times> link_action) list \<times> (cid, bytes) gomap \<Rightarrow>
    rq_heap \<times> remote_queue \<Rightarrow> (rq_heap \<times> remote_queue) option" where
  "enqueue_response b s =
     (case b of (picks, md, blocks) \<Rightarrow>
        let (h, items) = ingest_items picks md [] blocks (fst s) in rq_queue items (h, snd s))"

lemma enqueue_response_good:
  assumes "rq_good s"
  shows "\<exists>s'. enqueue_response (picks, md, blocks) s = Some s' \<and> rq_good s' \<and>
    rq_content s' = rq_content s @ response_items md [] blocks"
proof -
  obtain h rq where s: "s = (h, rq)" by (cases s)
  with assms obtain xs where xs: "rq_inv h rq xs []" "rq_content (h, rq) = items_at h xs" using rq_goodE by blast
  obtain h1 as where i: "ingest_items picks md [] blocks h = (h1, as)" by fastforce
  with ingest_items_inv[OF xs(1) i] have
    inv: "rq_inv h1 rq xs (as @ [])" "items_at h1 (xs @ as) = items_at h xs @ response_items md [] blocks" by simp_all
  from queue_inv[OF inv(1)] obtain h' rq' where q: "rq_queue as (h1, rq) = Some (h', rq')"
    "rq_inv h' rq' (xs @ as) []" "items_at h' (xs @ as) = items_at h1 (xs @ as)" by blast
  with inv(2) xs(2) rq_content_inv[OF q(2)] s i show ?thesis
    by (auto simp: enqueue_response_def rq_good_def simp del: items_at_simps)
qed

interpretation rqi: fifo_queue rq_good rq_content "\<lambda>s. rq_empty (snd s)" "\<lambda>s. rq_first (fst s) (snd s)" consume
  enqueue_response "\<lambda>b s. case b of (picks, md, blocks) \<Rightarrow> Some (response_items md [] blocks)"
proof
  fix s :: "rq_heap \<times> remote_queue" and i "is" and b :: "nat option list \<times> (cid \<times> link_action) list \<times> (cid, bytes) gomap" and js
  obtain h rq where s: "s = (h, rq)" by (cases s)
  assume good: "rq_good s"
  with s obtain xs where xs: "rq_inv h rq xs []" "rq_content s = items_at h xs" using rq_goodE by blast
  show "rq_empty (snd s) \<longleftrightarrow> rq_content s = []" using xs rq_empty_iff[OF xs(1)] s by (simp add: items_at_def)
  show "consume s = None" if "rq_content s = []" using that xs s consume_empty by (simp add: items_at_def)
  show "(case b of (picks, md, blocks) \<Rightarrow> Some (response_items md [] blocks)) = Some js \<Longrightarrow>
    \<exists>s'. enqueue_response b s = Some s' \<and> rq_good s' \<and> rq_content s' = rq_content s @ js"
    using enqueue_response_good[OF good] by (cases b) auto
  assume c: "rq_content s = i # is"
  with xs obtain a ys where ys: "xs = a # ys" by (cases xs) auto
  show "rq_first (fst s) (snd s) = i" using c xs ys s rq_first_head by simp
  from consume_inv[OF xs(1)[unfolded ys]] obtain h' rq' where
    "consume (h, rq) = Some (h', rq')" "rq_inv h' rq' ys []" "items_at h' ys = items_at h ys" by blast
  with c xs(2) ys s rq_content_inv[of h' rq' ys "[]"] show
    "\<exists>s'. consume s = Some s' \<and> rq_good s' \<and> rq_content s' = is" by (auto simp: rq_good_def)
qed

section \<open>Retrying\<close>

abbreviation without_block :: "remote_item \<Rightarrow> remote_item" where
  "without_block i \<equiv> i\<lparr>ri_block := None\<rparr>"

text \<open>Put back right away, an item is at the front again, without its block.\<close>

lemma retry_restores:
  assumes inv: "rq_inv h rq (a # xs) own" and c: "consume (h, rq) = Some (h', rq')"
  shows "rq_content (h', retryLast rq') = without_block (remote_item.truncate (cells h ! a)) # items_at h xs"
proof -
  from consume_inv[OF inv] c have q: "rq_inv h' rq' xs own" "items_at h' xs = items_at h xs"
    "rq_lastConsumed rq' = Some a" "cells h' = (cells h)[a := (cells h ! a)\<lparr>ri_block := None\<rparr>]" by auto
  have a: "a < length (cells h)" "a \<notin> set xs" using rq_invD(1,4)[OF inv] by auto
  have ch: "chain (cells h) (rl_next (cells h ! a)) xs" using rq_invD(1)[OF inv] by simp
  have "chain (cells h') (rl_next (cells h ! a)) xs"
    by (rule chain_cong[OF _ ch]) (use chain_length[OF ch] a in \<open>auto simp: q(4) nth_list_update\<close>)
  then have "chain (cells h') (rq_head (retryLast rq')) (a # xs)" using a q(3,4) by (simp add: retryLast_def)
  moreover have "distinct (a # xs)" using rq_invD(4)[OF inv] by simp
  ultimately have "rq_content (h', retryLast rq') = items_at h' (a # xs)" by (rule rq_content_chain)
  with a q show ?thesis by (simp add: remote_item.defs)
qed

text \<open>Put back after the queue had run empty and was filled again, it is alone: the old cell does not
  lead to the new ones.\<close>

lemma retry_loses:
  assumes inv: "rq_inv h rq [a] own" and c: "consume (h, rq) = Some (h1, rq1)"
    and q: "rq_queue own (h1, rq1) = Some (h2, rq2)"
  shows "rq_content (h2, rq2) = items_at h1 own"
    "rq_content (h2, retryLast rq2) = [without_block (remote_item.truncate (cells h ! a))]"
proof -
  from consume_inv[OF inv] c have i1: "rq_inv h1 rq1 [] own" "rq_lastConsumed rq1 = Some a"
    "cells h1 = (cells h)[a := (cells h ! a)\<lparr>ri_block := None\<rparr>]" by auto
  have a: "a < length (cells h)" "a \<notin> set own" "rl_next (cells h ! a) = None"
    using rq_invD(1,4)[OF inv] by auto
  from queue_inv[of h1 rq1 "[]" own "[]"] i1(1) q have i2: "rq_inv h2 rq2 own []"
    "items_at h2 own = items_at h1 own" "rq_lastConsumed rq2 = Some a"
    "\<forall>b. b \<notin> set own \<longrightarrow> cells h2 ! b = cells h1 ! b" using i1(2) by auto
  show "rq_content (h2, rq2) = items_at h1 own" using rq_content_inv[OF i2(1)] i2(2) by simp
  have cell: "cells h2 ! a = (cells h ! a)\<lparr>ri_block := None\<rparr>" using i2(4) a i1(3) by simp
  have len: "a < length (cells h2)" using rq_invD(5)[OF i2(1)] i2(3) by (simp add: last_ok_def)
  then have "chain (cells h2) (rq_head (retryLast rq2)) [a]" using i2(3) a cell by (simp add: retryLast_def)
  from rq_content_chain[OF this] cell show
    "rq_content (h2, retryLast rq2) = [without_block (remote_item.truncate (cells h ! a))]"
    by (simp add: remote_item.defs)
qed

definition consume_retried :: "rq_heap \<times> remote_queue \<Rightarrow> (rq_heap \<times> remote_queue) option" where
  "consume_retried s =
     Option.bind (consume s) (\<lambda>(h, rq). Option.bind (consume (h, retryLast rq)) consume)"

lemma retry_pools_twice:
  assumes inv: "rq_inv h rq (a # b # xs) own"
  shows "\<exists>h' rq'. consume_retried (h, rq) = Some (h', rq') \<and> count_list (pool h') a = 2"
proof -
  obtain h0 rq0 where r: "releaseLast (h, rq) = (h0, rq0)" by fastforce
  note rel = releaseLast_inv[OF inv r]
  have D: "rq_head rq0 = Some a" "rl_next (cells h0 ! a) = Some b" "a < length (cells h0)" "b < length (cells h0)"
    "a \<noteq> b" "a \<notin> set (pool h0)" "rq_lastConsumed rq0 = None"
    using rq_invD(1,4)[OF rel(1)] rel(2) by auto
  then have "count_list (pool h0) a = 0" by (simp add: count_list_0_iff)
  with D show ?thesis
    unfolding consume_retried_def consume_def r by (simp add: Let_def releaseLast_def retryLast_def)
qed

section \<open>Properties\<close>

text \<open>C13: The linked queue with recycled cells is a first-in first-out queue. It is empty exactly when
  nothing is queued; the first item is the oldest, and consuming drops just that one; consuming an empty
  queue fails. A response appends one item per link of its metadata, in order, with the block only on the
  first link announced as present. Clearing ends, and leaves nothing queued and a buffered size of zero.\<close>

theorem remote_queue_is_fifo:
  assumes "rq_good s"
  shows "(rq_empty (snd s) \<longleftrightarrow> rq_content s = []) \<and>
    (rq_content s = i # is \<longrightarrow> rq_first (fst s) (snd s) = i \<and>
      (\<exists>s'. consume s = Some s' \<and> rq_good s' \<and> rq_content s' = is)) \<and>
    (rq_content s = [] \<longrightarrow> consume s = None) \<and>
    (\<exists>s'. enqueue_response (picks, md, blocks) s = Some s' \<and> rq_good s' \<and>
      rq_content s' = rq_content s @ response_items md [] blocks) \<and>
    (\<exists>s'. rq_clear s = Some s' \<and> rq_good s' \<and> rq_content s' = [] \<and> rq_dataSize (snd s') = 0)"
proof -
  obtain h rq xs where s: "s = (h, rq)" "rq_inv h rq xs []" using assms by (cases s) (auto simp: rq_good_def)
  from clear_inv[OF s(2)] obtain h' rq' where c: "rq_clear (h, rq) = Some (h', rq')" "rq_inv h' rq' [] []" by blast
  then have "\<exists>s'. rq_clear s = Some s' \<and> rq_good s' \<and> rq_content s' = [] \<and> rq_dataSize (snd s') = 0"
    using s rq_content_inv[OF c(2)] rq_invD(3)[OF c(2)] by (auto simp: rq_good_def)
  then show ?thesis
    using rqi.empty_iff[OF assms] rqi.front_head[OF assms] rqi.drop_front_tail[OF assms]
      rqi.drop_front_empty[OF assms] enqueue_response_good[OF assms] by blast
qed

definition example_queue :: "rq_heap \<times> remote_queue" where
  "example_queue = the (enqueue_response ([], [(''x'', LinkActionPresent), (''y'', LinkActionMissing)],
     [(''x'', [1, 2])]) (\<lparr>cells = [], pool = []\<rparr>, zero_queue))"

lemma example_queue_inv: "rq_inv (fst example_queue) (snd example_queue) [0, 1] []"
  by code_simp

theorem remote_queue_is_fifo_witness:
  "rq_good example_queue \<and> rq_first (fst example_queue) (snd example_queue) =
     \<lparr>ri_link = ''x'', ri_action = Some LinkActionPresent, ri_block = Some [1, 2]\<rparr>"
proof -
  have good: "rq_good example_queue" using example_queue_inv by (auto simp: rq_good_def)
  have "rq_content example_queue = [\<lparr>ri_link = ''x'', ri_action = Some LinkActionPresent, ri_block = Some [1, 2]\<rparr>,
    \<lparr>ri_link = ''y'', ri_action = Some LinkActionMissing, ri_block = None\<rparr>]" by code_simp
  with remote_queue_is_fifo[OF good] good show ?thesis by blast
qed

text \<open>Retrying the last consumed item puts it back at the front, without its block, while the queue
  has not run empty in between. When it has and new items were queued, the retried item does not lead to
  them: they are lost. And a retried item that is consumed again is given to the pool twice, so two later
  items may share one cell.\<close>

theorem retry_last_behaviour:
  assumes "rq_inv h rq (a # xs) own" "consume (h, rq) = Some (h1, rq1)"
  shows "rq_content (h1, retryLast rq1) = without_block (remote_item.truncate (cells h ! a)) # items_at h xs \<and>
    (xs = [] \<longrightarrow> rq_queue own (h1, rq1) = Some (h2, rq2) \<longrightarrow>
      rq_content (h2, rq2) = items_at h1 own \<and>
      rq_content (h2, retryLast rq2) = [without_block (remote_item.truncate (cells h ! a))]) \<and>
    (xs \<noteq> [] \<longrightarrow> (\<exists>h' rq'. consume_retried (h, rq) = Some (h', rq') \<and> count_list (pool h') a = 2))"
proof -
  have "xs \<noteq> [] \<longrightarrow> (\<exists>h' rq'. consume_retried (h, rq) = Some (h', rq') \<and> count_list (pool h') a = 2)"
    using retry_pools_twice[of h rq a _ _ own] assms(1) by (cases xs) auto
  with retry_restores[OF assms] retry_loses[of h rq a own h1 rq1 h2 rq2] assms show ?thesis by blast
qed

theorem retry_last_behaviour_witness:
  "\<exists>h' rq'. consume_retried example_queue = Some (h', rq') \<and> count_list (pool h') 0 = 2"
proof -
  obtain h1 rq1 where "consume (fst example_queue, snd example_queue) = Some (h1, rq1)"
    using consume_inv[OF example_queue_inv] by blast
  from retry_last_behaviour[OF example_queue_inv this] show ?thesis by simp
qed

end
