(* ===== verification/Reconciled_Loader.thy ===== *)
theory Reconciled_Loader
  imports Traversal_Record Remote_Queue
begin

text \<open>
  \<^verbatim>\<open>requestmanager/reconciledloader\<close>: \<^verbatim>\<open>pathtracker.go\<close>, \<^verbatim>\<open>injest.go\<close>, \<^verbatim>\<open>load.go\<close> and
  \<^verbatim>\<open>reconciledloader.go\<close>, on top of the traversal record and the remote queue.

  A link context is its path. The link system is third-party code: a record of the functions the
  loader calls, over a store of type \<open>'s\<close> that is part of the state. A load that waits lets the
  other threads run: what they do while it waits is a list of events, taken one at each wait, and a
  load that waits for longer than the list has the result \<open>None\<close>, as has one that panics.
\<close>

section \<open>The path tracker\<close>

record path_tracker =
  lastUnfollowedRemotePath :: path

definition stillOnUnfollowedRemotePath :: "path_tracker \<Rightarrow> path \<Rightarrow> path_tracker \<times> bool" where
  "stillOnUnfollowedRemotePath pt newPath =
     (if length (lastUnfollowedRemotePath pt) = 0 then (pt, False)
      else if length newPath \<le> length (lastUnfollowedRemotePath pt)
      then (pt\<lparr>lastUnfollowedRemotePath := []\<rparr>, False)
      else (pt, True))"

definition did_follow :: "link_action option \<Rightarrow> bool" where
  "did_follow action = (case action of None \<Rightarrow> False | Some a \<Rightarrow> DidFollowLink a)"

definition recordRemoteLoadAttempt :: "path_tracker \<Rightarrow> path \<Rightarrow> link_action option \<Rightarrow> path_tracker" where
  "recordRemoteLoadAttempt pt currentPath action =
     (if \<not> did_follow action then pt\<lparr>lastUnfollowedRemotePath := currentPath\<rparr> else pt)"

section \<open>The loader\<close>

datatype stream = ByteReader bytes | Reader "gs_error + bytes"

record 's link_system =
  StorageReadOpener :: "'s \<Rightarrow> path \<Rightarrow> cid \<Rightarrow> gs_error + stream"
  StorageWriteOpener :: "'s \<Rightarrow> path \<Rightarrow> gs_error option"
  settableWriter :: bool
  SetBytes :: "bytes \<Rightarrow> gs_error option"
  Write :: "bytes \<Rightarrow> gs_error option"
  committer :: "'s \<Rightarrow> cid \<Rightarrow> bytes \<Rightarrow> gs_error + 's"

record async_load_result =
  alr_Data :: "bytes option"
  alr_Err :: "gs_error option"
  alr_Local :: bool

record load_attempt =
  la_link :: "cid option"
  la_linkContext :: path
  la_successful :: bool
  la_usedRemote :: bool

definition zero_attempt :: load_attempt where
  "zero_attempt = \<lparr>la_link = None, la_linkContext = [], la_successful = False, la_usedRemote = False\<rparr>"

record 's reconciled_loader =
  rl_lsys :: "'s link_system"
  rl_store :: 's
  rl_mostRecentLoadAttempt :: load_attempt
  rl_traversalRecord :: traversal_record
  rl_pathTracker :: path_tracker
  rl_open :: bool
  rl_verifier :: "verifier option"
  rl_remoteQueue :: "rq_heap \<times> remote_queue"

definition NewReconciledLoader :: "'s link_system \<Rightarrow> 's \<Rightarrow> rq_heap \<Rightarrow> 's reconciled_loader" where
  "NewReconciledLoader localStore st h =
     \<lparr>rl_lsys = localStore, rl_store = st, rl_mostRecentLoadAttempt = zero_attempt,
      rl_traversalRecord = NewTraversalRecord, rl_pathTracker = \<lparr>lastUnfollowedRemotePath = []\<rparr>,
      rl_open = False, rl_verifier = None, rl_remoteQueue = (h, zero_queue)\<rparr>"

definition SetRemoteOnline :: "bool \<Rightarrow> 's reconciled_loader \<Rightarrow> 's reconciled_loader" where
  "SetRemoteOnline online rl =
     (let wasOpen = rl_open rl; rl = rl\<lparr>rl_open := online\<rparr>
      in if \<not> rl_open rl \<and> wasOpen then rl
         else if rl_open rl \<and> \<not> wasOpen then rl\<lparr>rl_verifier := Some (NewVerifier (rl_traversalRecord rl))\<rparr>
         else rl)"

definition Cleanup :: "'s reconciled_loader \<Rightarrow> 's reconciled_loader option" where
  "Cleanup rl = map_option (\<lambda>q. rl\<lparr>rl_remoteQueue := q\<rparr>) (rq_clear (rl_remoteQueue rl))"

definition IngestResponse ::
  "nat option list \<Rightarrow> (cid \<times> link_action) list \<Rightarrow> (cid, bytes) gomap \<Rightarrow> 's reconciled_loader \<Rightarrow> 's reconciled_loader option"
where
  "IngestResponse picks md blocks rl =
     (if length md = 0 then Some rl
      else
        let (h, items) = ingest_items picks md [] blocks (fst (rl_remoteQueue rl))
        in if \<not> rl_open rl
           then Some (rl\<lparr>rl_remoteQueue := (freeList items h, snd (rl_remoteQueue rl))\<rparr>)
           else map_option (\<lambda>q. rl\<lparr>rl_remoteQueue := q\<rparr>) (rq_queue items (h, snd (rl_remoteQueue rl))))"

section \<open>Loading\<close>

datatype rl_event =
    EvIngest "nat option list" "(cid \<times> link_action) list" "(cid, bytes) gomap"
  | EvSetRemoteOnline bool
  | EvCleanup

fun env_step :: "rl_event \<Rightarrow> 's reconciled_loader \<Rightarrow> 's reconciled_loader option" where
  "env_step (EvIngest picks md blocks) rl = IngestResponse picks md blocks rl"
| "env_step (EvSetRemoteOnline online) rl = Some (SetRemoteOnline online rl)"
| "env_step EvCleanup rl = Cleanup rl"

partial_function (option) waitRemote ::
  "rl_event list \<Rightarrow> 's reconciled_loader \<Rightarrow> ('s reconciled_loader \<times> rl_event list \<times> bool \<times> gs_error option) option"
where
  "waitRemote evs rl =
     (if \<not> rq_empty (snd (rl_remoteQueue rl)) then
        (case rl_verifier rl of
           None \<Rightarrow> Some (rl, evs, True, None)
         | Some v \<Rightarrow>
             if v_Done (rl_traversalRecord rl) v then Some (rl\<lparr>rl_verifier := None\<rparr>, evs, True, None)
             else
               let path = CurrentPath (rl_traversalRecord rl) v;
                   head = rq_first (fst (rl_remoteQueue rl)) (snd (rl_remoteQueue rl))
               in Option.bind (consume (rl_remoteQueue rl)) (\<lambda>q.
                    case VerifyNext (rl_traversalRecord rl) v (ri_link head) (did_follow (ri_action head)) of
                      Inl err \<Rightarrow> Some (rl\<lparr>rl_remoteQueue := q\<rparr>, evs, True, Some err)
                    | Inr v' \<Rightarrow>
                        waitRemote evs (rl\<lparr>rl_remoteQueue := q, rl_verifier := Some v',
                          rl_pathTracker := recordRemoteLoadAttempt (rl_pathTracker rl) path (ri_action head)\<rparr>)))
      else if \<not> rl_open rl then Some (rl, evs, False, None)
      else (case evs of [] \<Rightarrow> None | e # evs \<Rightarrow> Option.bind (env_step e rl) (\<lambda>rl. waitRemote evs rl)))"

declare waitRemote.simps [code]

definition loadLocal :: "'s reconciled_loader \<Rightarrow> path \<Rightarrow> cid \<Rightarrow> async_load_result" where
  "loadLocal rl lctx link =
     (case StorageReadOpener (rl_lsys rl) (rl_store rl) lctx link of
        Inl _ \<Rightarrow> \<lparr>alr_Data = None, alr_Err = Some (RemoteMissingBlockErr link lctx), alr_Local = True\<rparr>
      | Inr (ByteReader d) \<Rightarrow> \<lparr>alr_Data = Some d, alr_Err = None, alr_Local = True\<rparr>
      | Inr (Reader (Inl _)) \<Rightarrow>
          \<lparr>alr_Data = None, alr_Err = Some (RemoteMissingBlockErr link lctx), alr_Local = True\<rparr>
      | Inr (Reader (Inr d)) \<Rightarrow> \<lparr>alr_Data = Some d, alr_Err = None, alr_Local = True\<rparr>)"

definition writeBlock :: "'s link_system \<Rightarrow> 's \<Rightarrow> path \<Rightarrow> cid \<Rightarrow> bytes \<Rightarrow> gs_error + 's" where
  "writeBlock lsys st lctx link block =
     (case StorageWriteOpener lsys st lctx of
        Some err \<Rightarrow> Inl err
      | None \<Rightarrow>
          case (if settableWriter lsys then SetBytes lsys block else Write lsys block) of
            Some err \<Rightarrow> Inl err
          | None \<Rightarrow> committer lsys st link block)"

definition loadRemote ::
  "'s reconciled_loader \<Rightarrow> path \<Rightarrow> cid \<Rightarrow> ('s reconciled_loader \<times> (gs_error + bytes option)) option" where
  "loadRemote rl lctx link =
     (let head = rq_first (fst (rl_remoteQueue rl)) (snd (rl_remoteQueue rl))
      in Option.bind (consume (rl_remoteQueue rl)) (\<lambda>q.
           let rl = rl\<lparr>rl_remoteQueue := q\<rparr>
           in if ri_link head \<noteq> link
              then Some (rl, Inl (RemoteIncorrectResponseError link (ri_link head) lctx))
              else
                let rl = rl\<lparr>rl_pathTracker := recordRemoteLoadAttempt (rl_pathTracker rl) lctx (ri_action head)\<rparr>
                in case ri_block head of
                     None \<Rightarrow> Some (rl, Inr None)
                   | Some block \<Rightarrow>
                       case writeBlock (rl_lsys rl) (rl_store rl) lctx link block of
                         Inl err \<Rightarrow> Some (rl, Inl err)
                       | Inr st \<Rightarrow> Some (rl\<lparr>rl_store := st\<rparr>, Inr (Some block))))"

definition blockReadOpener ::
  "rl_event list \<Rightarrow> 's reconciled_loader \<Rightarrow> path \<Rightarrow> cid \<Rightarrow>
   ('s reconciled_loader \<times> rl_event list \<times> bool \<times> async_load_result) option" where
  "blockReadOpener evs rl lctx link =
     Option.bind (waitRemote evs rl) (\<lambda>(rl, evs, hasRemoteData, err).
       case err of
         Some e \<Rightarrow> Some (rl, evs, False, \<lparr>alr_Data = None, alr_Err = Some e, alr_Local = \<not> hasRemoteData\<rparr>)
       | None \<Rightarrow>
           if \<not> hasRemoteData then Some (rl, evs, False, loadLocal rl lctx link)
           else
             let (pt, still) = stillOnUnfollowedRemotePath (rl_pathTracker rl) lctx;
                 rl = rl\<lparr>rl_pathTracker := pt\<rparr>
             in if still then Some (rl, evs, True, loadLocal rl lctx link)
                else Option.bind (loadRemote rl lctx link) (\<lambda>(rl, r).
                  case r of
                    Inr (Some data) \<Rightarrow> Some (rl, evs, True, \<lparr>alr_Data = Some data, alr_Err = None, alr_Local = False\<rparr>)
                  | Inl err \<Rightarrow> Some (rl, evs, True, \<lparr>alr_Data = None, alr_Err = Some err, alr_Local = False\<rparr>)
                  | Inr None \<Rightarrow> Some (rl, evs, True, loadLocal rl lctx link)))"

definition record_attempt :: "'s reconciled_loader \<Rightarrow> 's reconciled_loader" where
  "record_attempt rl =
     (let a = rl_mostRecentLoadAttempt rl
      in case la_link a of
           None \<Rightarrow> rl
         | Some l \<Rightarrow> rl\<lparr>rl_traversalRecord := RecordNextStep (rl_traversalRecord rl) (la_linkContext a) l (la_successful a),
                       rl_mostRecentLoadAttempt := zero_attempt\<rparr>)"

definition BlockReadOpener ::
  "rl_event list \<Rightarrow> 's reconciled_loader \<Rightarrow> path \<Rightarrow> cid \<Rightarrow>
   ('s reconciled_loader \<times> rl_event list \<times> async_load_result) option" where
  "BlockReadOpener evs rl lctx link =
     Option.bind (blockReadOpener evs (record_attempt rl) lctx link) (\<lambda>(rl, evs, usedRemote, result).
       Some (rl\<lparr>rl_mostRecentLoadAttempt :=
                  \<lparr>la_link = Some link, la_linkContext = lctx, la_successful = (alr_Err result = None),
                   la_usedRemote = usedRemote\<rparr>\<rparr>, evs, result))"

definition RetryLastLoad ::
  "rl_event list \<Rightarrow> 's reconciled_loader \<Rightarrow> ('s reconciled_loader \<times> rl_event list \<times> async_load_result) option" where
  "RetryLastLoad evs rl =
     (case la_link (rl_mostRecentLoadAttempt rl) of
        None \<Rightarrow> Some (rl, evs, \<lparr>alr_Data = None,
                  alr_Err = Some (OtherErr ''cannot retry offline load when none is present''), alr_Local = False\<rparr>)
      | Some link \<Rightarrow>
          let retryLoadAttempt = rl_mostRecentLoadAttempt rl;
              rl = rl\<lparr>rl_mostRecentLoadAttempt := zero_attempt\<rparr>;
              rl = (if la_usedRemote retryLoadAttempt
                    then rl\<lparr>rl_remoteQueue := (fst (rl_remoteQueue rl), retryLast (snd (rl_remoteQueue rl)))\<rparr>
                    else rl)
          in BlockReadOpener evs rl (la_linkContext retryLoadAttempt) link)"

section \<open>The invariant\<close>

definition rl_ok :: "'s reconciled_loader \<Rightarrow> bool" where
  "rl_ok rl \<longleftrightarrow>
     rq_good (rl_remoteQueue rl) \<and> tr_ok (rl_traversalRecord rl) \<and>
     (\<forall>v \<in> set_option (rl_verifier rl). v_ok (rl_traversalRecord rl) v)"

abbreviation queued :: "'s reconciled_loader \<Rightarrow> remote_item list" where
  "queued rl \<equiv> rq_content (rl_remoteQueue rl)"

definition same_loads :: "'s reconciled_loader \<Rightarrow> 's reconciled_loader \<Rightarrow> bool" where
  "same_loads rl rl' \<longleftrightarrow>
     rl_lsys rl' = rl_lsys rl \<and> rl_store rl' = rl_store rl \<and>
     rl_mostRecentLoadAttempt rl' = rl_mostRecentLoadAttempt rl \<and> rl_traversalRecord rl' = rl_traversalRecord rl"

lemma same_loads_refl [simp]: "same_loads rl rl"
  by (simp add: same_loads_def)

lemma same_loads_trans: "same_loads a b \<Longrightarrow> same_loads b c \<Longrightarrow> same_loads a c"
  by (simp add: same_loads_def)

lemma rl_okI:
  "rq_good (rl_remoteQueue rl) \<Longrightarrow> tr_ok (rl_traversalRecord rl) \<Longrightarrow>
   (\<And>v. rl_verifier rl = Some v \<Longrightarrow> v_ok (rl_traversalRecord rl) v) \<Longrightarrow> rl_ok rl"
  by (simp add: rl_ok_def)

lemma rl_okD:
  assumes "rl_ok rl"
  shows "rq_good (rl_remoteQueue rl)" "tr_ok (rl_traversalRecord rl)"
    "rl_verifier rl = Some v \<Longrightarrow> v_ok (rl_traversalRecord rl) v"
  using assms by (auto simp: rl_ok_def)

lemma rl_ok_new:
  "rl_ok (NewReconciledLoader lsys st \<lparr>cells = [], pool = []\<rparr>)"
  "queued (NewReconciledLoader lsys st \<lparr>cells = [], pool = []\<rparr>) = []"
  by (simp_all add: rl_ok_def NewReconciledLoader_def rq_good_zero tr_ok_new)

lemma freed_good:
  assumes "rq_good s" "ingest_items picks md [] blocks (fst s) = (h, items)"
  shows "rq_good (freeList items h, snd s)" "rq_content (freeList items h, snd s) = rq_content s"
proof -
  obtain h0 rq where s: "s = (h0, rq)" by (cases s)
  with assms(1) obtain xs where xs: "rq_inv h0 rq xs []" "rq_content (h0, rq) = items_at h0 xs"
    using rq_goodE by blast
  from ingest_items_inv[OF xs(1)] assms(2) s have
    i: "rq_inv h rq xs (items @ [])" "items_at h (xs @ items) = items_at h0 xs @ response_items md [] blocks" by auto
  then have same: "items_at h xs = items_at h0 xs" by (simp add: items_at_def)
  from freeList_inv[OF i(1)] have f: "rq_inv (freeList items h) rq xs []" "items_at (freeList items h) xs = items_at h xs"
    by simp_all
  show "rq_good (freeList items h, snd s)" using f(1) s by (auto simp: rq_good_def)
  show "rq_content (freeList items h, snd s) = rq_content s"
    using rq_content_inv[OF f(1)] f(2) same xs(2) s by simp
qed

lemma IngestResponse_ok:
  assumes "rl_ok rl"
  shows "\<exists>rl'. IngestResponse picks md blocks rl = Some rl' \<and> rl_ok rl' \<and> same_loads rl rl' \<and>
    queued rl' = queued rl @ (if rl_open rl then response_items md [] blocks else []) \<and>
    rl_open rl' = rl_open rl \<and> rl_verifier rl' = rl_verifier rl \<and> rl_pathTracker rl' = rl_pathTracker rl"
proof (cases "md = []")
  case True
  with assms show ?thesis by (simp add: IngestResponse_def)
next
  case False
  note good = rl_okD(1)[OF assms]
  obtain h items where i: "ingest_items picks md [] blocks (fst (rl_remoteQueue rl)) = (h, items)" by fastforce
  show ?thesis
  proof (cases "rl_open rl")
    case True
    from enqueue_response_good[OF good, of picks md blocks] i obtain q where
      "rq_queue items (h, snd (rl_remoteQueue rl)) = Some q" "rq_good q"
      "rq_content q = queued rl @ response_items md [] blocks" by (auto simp: enqueue_response_def)
    with False True i assms show ?thesis by (auto simp: IngestResponse_def rl_ok_def same_loads_def)
  next
    case closed: False
    with False freed_good[OF good i] i assms show ?thesis
      by (auto simp: IngestResponse_def rl_ok_def same_loads_def)
  qed
qed

lemma SetRemoteOnline_ok:
  assumes "rl_ok rl"
  shows "rl_ok (SetRemoteOnline online rl)" "same_loads rl (SetRemoteOnline online rl)"
    "rl_remoteQueue (SetRemoteOnline online rl) = rl_remoteQueue rl" "rl_open (SetRemoteOnline online rl) = online"
  using assms NewVerifier_spec(1)[OF rl_okD(2)[OF assms]]
  by (auto simp: SetRemoteOnline_def rl_ok_def same_loads_def Let_def)

lemma Cleanup_ok:
  assumes "rl_ok rl"
  shows "\<exists>rl'. Cleanup rl = Some rl' \<and> rl_ok rl' \<and> same_loads rl rl' \<and> queued rl' = [] \<and> rl_open rl' = rl_open rl"
proof -
  obtain h rq where s: "rl_remoteQueue rl = (h, rq)" by (cases "rl_remoteQueue rl")
  then obtain xs where xs: "rq_inv h rq xs []" using rl_okD(1)[OF assms] by (auto simp: rq_good_def)
  from clear_inv[OF this] obtain h' rq' where c: "rq_clear (h, rq) = Some (h', rq')" "rq_inv h' rq' [] []" by blast
  then have "rq_good (h', rq')" "rq_content (h', rq') = []" using rq_content_inv[OF c(2)] by (auto simp: rq_good_def)
  with c s assms show ?thesis by (auto simp: Cleanup_def rl_ok_def same_loads_def)
qed

lemma env_step_ok:
  assumes "rl_ok rl"
  shows "\<exists>rl'. env_step e rl = Some rl' \<and> rl_ok rl' \<and> same_loads rl rl'"
proof (cases e)
  case (EvIngest picks md blocks)
  with IngestResponse_ok[OF assms, of picks md blocks] show ?thesis by auto
next
  case (EvSetRemoteOnline online)
  with SetRemoteOnline_ok[OF assms, of online] show ?thesis by simp
next
  case EvCleanup
  with Cleanup_ok[OF assms] show ?thesis by auto
qed

section \<open>Waiting for the remote\<close>

text \<open>The cases of one turn of the loop.\<close>

lemma rl_empty_iff: "rl_ok rl \<Longrightarrow> rq_empty (snd (rl_remoteQueue rl)) \<longleftrightarrow> queued rl = []"
  by (rule rqi.empty_iff) (rule rl_okD(1))

lemma wait_offline:
  "rl_ok rl \<Longrightarrow> queued rl = [] \<Longrightarrow> \<not> rl_open rl \<Longrightarrow> waitRemote evs rl = Some (rl, evs, False, None)"
  by (subst waitRemote.simps) (simp add: rl_empty_iff)

lemma wait_more:
  "rl_ok rl \<Longrightarrow> queued rl = [] \<Longrightarrow> rl_open rl \<Longrightarrow>
   waitRemote evs rl = (case evs of [] \<Rightarrow> None | e # evs \<Rightarrow> Option.bind (env_step e rl) (waitRemote evs))"
  by (subst waitRemote.simps) (simp add: rl_empty_iff)

lemma wait_ready:
  assumes "rl_ok rl" "queued rl \<noteq> []" "\<And>v. rl_verifier rl = Some v \<Longrightarrow> v_remaining (rl_traversalRecord rl) v = []"
  shows "waitRemote evs rl = Some (rl\<lparr>rl_verifier := None\<rparr>, evs, True, None)"
proof (cases "rl_verifier rl")
  case None
  then have "rl\<lparr>rl_verifier := None\<rparr> = rl" by (cases rl) simp
  with None assms(2) rqi.empty_iff[OF rl_okD(1)[OF assms(1)]] show ?thesis by (subst waitRemote.simps) simp
next
  case (Some v)
  then have "v_Done (rl_traversalRecord rl) v"
    using assms(3) rl_okD(2,3)[OF assms(1)] by (simp add: v_Done_iff)
  with Some assms(2) rqi.empty_iff[OF rl_okD(1)[OF assms(1)]] show ?thesis by (subst waitRemote.simps) simp
qed

lemma wait_verify:
  assumes ok: "rl_ok rl" and q: "queued rl = i # is" and v: "rl_verifier rl = Some v"
    and rem: "v_remaining (rl_traversalRecord rl) v = (p, c, s) # rest"
  shows "\<exists>q'. rq_good q' \<and> rq_content q' = is \<and>
    (case VerifyNext (rl_traversalRecord rl) v (ri_link i) (did_follow (ri_action i)) of
       Inl err \<Rightarrow> waitRemote evs rl = Some (rl\<lparr>rl_remoteQueue := q'\<rparr>, evs, True, Some err)
     | Inr v' \<Rightarrow>
         let rl' = rl\<lparr>rl_remoteQueue := q', rl_verifier := Some v',
           rl_pathTracker := recordRemoteLoadAttempt (rl_pathTracker rl) p (ri_action i)\<rparr>
         in rl_ok rl' \<and> same_loads rl rl' \<and> waitRemote evs rl = waitRemote evs rl')"
proof -
  let ?tr = "rl_traversalRecord rl"
  note tr = rl_okD(2)[OF ok] and vok = rl_okD(3)[OF ok v]
  note good = rl_okD(1)[OF ok]
  have nd: "\<not> v_Done ?tr v" using v_Done_iff[OF tr vok] rem by simp
  have path: "CurrentPath ?tr v = p" using CurrentPath_head[OF tr vok rem] .
  have front: "rq_first (fst (rl_remoteQueue rl)) (snd (rl_remoteQueue rl)) = i"
    "\<not> rq_empty (snd (rl_remoteQueue rl))" using rqi.front_head[OF good q] rqi.empty_iff[OF good] q by auto
  from rqi.drop_front_tail[OF good q] obtain q' where
    q': "consume (rl_remoteQueue rl) = Some q'" "rq_good q'" "rq_content q' = is" by blast
  let ?r = "VerifyNext ?tr v (ri_link i) (did_follow (ri_action i))"
  have unf: "waitRemote evs rl = (case ?r of Inl err \<Rightarrow> Some (rl\<lparr>rl_remoteQueue := q'\<rparr>, evs, True, Some err)
    | Inr v' \<Rightarrow> waitRemote evs (rl\<lparr>rl_remoteQueue := q', rl_verifier := Some v',
           rl_pathTracker := recordRemoteLoadAttempt (rl_pathTracker rl) p (ri_action i)\<rparr>))"
    using front q' v nd path by (subst waitRemote.simps) (simp add: Let_def)
  have ok': "v_ok ?tr v'" if "?r = Inr v'" for v' using VerifyNext_spec[OF tr vok] that by blast
  show ?thesis
  proof (cases ?r)
    case (Inl err)
    with q' unf show ?thesis by (intro exI[of _ q']) simp
  next
    case (Inr v')
    with q' unf ok'[OF Inr] tr show ?thesis
      by (intro exI[of _ q']) (auto simp: rl_ok_def same_loads_def Let_def)
  qed
qed

text \<open>What holds when the wait is over.\<close>

fun wait_post :: "'s reconciled_loader \<Rightarrow> 's reconciled_loader \<times> rl_event list \<times> bool \<times> gs_error option \<Rightarrow> bool" where
  "wait_post rl (rl', evs, has, err) \<longleftrightarrow> rl_ok rl' \<and> same_loads rl rl' \<and>
     (err = None \<longrightarrow> has \<longrightarrow> queued rl' \<noteq> [] \<and> rl_verifier rl' = None) \<and>
     (\<not> has \<longrightarrow> err = None \<and> queued rl' = [] \<and> \<not> rl_open rl')"

lemma wait_post_trans: "same_loads rl rl1 \<Longrightarrow> wait_post rl1 r \<Longrightarrow> wait_post rl r"
  by (cases r) (auto intro: same_loads_trans)

text \<open>One turn, seen from outside: the wait is over, or one event or one item further.\<close>

lemma wait_turn:
  assumes ok: "rl_ok rl"
  obtains (over) r where "waitRemote evs rl = Some r" "wait_post rl r" "queued rl = [] \<longrightarrow> \<not> rl_open rl"
      "set (queued (fst r)) \<subseteq> set (queued rl)"
  | (item) rl' where "waitRemote evs rl = waitRemote evs rl'" "rl_ok rl'" "same_loads rl rl'" "rl_open rl' = rl_open rl"
      "\<exists>i. queued rl = i # queued rl'"
  | (event) "queued rl = []" "rl_open rl"
      "waitRemote evs rl = (case evs of [] \<Rightarrow> None | e # evs \<Rightarrow> Option.bind (env_step e rl) (waitRemote evs))"
proof (cases "queued rl")
  case Nil
  with wait_offline[OF ok Nil] wait_more[OF ok Nil] ok over event show thesis by (cases "rl_open rl") auto
next
  case (Cons i "is")
  consider "\<forall>v. rl_verifier rl = Some v \<longrightarrow> v_remaining (rl_traversalRecord rl) v = []"
    | v p c s rest where "rl_verifier rl = Some v" "v_remaining (rl_traversalRecord rl) v = (p, c, s) # rest"
    by (metis neq_Nil_conv prod.exhaust)
  then show thesis
  proof cases
    case 1
    then have w: "waitRemote evs rl = Some (rl\<lparr>rl_verifier := None\<rparr>, evs, True, None)"
      using wait_ready[OF ok] Cons by simp
    show thesis by (rule over[OF w]) (use ok Cons in \<open>auto simp: rl_ok_def same_loads_def\<close>)
  next
    case 2
    from wait_verify[OF ok Cons 2] obtain q' where q': "rq_good q'" "rq_content q' = is"
      "case VerifyNext (rl_traversalRecord rl) v (ri_link i) (did_follow (ri_action i)) of
         Inl err \<Rightarrow> waitRemote evs rl = Some (rl\<lparr>rl_remoteQueue := q'\<rparr>, evs, True, Some err)
       | Inr v' \<Rightarrow>
           let rl' = rl\<lparr>rl_remoteQueue := q', rl_verifier := Some v',
             rl_pathTracker := recordRemoteLoadAttempt (rl_pathTracker rl) p (ri_action i)\<rparr>
           in rl_ok rl' \<and> same_loads rl rl' \<and> waitRemote evs rl = waitRemote evs rl'" by blast
    show thesis
    proof (cases "VerifyNext (rl_traversalRecord rl) v (ri_link i) (did_follow (ri_action i))")
      case (Inl err)
      with q' ok Cons have "waitRemote evs rl = Some (rl\<lparr>rl_remoteQueue := q'\<rparr>, evs, True, Some err)" by simp
      then show thesis by (rule over) (use q' ok Cons in \<open>auto simp: rl_ok_def same_loads_def\<close>)
    next
      case (Inr v')
      with q' Cons item show thesis by (simp add: Let_def)
    qed
  qed
qed

lemma wait_induct [consumes 1, case_names over item stuck event]:
  assumes "rl_ok rl"
    and over: "\<And>evs rl r. rl_ok rl \<Longrightarrow> waitRemote evs rl = Some r \<Longrightarrow> wait_post rl r \<Longrightarrow>
      (queued rl = [] \<longrightarrow> \<not> rl_open rl) \<Longrightarrow> set (queued (fst r)) \<subseteq> set (queued rl) \<Longrightarrow> P evs rl"
    and item: "\<And>evs rl rl' i. rl_ok rl \<Longrightarrow> rl_ok rl' \<Longrightarrow> same_loads rl rl' \<Longrightarrow> rl_open rl' = rl_open rl \<Longrightarrow>
      queued rl = i # queued rl' \<Longrightarrow> waitRemote evs rl = waitRemote evs rl' \<Longrightarrow> P evs rl' \<Longrightarrow> P evs rl"
    and stuck: "\<And>rl. rl_ok rl \<Longrightarrow> queued rl = [] \<Longrightarrow> rl_open rl \<Longrightarrow> waitRemote [] rl = None \<Longrightarrow> P [] rl"
    and event: "\<And>e evs rl rl'. rl_ok rl \<Longrightarrow> queued rl = [] \<Longrightarrow> rl_open rl \<Longrightarrow> env_step e rl = Some rl' \<Longrightarrow>
      rl_ok rl' \<Longrightarrow> same_loads rl rl' \<Longrightarrow> waitRemote (e # evs) rl = waitRemote evs rl' \<Longrightarrow> P evs rl' \<Longrightarrow> P (e # evs) rl"
  shows "P evs rl"
  using assms(1)
proof (induction "(evs, rl)" arbitrary: evs rl rule: wf_induct_rule[OF wf_measures[of "[length \<circ> fst, length \<circ> rq_content \<circ> rl_remoteQueue \<circ> snd]"]])
  case 1
  note IH = 1(1)
  from 1(2) show ?case
  proof (cases rule: wait_turn[where evs = evs])
    case (over r)
    then show ?thesis using assms(2) 1(2) by blast
  next
    case (item rl')
    then obtain i where "queued rl = i # queued rl'" by blast
    with IH[of evs rl'] item 1(2) assms(3) show ?thesis by auto
  next
    case event
    show ?thesis
    proof (cases evs)
      case Nil
      with event 1(2) assms(4) show ?thesis by simp
    next
      case (Cons e evs')
      from env_step_ok[OF 1(2), of e] obtain rl' where
        rl': "env_step e rl = Some rl'" "rl_ok rl'" "same_loads rl rl'" by blast
      with IH[of evs' rl'] Cons event 1(2) assms(5)[of rl e rl' evs'] show ?thesis by simp
    qed
  qed
qed

lemma wait_result:
  "rl_ok rl \<Longrightarrow> waitRemote evs rl = Some r \<Longrightarrow> wait_post rl r"
  by (induction rule: wait_induct) (auto intro: wait_post_trans)

text \<open>A load does not wait for ever once the remote has gone.\<close>

lemma wait_returns:
  assumes "rl_ok rl" "\<not> rl_open rl \<or> (\<exists>evs'. evs = evs' @ [EvSetRemoteOnline False])"
  shows "\<exists>r. waitRemote evs rl = Some r"
  using assms
proof (induction rule: wait_induct)
  case (event e evs rl rl')
  show ?case
  proof (cases evs rule: rev_cases)
    case Nil
    with event have "e = EvSetRemoteOnline False" by auto
    with event(4) SetRemoteOnline_ok(4)[OF event(1), of False] have "\<not> rl_open rl'" by auto
    with event show ?thesis by auto
  next
    case (snoc evs' x)
    with event show ?thesis by auto
  qed
qed auto

section \<open>Where the data of a load comes from\<close>

text \<open>\<open>P\<close> is what is known of the blocks a remote sends, e.g. that they hash to their link.\<close>

definition queue_certified :: "(cid \<Rightarrow> bytes \<Rightarrow> bool) \<Rightarrow> 's reconciled_loader \<Rightarrow> bool" where
  "queue_certified P rl \<longleftrightarrow> (\<forall>i \<in> set (queued rl). \<forall>d \<in> set_option (ri_block i). P (ri_link i) d)"

fun event_certified :: "(cid \<Rightarrow> bytes \<Rightarrow> bool) \<Rightarrow> rl_event \<Rightarrow> bool" where
  "event_certified P (EvIngest picks md blocks) \<longleftrightarrow> (\<forall>(c, d) \<in> set blocks. P c d)"
| "event_certified P _ \<longleftrightarrow> True"

lemma response_items_block:
  "i \<in> set (response_items md dups blocks) \<Longrightarrow> ri_block i = Some d \<Longrightarrow> (ri_link i, d) \<in> set blocks"
  by (induction md dups blocks rule: response_items.induct) (auto split: if_splits dest: map_of_SomeD)

lemma env_step_certified:
  assumes "rl_ok rl" "queue_certified P rl" "event_certified P e" "env_step e rl = Some rl'"
  shows "queue_certified P rl'"
proof (cases e)
  case (EvIngest picks md blocks)
  from IngestResponse_ok[OF assms(1), of picks md blocks] assms(4) EvIngest have
    "queued rl' = queued rl @ (if rl_open rl then response_items md [] blocks else [])" by auto
  with assms(2,3) EvIngest response_items_block[of _ md "[]" blocks] show ?thesis
    by (auto simp: queue_certified_def)
next
  case (EvSetRemoteOnline online)
  with assms SetRemoteOnline_ok(3)[OF assms(1), of online] show ?thesis by (auto simp: queue_certified_def)
next
  case EvCleanup
  with assms(4) Cleanup_ok[OF assms(1)] show ?thesis by (auto simp: queue_certified_def)
qed

lemma wait_certified:
  assumes "rl_ok rl" "queue_certified P rl" "\<forall>e \<in> set evs. event_certified P e" "waitRemote evs rl = Some r"
  shows "queue_certified P (fst r)"
  using assms
proof (induction rule: wait_induct)
  case (event e evs rl rl')
  with env_step_certified[of rl P e rl'] show ?case by auto
qed (auto simp: queue_certified_def)

section \<open>One load\<close>

text \<open>What the item at the front of the queue gives for a link, and the store after it.\<close>

definition head_result :: "'s link_system \<Rightarrow> 's \<Rightarrow> remote_item \<Rightarrow> path \<Rightarrow> cid \<Rightarrow> (gs_error + bytes option) \<times> 's" where
  "head_result lsys st i lctx link =
     (if ri_link i \<noteq> link then (Inl (RemoteIncorrectResponseError link (ri_link i) lctx), st)
      else case ri_block i of
             None \<Rightarrow> (Inr None, st)
           | Some d \<Rightarrow>
               case writeBlock lsys st lctx link d of
                 Inl err \<Rightarrow> (Inl err, st)
               | Inr st' \<Rightarrow> (Inr (Some d), st'))"

lemma loadRemote_head:
  assumes "rq_good (rl_remoteQueue rl)" "queued rl = i # is"
  shows "\<exists>rl'. loadRemote rl lctx link = Some (rl', fst (head_result (rl_lsys rl) (rl_store rl) i lctx link)) \<and>
    queued rl' = is \<and> rq_good (rl_remoteQueue rl') \<and>
    rl_traversalRecord rl' = rl_traversalRecord rl \<and> rl_verifier rl' = rl_verifier rl \<and> rl_lsys rl' = rl_lsys rl \<and>
    rl_store rl' = snd (head_result (rl_lsys rl) (rl_store rl) i lctx link)"
proof -
  from rqi.drop_front_tail[OF assms] rqi.front_head[OF assms] obtain q where
    "consume (rl_remoteQueue rl) = Some q" "rq_good q" "rq_content q = is"
    "rq_first (fst (rl_remoteQueue rl)) (snd (rl_remoteQueue rl)) = i" by blast
  then show ?thesis
    by (simp add: loadRemote_def head_result_def Let_def split: option.split sum.split)
qed

text \<open>What a load does once the wait for the remote is over, told on the items that are queued.\<close>

definition load_spec :: "'s reconciled_loader \<Rightarrow> bool \<Rightarrow> gs_error option \<Rightarrow> path \<Rightarrow> cid \<Rightarrow>
    's reconciled_loader \<Rightarrow> async_load_result \<Rightarrow> bool" where
  "load_spec rl has err lctx link rl' res \<longleftrightarrow>
     set (queued rl') \<subseteq> set (queued rl) \<and>
     (case err of
        Some e \<Rightarrow> alr_Err res = Some e \<and> alr_Data res = None \<and> rl_store rl' = rl_store rl
      | None \<Rightarrow>
          if \<not> has then res = loadLocal rl lctx link \<and> rl_store rl' = rl_store rl
          else if snd (stillOnUnfollowedRemotePath (rl_pathTracker rl) lctx)
          then res = loadLocal rl lctx link \<and> queued rl' = queued rl \<and> rl_store rl' = rl_store rl
          else
            queued rl = hd (queued rl) # queued rl' \<and>
            rl_store rl' = snd (head_result (rl_lsys rl) (rl_store rl) (hd (queued rl)) lctx link) \<and>
            (case fst (head_result (rl_lsys rl) (rl_store rl) (hd (queued rl)) lctx link) of
               Inl e \<Rightarrow> res = \<lparr>alr_Data = None, alr_Err = Some e, alr_Local = False\<rparr>
             | Inr None \<Rightarrow> res = loadLocal rl lctx link
             | Inr (Some d) \<Rightarrow> res = \<lparr>alr_Data = Some d, alr_Err = None, alr_Local = False\<rparr>))"

lemma loadLocal_cong:
  "rl_lsys a = rl_lsys b \<Longrightarrow> rl_store a = rl_store b \<Longrightarrow> loadLocal a lctx link = loadLocal b lctx link"
  by (simp add: loadLocal_def)

lemma blockReadOpener_spec:
  assumes ok: "rl_ok rl" and w: "waitRemote evs rl = Some (rl1, evs', has, err)"
  shows "\<exists>rl' u res. blockReadOpener evs rl lctx link = Some (rl', evs', u, res) \<and> rl_ok rl' \<and>
    rl_traversalRecord rl' = rl_traversalRecord rl \<and> load_spec rl1 has err lctx link rl' res"
proof -
  have post: "wait_post rl (rl1, evs', has, err)" by (rule wait_result[OF ok w])
  then have ok1: "rl_ok rl1" and tr: "rl_traversalRecord rl1 = rl_traversalRecord rl" by (auto simp: same_loads_def)
  obtain pt still where pt: "stillOnUnfollowedRemotePath (rl_pathTracker rl1) lctx = (pt, still)" by fastforce
  let ?rl2 = "rl1\<lparr>rl_pathTracker := pt\<rparr>"
  show ?thesis
  proof (cases "err = None \<and> has \<and> \<not> still")
    case True
    with post obtain i "is" where i: "queued ?rl2 = i # is" "rl_verifier rl1 = None" by (auto simp: neq_Nil_conv)
    have "rq_good (rl_remoteQueue ?rl2)" using rl_okD(1)[OF ok1] by simp
    from loadRemote_head[OF this i(1), of lctx link] obtain rl3 where
      r: "loadRemote ?rl2 lctx link = Some (rl3, fst (head_result (rl_lsys rl1) (rl_store rl1) i lctx link))"
        "queued rl3 = is" "rq_good (rl_remoteQueue rl3)" "rl_traversalRecord rl3 = rl_traversalRecord rl1"
        "rl_verifier rl3 = None" "rl_lsys rl3 = rl_lsys rl1"
        "rl_store rl3 = snd (head_result (rl_lsys rl1) (rl_store rl1) i lctx link)" using i(2) by auto
    have "rl_ok rl3" using r rl_okD(2)[OF ok1] by (auto intro: rl_okI)
    moreover have "loadLocal rl3 lctx link = loadLocal rl1 lctx link"
      if "fst (head_result (rl_lsys rl1) (rl_store rl1) i lctx link) = Inr None"
      using that r(6,7) by (intro loadLocal_cong) (auto simp: head_result_def split: if_splits option.splits sum.splits)
    ultimately show ?thesis using True pt w r i tr
      by (cases "fst (head_result (rl_lsys rl1) (rl_store rl1) i lctx link)")
        (auto simp: blockReadOpener_def load_spec_def Let_def split: option.splits)
  next
    case False
    with post ok1 pt w tr loadLocal_cong[of ?rl2 rl1 lctx link] show ?thesis
      by (auto simp: blockReadOpener_def load_spec_def Let_def rl_ok_def split: option.splits)
  qed
qed

section \<open>The record of the loads\<close>

text \<open>The last attempt continues the recorded traversal.\<close>

definition attempt_ok :: "'s reconciled_loader \<Rightarrow> bool" where
  "attempt_ok rl \<longleftrightarrow>
     (la_link (rl_mostRecentLoadAttempt rl) \<noteq> None \<longrightarrow>
        appends_at (rl_traversalRecord rl) (la_linkContext (rl_mostRecentLoadAttempt rl)) \<and>
        (steps (rl_traversalRecord rl) [] = [] \<longrightarrow> la_linkContext (rl_mostRecentLoadAttempt rl) = []))"

definition pending_step :: "'s reconciled_loader \<Rightarrow> step list" where
  "pending_step rl =
     (case la_link (rl_mostRecentLoadAttempt rl) of
        None \<Rightarrow> []
      | Some l \<Rightarrow> [(la_linkContext (rl_mostRecentLoadAttempt rl), l, la_successful (rl_mostRecentLoadAttempt rl))])"

lemma record_attempt_ok:
  assumes "rl_ok rl" "attempt_ok rl"
  shows "rl_ok (record_attempt rl)"
    "steps (rl_traversalRecord (record_attempt rl)) [] = steps (rl_traversalRecord rl) [] @ pending_step rl"
    "rl_remoteQueue (record_attempt rl) = rl_remoteQueue rl" "rl_open (record_attempt rl) = rl_open rl"
proof -
  let ?a = "rl_mostRecentLoadAttempt rl"
  have "rl_ok (record_attempt rl) \<and>
    steps (rl_traversalRecord (record_attempt rl)) [] = steps (rl_traversalRecord rl) [] @ pending_step rl"
  proof (cases "la_link ?a")
    case None
    with assms(1) show ?thesis by (simp add: record_attempt_def pending_step_def Let_def)
  next
    case (Some l)
    let ?tr = "RecordNextStep (rl_traversalRecord rl) (la_linkContext ?a) l (la_successful ?a)"
    have app: "appends_at (rl_traversalRecord rl) (la_linkContext ?a)"
      "steps (rl_traversalRecord rl) [] = [] \<longrightarrow> la_linkContext ?a = []"
      using assms(2) Some by (auto simp: attempt_ok_def)
    note rec = record_spec[OF rl_okD(2)[OF assms(1)] app(1), of l "la_successful ?a" "[]"]
    have "v_ok ?tr v" if "rl_verifier rl = Some v" for v
    proof (cases v)
      case None
      then show ?thesis by (simp add: v_ok_def)
    next
      case (Some q)
      with verifier_grows[OF rl_okD(2)[OF assms(1)] app(1) _ app(2)] rl_okD(3)[OF assms(1) that] show ?thesis
        by blast
    qed
    with rec assms(1) Some show ?thesis
      by (auto simp: record_attempt_def pending_step_def Let_def rl_ok_def)
  qed
  then show "rl_ok (record_attempt rl)"
    "steps (rl_traversalRecord (record_attempt rl)) [] = steps (rl_traversalRecord rl) [] @ pending_step rl" by simp_all
  show "rl_remoteQueue (record_attempt rl) = rl_remoteQueue rl" "rl_open (record_attempt rl) = rl_open rl"
    by (simp_all add: record_attempt_def Let_def split: option.split)
qed

lemma load_spec_cong:
  "rl_store rl'' = rl_store rl' \<Longrightarrow> rl_remoteQueue rl'' = rl_remoteQueue rl' \<Longrightarrow>
   load_spec rl has err lctx link rl' res \<Longrightarrow> load_spec rl has err lctx link rl'' res"
  unfolding load_spec_def by (simp only:)

lemma BlockReadOpener_spec:
  assumes "rl_ok rl" "attempt_ok rl"
    and w: "waitRemote evs (record_attempt rl) = Some (rl1, evs', has, err)"
  shows "\<exists>rl' res. BlockReadOpener evs rl lctx link = Some (rl', evs', res) \<and> rl_ok rl' \<and>
    load_spec rl1 has err lctx link rl' res \<and>
    steps (rl_traversalRecord rl') [] = steps (rl_traversalRecord rl) [] @ pending_step rl \<and>
    pending_step rl' = [(lctx, link, alr_Err res = None)]"
proof -
  from blockReadOpener_spec[OF record_attempt_ok(1)[OF assms(1,2)] w, of lctx link] obtain rl' u res where
    b: "blockReadOpener evs (record_attempt rl) lctx link = Some (rl', evs', u, res)" "rl_ok rl'"
      "rl_traversalRecord rl' = rl_traversalRecord (record_attempt rl)" "load_spec rl1 has err lctx link rl' res" by blast
  let ?rl'' = "rl'\<lparr>rl_mostRecentLoadAttempt := \<lparr>la_link = Some link, la_linkContext = lctx,
    la_successful = (alr_Err res = None), la_usedRemote = u\<rparr>\<rparr>"
  have "BlockReadOpener evs rl lctx link = Some (?rl'', evs', res)" by (simp add: BlockReadOpener_def b(1))
  moreover have "load_spec rl1 has err lctx link ?rl'' res" by (rule load_spec_cong[OF _ _ b(4)]) simp_all
  moreover have "rl_ok ?rl''" using b(2) by (simp add: rl_ok_def)
  moreover have "steps (rl_traversalRecord ?rl'') [] = steps (rl_traversalRecord rl) [] @ pending_step rl"
    using record_attempt_ok(2)[OF assms(1,2)] b(3) by simp
  ultimately show ?thesis by (auto simp: pending_step_def)
qed

lemma loadLocal_is_local: "alr_Local (loadLocal rl lctx link)"
  by (auto simp: loadLocal_def split: sum.split stream.split)

section \<open>Catching up with the remote\<close>

lemma wait_replay:
  assumes "rl_ok rl" "rl_verifier rl = Some v" "rest \<noteq> []"
    "queued rl = is @ rest"
    "verify_all (rl_traversalRecord rl) v (map (\<lambda>i. (ri_link i, did_follow (ri_action i))) is) = Inr v'"
    "v_Done (rl_traversalRecord rl) v'"
  shows "\<exists>rl'. waitRemote evs rl = Some (rl', evs, True, None) \<and> queued rl' = rest \<and> same_loads rl rl' \<and>
    ((\<forall>i \<in> set is. did_follow (ri_action i)) \<longrightarrow> rl_pathTracker rl' = rl_pathTracker rl)"
  using assms
proof (induction "is" arbitrary: rl v)
  case Nil
  then have "v_remaining (rl_traversalRecord rl) v = []"
    using v_Done_iff[OF rl_okD(2,3)[OF Nil(1)]] by simp
  with wait_ready[OF Nil(1), of evs] Nil show ?case by (auto simp: same_loads_def)
next
  case (Cons i "is")
  let ?tr = "rl_traversalRecord rl" and ?b = "did_follow (ri_action i)"
  note ok = rl_okD(2)[OF Cons.prems(1)] rl_okD(3)[OF Cons.prems(1,2)]
  from Cons.prems(5) obtain w where w: "VerifyNext ?tr v (ri_link i) ?b = Inr w"
    "verify_all ?tr w (map (\<lambda>i. (ri_link i, did_follow (ri_action i))) is) = Inr v'"
    by (auto split: sum.splits)
  have "verify_spec (v_remaining ?tr v) (ri_link i) ?b = Inr (v_remaining ?tr w)"
    using VerifyNext_spec[OF ok, of "ri_link i" ?b] w(1) by simp
  then obtain p c s rem where rem: "v_remaining ?tr v = (p, c, s) # rem" by (cases "v_remaining ?tr v") auto
  from wait_verify[OF Cons.prems(1) _ Cons.prems(2) rem, of i "is @ rest" evs] Cons.prems(4) w(1) obtain q' where
    q': "rq_content q' = is @ rest" and
    turn: "let rl' = rl\<lparr>rl_remoteQueue := q', rl_verifier := Some w,
        rl_pathTracker := recordRemoteLoadAttempt (rl_pathTracker rl) p (ri_action i)\<rparr>
      in rl_ok rl' \<and> same_loads rl rl' \<and> waitRemote evs rl = waitRemote evs rl'" by auto
  define rl' where "rl' = rl\<lparr>rl_remoteQueue := q', rl_verifier := Some w,
        rl_pathTracker := recordRemoteLoadAttempt (rl_pathTracker rl) p (ri_action i)\<rparr>"
  then have rl': "rl_ok rl'" "same_loads rl rl'" "waitRemote evs rl = waitRemote evs rl'"
    using turn by (simp_all add: Let_def)
  from Cons.IH[OF rl'(1) _ Cons.prems(3)] q' w(2) Cons.prems(6) obtain rl2 where
    "waitRemote evs rl' = Some (rl2, evs, True, None)" "queued rl2 = rest" "same_loads rl' rl2"
    "(\<forall>i \<in> set is. did_follow (ri_action i)) \<longrightarrow> rl_pathTracker rl2 = rl_pathTracker rl'"
    by (auto simp: rl'_def)
  moreover have "did_follow (ri_action i) \<Longrightarrow> rl_pathTracker rl' = rl_pathTracker rl"
    by (simp add: rl'_def recordRemoteLoadAttempt_def)
  ultimately show ?case using rl'(2,3) by (auto intro: same_loads_trans)
qed

lemma wait_mismatch:
  assumes "rl_ok rl" "rl_verifier rl = Some v" "queued rl = i # is"
    "v_remaining (rl_traversalRecord rl) v = (p, c, s) # rest" "ri_link i \<noteq> c"
  shows "\<exists>rl'. waitRemote evs rl = Some (rl', evs, True, Some (RemoteIncorrectResponseError c (ri_link i) p))"
proof -
  have "VerifyNext (rl_traversalRecord rl) v (ri_link i) (did_follow (ri_action i)) =
    Inl (RemoteIncorrectResponseError c (ri_link i) p)"
    using VerifyNext_spec[OF rl_okD(2)[OF assms(1)] rl_okD(3)[OF assms(1,2)], of "ri_link i" "did_follow (ri_action i)"]
      assms(4,5)
    by (cases "VerifyNext (rl_traversalRecord rl) v (ri_link i) (did_follow (ri_action i))") auto
  with wait_verify[OF assms(1,3,2,4), of evs] show ?thesis by auto
qed

section \<open>Properties\<close>

text \<open>C29: A load ends once the remote has gone, keeps the loader's invariant, adds the previous load, and
  only that, to the record of the traversal, and answers as follows. An error of the reconciliation is
  the error of the load. Offline, and below a path the remote did not follow, the local store answers and
  the queue stays. Otherwise one remote item is used up: a different link is an error that names both
  links and the path; an item without a block leaves the answer to the local store; a block is written to
  the store and returned, or the error of writing it.\<close>

theorem load_outcome:
  assumes "rl_ok rl" "attempt_ok rl"
    "\<not> rl_open rl \<or> (\<exists>evs1. evs = evs1 @ [EvSetRemoteOnline False])"
  shows "\<exists>rl1 evs' has err rl' res.
    waitRemote evs (record_attempt rl) = Some (rl1, evs', has, err) \<and>
    BlockReadOpener evs rl lctx link = Some (rl', evs', res) \<and> rl_ok rl' \<and>
    load_spec rl1 has err lctx link rl' res \<and>
    steps (rl_traversalRecord rl') [] = steps (rl_traversalRecord rl) [] @ pending_step rl \<and>
    pending_step rl' = [(lctx, link, alr_Err res = None)]"
proof -
  note ra = record_attempt_ok[OF assms(1,2)]
  from wait_returns[OF ra(1), of evs] assms(3) ra(4) obtain rl1 evs' has err where
    "waitRemote evs (record_attempt rl) = Some (rl1, evs', has, err)" by auto
  with BlockReadOpener_spec[OF assms(1,2) this, of lctx link] show ?thesis by blast
qed

text \<open>A store in memory, as the tests of the repository use.\<close>

definition map_lsys :: "((cid, bytes) gomap) link_system" where
  "map_lsys = \<lparr>StorageReadOpener = (\<lambda>st lctx link.
       case mget st link of None \<Rightarrow> Inl (OtherErr ''unable to load block'') | Some d \<Rightarrow> Inr (Reader (Inr d))),
     StorageWriteOpener = (\<lambda>st lctx. None), settableWriter = False, SetBytes = (\<lambda>d. None), Write = (\<lambda>d. None),
     committer = (\<lambda>st link d. Inr (mput link d st))\<rparr>"

definition example_loader :: "(cid, bytes) gomap reconciled_loader" where
  "example_loader = NewReconciledLoader map_lsys [(''r'', [7])] \<lparr>cells = [], pool = []\<rparr>"

lemma example_loader_ok: "rl_ok example_loader" "attempt_ok example_loader"
  unfolding example_loader_def by (rule rl_ok_new) (simp add: attempt_ok_def NewReconciledLoader_def zero_attempt_def)

theorem load_outcome_witness:
  "\<exists>rl' evs' res. BlockReadOpener [] example_loader [] ''r'' = Some (rl', evs', res) \<and> rl_ok rl' \<and>
     pending_step rl' = [([], ''r'', alr_Err res = None)]"
proof -
  have "\<not> rl_open example_loader" by (simp add: example_loader_def NewReconciledLoader_def)
  with load_outcome[OF example_loader_ok, of "[]" "[]" "''r''"] show ?thesis by blast
qed

text \<open>C9: Whatever holds of all blocks that came with the remote's responses holds of every block a load
  returns from the remote, for the link that was asked for: data announced for one link never answers the
  load of another.\<close>

theorem remote_data_certified:
  assumes "rl_ok rl" "attempt_ok rl" "queue_certified P rl" "\<forall>e \<in> set evs. event_certified P e"
    "BlockReadOpener evs rl lctx link = Some (rl', evs', res)"
  shows "rl_ok rl' \<and> queue_certified P rl' \<and>
    (\<not> alr_Local res \<longrightarrow> alr_Data res = Some d \<longrightarrow> alr_Err res = None \<and> P link d)"
proof -
  note ra = record_attempt_ok[OF assms(1,2)]
  obtain rl1 evs1 has err where w: "waitRemote evs (record_attempt rl) = Some (rl1, evs1, has, err)"
    using assms(5) by (auto simp: BlockReadOpener_def blockReadOpener_def bind_eq_Some_conv)
  have cert: "queue_certified P rl1"
    using wait_certified[OF ra(1) _ assms(4) w] assms(3) ra(3) by (simp add: queue_certified_def)
  from BlockReadOpener_spec[OF assms(1,2) w, of lctx link] assms(5) have
    spec: "load_spec rl1 has err lctx link rl' res" and ok: "rl_ok rl'" by auto
  then have "queue_certified P rl'" using cert by (auto simp: load_spec_def queue_certified_def)
  moreover have "alr_Err res = None \<and> P link d" if "\<not> alr_Local res" "alr_Data res = Some d"
  proof -
    let ?i = "hd (queued rl1)"
    have "res \<noteq> loadLocal rl1 lctx link" using that(1) loadLocal_is_local by metis
    with spec that(2) have q: "queued rl1 = ?i # queued rl'" "alr_Err res = None"
      "fst (head_result (rl_lsys rl1) (rl_store rl1) ?i lctx link) = Inr (Some d)"
      by (auto simp: load_spec_def split: option.splits if_splits sum.splits)
    then have "ri_link ?i = link" "ri_block ?i = Some d"
      by (auto simp: head_result_def split: if_splits option.splits sum.splits)
    moreover have "?i \<in> set (queued rl1)" using q(1) by (metis list.set_intros(1))
    ultimately show ?thesis using cert q(2) by (force simp: queue_certified_def)
  qed
  ultimately show ?thesis using ok by blast
qed

theorem remote_data_certified_witness:
  "\<exists>rl'. BlockReadOpener [EvIngest [] [(''r'', LinkActionPresent)] [(''r'', [7])]] (SetRemoteOnline True example_loader)
      [] ''r'' = Some (rl', [], \<lparr>alr_Data = Some [7], alr_Err = None, alr_Local = False\<rparr>) \<and> rl_ok rl'"
proof -
  let ?rl = "SetRemoteOnline True example_loader" and ?e = "EvIngest [] [(''r'', LinkActionPresent)] [(''r'', [7])]"
  have ok: "rl_ok ?rl" "attempt_ok ?rl" "queue_certified (\<lambda>c d. d = [7]) ?rl"
    using SetRemoteOnline_ok[OF example_loader_ok(1), of True] example_loader_ok(2)
    by (auto simp: attempt_ok_def same_loads_def queue_certified_def example_loader_def rl_ok_new)
  have "map_option snd (BlockReadOpener [?e] ?rl [] ''r'') =
    Some ([], \<lparr>alr_Data = Some [7], alr_Err = None, alr_Local = False\<rparr>)" by code_simp
  then obtain rl' where rl': "BlockReadOpener [?e] ?rl [] ''r'' =
    Some (rl', [], \<lparr>alr_Data = Some [7], alr_Err = None, alr_Local = False\<rparr>)" by auto
  with remote_data_certified[OF ok _ rl'] show ?thesis by simp
qed

text \<open>The items of a response that repeats recorded steps, all followed, before the link asked for.\<close>

lemma response_items_append:
  "response_items (md @ md') dups blocks =
     response_items md dups blocks @
     response_items md' (rev (map fst (filter (\<lambda>(c, a). a = LinkActionPresent) md)) @ dups) blocks"
proof (induction md arbitrary: dups)
  case (Cons e md)
  then show ?case by (cases e) (auto intro!: response_items_dup)
qed simp

lemma response_items_proj: "map (\<lambda>i. (ri_link i, ri_action i)) (response_items md dups blocks) = map (\<lambda>(c, a). (c, Some a)) md"
  by (induction md dups blocks rule: response_items.induct) auto

abbreviation followed_links :: "step list \<Rightarrow> (cid \<times> link_action) list" where
  "followed_links sts \<equiv> map (\<lambda>st. (step_link st, LinkActionPresent)) sts"

lemma replay_items:
  assumes "\<forall>st \<in> set sts. snd (snd st)"
  shows "map (\<lambda>i. (ri_link i, did_follow (ri_action i))) (response_items (followed_links sts) dups blocks) = map snd sts"
proof -
  have "map (\<lambda>i. (ri_link i, did_follow (ri_action i))) (response_items (followed_links sts) dups blocks) =
    map (\<lambda>(l, a). (l, did_follow a)) (map (\<lambda>i. (ri_link i, ri_action i)) (response_items (followed_links sts) dups blocks))"
    by simp
  also have "\<dots> = map (\<lambda>(l, a). (l, did_follow a)) (map (\<lambda>(c, a). (c, Some a)) (followed_links sts))"
    by (simp only: response_items_proj)
  also have "\<dots> = map snd sts"
    using assms by (auto simp: did_follow_def DidFollowLink_def)
  finally show ?thesis .
qed

lemma replay_followed: "i \<in> set (response_items (followed_links sts) dups blocks) \<Longrightarrow> did_follow (ri_action i)"
  by (induction sts arbitrary: dups) (auto simp: did_follow_def DidFollowLink_def)

lemma pruned_followed: "\<forall>st \<in> set sts. snd (snd st) \<Longrightarrow> pruned sts"
  by (induction sts rule: pruned.induct) auto

lemma SetRemoteOnline_opens:
  assumes "\<not> rl_open rl"
  shows "SetRemoteOnline True rl = rl\<lparr>rl_open := True, rl_verifier := Some (NewVerifier (rl_traversalRecord rl))\<rparr>"
  using assms by (simp add: SetRemoteOnline_def Let_def)

text \<open>The first response after going online repeats the recorded traversal and goes on with \<open>link\<close>.\<close>

lemma wait_first_response:
  assumes ok: "rl_ok rl" and q: "queued rl = []" and closed: "\<not> rl_open rl"
    and all: "\<forall>st \<in> set (steps (rl_traversalRecord rl) []). snd (snd st)"
    and new: "link \<notin> step_link ` set (steps (rl_traversalRecord rl) [])"
    and md: "md = followed_links (steps (rl_traversalRecord rl) []) @ (link, LinkActionPresent) # md'"
  shows "\<exists>rl1 is. waitRemote (EvIngest picks md blocks # evs) (SetRemoteOnline True rl) = Some (rl1, evs, True, None) \<and>
    queued rl1 = \<lparr>ri_link = link, ri_action = Some LinkActionPresent, ri_block = mget blocks link\<rparr> # is \<and>
    rl_pathTracker rl1 = rl_pathTracker rl \<and> rl_lsys rl1 = rl_lsys rl \<and> rl_store rl1 = rl_store rl"
proof -
  let ?tr = "rl_traversalRecord rl" and ?on = "SetRemoteOnline True rl"
  let ?sts = "steps ?tr []"
  note on = SetRemoteOnline_ok[OF ok, of True]
  obtain rl0 where rl0: "IngestResponse picks md blocks ?on = Some rl0" "rl_ok rl0" "same_loads ?on rl0"
    "queued rl0 = response_items md [] blocks" "rl_verifier rl0 = Some (NewVerifier ?tr)" "rl_pathTracker rl0 = rl_pathTracker rl"
    using IngestResponse_ok[OF on(1), of picks md blocks] q SetRemoteOnline_opens[OF closed] by auto
  have tr0: "rl_traversalRecord rl0 = ?tr" using rl0(3) on(2) by (simp add: same_loads_def)
  let ?dups = "rev (map fst (filter (\<lambda>(c, a). a = LinkActionPresent) (followed_links ?sts))) @ []"
  have fresh: "link \<notin> set ?dups" using new by auto
  obtain "is" where split: "response_items md [] blocks = response_items (followed_links ?sts) [] blocks @
    \<lparr>ri_link = link, ri_action = Some LinkActionPresent, ri_block = mget blocks link\<rparr> # is"
    using fresh unfolding md response_items_append by simp
  from verify_all_complete[OF rl_okD(2)[OF ok] NewVerifier_spec(1)[OF rl_okD(2)[OF ok]]] pruned_followed[OF all]
  obtain v' where v': "verify_all ?tr (NewVerifier ?tr) (map snd ?sts) = Inr v'" "v_Done ?tr v'"
    by (auto simp: NewVerifier_spec(2)[OF rl_okD(2)[OF ok]])
  have fol: "\<forall>i \<in> set (response_items (followed_links ?sts) [] blocks). did_follow (ri_action i)"
    using replay_followed by blast
  from wait_replay[OF rl0(2,5), of _ "response_items (followed_links ?sts) [] blocks" v' evs] split v' fol
  obtain rl1 where "waitRemote evs rl0 = Some (rl1, evs, True, None)" "same_loads rl0 rl1"
    "queued rl1 = \<lparr>ri_link = link, ri_action = Some LinkActionPresent, ri_block = mget blocks link\<rparr> # is"
    "rl_pathTracker rl1 = rl_pathTracker rl0"
    unfolding tr0 rl0(4) replay_items[OF all] by blast
  then show ?thesis using wait_more[OF on(1)] on(2,3,4) q rl0 by (auto simp: same_loads_def)
qed

text \<open>When the loads so far were answered by the local store and the next one is not, the request goes
  online and retries it: a remote that sends the links loaded so far again, and then the missing link with
  its block, is reconciled with the recorded traversal, and the retried load returns that block and has
  written it to the store.\<close>

theorem retry_online_loads_missing_block:
  assumes "rl_ok rl" "queued rl = []" "\<not> rl_open rl"
    "la_link (rl_mostRecentLoadAttempt rl) = Some link" "\<not> la_usedRemote (rl_mostRecentLoadAttempt rl)"
    "lastUnfollowedRemotePath (rl_pathTracker rl) = []"
    "\<forall>st \<in> set (steps (rl_traversalRecord rl) []). snd (snd st)"
    "link \<notin> step_link ` set (steps (rl_traversalRecord rl) [])"
    "md = followed_links (steps (rl_traversalRecord rl) []) @ (link, LinkActionPresent) # md'"
    "mget blocks link = Some d"
    "writeBlock (rl_lsys rl) (rl_store rl) (la_linkContext (rl_mostRecentLoadAttempt rl)) link d = Inr st"
  shows "\<exists>rl'. RetryLastLoad (EvIngest picks md blocks # evs) (SetRemoteOnline True rl) =
      Some (rl', evs, \<lparr>alr_Data = Some d, alr_Err = None, alr_Local = False\<rparr>) \<and> rl_store rl' = st"
proof -
  define rl0 where "rl0 = rl\<lparr>rl_mostRecentLoadAttempt := zero_attempt\<rparr>"
  let ?lctx = "la_linkContext (rl_mostRecentLoadAttempt rl)" and ?evs = "EvIngest picks md blocks # evs"
  have ok0: "rl_ok rl0" using assms(1) by (simp add: rl0_def rl_ok_def)
  have retry: "RetryLastLoad ?evs (SetRemoteOnline True rl) = BlockReadOpener ?evs (SetRemoteOnline True rl0) ?lctx link"
    using assms(3-5) by (cases rl) (simp add: RetryLastLoad_def SetRemoteOnline_opens rl0_def Let_def)
  have on: "rl_ok (SetRemoteOnline True rl0)" by (rule SetRemoteOnline_ok(1)[OF ok0])
  have att: "attempt_ok (SetRemoteOnline True rl0)"
    "record_attempt (SetRemoteOnline True rl0) = SetRemoteOnline True rl0"
    using assms(3)
    by (simp_all add: attempt_ok_def SetRemoteOnline_opens rl0_def zero_attempt_def record_attempt_def)
  from wait_first_response[of rl0 link md md' picks blocks evs] ok0 assms(2,3,7-9) obtain rl1 "is" where
    w: "waitRemote ?evs (SetRemoteOnline True rl0) = Some (rl1, evs, True, None)"
      "queued rl1 = \<lparr>ri_link = link, ri_action = Some LinkActionPresent, ri_block = mget blocks link\<rparr> # is"
      "rl_pathTracker rl1 = rl_pathTracker rl" "rl_lsys rl1 = rl_lsys rl" "rl_store rl1 = rl_store rl"
    by (auto simp: rl0_def)
  have "head_result (rl_lsys rl1) (rl_store rl1) (hd (queued rl1)) ?lctx link = (Inr (Some d), st)"
    using w(2,4,5) assms(10,11) by (simp add: head_result_def)
  with BlockReadOpener_spec[OF on att(1), of ?evs rl1 evs True None ?lctx link] w(1,3) att(2) assms(6) retry show ?thesis
    by (auto simp: load_spec_def stillOnUnfollowedRemotePath_def)
qed

definition offline_loader :: "(cid, bytes) gomap reconciled_loader" where
  "offline_loader = example_loader\<lparr>
     rl_traversalRecord := RecordNextStep NewTraversalRecord [] ''r'' True,
     rl_mostRecentLoadAttempt := \<lparr>la_link = Some ''x'', la_linkContext = [''a''], la_successful = False, la_usedRemote = False\<rparr>\<rparr>"

theorem retry_online_loads_missing_block_witness:
  "\<exists>rl'. RetryLastLoad [EvIngest [] [(''r'', LinkActionPresent), (''x'', LinkActionPresent)] [(''x'', [9])]]
      (SetRemoteOnline True offline_loader) =
    Some (rl', [], \<lparr>alr_Data = Some [9], alr_Err = None, alr_Local = False\<rparr>) \<and>
    rl_store rl' = [(''r'', [7]), (''x'', [9])]"
proof -
  have "tr_ok (RecordNextStep NewTraversalRecord [] ''r'' True)" by code_simp
  then have ok: "rl_ok offline_loader" using example_loader_ok(1) by (simp add: rl_ok_def offline_loader_def example_loader_def NewReconciledLoader_def)
  have q: "queued offline_loader = []"
    by (simp add: offline_loader_def example_loader_def NewReconciledLoader_def rq_good_zero)
  have "\<not> rl_open offline_loader" "la_link (rl_mostRecentLoadAttempt offline_loader) = Some ''x''"
    "\<not> la_usedRemote (rl_mostRecentLoadAttempt offline_loader)"
    "lastUnfollowedRemotePath (rl_pathTracker offline_loader) = []"
    "\<forall>st \<in> set (steps (rl_traversalRecord offline_loader) []). snd (snd st)"
    "''x'' \<notin> step_link ` set (steps (rl_traversalRecord offline_loader) [])"
    "[(''r'', LinkActionPresent), (''x'', LinkActionPresent)] =
       followed_links (steps (rl_traversalRecord offline_loader) []) @ (''x'', LinkActionPresent) # []"
    "mget [(''x'', [9::nat])] ''x'' = Some [9]"
    "writeBlock (rl_lsys offline_loader) (rl_store offline_loader)
       (la_linkContext (rl_mostRecentLoadAttempt offline_loader)) ''x'' [9] = Inr [(''r'', [7]), (''x'', [9])]"
    by code_simp+
  from retry_online_loads_missing_block[OF ok q this] show ?thesis .
qed

text \<open>The path tracker compares only lengths. When every longer path that comes up is below the path
  the remote did not follow it is right: it says so exactly for the paths below it, keeps the path while it
  is below it and forgets it otherwise.\<close>

theorem path_tracker_by_length:
  assumes "lastUnfollowedRemotePath pt = p" "p \<noteq> []" "q \<noteq> p" "length q > length p \<longrightarrow> prefix p q"
  shows "(snd (stillOnUnfollowedRemotePath pt q) \<longleftrightarrow> prefix p q) \<and>
    lastUnfollowedRemotePath (fst (stillOnUnfollowedRemotePath pt q)) = (if prefix p q then p else [])"
proof -
  have "prefix p q \<longleftrightarrow> length q > length p"
    using assms(3,4) by (auto simp: prefix_def)
  then show ?thesis using assms(1,2) by (auto simp: stillOnUnfollowedRemotePath_def)
qed

theorem path_tracker_by_length_witness:
  "snd (stillOnUnfollowedRemotePath \<lparr>lastUnfollowedRemotePath = [''a'']\<rparr> [''a'', ''0''])"
  using path_tracker_by_length[of "\<lparr>lastUnfollowedRemotePath = [''a'']\<rparr>" "[''a'']" "[''a'', ''0'']"] by simp

text \<open>A traversal may leave the path the remote did not follow for a longer path elsewhere, since the
  segments inside a block count. Then the load goes to the local store although the remote's item for that
  very link, with its block, is first in the queue; and that item stays there for the next load.\<close>

theorem longer_sibling_path_not_loaded:
  assumes "rl_ok rl" "attempt_ok rl" "rl_verifier rl = None"
    "lastUnfollowedRemotePath (rl_pathTracker rl) = p" "p \<noteq> []" "\<not> prefix p q" "length q > length p"
    "queued rl = \<lparr>ri_link = link, ri_action = Some LinkActionPresent, ri_block = Some d\<rparr> # is"
  shows "\<exists>rl'. BlockReadOpener evs rl q link = Some (rl', evs, loadLocal rl q link) \<and> queued rl' = queued rl"
proof -
  note ra = record_attempt_ok[OF assms(1,2)]
  let ?rl1 = "(record_attempt rl)\<lparr>rl_verifier := None\<rparr>"
  have same: "rl_verifier (record_attempt rl) = None" "rl_pathTracker (record_attempt rl) = rl_pathTracker rl"
    "rl_lsys (record_attempt rl) = rl_lsys rl" "rl_store (record_attempt rl) = rl_store rl"
    using assms(3) by (simp_all add: record_attempt_def Let_def split: option.split)
  have "waitRemote evs (record_attempt rl) = Some (?rl1, evs, True, None)"
    using wait_ready[OF ra(1), of evs] same(1) assms(8) ra(3) by simp
  from BlockReadOpener_spec[OF assms(1,2) this, of q link] obtain rl' res where
    "BlockReadOpener evs rl q link = Some (rl', evs, res)" "load_spec ?rl1 True None q link rl' res" by blast
  with same assms(4,5,7) ra(3) loadLocal_cong[of ?rl1 rl q link] show ?thesis
    by (auto simp: load_spec_def stillOnUnfollowedRemotePath_def)
qed

definition sibling_loader :: "(cid, bytes) gomap reconciled_loader" where
  "sibling_loader = the (IngestResponse [] [(''z'', LinkActionPresent)] [(''z'', [5])]
     (example_loader\<lparr>rl_open := True, rl_pathTracker := \<lparr>lastUnfollowedRemotePath = [''a'']\<rparr>\<rparr>))"

theorem longer_sibling_path_not_loaded_witness:
  "\<exists>rl'. BlockReadOpener [] sibling_loader [''b'', ''c''] ''z'' =
    Some (rl', [], \<lparr>alr_Data = None, alr_Err = Some (RemoteMissingBlockErr ''z'' [''b'', ''c'']), alr_Local = True\<rparr>) \<and>
    queued rl' = [\<lparr>ri_link = ''z'', ri_action = Some LinkActionPresent, ri_block = Some [5]\<rparr>]"
proof -
  let ?rl = "example_loader\<lparr>rl_open := True, rl_pathTracker := \<lparr>lastUnfollowedRemotePath = [''a'']\<rparr>\<rparr>"
  have "rl_ok ?rl" using example_loader_ok(1) by (simp add: rl_ok_def)
  from IngestResponse_ok[OF this, of "[]" "[(''z'', LinkActionPresent)]" "[(''z'', [5])]"] have
    ok: "rl_ok sibling_loader" by (auto simp: sibling_loader_def)
  have "attempt_ok sibling_loader" "rl_verifier sibling_loader = None"
    "lastUnfollowedRemotePath (rl_pathTracker sibling_loader) = [''a'']" "[''a''] \<noteq> []"
    "\<not> prefix [''a''] [''b'', ''c'']" "length [''b'', ''c''] > length [''a'']"
    "queued sibling_loader = [\<lparr>ri_link = ''z'', ri_action = Some LinkActionPresent, ri_block = Some [5]\<rparr>]"
    "loadLocal sibling_loader [''b'', ''c''] ''z'' =
       \<lparr>alr_Data = None, alr_Err = Some (RemoteMissingBlockErr ''z'' [''b'', ''c'']), alr_Local = True\<rparr>"
    by code_simp+
  with longer_sibling_path_not_loaded[OF ok this(1-7), of "[]"] show ?thesis by simp
qed

end
