(* ===== verification/Ext_Codecs.thy ===== *)
theory Ext_Codecs
  imports GS_Types
begin

text \<open>
  \<^verbatim>\<open>dedupkey\<close>, \<^verbatim>\<open>donotsendfirstblocks\<close> and \<^verbatim>\<open>cidset\<close>: the data of the extensions the managers
  understand. IPLD nodes are third-party: a record of the node operations the code calls. A nil node
  interface is \<open>None\<close>, and calling a method on it, a panic, is the result \<open>None\<close>.
\<close>

section \<open>Node operations\<close>

record 'n node_ops =
  AssignString :: "string \<Rightarrow> gs_error + 'n"
  NewInt :: "int \<Rightarrow> 'n"
  NewLinkList :: "cid list \<Rightarrow> 'n"
  AsString :: "'n \<Rightarrow> gs_error + string"
  AsInt :: "'n \<Rightarrow> gs_error + int"
  IsList :: "'n \<Rightarrow> bool"
  ListItems :: "'n \<Rightarrow> (gs_error + 'n) list"
  AsLink :: "'n \<Rightarrow> gs_error + cid option"

text \<open>What the codecs rely on: a node reads back what it was built from.\<close>

definition node_laws :: "'n node_ops \<Rightarrow> bool" where
  "node_laws ops \<longleftrightarrow>
     (\<forall>s. \<exists>n. AssignString ops s = Inr n \<and> AsString ops n = Inr s) \<and>
     (\<forall>i. AsInt ops (NewInt ops i) = Inr i) \<and>
     (\<forall>cs. IsList ops (NewLinkList ops cs) \<and>
        (\<exists>ns. ListItems ops (NewLinkList ops cs) = map Inr ns \<and> map (AsLink ops) ns = map (Inr \<circ> Some) cs))"

section \<open>The codecs\<close>

definition EncodeDedupKey :: "'n node_ops \<Rightarrow> string \<Rightarrow> gs_error + 'n" where
  "EncodeDedupKey ops key = AssignString ops key"

definition DecodeDedupKey :: "'n node_ops \<Rightarrow> 'n option \<Rightarrow> (gs_error + string) option" where
  "DecodeDedupKey ops data = map_option (AsString ops) data"

definition EncodeDoNotSendFirstBlocks :: "'n node_ops \<Rightarrow> i64 \<Rightarrow> 'n" where
  "EncodeDoNotSendFirstBlocks ops skipBlockCount = NewInt ops skipBlockCount"

definition DecodeDoNotSendFirstBlocks :: "'n node_ops \<Rightarrow> 'n option \<Rightarrow> (gs_error + i64) option" where
  "DecodeDoNotSendFirstBlocks ops data = map_option (AsInt ops) data"

text \<open>A set of CIDs is a list without duplicates, its order the order of \<^verbatim>\<open>ForEach\<close>.\<close>

definition EncodeCidSet :: "'n node_ops \<Rightarrow> cid list \<Rightarrow> 'n" where
  "EncodeCidSet ops cids = NewLinkList ops cids"

fun decode_items :: "'n node_ops \<Rightarrow> (gs_error + 'n) list \<Rightarrow> cid list \<Rightarrow> gs_error + cid list" where
  "decode_items ops [] cset = Inr cset"
| "decode_items ops (item # iter) cset =
     (case item of
        Inl err \<Rightarrow> Inl err
      | Inr next \<Rightarrow>
          case AsLink ops next of
            Inl err \<Rightarrow> Inl err
          | Inr None \<Rightarrow> Inl (OtherErr ''contained non CID link'')
          | Inr (Some c) \<Rightarrow> decode_items ops iter (List.insert c cset))"

definition DecodeCidSet :: "'n node_ops \<Rightarrow> 'n option \<Rightarrow> (gs_error + cid list) option" where
  "DecodeCidSet ops data =
     map_option (\<lambda>n. if \<not> IsList ops n then Inl (OtherErr ''did not receive a list of CIDs'')
                     else decode_items ops (ListItems ops n) []) data"

section \<open>Round trips\<close>

lemma decode_items_links:
  "map (AsLink ops) ns = map (Inr \<circ> Some) cs \<Longrightarrow>
   decode_items ops (map Inr ns) acc = Inr (foldl (\<lambda>s c. List.insert c s) acc cs)"
proof (induction cs arbitrary: ns acc)
  case (Cons c cs)
  then obtain n ns' where "ns = n # ns'" "AsLink ops n = Inr (Some c)" "map (AsLink ops) ns' = map (Inr \<circ> Some) cs"
    by (cases ns) auto
  with Cons.IH show ?case by simp
qed simp

lemma set_foldl_insert: "set (foldl (\<lambda>s c. List.insert c s) acc cs) = set acc \<union> set cs"
  by (induction cs arbitrary: acc) auto

text \<open>What is encoded as the data of an extension is decoded from it: the deduplication key, the
  number of blocks to skip, and the set of CIDs not to send.\<close>

theorem extension_codecs_roundtrip:
  assumes "node_laws ops"
  shows "(\<exists>n. EncodeDedupKey ops key = Inr n \<and> DecodeDedupKey ops (Some n) = Some (Inr key)) \<and>
    DecodeDoNotSendFirstBlocks ops (Some (EncodeDoNotSendFirstBlocks ops skip)) = Some (Inr skip) \<and>
    (\<exists>cids'. DecodeCidSet ops (Some (EncodeCidSet ops cids)) = Some (Inr cids') \<and> set cids' = set cids)"
proof -
  obtain ns where "ListItems ops (NewLinkList ops cids) = map Inr ns" "map (AsLink ops) ns = map (Inr \<circ> Some) cids"
    and l: "IsList ops (NewLinkList ops cids)" using assms unfolding node_laws_def by blast
  with decode_items_links[of ops ns cids "[]"] have
    "decode_items ops (ListItems ops (NewLinkList ops cids)) [] = Inr (foldl (\<lambda>s c. List.insert c s) [] cids)" by simp
  with l assms show ?thesis
    by (simp add: EncodeDedupKey_def DecodeDedupKey_def DecodeDoNotSendFirstBlocks_def EncodeDoNotSendFirstBlocks_def
        DecodeCidSet_def EncodeCidSet_def set_foldl_insert node_laws_def)
qed

datatype simple_node = NString string | NInt int | NLink cid | NList "simple_node list"

definition simple_ops :: "simple_node node_ops" where
  "simple_ops = \<lparr>AssignString = Inr \<circ> NString, NewInt = NInt, NewLinkList = NList \<circ> map NLink,
     AsString = (\<lambda>n. case n of NString s \<Rightarrow> Inr s | _ \<Rightarrow> Inl (OtherErr ''wrong kind'')),
     AsInt = (\<lambda>n. case n of NInt i \<Rightarrow> Inr i | _ \<Rightarrow> Inl (OtherErr ''wrong kind'')),
     IsList = (\<lambda>n. case n of NList _ \<Rightarrow> True | _ \<Rightarrow> False),
     ListItems = (\<lambda>n. case n of NList ns \<Rightarrow> map Inr ns | _ \<Rightarrow> []),
     AsLink = (\<lambda>n. case n of NLink c \<Rightarrow> Inr (Some c) | _ \<Rightarrow> Inl (OtherErr ''wrong kind''))\<rparr>"

lemma simple_ops_laws: "node_laws simple_ops"
proof -
  have "\<exists>ns. ListItems simple_ops (NewLinkList simple_ops cs) = map Inr ns \<and>
    map (AsLink simple_ops) ns = map (Inr \<circ> Some) cs" for cs
    by (intro exI[of _ "map NLink cs"]) (simp add: simple_ops_def)
  then show ?thesis by (simp add: node_laws_def) (simp add: simple_ops_def)
qed

theorem extension_codecs_roundtrip_witness:
  "\<exists>cids'. DecodeCidSet simple_ops (Some (EncodeCidSet simple_ops [''x'', ''y''])) = Some (Inr cids') \<and>
     set cids' = {''x'', ''y''}"
  using extension_codecs_roundtrip[OF simple_ops_laws, of "''k''" 3 "[''x'', ''y'']"] by simp

end
