(* ===== verification/Request_Manager.thy ===== *)
theory Request_Manager
  imports Message Reconciled_Loader Ext_Codecs Peer_Manager
begin

text \<open>
  \<^verbatim>\<open>requestmanager\<close>: the single-threaded manager of the outgoing requests, \<^verbatim>\<open>server.go\<close>, with the
  messages of \<^verbatim>\<open>messages.go\<close> that reach it from the calls of \<^verbatim>\<open>client.go\<close>.

  The manager's calls to the message queue, the task queue, the connection manager, the traverser and
  the listeners, and what it sends on or does to the channels of a request, are a log. Code the manager
  is given (hooks, selector parsing, the encoder) is in the environment of a message. The boolean
  \<open>done\<close> says that the manager's context is cancelled. A nil dereference, and a loader that does not
  come back, is the result \<open>None\<close>. The loaders of two requests share no cells: a cell from another
  loader's pool is as good as a fresh one.
\<close>

section \<open>State\<close>

type_synonym 's store_system = "'s link_system \<times> 's"

record ('n, 's) in_progress_request =
  ipr_p :: peer_id
  ipr_terminalError :: "gs_error option"
  ipr_pauseMessages :: bool
  ipr_state :: request_state
  ipr_lastResponse :: "'n gs_response"
  ipr_onTerminated :: "nat list"
  ipr_request :: "'n gs_request"
  ipr_doNotSendFirstBlocks :: i64
  ipr_nodeStyleChooser :: "string option"
  ipr_traverser :: bool
  ipr_lsys :: "'s store_system"
  ipr_reconciledLoader :: "'s reconciled_loader option"

datatype 'n rm_call =
    CallSendRequest peer_id "'n gs_request"
  | CallPushTask peer_id request_id
  | CallTaskDone peer_id request_id
  | CallProtect peer_id request_id
  | CallUnprotect peer_id request_id
  | CallStartTraverser request_id "u64 option"
  | CallShutdownTraverser request_id
  | CallNotifyProcessing peer_id request_id nat
  | CallCancelFn request_id
  | SendInProgressErr request_id gs_error
  | CloseChannels request_id
  | Reply nat "gs_error option"
  | ReplySingleError nat gs_error
  | ReplyChannels nat request_id
  | ReplyTask request_id bool
  | ReplyDone nat
  | ReplyPeerState nat peer_state

record ('n, 's) request_manager =
  rm_inProgress :: "(request_id, ('n, 's) in_progress_request) gomap"
  rm_linkSystem :: "'s store_system"
  rm_persistenceOptions :: "'s store_system persistence_options"
  rm_maxLinksPerRequest :: u64
  rm_calls :: "'n rm_call list"

record request_result =
  rr_PersistenceOption :: string
  rr_CustomChooser :: "string option"

record 'n update_result =
  ur_Err :: "gs_error option"
  ur_Extensions :: "'n ext_data list"

record 'n rm_env =
  ParseSelector :: "'n option \<Rightarrow> gs_error option"
  EncodeNode :: "'n option \<Rightarrow> gs_error option"
  ProcessRequestHooks :: "peer_id \<Rightarrow> 'n gs_request \<Rightarrow> request_result"
  ProcessResponseHooks :: "peer_id \<Rightarrow> 'n gs_response \<Rightarrow> 'n update_result"
  node_ops :: "'n node_ops"
  pool_picks :: "request_id \<Rightarrow> nat option list"

definition rm_New :: "'s store_system persistence_options \<Rightarrow> 's store_system \<Rightarrow> u64 \<Rightarrow> ('n, 's) request_manager" where
  "rm_New po ls maxLinks =
     \<lparr>rm_inProgress = [], rm_linkSystem = ls, rm_persistenceOptions = po, rm_maxLinksPerRequest = maxLinks,
      rm_calls = []\<rparr>"

definition rm_call :: "'n rm_call list \<Rightarrow> ('n, 's) request_manager \<Rightarrow> ('n, 's) request_manager" where
  "rm_call cs rm = rm\<lparr>rm_calls := rm_calls rm @ cs\<rparr>"

definition set_ipr :: "request_id \<Rightarrow> ('n, 's) in_progress_request \<Rightarrow> ('n, 's) request_manager \<Rightarrow> ('n, 's) request_manager" where
  "set_ipr rid ipr rm = rm\<lparr>rm_inProgress := mput rid ipr (rm_inProgress rm)\<rparr>"

definition SendRequest :: "peer_id \<Rightarrow> 'n gs_request \<Rightarrow> ('n, 's) request_manager \<Rightarrow> ('n, 's) request_manager" where
  "SendRequest p request rm = rm_call [CallSendRequest p request] rm"

section \<open>New requests\<close>

definition defaultPriority :: priority where "defaultPriority = 0"

definition validateRequest ::
  "'n rm_env \<Rightarrow> request_id \<Rightarrow> peer_id \<Rightarrow> cid option \<Rightarrow> 'n option \<Rightarrow> 'n ext_data list \<Rightarrow> ('n, 's) request_manager \<Rightarrow>
   gs_error + 'n gs_request \<times> request_result \<times> 's store_system" where
  "validateRequest env requestID p root selectorSpec extensions rm =
     (case ParseSelector env selectorSpec of
        Some err \<Rightarrow> Inl err
      | None \<Rightarrow>
          case EncodeNode env selectorSpec of
            Some err \<Rightarrow> Inl err
          | None \<Rightarrow>
              case root of
                None \<Rightarrow> Inl (OtherErr ''request failed: link has no cid'')
              | Some asCid \<Rightarrow>
                  let request = NewRequest requestID asCid selectorSpec defaultPriority extensions;
                      hooksResult = ProcessRequestHooks env p request
                  in if rr_PersistenceOption hooksResult \<noteq> []
                     then
                       (case EncodeDedupKey (node_ops env) (rr_PersistenceOption hooksResult) of
                          Inl err \<Rightarrow> Inl err
                        | Inr dedupData \<Rightarrow>
                            let request = ReplaceExtensions request
                                  [\<lparr>ed_Name = ExtensionDeDupByKey, ed_Data = Some dedupData\<rparr>]
                            in case po_GetLinkSystem (rm_persistenceOptions rm) (rr_PersistenceOption hooksResult) of
                                 None \<Rightarrow> Inl (OtherErr ''unknown persistence option'')
                               | Some lsys \<Rightarrow> Inr (request, hooksResult, lsys))
                     else Inr (request, hooksResult, rm_linkSystem rm))"

text \<open>The result is the error of a single-error response, or nothing when the channels of the request are returned.\<close>

definition rm_newRequest ::
  "'n rm_env \<Rightarrow> request_id \<Rightarrow> peer_id \<Rightarrow> cid option \<Rightarrow> 'n option \<Rightarrow> 'n ext_data list \<Rightarrow> ('n, 's) request_manager \<Rightarrow>
   (gs_error option \<times> ('n, 's) request_manager) option" where
  "rm_newRequest env requestID p root selector extensions rm =
     (case validateRequest env requestID p root selector extensions rm of
        Inl err \<Rightarrow> Some (Some err, rm)
      | Inr (request, hooksResult, lsys) \<Rightarrow>
          let (doNotSendFirstBlocksData, has) = req_Extension request ExtensionsDoNotSendFirstBlocks
          in Option.bind (if has then DecodeDoNotSendFirstBlocks (node_ops env) doNotSendFirstBlocksData else Some (Inr 0))
               (\<lambda>decoded.
                 case decoded of
                   Inl err \<Rightarrow> Some (Some err, rm)
                 | Inr doNotSendFirstBlocks \<Rightarrow>
                     let requestStatus =
                       \<lparr>ipr_p = p, ipr_terminalError = None, ipr_pauseMessages = False, ipr_state = Queued,
                        ipr_lastResponse = NewResponse (gsr_id request) RequestAcknowledged [] [],
                        ipr_onTerminated = [], ipr_request = request,
                        ipr_doNotSendFirstBlocks = doNotSendFirstBlocks,
                        ipr_nodeStyleChooser = rr_CustomChooser hooksResult, ipr_traverser = False,
                        ipr_lsys = lsys, ipr_reconciledLoader = None\<rparr>
                     in Some (None, rm_call [CallProtect p requestID, CallPushTask p requestID]
                                      (set_ipr (gsr_id request) requestStatus rm))))"

section \<open>Execution of a request\<close>

definition requestTask :: "request_id \<Rightarrow> ('n, 's) request_manager \<Rightarrow> bool \<times> ('n, 's) request_manager" where
  "requestTask requestID rm =
     (case mget (rm_inProgress rm) requestID of
        None \<Rightarrow> (True, rm)
      | Some ipr \<Rightarrow>
          let (ipr, rm) =
                (if \<not> ipr_traverser ipr
                 then
                   let budget = (if rm_maxLinksPerRequest rm > 0 then Some (rm_maxLinksPerRequest rm) else None);
                       ipr = ipr\<lparr>ipr_traverser := True,
                         ipr_reconciledLoader :=
                           Some (NewReconciledLoader (fst (ipr_lsys ipr)) (snd (ipr_lsys ipr)) \<lparr>cells = [], pool = []\<rparr>)\<rparr>
                   in (ipr, rm_call [CallStartTraverser requestID budget,
                              CallNotifyProcessing (ipr_p ipr) requestID (length (rm_inProgress rm))] rm)
                 else (ipr, rm))
          in (False, set_ipr requestID (ipr\<lparr>ipr_state := Running\<rparr>) rm))"

definition getRequestTask :: "peer_id \<Rightarrow> request_id \<Rightarrow> ('n, 's) request_manager \<Rightarrow> bool \<times> ('n, 's) request_manager" where
  "getRequestTask p requestID rm =
     (case requestTask requestID rm of
        (True, rm) \<Rightarrow> (True, rm_call [CallTaskDone p requestID] rm)
      | (False, rm) \<Rightarrow> (False, rm))"

section \<open>The end of a request\<close>

definition terminateRequest ::
  "bool \<Rightarrow> request_id \<Rightarrow> ('n, 's) in_progress_request \<Rightarrow> ('n, 's) request_manager \<Rightarrow> ('n, 's) request_manager option" where
  "terminateRequest ctxDone requestID ipr rm =
     (let rm = (case ipr_terminalError ipr of
                  None \<Rightarrow> rm
                | Some e \<Rightarrow> if ctxDone then rm else rm_call [SendInProgressErr requestID e] rm);
          rm = rm_call [CallUnprotect (ipr_p ipr) requestID] rm;
          rm = rm\<lparr>rm_inProgress := mdel requestID (rm_inProgress rm)\<rparr>;
          rm = rm_call [CallCancelFn requestID] rm
      in Option.bind (case ipr_reconciledLoader ipr of None \<Rightarrow> Some () | Some rl \<Rightarrow> map_option (\<lambda>_. ()) (Cleanup rl))
           (\<lambda>_.
             let rm = (if ipr_traverser ipr then rm_call [CallShutdownTraverser requestID] rm else rm)
             in if ctxDone then Some rm
                else Some (rm_call (CloseChannels requestID # map (\<lambda>ch. Reply ch None) (ipr_onTerminated ipr)) rm)))"

definition releaseRequestTask ::
  "bool \<Rightarrow> peer_id \<Rightarrow> request_id \<Rightarrow> gs_error option \<Rightarrow> ('n, 's) request_manager \<Rightarrow> ('n, 's) request_manager option" where
  "releaseRequestTask ctxDone p requestID err rm =
     (let rm = rm_call [CallTaskDone p requestID] rm
      in case mget (rm_inProgress rm) requestID of
           None \<Rightarrow> Some rm
         | Some ipr \<Rightarrow>
             if err = Some ErrPausedE then Some (set_ipr requestID (ipr\<lparr>ipr_state := Paused\<rparr>) rm)
             else terminateRequest ctxDone requestID ipr rm)"

text \<open>The status is read through the map: the caller's pointer is the map's entry, or nil when there is none.\<close>

definition cancelOnError ::
  "bool \<Rightarrow> request_id \<Rightarrow> gs_error option \<Rightarrow> ('n, 's) request_manager \<Rightarrow> ('n, 's) request_manager option" where
  "cancelOnError ctxDone requestID terminalError rm =
     (case mget (rm_inProgress rm) requestID of
        None \<Rightarrow> None
      | Some ipr \<Rightarrow>
          let ipr = (if ipr_terminalError ipr = None then ipr\<lparr>ipr_terminalError := terminalError\<rparr> else ipr);
              rm = set_ipr requestID ipr rm
          in if ipr_state ipr \<noteq> Running then terminateRequest ctxDone requestID ipr rm
             else
               let rm = rm_call [CallCancelFn requestID] rm
               in case ipr_reconciledLoader ipr of
                    None \<Rightarrow> None
                  | Some rl \<Rightarrow> Some (set_ipr requestID (ipr\<lparr>ipr_reconciledLoader := Some (SetRemoteOnline False rl)\<rparr>) rm))"

definition cancelRequest ::
  "bool \<Rightarrow> request_id \<Rightarrow> nat option \<Rightarrow> gs_error option \<Rightarrow> ('n, 's) request_manager \<Rightarrow> ('n, 's) request_manager option" where
  "cancelRequest ctxDone requestID onTerminated terminalError rm =
     (case mget (rm_inProgress rm) requestID of
        None \<Rightarrow>
          (case onTerminated of
             Some ch \<Rightarrow> Some (if ctxDone then rm else rm_call [Reply ch (Some RequestNotFoundErr)] rm)
           | None \<Rightarrow> Some rm)
      | Some ipr \<Rightarrow>
          let ipr = (case onTerminated of
                       None \<Rightarrow> ipr
                     | Some ch \<Rightarrow> ipr\<lparr>ipr_onTerminated := ipr_onTerminated ipr @ [ch]\<rparr>);
              rm = SendRequest (ipr_p ipr) (NewCancelRequest requestID) (set_ipr requestID ipr rm)
          in cancelOnError ctxDone requestID terminalError rm)"

section \<open>Responses\<close>

definition filterResponsesForPeer ::
  "'n gs_response list \<Rightarrow> peer_id \<Rightarrow> ('n, 's) request_manager \<Rightarrow> 'n gs_response list" where
  "filterResponsesForPeer responses p rm =
     filter (\<lambda>response. case mget (rm_inProgress rm) (gsp_requestID response) of
               None \<Rightarrow> False | Some requestStatus \<Rightarrow> ipr_p requestStatus = p) responses"

definition processExtensionsForResponse ::
  "'n rm_env \<Rightarrow> bool \<Rightarrow> peer_id \<Rightarrow> 'n gs_response \<Rightarrow> ('n, 's) request_manager \<Rightarrow> (bool \<times> ('n, 's) request_manager) option" where
  "processExtensionsForResponse env ctxDone p response rm =
     (let result = ProcessResponseHooks env p response;
          rm = (if length (ur_Extensions result) > 0
                then SendRequest p (NewUpdateRequest (gsp_requestID response) (ur_Extensions result)) rm else rm)
      in case ur_Err result of
           None \<Rightarrow> Some (True, rm)
         | Some err \<Rightarrow>
             case mget (rm_inProgress rm) (gsp_requestID response) of
               None \<Rightarrow> Some (False, rm)
             | Some requestStatus \<Rightarrow>
                 map_option (Pair False)
                   (cancelOnError ctxDone (gsp_requestID response) (Some err)
                     (SendRequest (ipr_p requestStatus) (NewCancelRequest (gsp_requestID response)) rm)))"

fun processExtensions ::
  "'n rm_env \<Rightarrow> bool \<Rightarrow> 'n gs_response list \<Rightarrow> peer_id \<Rightarrow> ('n, 's) request_manager \<Rightarrow>
   ('n gs_response list \<times> ('n, 's) request_manager) option" where
  "processExtensions env ctxDone [] p rm = Some ([], rm)"
| "processExtensions env ctxDone (response # responses) p rm =
     Option.bind (processExtensionsForResponse env ctxDone p response rm) (\<lambda>(success, rm).
       Option.bind (processExtensions env ctxDone responses p rm) (\<lambda>(remaining, rm).
         Some (if success then response # remaining else remaining, rm)))"

abbreviation md_pairs :: "link_metadatum list \<Rightarrow> (cid \<times> link_action) list" where
  "md_pairs \<equiv> map (\<lambda>md. (md_Link md, md_Action md))"

fun ingestResponses ::
  "'n rm_env \<Rightarrow> (cid, bytes) gomap \<Rightarrow> 'n gs_response list \<Rightarrow> ('n, 's) request_manager \<Rightarrow> ('n, 's) request_manager option" where
  "ingestResponses env blkMap [] rm = Some rm"
| "ingestResponses env blkMap (response # responses) rm =
     (case mget (rm_inProgress rm) (gsp_requestID response) of
        None \<Rightarrow> None
      | Some ipr \<Rightarrow>
          Option.bind
            (case ipr_reconciledLoader ipr of
               None \<Rightarrow> Some rm
             | Some rl \<Rightarrow>
                 map_option (\<lambda>rl. set_ipr (gsp_requestID response) (ipr\<lparr>ipr_reconciledLoader := Some rl\<rparr>) rm)
                   (IngestResponse (pool_picks env (gsp_requestID response)) (md_pairs (gsp_metadata response)) blkMap rl))
            (\<lambda>rm. ingestResponses env blkMap responses rm))"

fun updateLastResponses :: "'n gs_response list \<Rightarrow> ('n, 's) request_manager \<Rightarrow> ('n, 's) request_manager option" where
  "updateLastResponses [] rm = Some rm"
| "updateLastResponses (response # responses) rm =
     (case mget (rm_inProgress rm) (gsp_requestID response) of
        None \<Rightarrow> None
      | Some ipr \<Rightarrow> updateLastResponses responses (set_ipr (gsp_requestID response) (ipr\<lparr>ipr_lastResponse := response\<rparr>) rm))"

definition goOffline :: "request_id \<Rightarrow> ('n, 's) request_manager \<Rightarrow> ('n, 's) request_manager" where
  "goOffline rid rm =
     (case mget (rm_inProgress rm) rid of
        None \<Rightarrow> rm
      | Some ipr \<Rightarrow>
          case ipr_reconciledLoader ipr of
            None \<Rightarrow> rm
          | Some rl \<Rightarrow> set_ipr rid (ipr\<lparr>ipr_reconciledLoader := Some (SetRemoteOnline False rl)\<rparr>) rm)"

fun processTerminations :: "bool \<Rightarrow> 'n gs_response list \<Rightarrow> ('n, 's) request_manager \<Rightarrow> ('n, 's) request_manager option" where
  "processTerminations ctxDone [] rm = Some rm"
| "processTerminations ctxDone (response # responses) rm =
     (if IsTerminal (gsp_status response)
      then Option.bind
             (if IsFailure (gsp_status response)
              then cancelOnError ctxDone (gsp_requestID response) (AsError (gsp_status response)) rm else Some rm)
             (\<lambda>rm. processTerminations ctxDone responses (goOffline (gsp_requestID response) rm))
      else processTerminations ctxDone responses rm)"

definition processResponses ::
  "'n rm_env \<Rightarrow> bool \<Rightarrow> peer_id \<Rightarrow> 'n gs_response list \<Rightarrow> block list \<Rightarrow> ('n, 's) request_manager \<Rightarrow>
   ('n, 's) request_manager option" where
  "processResponses env ctxDone p responses blks rm =
     Option.bind (processExtensions env ctxDone responses p rm) (\<lambda>(filteredResponses, rm).
       let filteredResponses = filterResponsesForPeer filteredResponses p rm;
           blkMap = foldl (\<lambda>m blk. mput (blk_Cid blk) (blk_RawData blk) m) [] blks
       in Option.bind (ingestResponses env blkMap filteredResponses rm) (\<lambda>rm.
            Option.bind (updateLastResponses filteredResponses rm) (\<lambda>rm.
              processTerminations ctxDone filteredResponses rm)))"

section \<open>Pausing and updating\<close>

definition rm_unpause ::
  "request_id \<Rightarrow> 'n ext_data list \<Rightarrow> ('n, 's) request_manager \<Rightarrow> gs_error option \<times> ('n, 's) request_manager" where
  "rm_unpause rid extensions rm =
     (case mget (rm_inProgress rm) rid of
        None \<Rightarrow> (Some RequestNotFoundErr, rm)
      | Some ipr \<Rightarrow>
          if ipr_state ipr \<noteq> Paused then (Some (OtherErr ''request is not paused''), rm)
          else (None, rm_call [CallPushTask (ipr_p ipr) rid]
                        (set_ipr rid (ipr\<lparr>ipr_state := Queued,
                           ipr_request := ReplaceExtensions (ipr_request ipr) extensions\<rparr>) rm)))"

definition rm_pause :: "request_id \<Rightarrow> ('n, 's) request_manager \<Rightarrow> gs_error option \<times> ('n, 's) request_manager" where
  "rm_pause rid rm =
     (case mget (rm_inProgress rm) rid of
        None \<Rightarrow> (Some RequestNotFoundErr, rm)
      | Some ipr \<Rightarrow>
          if ipr_state ipr = Paused then (Some (OtherErr ''request is already paused''), rm)
          else (None, set_ipr rid (ipr\<lparr>ipr_pauseMessages := True\<rparr>) rm))"

definition rm_update ::
  "request_id \<Rightarrow> 'n ext_data list \<Rightarrow> ('n, 's) request_manager \<Rightarrow> gs_error option \<times> ('n, 's) request_manager" where
  "rm_update rid extensions rm =
     (case mget (rm_inProgress rm) rid of
        None \<Rightarrow> (Some RequestNotFoundErr, rm)
      | Some ipr \<Rightarrow> (None, SendRequest (ipr_p ipr) (NewUpdateRequest rid extensions) rm))"

definition fromPeerTopics :: "(request_id list \<times> request_id list) option \<Rightarrow> request_id list \<times> request_id list" where
  "fromPeerTopics pt = (case pt of None \<Rightarrow> ([], []) | Some (active, pending) \<Rightarrow> (active, pending))"

definition rm_peerStats ::
  "peer_id \<Rightarrow> (request_id list \<times> request_id list) option \<Rightarrow> ('n, 's) request_manager \<Rightarrow> peer_state" where
  "rm_peerStats p peerTopics rm =
     \<lparr>RequestStates =
        foldl (\<lambda>m (rid, ipr). if ipr_p ipr = p then mput rid (ipr_state ipr) m else m) [] (rm_inProgress rm),
      TQ_Active = fst (fromPeerTopics peerTopics), TQ_Pending = snd (fromPeerTopics peerTopics)\<rparr>"

section \<open>Messages\<close>

datatype 'n rm_message =
    UpdateRequestMessage request_id "'n ext_data list" nat
  | PauseRequestMessage request_id nat
  | UnpauseRequestMessage request_id "'n ext_data list" nat
  | ProcessResponsesMessage peer_id "'n gs_response list" "block list"
  | CancelRequestMessage request_id "nat option" "gs_error option"
  | GetRequestTaskMessage peer_id request_id
  | ReleaseRequestTaskMessage peer_id request_id "gs_error option" nat
  | NewRequestMessage request_id peer_id "cid option" "'n option" "'n ext_data list" nat
  | PeerStateMessage peer_id "(request_id list \<times> request_id list) option" nat

definition reply_err :: "bool \<Rightarrow> nat \<Rightarrow> gs_error option \<times> ('n, 's) request_manager \<Rightarrow> ('n, 's) request_manager" where
  "reply_err ctxDone ch r = (if ctxDone then snd r else rm_call [Reply ch (fst r)] (snd r))"

fun rm_handle :: "'n rm_env \<Rightarrow> bool \<Rightarrow> 'n rm_message \<Rightarrow> ('n, 's) request_manager \<Rightarrow> ('n, 's) request_manager option" where
  "rm_handle env ctxDone (UpdateRequestMessage rid extensions response) rm =
     Some (reply_err ctxDone response (rm_update rid extensions rm))"
| "rm_handle env ctxDone (PauseRequestMessage rid response) rm =
     Some (reply_err ctxDone response (rm_pause rid rm))"
| "rm_handle env ctxDone (UnpauseRequestMessage rid extensions response) rm =
     Some (reply_err ctxDone response (rm_unpause rid extensions rm))"
| "rm_handle env ctxDone (ProcessResponsesMessage p responses blks) rm =
     processResponses env ctxDone p responses blks rm"
| "rm_handle env ctxDone (CancelRequestMessage rid onTerminated terminalError) rm =
     cancelRequest ctxDone rid onTerminated terminalError rm"
| "rm_handle env ctxDone (GetRequestTaskMessage p rid) rm =
     (case getRequestTask p rid rm of (isEmpty, rm) \<Rightarrow>
        Some (if ctxDone then rm else rm_call [ReplyTask rid isEmpty] rm))"
| "rm_handle env ctxDone (ReleaseRequestTaskMessage p rid err ch) rm =
     Option.bind (releaseRequestTask ctxDone p rid err rm) (\<lambda>rm.
       Some (if ctxDone then rm else rm_call [ReplyDone ch] rm))"
| "rm_handle env ctxDone (NewRequestMessage rid p root selector extensions ch) rm =
     Option.bind (rm_newRequest env rid p root selector extensions rm) (\<lambda>(err, rm).
       Some (if ctxDone then rm
             else rm_call [case err of None \<Rightarrow> ReplyChannels ch rid | Some e \<Rightarrow> ReplySingleError ch e] rm))"
| "rm_handle env ctxDone (PeerStateMessage p peerTopics ch) rm =
     Some (if ctxDone then rm else rm_call [ReplyPeerState ch (rm_peerStats p peerTopics rm)] rm)"

text \<open>What is left of the requests when the manager stops.\<close>

definition cleanupInProcessRequests :: "('n, 's) request_manager \<Rightarrow> ('n, 's) request_manager" where
  "cleanupInProcessRequests rm = rm_call (map (\<lambda>(rid, ipr). CallCancelFn rid) (rm_inProgress rm)) rm"

section \<open>Calls\<close>

text \<open>The messages the calls of \<^verbatim>\<open>client.go\<close> send. A selector that does not parse is answered without one; the
  identifier of a request is the one in the caller's context, or a new one.\<close>

definition rm_NewRequest ::
  "'n rm_env \<Rightarrow> request_id \<Rightarrow> request_id option \<Rightarrow> peer_id \<Rightarrow> cid option \<Rightarrow> 'n option \<Rightarrow> 'n ext_data list \<Rightarrow> nat \<Rightarrow>
   gs_error + 'n rm_message" where
  "rm_NewRequest env newID idFromContext p root selectorNode extensions inProgressRequestChan =
     (if ParseSelector env selectorNode \<noteq> None then Inl (OtherErr ''invalid selector spec'')
      else
        let requestID = (case idFromContext of None \<Rightarrow> newID | Some existingRequestID \<Rightarrow> existingRequestID)
        in Inr (NewRequestMessage requestID p root selectorNode extensions inProgressRequestChan))"

definition rm_CancelRequest :: "request_id \<Rightarrow> nat \<Rightarrow> 'n rm_message" where
  "rm_CancelRequest requestID terminated = CancelRequestMessage requestID (Some terminated) (Some RequestClientCancelledErr)"

text \<open>What is sent when the caller's context ends before the request does.\<close>

definition cancelRequestAndClose :: "request_id \<Rightarrow> 'n rm_message" where
  "cancelRequestAndClose requestID = CancelRequestMessage requestID None None"

section \<open>The invariant and the life of a request\<close>

definition ipr_ok :: "request_id \<Rightarrow> ('n, 's) in_progress_request \<Rightarrow> bool" where
  "ipr_ok rid ipr \<longleftrightarrow>
     (ipr_state ipr = Running \<longrightarrow> ipr_reconciledLoader ipr \<noteq> None) \<and>
     (ipr_traverser ipr \<longleftrightarrow> ipr_reconciledLoader ipr \<noteq> None) \<and>
     (\<forall>rl \<in> set_option (ipr_reconciledLoader ipr). rl_ok rl)"

definition rm_inv :: "('n, 's) request_manager \<Rightarrow> bool" where
  "rm_inv rm \<longleftrightarrow> mwf (rm_inProgress rm) \<and>
     (\<forall>rid ipr. mget (rm_inProgress rm) rid = Some ipr \<longrightarrow> ipr_ok rid ipr)"

text \<open>The events of a request's life: its connection is protected while it is in progress, and its
  channels are open from then until they are closed.\<close>

fun life_event :: "request_id \<Rightarrow> 'n rm_call \<Rightarrow> bool" where
  "life_event rid (CallProtect p r) \<longleftrightarrow> r = rid"
| "life_event rid (CallUnprotect p r) \<longleftrightarrow> r = rid"
| "life_event rid (SendInProgressErr r e) \<longleftrightarrow> r = rid"
| "life_event rid (CloseChannels r) \<longleftrightarrow> r = rid"
| "life_event rid _ \<longleftrightarrow> False"

definition life :: "request_id \<Rightarrow> ('n, 's) request_manager \<Rightarrow> 'n rm_call list" where
  "life rid rm = filter (life_event rid) (rm_calls rm)"

definition last_words :: "request_id \<Rightarrow> peer_id \<Rightarrow> gs_error option \<Rightarrow> 'n rm_call list" where
  "last_words rid p err =
     (case err of None \<Rightarrow> [] | Some e \<Rightarrow> [SendInProgressErr rid e]) @ [CallUnprotect p rid, CloseChannels rid]"

text \<open>From one state to a later one without a new request: a request goes on with its peer, or ends.\<close>

definition peer_of :: "('n, 's) request_manager \<Rightarrow> request_id \<Rightarrow> peer_id option" where
  "peer_of rm rid = map_option ipr_p (mget (rm_inProgress rm) rid)"

definition goes_on :: "request_id \<Rightarrow> ('n, 's) request_manager \<Rightarrow> ('n, 's) request_manager \<Rightarrow> bool" where
  "goes_on rid rm rm' \<longleftrightarrow>
     peer_of rm' rid = peer_of rm rid \<and> life rid rm' = life rid rm"

definition ends :: "request_id \<Rightarrow> ('n, 's) request_manager \<Rightarrow> ('n, 's) request_manager \<Rightarrow> bool" where
  "ends rid rm rm' \<longleftrightarrow>
     (\<exists>p err. peer_of rm rid = Some p \<and> peer_of rm' rid = None \<and>
        life rid rm' = life rid rm @ last_words rid p err)"

definition evolves :: "('n, 's) request_manager \<Rightarrow> ('n, 's) request_manager \<Rightarrow> bool" where
  "evolves rm rm' \<longleftrightarrow> (\<forall>rid. goes_on rid rm rm' \<or> ends rid rm rm')"

lemma evolves_refl [simp]: "evolves rm rm"
  by (simp add: evolves_def goes_on_def)

lemma evolves_trans: "evolves a b \<Longrightarrow> evolves b c \<Longrightarrow> evolves a c"
  unfolding evolves_def
proof
  fix rid
  assume a: "\<forall>rid. goes_on rid a b \<or> ends rid a b" and b: "\<forall>rid. goes_on rid b c \<or> ends rid b c"
  show "goes_on rid a c \<or> ends rid a c"
    using a[rule_format, of rid] b[rule_format, of rid] unfolding goes_on_def ends_def
    by (metis option.distinct(1))
qed

lemma rm_invD: "rm_inv rm \<Longrightarrow> mget (rm_inProgress rm) rid = Some ipr \<Longrightarrow> ipr_ok rid ipr"
  by (auto simp: rm_inv_def)

lemma rm_call_simps [simp]:
  "rm_inProgress (rm_call cs rm) = rm_inProgress rm" "rm_calls (rm_call cs rm) = rm_calls rm @ cs"
  "rm_persistenceOptions (rm_call cs rm) = rm_persistenceOptions rm" "rm_linkSystem (rm_call cs rm) = rm_linkSystem rm"
  "rm_inv (rm_call cs rm) = rm_inv rm"
  by (simp_all add: rm_call_def rm_inv_def)

lemma set_ipr_simps [simp]:
  "rm_inProgress (set_ipr rid ipr rm) = mput rid ipr (rm_inProgress rm)" "rm_calls (set_ipr rid ipr rm) = rm_calls rm"
  by (simp_all add: set_ipr_def)

lemma set_ipr_inv: "rm_inv rm \<Longrightarrow> ipr_ok rid ipr \<Longrightarrow> rm_inv (set_ipr rid ipr rm)"
  by (auto simp: rm_inv_def)

lemma rm_call_evolves: "(\<And>rid. filter (life_event rid) cs = []) \<Longrightarrow> evolves rm (rm_call cs rm)"
  by (simp add: evolves_def goes_on_def life_def peer_of_def)

lemma set_ipr_evolves:
  "mget (rm_inProgress rm) rid = Some ipr \<Longrightarrow> ipr_p ipr' = ipr_p ipr \<Longrightarrow> evolves rm (set_ipr rid ipr' rm)"
  by (auto simp: evolves_def goes_on_def life_def peer_of_def)

lemma SendRequest_step [simp]:
  "rm_inProgress (SendRequest p r rm) = rm_inProgress rm" "rm_inv (SendRequest p r rm) = rm_inv rm"
  "evolves rm (SendRequest p r rm)"
  by (simp_all add: SendRequest_def rm_call_evolves)

section \<open>Every operation evolves the state\<close>

lemma terminateRequest_step:
  assumes inv: "rm_inv rm" and ipr: "mget (rm_inProgress rm) rid = Some ipr"
    and ipr': "ipr_p ipr' = ipr_p ipr" "ipr_ok rid ipr'"
  shows "\<exists>rm'. terminateRequest False rid ipr' rm = Some rm' \<and> rm_inv rm' \<and> evolves rm rm' \<and>
    rm_inProgress rm' = mdel rid (rm_inProgress rm) \<and>
    life rid rm' = life rid rm @ last_words rid (ipr_p ipr) (ipr_terminalError ipr')"
proof -
  have clean: "\<exists>x. (case ipr_reconciledLoader ipr' of None \<Rightarrow> Some () | Some rl \<Rightarrow> map_option (\<lambda>_. ()) (Cleanup rl)) = Some x"
    using ipr'(2) Cleanup_ok by (fastforce simp: ipr_ok_def split: option.splits)
  obtain rm' where t: "terminateRequest False rid ipr' rm = Some rm'"
    "rm_inProgress rm' = mdel rid (rm_inProgress rm)"
    "rm_calls rm' = rm_calls rm @ (case ipr_terminalError ipr' of None \<Rightarrow> [] | Some e \<Rightarrow> [SendInProgressErr rid e]) @
       [CallUnprotect (ipr_p ipr) rid, CallCancelFn rid] @ (if ipr_traverser ipr' then [CallShutdownTraverser rid] else []) @
       CloseChannels rid # map (\<lambda>ch. Reply ch None) (ipr_onTerminated ipr')"
    using clean ipr'(1) by (auto simp: terminateRequest_def Let_def rm_call_def split: option.splits)
  have life: "life r rm' = life r rm @ (if r = rid then last_words rid (ipr_p ipr) (ipr_terminalError ipr') else [])" for r
    by (auto simp: life_def t(3) last_words_def filter_empty_conv split: option.split)
  have "evolves rm rm'"
    unfolding evolves_def
  proof
    fix r
    show "goes_on r rm rm' \<or> ends r rm rm'"
    proof (cases "r = rid")
      case True
      with life ipr t(2) show ?thesis by (auto simp: ends_def peer_of_def)
    next
      case False
      with life t(2) show ?thesis by (simp add: goes_on_def peer_of_def)
    qed
  qed
  moreover have "rm_inv rm'" using inv t(2) by (auto simp: rm_inv_def split: if_splits)
  ultimately show ?thesis using t(1,2) life by auto
qed

text \<open>An operation is safe when it comes back, keeps the invariant and evolves the state.\<close>

definition safe_step :: "('n, 's) request_manager \<Rightarrow> ('n, 's) request_manager option \<Rightarrow> bool" where
  "safe_step rm r \<longleftrightarrow> (\<exists>rm'. r = Some rm' \<and> rm_inv rm' \<and> evolves rm rm')"

lemma safe_stepI: "r = Some rm' \<Longrightarrow> rm_inv rm' \<Longrightarrow> evolves rm rm' \<Longrightarrow> safe_step rm r"
  by (simp add: safe_step_def)

lemma safe_step_trans: "evolves rm rm1 \<Longrightarrow> safe_step rm1 r \<Longrightarrow> safe_step rm r"
  by (auto simp: safe_step_def intro: evolves_trans)

lemma safe_step_bind:
  "safe_step rm r \<Longrightarrow> (\<And>rm'. r = Some rm' \<Longrightarrow> rm_inv rm' \<Longrightarrow> evolves rm rm' \<Longrightarrow> safe_step rm' (f rm')) \<Longrightarrow>
   safe_step rm (Option.bind r f)"
  unfolding safe_step_def using evolves_trans by fastforce

lemma terminate_safe:
  "rm_inv rm \<Longrightarrow> mget (rm_inProgress rm) rid = Some ipr \<Longrightarrow> ipr_p ipr' = ipr_p ipr \<Longrightarrow> ipr_ok rid ipr' \<Longrightarrow>
   safe_step rm (terminateRequest False rid ipr' rm)"
  using terminateRequest_step[of rm rid ipr ipr'] by (auto simp: safe_step_def)

lemma release_safe:
  assumes inv: "rm_inv rm"
  shows "safe_step rm (releaseRequestTask False p rid err rm)"
proof -
  let ?rm = "rm_call [CallTaskDone p rid] rm"
  have ev: "evolves rm ?rm" by (rule rm_call_evolves) simp
  show ?thesis
  proof (cases "mget (rm_inProgress rm) rid")
    case None
    with inv ev show ?thesis by (simp add: releaseRequestTask_def Let_def safe_step_def)
  next
    case (Some ipr)
    note ok = rm_invD[OF inv Some]
    have "ipr_ok rid (ipr\<lparr>ipr_state := Paused\<rparr>)" using ok by (simp add: ipr_ok_def)
    then have "safe_step ?rm (Some (set_ipr rid (ipr\<lparr>ipr_state := Paused\<rparr>) ?rm))"
      using inv Some by (intro safe_stepI[OF refl] set_ipr_inv set_ipr_evolves[where ipr = ipr]) auto
    moreover have "safe_step ?rm (terminateRequest False rid ipr ?rm)"
      using inv Some ok by (intro terminate_safe) auto
    ultimately show ?thesis
      using Some ev by (auto simp: releaseRequestTask_def Let_def intro: safe_step_trans)
  qed
qed

lemma cancelOnError_safe:
  assumes inv: "rm_inv rm" and some: "mget (rm_inProgress rm) rid \<noteq> None"
  shows "safe_step rm (cancelOnError False rid err rm)"
proof -
  obtain ipr where ipr: "mget (rm_inProgress rm) rid = Some ipr" using some by blast
  define ipr1 where "ipr1 = (if ipr_terminalError ipr = None then ipr\<lparr>ipr_terminalError := err\<rparr> else ipr)"
  have same: "ipr_p ipr1 = ipr_p ipr" "ipr_state ipr1 = ipr_state ipr" "ipr_ok rid ipr1"
    "ipr_reconciledLoader ipr1 = ipr_reconciledLoader ipr"
    using rm_invD[OF inv ipr] by (simp_all add: ipr1_def ipr_ok_def)
  let ?rm = "set_ipr rid ipr1 rm"
  have ev: "evolves rm ?rm" and inv1: "rm_inv ?rm"
    using set_ipr_evolves[OF ipr same(1)] set_ipr_inv[OF inv same(3)] by auto
  have unf: "cancelOnError False rid err rm =
    (if ipr_state ipr1 \<noteq> Running then terminateRequest False rid ipr1 ?rm
     else case ipr_reconciledLoader ipr1 of None \<Rightarrow> None
       | Some rl \<Rightarrow> Some (set_ipr rid (ipr1\<lparr>ipr_reconciledLoader := Some (SetRemoteOnline False rl)\<rparr>) (rm_call [CallCancelFn rid] ?rm)))"
    unfolding cancelOnError_def ipr option.case Let_def ipr1_def[symmetric] by (rule refl)
  show ?thesis
  proof (cases "ipr_state ipr1 = Running")
    case True
    then obtain rl where rl: "ipr_reconciledLoader ipr1 = Some rl" "rl_ok rl"
      using same(3) by (auto simp: ipr_ok_def)
    let ?ipr2 = "ipr1\<lparr>ipr_reconciledLoader := Some (SetRemoteOnline False rl)\<rparr>"
    have "ipr_ok rid ?ipr2" using same(3) rl SetRemoteOnline_ok(1)[OF rl(2)] by (simp add: ipr_ok_def)
    then have "safe_step (rm_call [CallCancelFn rid] ?rm) (Some (set_ipr rid ?ipr2 (rm_call [CallCancelFn rid] ?rm)))"
      using inv1 by (intro safe_stepI[OF refl] set_ipr_inv set_ipr_evolves[where ipr = ipr1]) auto
    moreover have "evolves ?rm (rm_call [CallCancelFn rid] ?rm)" by (rule rm_call_evolves) simp
    ultimately show ?thesis
      using True rl ev by (auto simp: unf intro: safe_step_trans evolves_trans)
  next
    case False
    have "safe_step ?rm (terminateRequest False rid ipr1 ?rm)"
      using inv1 same(3) by (intro terminate_safe) auto
    with False ev show ?thesis by (auto simp: unf intro: safe_step_trans)
  qed
qed

lemma cancelRequest_safe:
  assumes inv: "rm_inv rm"
  shows "safe_step rm (cancelRequest False rid onT err rm)"
proof (cases "mget (rm_inProgress rm) rid")
  case None
  have "evolves rm (rm_call [Reply ch e] rm)" for ch e by (rule rm_call_evolves) simp
  with None inv show ?thesis by (auto simp: cancelRequest_def safe_step_def split: option.split)
next
  case (Some ipr)
  define ipr1 where "ipr1 = (case onT of None \<Rightarrow> ipr | Some ch \<Rightarrow> ipr\<lparr>ipr_onTerminated := ipr_onTerminated ipr @ [ch]\<rparr>)"
  have same: "ipr_p ipr1 = ipr_p ipr" "ipr_ok rid ipr1"
    using rm_invD[OF inv Some] by (simp_all add: ipr1_def ipr_ok_def split: option.split)
  let ?rm = "SendRequest (ipr_p ipr1) (NewCancelRequest rid) (set_ipr rid ipr1 rm)"
  have ev: "evolves rm ?rm" using set_ipr_evolves[OF Some same(1)] SendRequest_step(3) by (rule evolves_trans)
  have "safe_step ?rm (cancelOnError False rid err ?rm)"
    using set_ipr_inv[OF inv same(2)] by (intro cancelOnError_safe) auto
  with ev Some show ?thesis by (auto simp: cancelRequest_def ipr1_def Let_def intro: safe_step_trans)
qed

lemma processExtensionsForResponse_safe:
  assumes inv: "rm_inv rm"
  shows "\<exists>b rm'. processExtensionsForResponse env False p r rm = Some (b, rm') \<and> rm_inv rm' \<and> evolves rm rm'"
proof -
  let ?res = "ProcessResponseHooks env p r"
  define rm1 where "rm1 = (if length (ur_Extensions ?res) > 0
    then SendRequest p (NewUpdateRequest (gsp_requestID r) (ur_Extensions ?res)) rm else rm)"
  have rm1: "rm_inv rm1" "evolves rm rm1" "rm_inProgress rm1 = rm_inProgress rm"
    using inv by (simp_all add: rm1_def)
  have unf: "processExtensionsForResponse env False p r rm =
    (case ur_Err ?res of None \<Rightarrow> Some (True, rm1)
     | Some err \<Rightarrow> (case mget (rm_inProgress rm1) (gsp_requestID r) of None \<Rightarrow> Some (False, rm1)
        | Some st \<Rightarrow> map_option (Pair False) (cancelOnError False (gsp_requestID r) (Some err)
            (SendRequest (ipr_p st) (NewCancelRequest (gsp_requestID r)) rm1))))"
    unfolding processExtensionsForResponse_def Let_def rm1_def[symmetric] by (rule refl)
  have "safe_step rm1 (cancelOnError False (gsp_requestID r) err (SendRequest q c rm1))"
    if "mget (rm_inProgress rm1) (gsp_requestID r) = Some st" for err q c st
    using rm1(1) that by (intro safe_step_trans[OF SendRequest_step(3) cancelOnError_safe]) auto
  note cancel = this
  show ?thesis
  proof (cases "ur_Err ?res = None \<or> mget (rm_inProgress rm1) (gsp_requestID r) = None")
    case True
    then show ?thesis using rm1 by (auto simp: unf split: option.split)
  next
    case False
    then obtain err st where e: "ur_Err ?res = Some err" "mget (rm_inProgress rm1) (gsp_requestID r) = Some st" by auto
    from cancel[OF e(2)] obtain rm2 where "cancelOnError False (gsp_requestID r) (Some err)
      (SendRequest (ipr_p st) (NewCancelRequest (gsp_requestID r)) rm1) = Some rm2" "rm_inv rm2" "evolves rm1 rm2"
      unfolding safe_step_def by blast
    with e rm1(2) evolves_trans show ?thesis by (auto simp: unf)
  qed
qed

lemma subseq_distinct: "subseq xs ys \<Longrightarrow> distinct ys \<Longrightarrow> distinct xs"
  by (induction rule: list_emb.induct) (auto dest: list_emb_set)

lemma processExtensions_safe:
  assumes "rm_inv rm"
  shows "\<exists>rs rm'. processExtensions env False responses p rm = Some (rs, rm') \<and> rm_inv rm' \<and> evolves rm rm' \<and> subseq rs responses"
  using assms
proof (induction responses arbitrary: rm)
  case (Cons r responses)
  from processExtensionsForResponse_safe[OF Cons.prems, of env p r] obtain b rm1 where
    1: "processExtensionsForResponse env False p r rm = Some (b, rm1)" "rm_inv rm1" "evolves rm rm1" by blast
  from Cons.IH[OF 1(2)] obtain rs rm2 where
    2: "processExtensions env False responses p rm1 = Some (rs, rm2)" "rm_inv rm2" "evolves rm1 rm2" "subseq rs responses"
    by blast
  with 1 evolves_trans[OF 1(3) 2(3)] show ?case by (cases b) auto
qed simp

definition all_in_progress :: "'n gs_response list \<Rightarrow> ('n, 's) request_manager \<Rightarrow> bool" where
  "all_in_progress responses rm \<longleftrightarrow> (\<forall>r \<in> set responses. mget (rm_inProgress rm) (gsp_requestID r) \<noteq> None)"

lemma filter_in_progress: "all_in_progress (filterResponsesForPeer responses p rm) rm"
  by (auto simp: all_in_progress_def filterResponsesForPeer_def split: option.splits)

text \<open>Storing something in the status of a request that is in progress.\<close>

lemma set_ipr_safe:
  assumes "rm_inv rm" "mget (rm_inProgress rm) rid = Some ipr" "ipr_p ipr' = ipr_p ipr" "ipr_ok rid ipr'"
  shows "rm_inv (set_ipr rid ipr' rm)" "evolves rm (set_ipr rid ipr' rm)"
    "all_in_progress rs (set_ipr rid ipr' rm) \<longleftrightarrow> all_in_progress rs rm"
  using assms set_ipr_inv set_ipr_evolves by (auto simp: all_in_progress_def)

lemma ingestResponses_safe:
  assumes "rm_inv rm" "all_in_progress responses rm" "all_in_progress all rm"
  shows "\<exists>rm'. ingestResponses env blkMap responses rm = Some rm' \<and> rm_inv rm' \<and> evolves rm rm' \<and> all_in_progress all rm'"
  using assms
proof (induction responses arbitrary: rm)
  case (Cons r responses)
  let ?rid = "gsp_requestID r"
  from Cons.prems(2) obtain ipr where ipr: "mget (rm_inProgress rm) ?rid = Some ipr" by (auto simp: all_in_progress_def)
  note ok = rm_invD[OF Cons.prems(1) ipr]
  show ?case
  proof (cases "ipr_reconciledLoader ipr")
    case None
    with Cons ipr show ?thesis by (auto simp: all_in_progress_def)
  next
    case (Some rl)
    with ok have "rl_ok rl" by (simp add: ipr_ok_def)
    from IngestResponse_ok[OF this] obtain rl' where
      rl': "IngestResponse (pool_picks env ?rid) (md_pairs (gsp_metadata r)) blkMap rl = Some rl'" "rl_ok rl'" by blast
    let ?ipr' = "ipr\<lparr>ipr_reconciledLoader := Some rl'\<rparr>"
    have "ipr_ok ?rid ?ipr'" using ok Some rl'(2) by (simp add: ipr_ok_def)
    note s = set_ipr_safe[OF Cons.prems(1) ipr _ this, simplified]
    have "all_in_progress responses (set_ipr ?rid ?ipr' rm)" using Cons.prems(2) s(3) by (auto simp: all_in_progress_def)
    from Cons.IH[OF s(1) this] s(2,3) Cons.prems(3) ipr Some rl'(1) show ?thesis
      by (auto intro: evolves_trans)
  qed
qed auto

lemma updateLastResponses_safe:
  assumes "rm_inv rm" "all_in_progress responses rm" "all_in_progress all rm"
  shows "\<exists>rm'. updateLastResponses responses rm = Some rm' \<and> rm_inv rm' \<and> evolves rm rm' \<and> all_in_progress all rm'"
  using assms
proof (induction responses arbitrary: rm)
  case (Cons r responses)
  let ?rid = "gsp_requestID r"
  from Cons.prems(2) obtain ipr where ipr: "mget (rm_inProgress rm) ?rid = Some ipr" by (auto simp: all_in_progress_def)
  let ?ipr' = "ipr\<lparr>ipr_lastResponse := r\<rparr>"
  have "ipr_ok ?rid ?ipr'" using rm_invD[OF Cons.prems(1) ipr] by (simp add: ipr_ok_def)
  note s = set_ipr_safe[OF Cons.prems(1) ipr _ this, simplified]
  have "all_in_progress responses (set_ipr ?rid ?ipr' rm)" using Cons.prems(2) s(3) by (auto simp: all_in_progress_def)
  from Cons.IH[OF s(1) this] s(2,3) Cons.prems(3) ipr show ?case by (auto intro: evolves_trans)
qed auto

lemma goOffline_safe:
  assumes "rm_inv rm"
  shows "rm_inv (goOffline rid rm)" "evolves rm (goOffline rid rm)"
    "all_in_progress rs (goOffline rid rm) \<longleftrightarrow> all_in_progress rs rm"
proof -
  have "rm_inv (goOffline rid rm) \<and> evolves rm (goOffline rid rm) \<and> (all_in_progress rs (goOffline rid rm) \<longleftrightarrow> all_in_progress rs rm)"
  proof (cases "mget (rm_inProgress rm) rid")
    case (Some ipr)
    show ?thesis
    proof (cases "ipr_reconciledLoader ipr")
      case loader: (Some rl)
      let ?ipr' = "ipr\<lparr>ipr_reconciledLoader := Some (SetRemoteOnline False rl)\<rparr>"
      have "ipr_ok rid ?ipr'"
        using rm_invD[OF assms Some] loader SetRemoteOnline_ok(1)[of rl False] by (simp add: ipr_ok_def)
      from set_ipr_safe[OF assms Some _ this, simplified] Some loader show ?thesis by (simp add: goOffline_def)
    qed (use Some assms in \<open>simp add: goOffline_def\<close>)
  qed (use assms in \<open>simp add: goOffline_def\<close>)
  then show "rm_inv (goOffline rid rm)" "evolves rm (goOffline rid rm)"
    "all_in_progress rs (goOffline rid rm) \<longleftrightarrow> all_in_progress rs rm" by blast+
qed

text \<open>Cancelling one request takes no other out of the map.\<close>

lemma terminateRequest_others:
  "terminateRequest d rid ipr rm = Some rm' \<Longrightarrow> r \<noteq> rid \<Longrightarrow> mget (rm_inProgress rm') r = mget (rm_inProgress rm) r"
  by (auto simp: terminateRequest_def Let_def rm_call_def bind_eq_Some_conv split: option.splits if_splits)

lemma cancelOnError_others:
  "cancelOnError d rid err rm = Some rm' \<Longrightarrow> r \<noteq> rid \<Longrightarrow> mget (rm_inProgress rm') r = mget (rm_inProgress rm) r"
  by (auto simp: cancelOnError_def Let_def split: option.splits if_splits dest: terminateRequest_others)

lemma processTerminations_safe:
  fixes rm :: "('n, 's) request_manager"
  assumes "rm_inv rm" "all_in_progress responses rm" "distinct (map gsp_requestID responses)"
  shows "safe_step rm (processTerminations False responses rm)"
  using assms
proof (induction responses arbitrary: rm)
  case (Cons r responses)
  let ?rid = "gsp_requestID r"
  have dist: "distinct (map gsp_requestID responses)" "?rid \<notin> gsp_requestID ` set responses" using Cons.prems(3) by auto
  have go: "safe_step rm1 (processTerminations False responses (goOffline ?rid rm1))"
    if "rm_inv rm1" "all_in_progress responses rm1" for rm1 :: "('n, 's) request_manager"
    using goOffline_safe[OF that(1)] that(2) dist(1) by (intro safe_step_trans[OF goOffline_safe(2)[OF that(1)] Cons.IH]) auto
  have rest: "all_in_progress responses rm" using Cons.prems(2) by (auto simp: all_in_progress_def)
  have "safe_step rm (cancelOnError False ?rid err rm)" for err
    using Cons.prems(1,2) by (intro cancelOnError_safe) (auto simp: all_in_progress_def)
  moreover have "all_in_progress responses rm1" if "cancelOnError False ?rid err rm = Some rm1" for err rm1
    using rest dist(2) cancelOnError_others[OF that] by (auto simp: all_in_progress_def image_iff)
  ultimately have "safe_step rm (Option.bind (cancelOnError False ?rid err rm)
      (\<lambda>rm. processTerminations False responses (goOffline ?rid rm)))" for err
    by (intro safe_step_bind) (auto intro: go)
  then show ?case using go[OF Cons.prems(1) rest] Cons.IH[OF Cons.prems(1) rest dist(1)] by simp
qed (simp add: safe_step_def)

lemma processResponses_safe:
  assumes inv: "rm_inv rm" and dist: "distinct (map gsp_requestID responses)"
  shows "safe_step rm (processResponses env False p responses blks rm)"
proof -
  from processExtensions_safe[OF inv, of env responses p] obtain rs rm1 where
    1: "processExtensions env False responses p rm = Some (rs, rm1)" "rm_inv rm1" "evolves rm rm1" "subseq rs responses" by blast
  define fs where "fs = filterResponsesForPeer rs p rm1"
  have fs: "all_in_progress fs rm1" "distinct (map gsp_requestID fs)"
  proof -
    have "subseq (map gsp_requestID rs) (map gsp_requestID responses)" using 1(4) by (rule subseq_map)
    then have "distinct (map gsp_requestID rs)" using dist subseq_distinct by blast
    then show "distinct (map gsp_requestID fs)"
      by (simp add: fs_def filterResponsesForPeer_def distinct_map_filter)
  qed (simp add: fs_def filter_in_progress)
  let ?blk = "foldl (\<lambda>m blk. mput (blk_Cid blk) (blk_RawData blk) m) [] blks"
  from ingestResponses_safe[OF 1(2) fs(1) fs(1), of env ?blk] obtain rm2 where
    2: "ingestResponses env ?blk fs rm1 = Some rm2" "rm_inv rm2" "evolves rm1 rm2" "all_in_progress fs rm2" by blast
  from updateLastResponses_safe[OF 2(2,4,4)] obtain rm3 where
    3: "updateLastResponses fs rm2 = Some rm3" "rm_inv rm3" "evolves rm2 rm3" "all_in_progress fs rm3" by blast
  have "evolves rm rm3" using 1(3) 2(3) 3(3) evolves_trans by blast
  moreover have "processResponses env False p responses blks rm = processTerminations False fs rm3"
    unfolding processResponses_def by (simp add: 1(1) fs_def[symmetric] 2(1) 3(1) Let_def)
  ultimately show ?thesis using processTerminations_safe[OF 3(2,4) fs(2)] by (auto intro: safe_step_trans)
qed

section \<open>Messages and reachable states\<close>

lemma requestTask_safe:
  assumes inv: "rm_inv rm"
  shows "rm_inv (snd (requestTask rid rm))" "evolves rm (snd (requestTask rid rm))"
proof -
  have "rm_inv (snd (requestTask rid rm)) \<and> evolves rm (snd (requestTask rid rm))"
  proof (cases "mget (rm_inProgress rm) rid")
    case None
    with inv show ?thesis by (simp add: requestTask_def)
  next
    case (Some ipr)
    note ok = rm_invD[OF inv Some]
    let ?cs = "[CallStartTraverser rid (if rm_maxLinksPerRequest rm > 0 then Some (rm_maxLinksPerRequest rm) else None),
      CallNotifyProcessing (ipr_p ipr) rid (length (rm_inProgress rm))]"
    let ?ipr1 = "ipr\<lparr>ipr_traverser := True, ipr_reconciledLoader :=
      Some (NewReconciledLoader (fst (ipr_lsys ipr)) (snd (ipr_lsys ipr)) \<lparr>cells = [], pool = []\<rparr>)\<rparr>"
    have ok1: "ipr_ok rid (?ipr1\<lparr>ipr_state := Running\<rparr>)" using rl_ok_new(1) by (simp add: ipr_ok_def)
    have ev: "evolves rm (rm_call ?cs rm)" by (rule rm_call_evolves) simp
    have first: "rm_inv (set_ipr rid (?ipr1\<lparr>ipr_state := Running\<rparr>) (rm_call ?cs rm))"
      "evolves (rm_call ?cs rm) (set_ipr rid (?ipr1\<lparr>ipr_state := Running\<rparr>) (rm_call ?cs rm))"
      using set_ipr_safe[OF _ _ _ ok1, of "rm_call ?cs rm" ipr] inv Some by auto
    have again: "ipr_ok rid (ipr\<lparr>ipr_state := Running\<rparr>)" if "ipr_traverser ipr" using ok that by (simp add: ipr_ok_def)
    show ?thesis
    proof (cases "ipr_traverser ipr")
      case True
      with again set_ipr_safe[OF inv Some _ again] Some show ?thesis by (simp add: requestTask_def)
    next
      case False
      with first evolves_trans[OF ev first(2)] Some show ?thesis by (simp add: requestTask_def Let_def)
    qed
  qed
  then show "rm_inv (snd (requestTask rid rm))" "evolves rm (snd (requestTask rid rm))" by blast+
qed

lemma reply_safe: "rm_inv rm' \<Longrightarrow> evolves rm rm' \<Longrightarrow> (\<And>rid. filter (life_event rid) cs = []) \<Longrightarrow> safe_step rm (Some (rm_call cs rm'))"
  using evolves_trans[OF _ rm_call_evolves] by (fastforce simp: safe_step_def)

lemma pausing_safe:
  assumes inv: "rm_inv rm"
  shows "rm_inv (snd (rm_unpause rid exts rm)) \<and> evolves rm (snd (rm_unpause rid exts rm))"
    "rm_inv (snd (rm_pause rid rm)) \<and> evolves rm (snd (rm_pause rid rm))"
    "rm_inv (snd (rm_update rid exts rm)) \<and> evolves rm (snd (rm_update rid exts rm))"
proof -
  show "rm_inv (snd (rm_update rid exts rm)) \<and> evolves rm (snd (rm_update rid exts rm))"
    using inv by (simp add: rm_update_def split: option.split)
  show "rm_inv (snd (rm_pause rid rm)) \<and> evolves rm (snd (rm_pause rid rm))"
  proof (cases "mget (rm_inProgress rm) rid")
    case (Some ipr)
    have "ipr_ok rid (ipr\<lparr>ipr_pauseMessages := True\<rparr>)" using rm_invD[OF inv Some] by (simp add: ipr_ok_def)
    from set_ipr_safe[OF inv Some _ this] Some inv show ?thesis by (simp add: rm_pause_def)
  qed (use inv in \<open>simp add: rm_pause_def\<close>)
  show "rm_inv (snd (rm_unpause rid exts rm)) \<and> evolves rm (snd (rm_unpause rid exts rm))"
  proof (cases "mget (rm_inProgress rm) rid")
    case (Some ipr)
    let ?ipr' = "ipr\<lparr>ipr_state := Queued, ipr_request := ReplaceExtensions (ipr_request ipr) exts\<rparr>"
    have "ipr_ok rid ?ipr'" using rm_invD[OF inv Some] by (simp add: ipr_ok_def)
    note s = set_ipr_safe[OF inv Some _ this, simplified]
    have "evolves (set_ipr rid ?ipr' rm) (rm_call [CallPushTask (ipr_p ipr) rid] (set_ipr rid ?ipr' rm))"
      by (rule rm_call_evolves) simp
    with s(1) evolves_trans[OF s(2)] Some inv show ?thesis by (simp add: rm_unpause_def)
  qed (use inv in \<open>simp add: rm_unpause_def\<close>)
qed

text \<open>What the callers of the manager keep to: a message from the network has one response per request,
  and a new request has an identifier that was not used before.\<close>

fun message_ok :: "'n rm_message \<Rightarrow> ('n, 's) request_manager \<Rightarrow> bool" where
  "message_ok (ProcessResponsesMessage p responses blks) rm \<longleftrightarrow> distinct (map gsp_requestID responses)"
| "message_ok (NewRequestMessage rid p root selector extensions ch) rm \<longleftrightarrow> life rid rm = []"
| "message_ok _ rm \<longleftrightarrow> True"

fun is_new :: "'n rm_message \<Rightarrow> bool" where
  "is_new (NewRequestMessage rid p root selector extensions ch) = True"
| "is_new _ = False"

lemma handle_safe:
  assumes inv: "rm_inv rm" and ok: "message_ok m rm" and new: "\<not> is_new m"
  shows "safe_step rm (rm_handle env False m rm)"
proof (cases m)
  case (GetRequestTaskMessage p rid)
  obtain b rm1 where t: "requestTask rid rm = (b, rm1)" by fastforce
  then have rm1: "rm_inv rm1" "evolves rm rm1" using requestTask_safe[OF inv, of rid] by simp_all
  have "evolves rm (rm_call [CallTaskDone p rid] rm1)" using rm1(2) by (rule evolves_trans) (rule rm_call_evolves, simp)
  then show ?thesis using GetRequestTaskMessage rm1
    by (cases b) (auto simp: getRequestTask_def t intro!: reply_safe)
next
  case (ReleaseRequestTaskMessage p rid err ch)
  then show ?thesis using release_safe[OF inv] by (auto intro!: safe_step_bind reply_safe)
qed (use pausing_safe[OF inv] processResponses_safe[OF inv] cancelRequest_safe[OF inv] inv ok new
      in \<open>auto simp: reply_err_def intro!: reply_safe\<close>)

text \<open>A new request begins its life, or is refused and leaves no trace.\<close>

lemma ReplaceExtensions_lookup:
  "gsr_id (ReplaceExtensions gsr exts) = gsr_id gsr"
  "req_Extension (ReplaceExtensions gsr exts) name =
     merge_entry (\<lambda>name oldData newData. Inr newData) name (ext_present gsr name) (ext_given exts name)"
  "gsr_requestType (ReplaceExtensions gsr exts) = gsr_requestType gsr"
proof -
  let ?f = "\<lambda>name oldData newData. Inr newData"
  obtain req where req: "MergeExtensions gsr exts ?f = Inr req" "req\<lparr>gsr_extensions := gsr_extensions gsr\<rparr> = gsr"
    "\<forall>name. req_Extension req name = merge_entry ?f name (ext_present gsr name) (ext_given exts name)"
  proof (cases "gsr_extensions gsr")
    case None
    with merge_into_nil[OF None, of exts ?f] that show thesis by (auto simp: ext_present_def)
  next
    case (Some m)
    from merge_replace_ok[of gsr exts] merge_fails[OF Some, of ?f exts]
    obtain res where "mergeNew ?f m (new_map exts) [] = Inr res"
      by (cases "mergeNew ?f m (new_map exts) []") auto
    from merge_into_map[OF Some this] Some that show thesis by (auto simp: ext_present_def)
  qed
  have "ReplaceExtensions gsr exts = req" using merge_replace_ok[of gsr exts] req(1) by simp
  moreover have "gsr_id (req\<lparr>gsr_extensions := gsr_extensions gsr\<rparr>) = gsr_id gsr"
    "gsr_requestType (req\<lparr>gsr_extensions := gsr_extensions gsr\<rparr>) = gsr_requestType gsr" using req(2) by simp_all
  ultimately show "gsr_id (ReplaceExtensions gsr exts) = gsr_id gsr"
    "req_Extension (ReplaceExtensions gsr exts) name = merge_entry ?f name (ext_present gsr name) (ext_given exts name)"
    "gsr_requestType (ReplaceExtensions gsr exts) = gsr_requestType gsr"
    using req(3) by simp_all
qed

lemma ext_given_set: "ext_given exts name = Some d \<Longrightarrow> \<exists>e \<in> set exts. ed_Data e = d"
  by (auto simp: ext_given_def dest!: map_of_SomeD)

lemma NewRequest_ext_present: "ext_present (NewRequest rid root sel prio exts) name = ext_given exts name"
  using new_map_lookup[of exts name]
  by (auto simp: ext_present_def NewRequest_def newRequest_def split: option.splits)

lemma NewRequest_lookup:
  "gsr_id (NewRequest rid root sel prio exts) = rid"
  "req_Extension (NewRequest rid root sel prio exts) name = (case ext_given exts name of None \<Rightarrow> (None, False) | Some d \<Rightarrow> (d, True))"
  using toExtensionsMap_lookup[of exts name] by (simp_all add: NewRequest_def newRequest_def req_Extension_def ext_given_def)

lemma validateRequest_request:
  assumes "validateRequest env rid p root sel exts rm = Inr (req, hooksResult, lsys)"
  shows "gsr_id req = rid"
    and "(\<And>e. e \<in> set exts \<Longrightarrow> ed_Data e \<noteq> None) \<Longrightarrow> req_Extension req name = (d, True) \<Longrightarrow> d \<noteq> None"
proof -
  from assms obtain c where "req = NewRequest rid c sel defaultPriority exts \<or>
      (\<exists>n. req = ReplaceExtensions (NewRequest rid c sel defaultPriority exts) [\<lparr>ed_Name = ExtensionDeDupByKey, ed_Data = Some n\<rparr>])"
    by (auto simp: validateRequest_def Let_def split: option.splits sum.splits if_splits)
  then show "gsr_id req = rid"
    "(\<And>e. e \<in> set exts \<Longrightarrow> ed_Data e \<noteq> None) \<Longrightarrow> req_Extension req name = (d, True) \<Longrightarrow> d \<noteq> None"
    by (auto simp: ReplaceExtensions_lookup NewRequest_lookup NewRequest_ext_present merge_entry_def
        split: option.splits dest: ext_given_set) (fastforce dest: ext_given_set)+
qed

text \<open>A message that begins a request either refuses it, changing nothing but the answer it gives, or
  adds it to the requests in progress and protects its connection.\<close>

definition begins :: "request_id \<Rightarrow> peer_id \<Rightarrow> ('n, 's) request_manager \<Rightarrow> ('n, 's) request_manager \<Rightarrow> bool" where
  "begins rid p rm rm' \<longleftrightarrow>
     peer_of rm' rid = Some p \<and> life rid rm' = life rid rm @ [CallProtect p rid] \<and> (\<forall>r. r \<noteq> rid \<longrightarrow> goes_on r rm rm')"

lemma newRequest_begins:
  assumes inv: "rm_inv rm"
    and n: "rm_newRequest env rid p root sel exts rm = Some (err, rm')"
  shows "rm_inv rm' \<and> (if err = None then begins rid p rm rm' else rm' = rm)"
  using n
proof (cases "validateRequest env rid p root sel exts rm")
  case (Inr v)
  obtain req hr ls where v: "v = (req, hr, ls)" by (cases v)
  note val = Inr[unfolded v]
  obtain d has where ext: "req_Extension req ExtensionsDoNotSendFirstBlocks = (d, has)" by fastforce
  from n obtain r where "(if has then DecodeDoNotSendFirstBlocks (node_ops env) d else Some (Inr 0)) = Some r"
    by (auto simp: rm_newRequest_def val ext Let_def bind_eq_Some_conv)
  with n validateRequest_request(1)[OF val] have "err \<noteq> None \<and> rm' = rm \<or>
      (\<exists>ipr. rm' = rm_call [CallProtect p rid, CallPushTask p rid] (set_ipr rid ipr rm) \<and>
         err = None \<and> ipr_p ipr = p \<and> ipr_state ipr = Queued \<and> \<not> ipr_traverser ipr \<and> ipr_reconciledLoader ipr = None)"
    by (cases r) (auto simp: rm_newRequest_def val ext Let_def split: if_splits intro!: exI[where P = "\<lambda>ipr. rm_call _ (set_ipr _ _ _) = rm_call _ (set_ipr _ ipr _) \<and> _ ipr"])
  then show ?thesis
    using inv by (auto simp: begins_def goes_on_def peer_of_def life_def ipr_ok_def intro!: set_ipr_inv)
qed (use inv in \<open>auto simp: rm_newRequest_def\<close>)

lemma newRequest_returns:
  assumes "\<And>e. e \<in> set exts \<Longrightarrow> ed_Data e \<noteq> None"
  shows "rm_newRequest env rid p root sel exts rm \<noteq> None"
proof (cases "validateRequest env rid p root sel exts rm")
  case (Inr v)
  obtain req hr ls where v: "v = (req, hr, ls)" by (cases v)
  note val = Inr[unfolded v]
  obtain d has where ext: "req_Extension req ExtensionsDoNotSendFirstBlocks = (d, has)" by fastforce
  have "has \<Longrightarrow> d \<noteq> None" using validateRequest_request(2)[OF val assms] ext by auto
  then show ?thesis by (auto simp: rm_newRequest_def val ext DecodeDoNotSendFirstBlocks_def split: sum.splits)
qed (simp add: rm_newRequest_def)

text \<open>Between two messages the executor of a running request works on its loader and clears its
  pause signal.\<close>

inductive rm_step :: "('n, 's) request_manager \<Rightarrow> ('n, 's) request_manager \<Rightarrow> bool" where
  message: "message_ok m rm \<Longrightarrow> rm_handle env False m rm = Some rm' \<Longrightarrow> rm_step rm rm'"
| executor: "mget (rm_inProgress rm) rid = Some ipr \<Longrightarrow> ipr_state ipr = Running \<Longrightarrow> rl_ok rl \<Longrightarrow>
    rm_step rm (set_ipr rid (ipr\<lparr>ipr_reconciledLoader := Some rl, ipr_pauseMessages := paused\<rparr>) rm)"

inductive rm_reachable :: "('n, 's) request_manager \<Rightarrow> bool" where
  start: "rm_reachable (rm_New po ls maxLinks)"
| step: "rm_reachable rm \<Longrightarrow> rm_step rm rm' \<Longrightarrow> rm_reachable rm'"

definition well_lived :: "request_id \<Rightarrow> ('n, 's) request_manager \<Rightarrow> bool" where
  "well_lived rid rm \<longleftrightarrow>
     (case peer_of rm rid of
        Some p \<Rightarrow> life rid rm = [CallProtect p rid]
      | None \<Rightarrow> life rid rm = [] \<or> (\<exists>p err. life rid rm = CallProtect p rid # last_words rid p err))"

lemma well_lived_evolves: "well_lived rid rm \<Longrightarrow> evolves rm rm' \<Longrightarrow> well_lived rid rm'"
  unfolding evolves_def ends_def goes_on_def well_lived_def
  by (drule spec[of _ rid]) (auto split: option.splits)

lemma well_lived_begins: "well_lived r rm \<Longrightarrow> life rid rm = [] \<Longrightarrow> begins rid p rm rm' \<Longrightarrow> well_lived r rm'"
  by (cases "r = rid") (auto simp: begins_def well_lived_def goes_on_def split: option.splits)

lemma rm_step_keeps:
  assumes "rm_step rm rm'" "rm_inv rm" "\<And>rid. well_lived rid rm"
  shows "rm_inv rm' \<and> (\<forall>rid. well_lived rid rm')"
  using assms
proof cases
  case (message m env)
  show ?thesis
  proof (cases "is_new m")
    case False
    from handle_safe[OF assms(2) message(1) this, of env] message(2) have "rm_inv rm'" "evolves rm rm'"
      by (auto simp: safe_step_def)
    with assms(3) well_lived_evolves show ?thesis by blast
  next
    case True
    then obtain rid p root sel exts ch where m: "m = NewRequestMessage rid p root sel exts ch" by (cases m) auto
    from message(2)[unfolded m] obtain err rm1 c where n: "rm_newRequest env rid p root sel exts rm = Some (err, rm1)"
      "rm' = rm_call [c] rm1" "\<And>r. \<not> life_event r c"
      by (auto simp: bind_eq_Some_conv split: option.splits)
    note b = newRequest_begins[OF assms(2) n(1)]
    have "well_lived r rm1" for r
      using b assms(3)[of r] message(1)[unfolded m] well_lived_begins[OF assms(3)[of r]] by (cases err) auto
    moreover have "evolves rm1 rm'" unfolding n(2) by (rule rm_call_evolves) (simp add: n(3))
    ultimately show ?thesis using b n(2) well_lived_evolves by auto
  qed
next
  case (executor rid ipr rl paused)
  let ?ipr' = "ipr\<lparr>ipr_reconciledLoader := Some rl, ipr_pauseMessages := paused\<rparr>"
  have "ipr_ok rid ?ipr'" using rm_invD[OF assms(2) executor(2)] executor(3,4) by (simp add: ipr_ok_def)
  note s = set_ipr_safe[OF assms(2) executor(2) _ this, simplified]
  show ?thesis using s(1) well_lived_evolves[OF assms(3) s(2)] unfolding executor(1) by blast
qed

lemma reachable_keeps:
  fixes rm :: "('n, 's) request_manager"
  assumes "rm_reachable rm"
  shows "rm_inv rm \<and> (\<forall>rid. well_lived rid rm)"
  using assms
proof induction
  case (step rm rm')
  then show ?case using rm_step_keeps by blast
qed (simp add: rm_New_def rm_inv_def well_lived_def peer_of_def life_def)

text \<open>C5: The life of a request. In every reachable state of the manager a request that is in progress
  has had its connection protected once and has been told nothing final; one that is no longer in
  progress was refused at once, or has had its connection protected and unprotected once for the same peer,
  received at most one terminal error, before its channels were closed, and had them closed exactly once.
  A running request has a loader, and every loader is in a good state.\<close>

theorem request_lifecycle:
  assumes "rm_reachable rm"
  shows "(case mget (rm_inProgress rm) rid of
            Some ipr \<Rightarrow> ipr_ok rid ipr \<and> life rid rm = [CallProtect (ipr_p ipr) rid]
          | None \<Rightarrow> life rid rm = [] \<or> (\<exists>p err. life rid rm = CallProtect p rid # last_words rid p err))"
proof -
  have "rm_inv rm" "well_lived rid rm" using reachable_keeps[OF assms] by auto
  then show ?thesis by (auto simp: well_lived_def peer_of_def dest: rm_invD split: option.splits)
qed

definition example_env :: "simple_node rm_env" where
  "example_env =
     \<lparr>ParseSelector = (\<lambda>s. None), EncodeNode = (\<lambda>s. None),
      ProcessRequestHooks = (\<lambda>p r. \<lparr>rr_PersistenceOption = [], rr_CustomChooser = None\<rparr>),
      ProcessResponseHooks = (\<lambda>p r. \<lparr>ur_Err = (if gsp_status r = RequestRejected then Some (OtherErr ''hook'') else None), ur_Extensions = []\<rparr>),
      node_ops = simple_ops, pool_picks = (\<lambda>r. [])\<rparr>"

fun rm_run :: "'n rm_env \<Rightarrow> 'n rm_message list \<Rightarrow> ('n, 's) request_manager \<Rightarrow> ('n, 's) request_manager option" where
  "rm_run env [] rm = Some rm"
| "rm_run env (m # ms) rm = (if message_ok m rm then Option.bind (rm_handle env False m rm) (rm_run env ms) else None)"

lemma rm_run_reachable: "rm_reachable rm \<Longrightarrow> rm_run env ms rm = Some rm' \<Longrightarrow> rm_reachable rm'"
  by (induction ms arbitrary: rm) (auto simp: bind_eq_Some_conv split: if_splits dest: rm_reachable.step[OF _ rm_step.message])

definition example_requests :: "simple_node rm_message list" where
  "example_requests =
     [NewRequestMessage ''r1'' ''p'' (Some ''c'') None [] 0, NewRequestMessage ''r2'' ''q'' (Some ''d'') None [] 1,
      GetRequestTaskMessage ''q'' ''r2'',
      ProcessResponsesMessage ''p'' [NewResponse ''r1'' RequestFailedUnknown [] []] []]"

definition example_rm :: "(simple_node, (cid, bytes) gomap) request_manager" where
  "example_rm = the (rm_run example_env example_requests (rm_New [] (map_lsys, []) 0))"

lemma example_rm_runs: "rm_run example_env example_requests (rm_New [] (map_lsys, []) 0) = Some example_rm"
proof -
  have "rm_run example_env example_requests (rm_New [] (map_lsys, []) 0 :: (simple_node, (cid, bytes) gomap) request_manager) \<noteq> None"
    by code_simp
  then show ?thesis by (simp add: example_rm_def)
qed

lemma example_rm_reachable: "rm_reachable example_rm"
  using rm_run_reachable[OF rm_reachable.start example_rm_runs] .

theorem request_lifecycle_witness:
  "\<exists>p err. life ''r1'' example_rm = CallProtect p ''r1'' # last_words ''r1'' p err"
proof -
  have "mget (rm_inProgress example_rm) ''r1'' = None" "life ''r1'' example_rm \<noteq> []" by code_simp+
  with request_lifecycle[OF example_rm_reachable, of "''r1''"] show ?thesis by simp
qed

text \<open>The extensions of a new request have data.\<close>

fun no_nil_data :: "'n rm_message \<Rightarrow> bool" where
  "no_nil_data (NewRequestMessage rid p root selector extensions ch) \<longleftrightarrow> (\<forall>e \<in> set extensions. ed_Data e \<noteq> None)"
| "no_nil_data _ \<longleftrightarrow> True"



section \<open>What a message of responses does\<close>

lemma processExtensions_quiet:
  assumes "\<And>r. r \<in> set responses \<Longrightarrow> ur_Err (ProcessResponseHooks env p r) = None"
  shows "\<exists>cs. processExtensions env d responses p rm = Some (responses, rm_call cs rm)"
  using assms
proof (induction responses arbitrary: rm)
  case Nil
  show ?case by (auto simp: rm_call_def intro: exI[of _ "[]"])
next
  case (Cons r responses)
  have "\<exists>cs. processExtensionsForResponse env d p r rm = Some (True, rm_call cs rm)"
    using Cons.prems[of r] by (auto simp: processExtensionsForResponse_def Let_def SendRequest_def rm_call_def intro: exI[of _ "[]"])
  then obtain cs where 1: "processExtensionsForResponse env d p r rm = Some (True, rm_call cs rm)" by blast
  from Cons.IH[of "rm_call cs rm"] Cons.prems obtain cs' where
    "processExtensions env d responses p (rm_call cs rm) = Some (responses, rm_call cs' (rm_call cs rm))" by auto
  with 1 show ?case by (auto simp: rm_call_def intro: exI[of _ "cs @ cs'"])
qed

text \<open>One response of a message, on the status of the request it answers.\<close>

definition ingest_one :: "'n rm_env \<Rightarrow> (cid, bytes) gomap \<Rightarrow> 'n gs_response \<Rightarrow> ('n, 's) in_progress_request \<Rightarrow> ('n, 's) in_progress_request option" where
  "ingest_one env blkMap r ipr =
     (case ipr_reconciledLoader ipr of
        None \<Rightarrow> Some ipr
      | Some rl \<Rightarrow> map_option (\<lambda>rl. ipr\<lparr>ipr_reconciledLoader := Some rl\<rparr>)
                     (IngestResponse (pool_picks env (gsp_requestID r)) (md_pairs (gsp_metadata r)) blkMap rl))"

definition offline :: "('n, 's) in_progress_request \<Rightarrow> ('n, 's) in_progress_request" where
  "offline ipr = ipr\<lparr>ipr_reconciledLoader := map_option (SetRemoteOnline False) (ipr_reconciledLoader ipr)\<rparr>"

definition terminate_one :: "'n gs_response \<Rightarrow> ('n, 's) in_progress_request \<Rightarrow> ('n, 's) in_progress_request option" where
  "terminate_one r ipr =
     (if \<not> IsTerminal (gsp_status r) then Some ipr
      else if \<not> IsFailure (gsp_status r) then Some (offline ipr)
      else if ipr_state ipr \<noteq> Running then None
      else Some (offline (ipr\<lparr>ipr_terminalError :=
             (case ipr_terminalError ipr of None \<Rightarrow> AsError (gsp_status r) | Some e \<Rightarrow> Some e)\<rparr>)))"

definition answered :: "'n rm_env \<Rightarrow> (cid, bytes) gomap \<Rightarrow> 'n gs_response \<Rightarrow> ('n, 's) in_progress_request \<Rightarrow> ('n, 's) in_progress_request option" where
  "answered env blkMap r ipr =
     Option.bind (ingest_one env blkMap r ipr) (\<lambda>ipr. terminate_one r (ipr\<lparr>ipr_lastResponse := r\<rparr>))"

text \<open>The three loops over the responses of a message have one contract: each turn changes the status of the
  request its response answers, and no other.\<close>

definition statuses :: "('n, 's) request_manager \<Rightarrow> request_id \<Rightarrow> ('n, 's) in_progress_request option" where
  "statuses rm = mget (rm_inProgress rm)"

definition each ::
  "('n gs_response \<Rightarrow> 'a \<Rightarrow> 'a option) \<Rightarrow> 'n gs_response list \<Rightarrow> (request_id \<Rightarrow> 'a option) \<Rightarrow> request_id \<Rightarrow> 'a option" where
  "each f responses m rid =
     (case List.find (\<lambda>r. gsp_requestID r = rid) responses of None \<Rightarrow> m rid | Some r \<Rightarrow> Option.bind (m rid) (f r))"

definition turn :: "('n gs_response \<Rightarrow> 'a \<Rightarrow> 'a option) \<Rightarrow> 'n gs_response \<Rightarrow> (request_id \<Rightarrow> 'a option) \<Rightarrow> request_id \<Rightarrow> 'a option" where
  "turn f r m = m(gsp_requestID r := Option.bind (m (gsp_requestID r)) (f r))"

lemma find_id_None: "List.find (\<lambda>r. gsp_requestID r = rid) responses = None \<longleftrightarrow> rid \<notin> set (map gsp_requestID responses)"
  by (auto simp: find_None_iff)

lemma each_turn: "gsp_requestID x \<notin> set (map gsp_requestID xs) \<Longrightarrow> each f xs (turn f x m) = each f (x # xs) m"
  using find_id_None[of "gsp_requestID x" xs] by (auto simp: each_def turn_def fun_eq_iff split: option.split)

locale response_loop =
  fixes loop :: "'n gs_response list \<Rightarrow> ('n, 's) request_manager \<Rightarrow> ('n, 's) request_manager option"
    and f :: "'n gs_response \<Rightarrow> ('n, 's) in_progress_request \<Rightarrow> ('n, 's) in_progress_request option"
  assumes loop_nil: "loop [] rm = Some rm"
    and loop_turn: "loop (r # rs) rm = Some rm' \<Longrightarrow> \<exists>rm1. loop rs rm1 = Some rm' \<and> statuses rm1 = turn f r (statuses rm)"
begin

lemma loop_each:
  "loop responses rm = Some rm' \<Longrightarrow> distinct (map gsp_requestID responses) \<Longrightarrow> statuses rm' = each f responses (statuses rm)"
proof (induction responses arbitrary: rm)
  case Nil
  then show ?case by (simp add: loop_nil each_def fun_eq_iff)
next
  case (Cons r rs)
  from loop_turn[OF Cons.prems(1)] obtain rm1 where "loop rs rm1 = Some rm'" "statuses rm1 = turn f r (statuses rm)" by blast
  with Cons.IH[of rm1] Cons.prems(2) show ?case by (simp add: each_turn)
qed

end

interpretation ingest_loop: response_loop "ingestResponses env blkMap" "ingest_one env blkMap" for env blkMap
proof
  fix r :: "'a gs_response" and rs and rm rm' :: "('a, 'b) request_manager"
  assume "ingestResponses env blkMap (r # rs) rm = Some rm'"
  then show "\<exists>rm1. ingestResponses env blkMap rs rm1 = Some rm' \<and> statuses rm1 = turn (ingest_one env blkMap) r (statuses rm)"
    by (auto simp: ingest_one_def turn_def statuses_def fun_eq_iff bind_eq_Some_conv split: option.splits)
qed simp

interpretation update_loop: response_loop updateLastResponses "\<lambda>r ipr. Some (ipr\<lparr>ipr_lastResponse := r\<rparr>)"
proof
  fix r :: "'a gs_response" and rs and rm rm' :: "('a, 'b) request_manager"
  assume "updateLastResponses (r # rs) rm = Some rm'"
  then show "\<exists>rm1. updateLastResponses rs rm1 = Some rm' \<and>
      statuses rm1 = turn (\<lambda>r ipr. Some (ipr\<lparr>ipr_lastResponse := r\<rparr>)) r (statuses rm)"
    by (auto simp: turn_def statuses_def fun_eq_iff split: option.splits intro!: exI)
qed simp

lemma goOffline_statuses: "statuses (goOffline rid rm) = (statuses rm)(rid := map_option offline (statuses rm rid))"
  by (auto simp: goOffline_def statuses_def offline_def fun_eq_iff split: option.split)

lemma offline_twice: "SetRemoteOnline False (SetRemoteOnline False rl) = SetRemoteOnline False rl"
  by (simp add: SetRemoteOnline_def Let_def)

lemma terminateRequest_inProgress:
  "terminateRequest d rid ipr rm = Some rm' \<Longrightarrow> rm_inProgress rm' = mdel rid (rm_inProgress rm)"
  by (auto simp: terminateRequest_def Let_def rm_call_def bind_eq_Some_conv split: option.splits if_splits)

lemma cancelOnError_statuses:
  assumes "cancelOnError d rid err rm = Some rm'"
  shows "\<exists>ipr. statuses rm rid = Some ipr \<and> statuses rm' = (statuses rm)(rid :=
    if ipr_state ipr \<noteq> Running then None
    else Some (offline (ipr\<lparr>ipr_terminalError := (case ipr_terminalError ipr of None \<Rightarrow> err | Some e \<Rightarrow> Some e)\<rparr>)))"
proof -
  obtain ipr where ipr: "mget (rm_inProgress rm) rid = Some ipr" using assms by (auto simp: cancelOnError_def split: option.splits)
  define ipr1 where "ipr1 = (if ipr_terminalError ipr = None then ipr\<lparr>ipr_terminalError := err\<rparr> else ipr)"
  have ipr1: "ipr\<lparr>ipr_terminalError := (case ipr_terminalError ipr of None \<Rightarrow> err | Some e \<Rightarrow> Some e)\<rparr> = ipr1"
    "ipr_state ipr1 = ipr_state ipr"
    by (simp_all add: ipr1_def split: option.split)
  have "statuses rm' = (statuses rm)(rid := if ipr_state ipr \<noteq> Running then None else Some (offline ipr1))"
    using assms[unfolded cancelOnError_def ipr option.case Let_def ipr1_def[symmetric]] ipr1(2)
    by (auto simp: statuses_def offline_def fun_eq_iff split: if_splits option.splits dest!: terminateRequest_inProgress)
  with ipr show ?thesis unfolding ipr1(1)[symmetric] by (auto simp: statuses_def)
qed

lemma terminate_turn:
  assumes "processTerminations d (r # rs) rm = Some rm'"
  shows "\<exists>rm1. processTerminations d rs rm1 = Some rm' \<and> statuses rm1 = turn terminate_one r (statuses rm)"
proof (cases "IsTerminal (gsp_status r) \<and> IsFailure (gsp_status r)")
  case True
  with assms obtain rm1 where rm1: "cancelOnError d (gsp_requestID r) (AsError (gsp_status r)) rm = Some rm1"
    "processTerminations d rs (goOffline (gsp_requestID r) rm1) = Some rm'"
    by (auto simp: bind_eq_Some_conv)
  from cancelOnError_statuses[OF rm1(1)] obtain ipr where ipr: "statuses rm (gsp_requestID r) = Some ipr"
    "statuses rm1 = (statuses rm)(gsp_requestID r := if ipr_state ipr \<noteq> Running then None
      else Some (offline (ipr\<lparr>ipr_terminalError := (case ipr_terminalError ipr of None \<Rightarrow> AsError (gsp_status r) | Some e \<Rightarrow> Some e)\<rparr>)))"
    by blast
  have "offline (offline i) = offline i" for i :: "('a, 'b) in_progress_request"
    by (cases "ipr_reconciledLoader i") (simp_all add: offline_def offline_twice)
  then have "statuses (goOffline (gsp_requestID r) rm1) = turn terminate_one r (statuses rm)"
    using True ipr by (auto simp: goOffline_statuses turn_def terminate_one_def)
  with rm1(2) show ?thesis by blast
next
  case False
  have id: "turn terminate_one r (statuses rm) = statuses rm" if "\<not> IsTerminal (gsp_status r)"
    using that by (cases "statuses rm (gsp_requestID r)") (auto simp: turn_def terminate_one_def)
  have off: "statuses (goOffline (gsp_requestID r) rm) = turn terminate_one r (statuses rm)"
    if "IsTerminal (gsp_status r)"
    using that False by (cases "statuses rm (gsp_requestID r)") (auto simp: goOffline_statuses turn_def terminate_one_def)
  from assms False id off show ?thesis by (cases "IsTerminal (gsp_status r)") auto
qed

interpretation terminate_loop: response_loop "processTerminations d" terminate_one for d
  using terminate_turn by unfold_locales auto

lemma find_filter_peer:
  "List.find (\<lambda>r. gsp_requestID r = rid) (filterResponsesForPeer responses p rm) =
     (case statuses rm rid of
        None \<Rightarrow> None
      | Some ipr \<Rightarrow> if ipr_p ipr = p then List.find (\<lambda>r. gsp_requestID r = rid) responses else None)"
  unfolding filterResponsesForPeer_def statuses_def
  by (induction responses) (auto split: option.splits)



text \<open>The response hooks see a response before the manager looks whose request it answers: when a hook
  objects to a response from any peer, the request the response names is cancelled, also
  when it was made to another peer.\<close>

theorem hook_error_cancels_any_peers_request:
  fixes rm :: "('n, 's) request_manager"
  assumes "rm_reachable rm" "statuses rm (gsp_requestID r) = Some ipr" "ipr_state ipr \<noteq> Running"
    and err: "ur_Err (ProcessResponseHooks env p r) = Some e"
  shows "\<exists>rm'. processResponses env False p [r] blks rm = Some rm' \<and> statuses rm' (gsp_requestID r) = None"
proof -
  from processResponses_safe[of rm "[r]" env p blks] reachable_keeps[OF assms(1)] obtain rm' where
    rm': "processResponses env False p [r] blks rm = Some rm'" by (auto simp: safe_step_def)
  have "\<exists>rm0. processExtensionsForResponse env False p r rm =
      map_option (Pair False) (cancelOnError False (gsp_requestID r) (Some e) rm0) \<and> statuses rm0 = statuses rm"
    using err assms(2) unfolding processExtensionsForResponse_def Let_def
    by (auto simp: statuses_def intro: exI[where P = "\<lambda>x. _ (_ x) = _ (_ x) \<and> _ x", OF conjI[OF refl]])
  then obtain rm0 where rm0: "statuses rm0 = statuses rm"
    "processExtensionsForResponse env False p r rm = map_option (Pair False) (cancelOnError False (gsp_requestID r) (Some e) rm0)" by blast
  with rm' obtain rm1 where rm1: "cancelOnError False (gsp_requestID r) (Some e) rm0 = Some rm1"
    by (auto simp: processResponses_def bind_eq_Some_conv)
  from cancelOnError_statuses[OF this] rm0(1) assms(2,3) have "statuses rm1 (gsp_requestID r) = None" by auto
  then show ?thesis using rm0(2) rm1 by (simp add: processResponses_def Let_def filterResponsesForPeer_def)
qed

theorem hook_error_cancels_any_peers_request_witness:
  "\<exists>rm rm'. rm_run example_env (take 2 example_requests) (rm_New [] (map_lsys, []) 0 :: (simple_node, (cid, bytes) gomap) request_manager) = Some rm \<and>
     map_option ipr_p (statuses rm ''r2'') = Some ''q'' \<and>
     processResponses example_env False ''p'' [NewResponse ''r2'' RequestRejected [] []] [] rm = Some rm' \<and> statuses rm' ''r2'' = None"
proof -
  let ?new = "rm_New [] (map_lsys, []) 0 :: (simple_node, (cid, bytes) gomap) request_manager"
  have "map_option (\<lambda>rm. map_option ipr_p (statuses rm ''r2'')) (rm_run example_env (take 2 example_requests) ?new) = Some (Some ''q'')"
    "map_option (\<lambda>rm. map_option ipr_state (statuses rm ''r2'')) (rm_run example_env (take 2 example_requests) ?new) = Some (Some Queued)"
    by code_simp+
  then obtain rm ipr where rm: "rm_run example_env (take 2 example_requests) ?new = Some rm"
    "statuses rm ''r2'' = Some ipr" "ipr_p ipr = ''q''" "ipr_state ipr = Queued" by auto
  let ?r = "NewResponse ''r2'' RequestRejected [] [] :: simple_node gs_response"
  have r: "gsp_requestID ?r = ''r2''" "ur_Err (ProcessResponseHooks example_env ''p'' ?r) = Some (OtherErr ''hook'')" by code_simp+
  from hook_error_cancels_any_peers_request[OF rm_run_reachable[OF rm_reachable.start rm(1)], of ?r ipr, OF _ _ r(2), of "[]"]
  show ?thesis using rm r(1) by auto
qed

end
