(* ===== verification/Response_Manager.thy ===== *)
theory Response_Manager
  imports Message Ext_Codecs Peer_Manager
begin

text \<open>
  \<^verbatim>\<open>responsemanager\<close>: the single-threaded manager of the incoming requests, \<^verbatim>\<open>server.go\<close>, with the set-up of
  a response in \<^verbatim>\<open>preparequery.go\<close> and the messages of \<^verbatim>\<open>messages.go\<close> that reach it from the calls of
  \<^verbatim>\<open>client.go\<close>.

  The calls to the connection manager, the task queue, the response stream, the traverser and the
  listeners, and the answers to messages, are a log. A transaction on a response stream is the list of what
  its function does to the response builder; the error it returns is the function's own. Hooks are in
  the environment of a message. A link system is a value of type \<open>'l\<close>. \<open>ctxDone\<close> says that the manager's
  context is cancelled. A nil dereference is the result \<open>None\<close>.
\<close>

section \<open>State\<close>

datatype 'n rb_op =
    RbSendExtensionData "'n ext_data"
  | RbFinishWithError status_code
  | RbPauseRequest
  | RbSendUpdates "'n ext_data list"

datatype 'n rsm_call =
    RsProtect peer_id request_id
  | RsUnprotect peer_id request_id
  | RsPushTask peer_id request_id int
  | RsTaskDone peer_id request_id
  | RsRemoveTask request_id peer_id
  | RsNewStream peer_id request_id
  | RsTransaction peer_id request_id "'n rb_op list"
  | RsDedupKey peer_id request_id string
  | RsIgnoreBlocks peer_id request_id "cid list"
  | RsSkipFirstBlocks peer_id request_id i64
  | RsClearRequest peer_id request_id
  | RsNotifyProcessing peer_id "'n gs_request" nat
  | RsNotifyCancelled peer_id "'n gs_request"
  | RsStartTraverser request_id "u64 option"
  | RsCancelFn request_id
  | RsReply nat "gs_error option"
  | RsReplyUpdates nat "'n gs_request list"
  | RsReplyTask nat request_id bool
  | RsReplyDone nat
  | RsReplyPeerState nat peer_state

record ('n, 'l) in_progress_response =
  irs_peer :: peer_id
  irs_request :: "'n gs_request"
  irs_linkSystem :: 'l
  irs_customChooser :: "string option"
  irs_traverser :: bool
  irs_PauseSignal :: bool
  irs_UpdateSignal :: bool
  irs_ErrSignal :: "gs_error option"
  irs_updates :: "'n gs_request list"
  irs_state :: request_state

record ('n, 'l) response_manager =
  rsm_inProgress :: "(request_id, ('n, 'l) in_progress_response) gomap"
  rsm_linkSystem :: 'l
  rsm_maxLinksPerRequest :: u64
  rsm_calls :: "'n rsm_call list"

record ('n, 'l) hook_result =
  hr_IsValidated :: bool
  hr_IsPaused :: bool
  hr_CustomLinkSystem :: "'l option"
  hr_CustomChooser :: "string option"
  hr_Err :: "gs_error option"
  hr_Extensions :: "'n ext_data list"

record 'n update_hook_result =
  uhr_Err :: "gs_error option"
  uhr_Unpause :: bool
  uhr_Extensions :: "'n ext_data list"

record ('n, 'l) rsm_env =
  rsm_RequestHooks :: "peer_id \<Rightarrow> 'n gs_request \<Rightarrow> ('n, 'l) hook_result"
  rsm_UpdateHooks :: "peer_id \<Rightarrow> 'n gs_request \<Rightarrow> 'n gs_request \<Rightarrow> 'n update_hook_result"
  rsm_nodes :: "'n node_ops"

definition rsm_New :: "'l \<Rightarrow> u64 \<Rightarrow> ('n, 'l) response_manager" where
  "rsm_New ls maxLinks = \<lparr>rsm_inProgress = [], rsm_linkSystem = ls, rsm_maxLinksPerRequest = maxLinks, rsm_calls = []\<rparr>"

definition rsm_call :: "'n rsm_call list \<Rightarrow> ('n, 'l) response_manager \<Rightarrow> ('n, 'l) response_manager" where
  "rsm_call cs rm = rm\<lparr>rsm_calls := rsm_calls rm @ cs\<rparr>"

definition set_irs :: "request_id \<Rightarrow> ('n, 'l) in_progress_response \<Rightarrow> ('n, 'l) response_manager \<Rightarrow> ('n, 'l) response_manager" where
  "set_irs rid irs rm = rm\<lparr>rsm_inProgress := mput rid irs (rsm_inProgress rm)\<rparr>"

section \<open>Setting up a response\<close>

definition errInvalidRequest :: gs_error where "errInvalidRequest = OtherErr ''request not valid''"

text \<open>The first part of \<^verbatim>\<open>prepareQuery\<close>: what the transaction does, and its error.\<close>

definition prepareTransaction :: "('n, 'l) hook_result \<Rightarrow> gs_error option \<times> 'n rb_op list" where
  "prepareTransaction result =
     (let ops = map RbSendExtensionData (hr_Extensions result)
      in case hr_Err result of
           Some err \<Rightarrow> (Some err, ops @ [RbFinishWithError RequestFailedUnknown])
         | None \<Rightarrow>
             if \<not> hr_IsValidated result then (Some errInvalidRequest, ops @ [RbFinishWithError RequestRejected])
             else if hr_IsPaused result then (None, ops @ [RbPauseRequest])
             else (None, ops))"

text \<open>An extension of the request is decoded and handed to the stream, or the response is finished with an error.\<close>

definition processExtension ::
  "peer_id \<Rightarrow> 'n gs_request \<Rightarrow> ext_name \<Rightarrow> ('n option \<Rightarrow> (gs_error + 'a) option) \<Rightarrow> ('a \<Rightarrow> 'n rsm_call) \<Rightarrow>
   ('n, 'l) response_manager \<Rightarrow> (gs_error option \<times> ('n, 'l) response_manager) option" where
  "processExtension p request name decode use rm =
     (let (data, has) = req_Extension request name
      in if \<not> has then Some (None, rm)
         else Option.bind (decode data) (\<lambda>decoded.
           case decoded of
             Inl err \<Rightarrow> Some (Some err, rsm_call [RsTransaction p (gsr_id request) [RbFinishWithError RequestFailedUnknown]] rm)
           | Inr x \<Rightarrow> Some (None, rsm_call [use x] rm)))"

definition processDedupByKey ::
  "'n node_ops \<Rightarrow> peer_id \<Rightarrow> 'n gs_request \<Rightarrow> ('n, 'l) response_manager \<Rightarrow> (gs_error option \<times> ('n, 'l) response_manager) option" where
  "processDedupByKey ops p request =
     processExtension p request ExtensionDeDupByKey (DecodeDedupKey ops) (RsDedupKey p (gsr_id request))"

definition processDoNoSendCids ::
  "'n node_ops \<Rightarrow> peer_id \<Rightarrow> 'n gs_request \<Rightarrow> ('n, 'l) response_manager \<Rightarrow> (gs_error option \<times> ('n, 'l) response_manager) option" where
  "processDoNoSendCids ops p request =
     processExtension p request ExtensionDoNotSendCIDs (DecodeCidSet ops) (RsIgnoreBlocks p (gsr_id request))"

definition processDoNotSendFirstBlocks ::
  "'n node_ops \<Rightarrow> peer_id \<Rightarrow> 'n gs_request \<Rightarrow> ('n, 'l) response_manager \<Rightarrow> (gs_error option \<times> ('n, 'l) response_manager) option" where
  "processDoNotSendFirstBlocks ops p request =
     processExtension p request ExtensionsDoNotSendFirstBlocks (DecodeDoNotSendFirstBlocks ops) (RsSkipFirstBlocks p (gsr_id request))"

definition prepareQuery ::
  "'n node_ops \<Rightarrow> peer_id \<Rightarrow> 'n gs_request \<Rightarrow> ('n, 'l) hook_result \<Rightarrow> ('n, 'l) response_manager \<Rightarrow>
   (gs_error option \<times> ('n, 'l) response_manager) option" where
  "prepareQuery ops p request result rm =
     (let (err, rbops) = prepareTransaction result;
          rm = rsm_call [RsTransaction p (gsr_id request) rbops] rm
      in if err \<noteq> None then Some (err, rm)
         else Option.bind (processDedupByKey ops p request rm) (\<lambda>(err, rm).
           if err \<noteq> None then Some (err, rm)
           else Option.bind (processDoNoSendCids ops p request rm) (\<lambda>(err, rm).
             if err \<noteq> None then Some (err, rm)
             else processDoNotSendFirstBlocks ops p request rm)))"

definition rsm_newRequest ::
  "('n, 'l) rsm_env \<Rightarrow> peer_id \<Rightarrow> 'n gs_request \<Rightarrow> ('n, 'l) response_manager \<Rightarrow> ('n, 'l) response_manager option" where
  "rsm_newRequest env p request rm =
     (let rm = rsm_call [RsProtect p (gsr_id request)] rm;
          result = rsm_RequestHooks env p request;
          linkSystem = (case hr_CustomLinkSystem result of None \<Rightarrow> rsm_linkSystem rm | Some ls \<Rightarrow> ls);
          rm = rsm_call [RsNewStream p (gsr_id request)] rm
      in Option.bind (prepareQuery (rsm_nodes env) p request result rm) (\<lambda>(err, rm).
           let state = (if err \<noteq> None then CompletingSend else if hr_IsPaused result then Paused else Queued);
               response =
                 \<lparr>irs_peer = p, irs_request = request, irs_linkSystem = linkSystem, irs_customChooser = hr_CustomChooser result,
                  irs_traverser = False, irs_PauseSignal = False, irs_UpdateSignal = False, irs_ErrSignal = None,
                  irs_updates = [], irs_state = state\<rparr>;
               rm = (if state = Queued then rsm_call [RsPushTask p (gsr_id request) (gsr_priority request)] rm else rm)
           in Some (set_irs (gsr_id request) response rm)))"

section \<open>Ending, pausing and updating a response\<close>

definition rsm_terminateRequest :: "request_id \<Rightarrow> ('n, 'l) response_manager \<Rightarrow> ('n, 'l) response_manager" where
  "rsm_terminateRequest requestID rm =
     (case mget (rsm_inProgress rm) requestID of
        None \<Rightarrow> rm
      | Some ipr \<Rightarrow>
          rsm_call [RsCancelFn requestID]
            ((rsm_call [RsUnprotect (irs_peer ipr) requestID] rm)\<lparr>rsm_inProgress := mdel requestID (rsm_inProgress rm)\<rparr>))"

definition abortRequest ::
  "request_id \<Rightarrow> gs_error \<Rightarrow> ('n, 'l) response_manager \<Rightarrow> gs_error option \<times> ('n, 'l) response_manager" where
  "abortRequest requestID err rm =
     (case mget (rsm_inProgress rm) requestID of
        None \<Rightarrow> (Some RequestNotFoundErr, rm)
      | Some response \<Rightarrow>
          let p = irs_peer response;
              rm = rsm_call [RsRemoveTask requestID p] rm
          in if irs_state response = CompletingSend then (Some RequestNotFoundErr, rm)
             else if irs_state response \<noteq> Running
             then
               if err = ErrContextCancelled
               then (None, rsm_call [RsNotifyCancelled p (irs_request response)]
                             (rsm_terminateRequest requestID (rsm_call [RsClearRequest p requestID] rm)))
               else if err = ErrNetworkErrorE
               then (None, rsm_terminateRequest requestID (rsm_call [RsClearRequest p requestID] rm))
               else (None, rsm_call [RsTransaction p requestID [RbFinishWithError RequestCancelled]]
                             (set_irs requestID (response\<lparr>irs_state := CompletingSend\<rparr>) rm))
             else (None, set_irs requestID (response\<lparr>irs_ErrSignal :=
                            (case irs_ErrSignal response of None \<Rightarrow> Some err | Some e \<Rightarrow> Some e)\<rparr>) rm))"

definition rsm_pauseRequest :: "request_id \<Rightarrow> ('n, 'l) response_manager \<Rightarrow> gs_error option \<times> ('n, 'l) response_manager" where
  "rsm_pauseRequest requestID rm =
     (case mget (rsm_inProgress rm) requestID of
        None \<Rightarrow> (Some RequestNotFoundErr, rm)
      | Some response \<Rightarrow>
          if irs_state response = CompletingSend then (Some RequestNotFoundErr, rm)
          else if irs_state response = Paused then (Some (OtherErr ''request is already paused''), rm)
          else (None, set_irs requestID (response\<lparr>irs_PauseSignal := True\<rparr>) rm))"

definition maxInt32 :: int where "maxInt32 = 2147483647"

definition rsm_unpauseRequest ::
  "request_id \<Rightarrow> 'n ext_data list \<Rightarrow> ('n, 'l) response_manager \<Rightarrow> gs_error option \<times> ('n, 'l) response_manager" where
  "rsm_unpauseRequest requestID extensions rm =
     (case mget (rsm_inProgress rm) requestID of
        None \<Rightarrow> (Some RequestNotFoundErr, rm)
      | Some response \<Rightarrow>
          if irs_state response \<noteq> Paused then (Some (OtherErr ''request is not paused''), rm)
          else
            let p = irs_peer response;
                rm = set_irs requestID (response\<lparr>irs_state := Queued\<rparr>) rm;
                rm = (if length extensions > 0
                      then rsm_call [RsTransaction p requestID (map RbSendExtensionData extensions)] rm else rm)
            in (None, rsm_call [RsPushTask p requestID maxInt32] rm))"

definition rsm_updateRequest ::
  "request_id \<Rightarrow> 'n ext_data list \<Rightarrow> ('n, 'l) response_manager \<Rightarrow> gs_error option \<times> ('n, 'l) response_manager" where
  "rsm_updateRequest requestID extensions rm =
     (case mget (rsm_inProgress rm) requestID of
        None \<Rightarrow> (Some RequestNotFoundErr, rm)
      | Some response \<Rightarrow> (None, rsm_call [RsTransaction (irs_peer response) requestID [RbSendUpdates extensions]] rm))"

text \<open>An update for a paused response is handled at once; any other waits for the executor. When unpausing
  fails the code reads the message of an error that is nil.\<close>

definition processUpdate ::
  "('n, 'l) rsm_env \<Rightarrow> request_id \<Rightarrow> 'n gs_request \<Rightarrow> ('n, 'l) response_manager \<Rightarrow> ('n, 'l) response_manager option" where
  "processUpdate env requestID update rm =
     (case mget (rsm_inProgress rm) requestID of
        None \<Rightarrow> Some rm
      | Some response \<Rightarrow>
          if irs_state response = CompletingSend then Some rm
          else if irs_state response \<noteq> Paused
          then Some (set_irs requestID (response\<lparr>irs_updates := irs_updates response @ [update], irs_UpdateSignal := True\<rparr>) rm)
          else
            let result = rsm_UpdateHooks env (irs_peer response) (irs_request response) update;
                rm = rsm_call [RsTransaction (irs_peer response) requestID
                       (map RbSendExtensionData (uhr_Extensions result) @
                        (if uhr_Err result \<noteq> None then [RbFinishWithError RequestFailedUnknown] else []))] rm
            in if uhr_Err result \<noteq> None then Some (set_irs requestID (response\<lparr>irs_state := CompletingSend\<rparr>) rm)
               else if uhr_Unpause result
               then (case rsm_unpauseRequest requestID [] rm of
                       (None, rm) \<Rightarrow> Some rm
                     | (Some err, rm) \<Rightarrow> None)
               else Some rm)"

fun processRequests ::
  "('n, 'l) rsm_env \<Rightarrow> peer_id \<Rightarrow> 'n gs_request list \<Rightarrow> ('n, 'l) response_manager \<Rightarrow> ('n, 'l) response_manager option" where
  "processRequests env p [] rm = Some rm"
| "processRequests env p (request # requests) rm =
     Option.bind
       (case gsr_requestType request of
          RequestTypeCancel \<Rightarrow> Some (snd (abortRequest (gsr_id request) ErrContextCancelled rm))
        | RequestTypeUpdate \<Rightarrow> processUpdate env (gsr_id request) request rm
        | RequestTypeNew \<Rightarrow> rsm_newRequest env p request rm)
       (processRequests env p requests)"

section \<open>Tasks\<close>

definition taskDataForKey :: "request_id \<Rightarrow> ('n, 'l) response_manager \<Rightarrow> bool \<times> ('n, 'l) response_manager" where
  "taskDataForKey requestID rm =
     (case mget (rsm_inProgress rm) requestID of
        None \<Rightarrow> (True, rm)
      | Some response \<Rightarrow>
          if irs_state response = CompletingSend then (True, rm)
          else
            let rm = (if \<not> irs_traverser response
                      then rsm_call [RsNotifyProcessing (irs_peer response) (irs_request response) (length (rsm_inProgress rm)),
                             RsStartTraverser requestID
                               (if rsm_maxLinksPerRequest rm > 0 then Some (rsm_maxLinksPerRequest rm) else None)] rm
                      else rm)
            in (False, set_irs requestID (response\<lparr>irs_traverser := True, irs_state := Running\<rparr>) rm))"

definition startTask :: "request_id \<Rightarrow> peer_id \<Rightarrow> ('n, 'l) response_manager \<Rightarrow> bool \<times> ('n, 'l) response_manager" where
  "startTask requestID p rm =
     (case taskDataForKey requestID rm of
        (True, rm) \<Rightarrow> (True, rsm_call [RsTaskDone p requestID] rm)
      | (False, rm) \<Rightarrow> (False, rm))"

definition finishTask :: "request_id \<Rightarrow> peer_id \<Rightarrow> gs_error option \<Rightarrow> ('n, 'l) response_manager \<Rightarrow> ('n, 'l) response_manager" where
  "finishTask requestID p err rm =
     (let rm = rsm_call [RsTaskDone p requestID] rm
      in case mget (rsm_inProgress rm) requestID of
           None \<Rightarrow> rm
         | Some response \<Rightarrow>
             if err = Some ErrPausedE then set_irs requestID (response\<lparr>irs_state := Paused\<rparr>) rm
             else if err = Some ErrContextCancelled
             then rsm_terminateRequest requestID (rsm_call [RsNotifyCancelled p (irs_request response)] rm)
             else if err = Some ErrNetworkErrorE then rsm_terminateRequest requestID rm
             else set_irs requestID (response\<lparr>irs_state := CompletingSend\<rparr>) rm)"

definition getUpdates :: "request_id \<Rightarrow> ('n, 'l) response_manager \<Rightarrow> 'n gs_request list \<times> ('n, 'l) response_manager" where
  "getUpdates requestID rm =
     (case mget (rsm_inProgress rm) requestID of
        None \<Rightarrow> ([], rm)
      | Some response \<Rightarrow> (irs_updates response, set_irs requestID (response\<lparr>irs_updates := []\<rparr>) rm))"

definition rsm_fromPeerTopics :: "(request_id list \<times> request_id list) option \<Rightarrow> request_id list \<times> request_id list" where
  "rsm_fromPeerTopics pt = (case pt of None \<Rightarrow> ([], []) | Some (active, pending) \<Rightarrow> (active, pending))"

definition rsm_peerState ::
  "peer_id \<Rightarrow> (request_id list \<times> request_id list) option \<Rightarrow> ('n, 'l) response_manager \<Rightarrow> peer_state" where
  "rsm_peerState p peerTopics rm =
     \<lparr>RequestStates =
        foldl (\<lambda>m (key, ipr). if irs_peer ipr = p then mput key (irs_state ipr) m else m) [] (rsm_inProgress rm),
      TQ_Active = fst (rsm_fromPeerTopics peerTopics), TQ_Pending = snd (rsm_fromPeerTopics peerTopics)\<rparr>"

section \<open>Messages\<close>

datatype 'n rsm_message =
    ProcessRequestsMessage peer_id "'n gs_request list"
  | RsUpdateRequestMessage request_id "'n ext_data list" nat
  | RsPauseRequestMessage request_id nat
  | ErrorRequestMessage request_id gs_error nat
  | SynchronizeMessage nat
  | RsUnpauseRequestMessage request_id nat "'n ext_data list"
  | ResponseUpdateRequest request_id nat
  | FinishTaskRequest request_id peer_id "gs_error option" nat
  | StartTaskRequest request_id peer_id nat
  | RsPeerStateMessage peer_id "(request_id list \<times> request_id list) option" nat
  | TerminateRequestMessage request_id nat

definition rsm_reply :: "bool \<Rightarrow> 'n rsm_call \<Rightarrow> ('n, 'l) response_manager \<Rightarrow> ('n, 'l) response_manager" where
  "rsm_reply ctxDone c rm = (if ctxDone then rm else rsm_call [c] rm)"

fun rsm_handle ::
  "('n, 'l) rsm_env \<Rightarrow> bool \<Rightarrow> 'n rsm_message \<Rightarrow> ('n, 'l) response_manager \<Rightarrow> ('n, 'l) response_manager option" where
  "rsm_handle env ctxDone (ProcessRequestsMessage p requests) rm = processRequests env p requests rm"
| "rsm_handle env ctxDone (RsUpdateRequestMessage rid extensions response) rm =
     (case rsm_updateRequest rid extensions rm of (err, rm) \<Rightarrow> Some (rsm_reply ctxDone (RsReply response err) rm))"
| "rsm_handle env ctxDone (RsPauseRequestMessage rid response) rm =
     (case rsm_pauseRequest rid rm of (err, rm) \<Rightarrow> Some (rsm_reply ctxDone (RsReply response err) rm))"
| "rsm_handle env ctxDone (ErrorRequestMessage rid e response) rm =
     (case abortRequest rid e rm of (err, rm) \<Rightarrow> Some (rsm_reply ctxDone (RsReply response err) rm))"
| "rsm_handle env ctxDone (SynchronizeMessage ch) rm = Some (rsm_reply ctxDone (RsReply ch None) rm)"
| "rsm_handle env ctxDone (RsUnpauseRequestMessage rid response extensions) rm =
     (case rsm_unpauseRequest rid extensions rm of (err, rm) \<Rightarrow> Some (rsm_reply ctxDone (RsReply response err) rm))"
| "rsm_handle env ctxDone (ResponseUpdateRequest rid updateChan) rm =
     (case getUpdates rid rm of (updates, rm) \<Rightarrow> Some (rsm_reply ctxDone (RsReplyUpdates updateChan updates) rm))"
| "rsm_handle env ctxDone (FinishTaskRequest rid p err ch) rm =
     Some (rsm_reply ctxDone (RsReplyDone ch) (finishTask rid p err rm))"
| "rsm_handle env ctxDone (StartTaskRequest rid p taskDataChan) rm =
     (case startTask rid p rm of (isEmpty, rm) \<Rightarrow> Some (rsm_reply ctxDone (RsReplyTask taskDataChan rid isEmpty) rm))"
| "rsm_handle env ctxDone (RsPeerStateMessage p peerTopics peerStatsChan) rm =
     Some (rsm_reply ctxDone (RsReplyPeerState peerStatsChan (rsm_peerState p peerTopics rm)) rm)"
| "rsm_handle env ctxDone (TerminateRequestMessage rid ch) rm =
     Some (rsm_reply ctxDone (RsReplyDone ch) (rsm_terminateRequest rid rm))"

definition cleanupInProcessResponses :: "('n, 'l) response_manager \<Rightarrow> ('n, 'l) response_manager" where
  "cleanupInProcessResponses rm = rsm_call (map (\<lambda>(rid, ipr). RsCancelFn rid) (rsm_inProgress rm)) rm"

section \<open>Calls\<close>

definition CancelResponse :: "request_id \<Rightarrow> nat \<Rightarrow> 'n rsm_message" where
  "CancelResponse requestID response = ErrorRequestMessage requestID ErrCancelledByCommand response"

definition CloseWithNetworkError :: "request_id \<Rightarrow> nat \<Rightarrow> 'n rsm_message" where
  "CloseWithNetworkError requestID ch = ErrorRequestMessage requestID ErrNetworkErrorE ch"

section \<open>The life of a response\<close>

text \<open>What others see of the life of a response: its connection is protected, a final status is sent, the connection is
  unprotected. The manager only sends statuses of failure; the executor of a running response sends its own.\<close>

datatype life_ev = LProtect peer_id | LFinish peer_id status_code | LUnprotect peer_id

fun rb_finish :: "peer_id \<Rightarrow> 'n rb_op \<Rightarrow> life_ev list" where
  "rb_finish p (RbFinishWithError c) = [LFinish p c]"
| "rb_finish p _ = []"

fun call_events :: "request_id \<Rightarrow> 'n rsm_call \<Rightarrow> life_ev list" where
  "call_events rid (RsProtect p r) = (if r = rid then [LProtect p] else [])"
| "call_events rid (RsUnprotect p r) = (if r = rid then [LUnprotect p] else [])"
| "call_events rid (RsTransaction p r ops) = (if r = rid then concat (map (rb_finish p) ops) else [])"
| "call_events rid _ = []"

definition events :: "request_id \<Rightarrow> 'n rsm_call list \<Rightarrow> life_ev list" where
  "events rid cs = concat (map (call_events rid) cs)"

type_synonym resp_view = "(peer_id \<times> request_state) option \<times> life_ev list"

definition view_of :: "request_id \<Rightarrow> ('n, 'l) response_manager \<Rightarrow> resp_view" where
  "view_of rid rm =
     (map_option (\<lambda>irs. (irs_peer irs, irs_state irs)) (mget (rsm_inProgress rm) rid), events rid (rsm_calls rm))"

text \<open>The states a response goes through.\<close>

inductive resp_step :: "resp_view \<Rightarrow> resp_view \<Rightarrow> bool" where
  accept: "st \<in> {Queued, Paused} \<Longrightarrow> resp_step (None, []) (Some (p, st), [LProtect p])"
| reject: "resp_step (None, []) (Some (p, CompletingSend), [LProtect p, LFinish p c])"
| start: "st \<noteq> CompletingSend \<Longrightarrow> resp_step (Some (p, st), evs) (Some (p, Running), evs)"
| pause: "resp_step (Some (p, Running), evs) (Some (p, Paused), evs)"
| resume: "resp_step (Some (p, Paused), evs) (Some (p, Queued), evs)"
| fail: "st \<in> {Queued, Paused} \<Longrightarrow> resp_step (Some (p, st), evs) (Some (p, CompletingSend), evs @ [LFinish p c])"
| finish: "resp_step (Some (p, Running), evs) (Some (p, CompletingSend), evs)"
| terminate: "resp_step (Some (p, st), evs) (None, evs @ [LUnprotect p])"

lemma events_simps [simp]:
  "events rid [] = []" "events rid (c # cs) = call_events rid c @ events rid cs"
  "events rid (cs @ ds) = events rid cs @ events rid ds"
  by (simp_all add: events_def)

lemma rsm_call_simps [simp]:
  "rsm_inProgress (rsm_call cs rm) = rsm_inProgress rm" "rsm_linkSystem (rsm_call cs rm) = rsm_linkSystem rm"
  "rsm_calls (rsm_call cs rm) = rsm_calls rm @ cs"
  by (simp_all add: rsm_call_def)

lemma set_irs_simps [simp]:
  "rsm_inProgress (set_irs rid irs rm) = mput rid irs (rsm_inProgress rm)" "rsm_calls (set_irs rid irs rm) = rsm_calls rm"
  by (simp_all add: set_irs_def)

lemma no_finish_extensions [simp]: "concat (map (rb_finish p \<circ> RbSendExtensionData) es) = []"
  by (induction es) auto

text \<open>An operation on one response moves it by at most one step and leaves the others.\<close>

definition moves1 :: "request_id \<Rightarrow> ('n, 'l) response_manager \<Rightarrow> ('n, 'l) response_manager \<Rightarrow> bool" where
  "moves1 rid rm rm' \<longleftrightarrow>
     (view_of rid rm' = view_of rid rm \<or> resp_step (view_of rid rm) (view_of rid rm')) \<and>
     (\<forall>r. r \<noteq> rid \<longrightarrow> view_of r rm' = view_of r rm)"

lemma moves1_refl [simp]: "moves1 rid rm rm"
  by (simp add: moves1_def)

lemma terminate_moves: "moves1 rid rm (rsm_terminateRequest rid rm)"
  by (auto simp: moves1_def rsm_terminateRequest_def view_of_def intro: resp_step.intros split: option.splits)

lemma quiet_call: "(\<And>r. events r cs = []) \<Longrightarrow> moves1 rid rm (rsm_call cs rm') \<longleftrightarrow> moves1 rid rm rm'"
  by (simp add: moves1_def view_of_def)

lemma quiet_call_first: "(\<And>r. events r cs = []) \<Longrightarrow> moves1 rid (rsm_call cs rm) rm' \<longleftrightarrow> moves1 rid rm rm'"
  by (simp add: moves1_def view_of_def)

lemma abort_moves: "moves1 rid rm (snd (abortRequest rid err rm))"
proof (cases "mget (rsm_inProgress rm) rid")
  case (Some irs)
  have t: "moves1 rid rm (rsm_terminateRequest rid (rsm_call [RsClearRequest p rid] (rsm_call [RsRemoveTask rid q] rm)))" for p q
    using terminate_moves[of rid "rsm_call [RsClearRequest p rid] (rsm_call [RsRemoveTask rid q] rm)"] by (simp add: quiet_call_first)
  have c: "moves1 rid rm (set_irs rid (irs\<lparr>irs_ErrSignal := e\<rparr>) (rsm_call [RsRemoveTask rid q] rm))" for e q
    using Some by (simp add: moves1_def view_of_def)
  have f: "moves1 rid rm (rsm_call [RsTransaction (irs_peer irs) rid [RbFinishWithError RequestCancelled]]
      (set_irs rid (irs\<lparr>irs_state := CompletingSend\<rparr>) (rsm_call [RsRemoveTask rid q] rm)))"
    if "irs_state irs \<noteq> Running" "irs_state irs \<noteq> CompletingSend" for q
    using Some that resp_step.fail[of "irs_state irs"] by (cases "irs_state irs") (auto simp: moves1_def view_of_def)
  show ?thesis using Some t c f by (auto simp: abortRequest_def Let_def quiet_call)
qed (simp add: abortRequest_def)

lemma unpause_moves: "moves1 rid rm (snd (rsm_unpauseRequest rid exts rm))"
  by (auto simp: rsm_unpauseRequest_def Let_def moves1_def view_of_def intro: resp_step.resume split: option.splits)

lemma pause_moves: "moves1 rid rm (snd (rsm_pauseRequest rid rm))"
  by (auto simp: rsm_pauseRequest_def moves1_def view_of_def split: option.splits)

lemma update_moves: "moves1 rid rm (snd (rsm_updateRequest rid exts rm))"
  by (auto simp: rsm_updateRequest_def moves1_def view_of_def split: option.splits)

lemma startTask_moves: "moves1 rid rm (snd (startTask rid p rm))"
  by (auto simp: startTask_def taskDataForKey_def Let_def moves1_def view_of_def intro: resp_step.start split: option.splits)

lemma getUpdates_moves: "moves1 rid rm (snd (getUpdates rid rm))"
  by (auto simp: getUpdates_def moves1_def view_of_def split: option.splits)

lemma finishTask_moves:
  assumes run: "\<And>irs. mget (rsm_inProgress rm) rid = Some irs \<Longrightarrow> irs_state irs = Running"
  shows "moves1 rid rm (finishTask rid p err rm)"
proof (cases "mget (rsm_inProgress rm) rid")
  case (Some irs)
  have t: "moves1 rid rm (rsm_terminateRequest rid (rsm_call [RsTaskDone p rid] rm))"
    "moves1 rid rm (rsm_terminateRequest rid (rsm_call [RsNotifyCancelled p (irs_request irs)] (rsm_call [RsTaskDone p rid] rm)))"
    using terminate_moves[of rid "rsm_call [RsTaskDone p rid] rm"]
      terminate_moves[of rid "rsm_call [RsNotifyCancelled p (irs_request irs)] (rsm_call [RsTaskDone p rid] rm)"]
    by (simp_all add: quiet_call_first)
  have s: "moves1 rid rm (set_irs rid (irs\<lparr>irs_state := st\<rparr>) (rsm_call [RsTaskDone p rid] rm))" if "st = Paused \<or> st = CompletingSend" for st
    using Some run[OF Some] that by (auto simp: moves1_def view_of_def intro: resp_step.intros)
  show ?thesis using Some t s by (auto simp: finishTask_def Let_def)
qed (simp add: finishTask_def Let_def quiet_call)

lemma processUpdate_moves:
  "\<exists>rm'. processUpdate env rid u rm = Some rm' \<and> moves1 rid rm rm'"
proof (cases "mget (rsm_inProgress rm) rid")
  case (Some irs)
  show ?thesis
  proof (cases "irs_state irs = Paused")
    case False
    with Some show ?thesis by (auto simp: processUpdate_def moves1_def view_of_def)
  next
    case True
    let ?res = "rsm_UpdateHooks env (irs_peer irs) (irs_request irs) u"
    show ?thesis
      using Some True
      by (cases "uhr_Err ?res")
        (auto simp: processUpdate_def rsm_unpauseRequest_def Let_def moves1_def view_of_def
          intro: resp_step.resume resp_step.fail)
  qed
qed (simp add: processUpdate_def)

text \<open>The set-up of a response finishes it with an error exactly when it fails.\<close>

definition setup_calls :: "peer_id \<Rightarrow> request_id \<Rightarrow> gs_error option \<Rightarrow> 'n rsm_call list \<Rightarrow> bool" where
  "setup_calls p rid err cs \<longleftrightarrow>
     (\<forall>r. if r = rid \<and> err \<noteq> None then \<exists>c. events r cs = [LFinish p c] else events r cs = [])"

definition sets_up ::
  "peer_id \<Rightarrow> request_id \<Rightarrow> gs_error option \<Rightarrow> ('n, 'l) response_manager \<Rightarrow> ('n, 'l) response_manager \<Rightarrow> bool" where
  "sets_up p rid err rm rm' \<longleftrightarrow> (\<exists>cs. rm' = rsm_call cs rm \<and> setup_calls p rid err cs)"

lemma rsm_call_call [simp]: "rsm_call ds (rsm_call cs rm) = rsm_call (cs @ ds) rm" "rsm_call [] rm = rm"
  by (simp_all add: rsm_call_def)

lemma sets_up_next:
  assumes first: "sets_up p rid e1 rm rm1" and r: "(if e1 \<noteq> None then Some (e1, rm1) else k) = Some (err, rm')"
    and cont: "k = Some (err, rm') \<Longrightarrow> sets_up p rid err rm1 rm'"
  shows "sets_up p rid err rm rm'"
proof (cases "e1 = None")
  case True
  with r cont have "sets_up p rid err rm1 rm'" by simp
  with first True obtain cs ds where "rm' = rsm_call (cs @ ds) rm" "setup_calls p rid None cs" "setup_calls p rid err ds"
    by (auto simp: sets_up_def)
  then show ?thesis unfolding sets_up_def by (auto simp: setup_calls_def intro!: exI[of _ "cs @ ds"])
qed (use first r in auto)

lemma processExtension_sets_up:
  assumes e: "processExtension p request name decode use rm = Some (err, rm')" and use: "\<And>x r. call_events r (use x) = []"
  shows "sets_up p (gsr_id request) err rm rm'"
proof -
  obtain data has where ext: "req_Extension request name = (data, has)" by fastforce
  show ?thesis
  proof (cases has)
    case False
    with e ext show ?thesis by (auto simp: processExtension_def sets_up_def setup_calls_def intro: exI[of _ "[]"])
  next
    case True
    with e ext obtain d where "decode data = Some d" by (auto simp: processExtension_def bind_eq_Some_conv)
    with True e ext use show ?thesis by (cases d) (auto simp: processExtension_def sets_up_def setup_calls_def)
  qed
qed

lemma extension_sets_up:
  "processDedupByKey ops p request rm = Some (err, rm') \<Longrightarrow> sets_up p (gsr_id request) err rm rm'"
  "processDoNoSendCids ops p request rm = Some (err, rm') \<Longrightarrow> sets_up p (gsr_id request) err rm rm'"
  "processDoNotSendFirstBlocks ops p request rm = Some (err, rm') \<Longrightarrow> sets_up p (gsr_id request) err rm rm'"
  unfolding processDedupByKey_def processDoNoSendCids_def processDoNotSendFirstBlocks_def
  by (rule processExtension_sets_up, assumption, simp)+

lemma prepareQuery_sets_up:
  assumes q: "prepareQuery ops p request result rm = Some (err, rm')"
  shows "sets_up p (gsr_id request) err rm rm'"
proof -
  obtain e0 rb where t: "prepareTransaction result = (e0, rb)" by fastforce
  let ?rm0 = "rsm_call [RsTransaction p (gsr_id request) rb] rm"
  have s0: "sets_up p (gsr_id request) e0 rm ?rm0"
    using t by (auto simp: prepareTransaction_def sets_up_def setup_calls_def Let_def split: option.splits if_splits
        intro!: exI[of _ "[RsTransaction p (gsr_id request) rb]"])
  show ?thesis
  proof (rule sets_up_next[OF s0])
    let ?k = "Option.bind (processDedupByKey ops p request ?rm0) (\<lambda>(err, rm).
           if err \<noteq> None then Some (err, rm)
           else Option.bind (processDoNoSendCids ops p request rm) (\<lambda>(err, rm).
             if err \<noteq> None then Some (err, rm)
             else processDoNotSendFirstBlocks ops p request rm))"
    show "(if e0 \<noteq> None then Some (e0, ?rm0) else ?k) = Some (err, rm')"
      using q unfolding prepareQuery_def t Let_def by simp
    assume "?k = Some (err, rm')"
    then obtain e1 rm1 where 1: "processDedupByKey ops p request ?rm0 = Some (e1, rm1)"
      "(if e1 \<noteq> None then Some (e1, rm1) else Option.bind (processDoNoSendCids ops p request rm1) (\<lambda>(err, rm).
         if err \<noteq> None then Some (err, rm) else processDoNotSendFirstBlocks ops p request rm)) = Some (err, rm')"
      by (auto simp: bind_eq_Some_conv simp del: not_None_eq)
    show "sets_up p (gsr_id request) err ?rm0 rm'"
    proof (rule sets_up_next[OF extension_sets_up(1)[OF 1(1)] 1(2)])
      assume "Option.bind (processDoNoSendCids ops p request rm1) (\<lambda>(err, rm).
         if err \<noteq> None then Some (err, rm) else processDoNotSendFirstBlocks ops p request rm) = Some (err, rm')"
      then obtain e2 rm2 where 2: "processDoNoSendCids ops p request rm1 = Some (e2, rm2)"
        "(if e2 \<noteq> None then Some (e2, rm2) else processDoNotSendFirstBlocks ops p request rm2) = Some (err, rm')"
        by (auto simp: bind_eq_Some_conv simp del: not_None_eq)
      show "sets_up p (gsr_id request) err rm1 rm'"
        by (rule sets_up_next[OF extension_sets_up(2)[OF 2(1)] 2(2)]) (rule extension_sets_up(3))
    qed
  qed
qed

lemma newRequest_moves:
  fixes rm :: "('n, 'l) response_manager"
  assumes n: "rsm_newRequest env p request rm = Some rm'" and fresh: "view_of (gsr_id request) rm = (None, [])"
  shows "moves1 (gsr_id request) rm rm'"
proof -
  let ?id = "gsr_id request"
  let ?rm0 = "rsm_call [RsNewStream p ?id] (rsm_call [RsProtect p ?id] rm)"
  let ?res = "rsm_RequestHooks env p request"
  from n obtain err rm1 where q: "prepareQuery (rsm_nodes env) p request ?res ?rm0 = Some (err, rm1)"
    by (auto simp: rsm_newRequest_def Let_def bind_eq_Some_conv)
  from prepareQuery_sets_up[OF q] obtain cs where cs: "rm1 = rsm_call cs ?rm0" "setup_calls p ?id err cs"
    unfolding sets_up_def by blast
  define st where "st = (if err \<noteq> None then CompletingSend else if hr_IsPaused ?res then Paused else Queued)"
  define ds :: "'n rsm_call list" where "ds = (if st = Queued then [RsPushTask p ?id (gsr_priority request)] else [])"
  have "\<exists>irs. rm' = set_irs ?id irs (rsm_call ds rm1) \<and> irs_peer irs = p \<and> irs_state irs = st"
    using n q by (auto simp: rsm_newRequest_def Let_def st_def ds_def)
  then obtain irs where rm': "rm' = set_irs ?id irs (rsm_call ds rm1)" "irs_peer irs = p" "irs_state irs = st" by blast
  have "events r ds = []" for r by (simp add: ds_def)
  note rm' = rm' this
  have ev: "events r (rsm_calls rm') = events r (rsm_calls rm) @ (if r = ?id then LProtect p # events r cs else [])" for r
    using cs rm' by (auto simp: setup_calls_def)
  have st: "mget (rsm_inProgress rm') r = (if r = ?id then Some irs else mget (rsm_inProgress rm) r)" for r
    using cs(1) rm'(1) by simp
  have f: "events ?id (rsm_calls rm) = []" "mget (rsm_inProgress rm) ?id = None" using fresh by (auto simp: view_of_def)
  have "resp_step (view_of ?id rm) (view_of ?id rm')"
  proof (cases "err = None")
    case True
    with cs(2) have "events ?id cs = []" by (simp add: setup_calls_def)
    moreover have "st \<in> {Queued, Paused}" using True by (simp add: st_def)
    ultimately show ?thesis using f ev st rm'(2,3) resp_step.accept[of st p] by (simp add: view_of_def)
  next
    case False
    with cs(2)[unfolded setup_calls_def, rule_format, of ?id] obtain c where "events ?id cs = [LFinish p c]" by auto
    with False f ev st rm'(2,3) resp_step.reject[of p c] show ?thesis by (simp add: view_of_def st_def)
  qed
  with ev st show ?thesis by (simp add: moves1_def view_of_def)
qed

section \<open>Messages and reachable states\<close>

definition moves :: "('n, 'l) response_manager \<Rightarrow> ('n, 'l) response_manager \<Rightarrow> bool" where
  "moves rm rm' \<longleftrightarrow> (\<forall>rid. resp_step\<^sup>*\<^sup>* (view_of rid rm) (view_of rid rm'))"

lemma moves1_moves: "moves1 rid rm rm' \<Longrightarrow> moves rm rm'"
  unfolding moves_def moves1_def by (metis r_into_rtranclp rtranclp.rtrancl_refl)

lemma moves_trans: "moves a b \<Longrightarrow> moves b c \<Longrightarrow> moves a c"
  unfolding moves_def by (meson rtranclp_trans)

lemma reply_moves: "moves rm rm' \<Longrightarrow> (\<And>r. call_events r c = []) \<Longrightarrow> moves rm (rsm_reply d c rm')"
  by (simp add: moves_def view_of_def rsm_reply_def)

text \<open>What the senders keep to. The requests of a message have distinct identifiers; a new one has an
  identifier that was not used before; a task that is finished was started.\<close>

definition requests_ok :: "'n gs_request list \<Rightarrow> ('n, 'l) response_manager \<Rightarrow> bool" where
  "requests_ok requests rm \<longleftrightarrow> distinct (map gsr_id requests) \<and>
     (\<forall>r \<in> set requests. gsr_requestType r = RequestTypeNew \<longrightarrow> view_of (gsr_id r) rm = (None, []))"

fun rsm_message_ok :: "'n rsm_message \<Rightarrow> ('n, 'l) response_manager \<Rightarrow> bool" where
  "rsm_message_ok (ProcessRequestsMessage p requests) rm \<longleftrightarrow> requests_ok requests rm"
| "rsm_message_ok (FinishTaskRequest rid p err ch) rm \<longleftrightarrow>
     (\<forall>irs \<in> set_option (mget (rsm_inProgress rm) rid). irs_state irs = Running)"
| "rsm_message_ok _ rm \<longleftrightarrow> True"

lemma request_moves:
  assumes "(case gsr_requestType r of
      RequestTypeCancel \<Rightarrow> Some (snd (abortRequest (gsr_id r) ErrContextCancelled rm))
    | RequestTypeUpdate \<Rightarrow> processUpdate env (gsr_id r) r rm
    | RequestTypeNew \<Rightarrow> rsm_newRequest env p r rm) = Some rm1"
    and "gsr_requestType r = RequestTypeNew \<Longrightarrow> view_of (gsr_id r) rm = (None, [])"
  shows "moves1 (gsr_id r) rm rm1"
  using assms abort_moves[of "gsr_id r" rm] processUpdate_moves[of env "gsr_id r" r rm] newRequest_moves[of env p r rm rm1]
  by (cases "gsr_requestType r") auto

lemma processRequests_moves:
  "processRequests env p requests rm = Some rm' \<Longrightarrow> requests_ok requests rm \<Longrightarrow> moves rm rm'"
proof (induction requests arbitrary: rm)
  case Nil
  then show ?case by (simp add: moves_def)
next
  case (Cons r requests)
  from Cons.prems(1) obtain rm1 where rm1: "(case gsr_requestType r of
      RequestTypeCancel \<Rightarrow> Some (snd (abortRequest (gsr_id r) ErrContextCancelled rm))
    | RequestTypeUpdate \<Rightarrow> processUpdate env (gsr_id r) r rm
    | RequestTypeNew \<Rightarrow> rsm_newRequest env p r rm) = Some rm1" "processRequests env p requests rm1 = Some rm'"
    by (auto simp: bind_eq_Some_conv)
  have m: "moves1 (gsr_id r) rm rm1" using request_moves[OF rm1(1)] Cons.prems(2) by (auto simp: requests_ok_def)
  have "requests_ok requests rm1"
    using Cons.prems(2) m by (auto simp: requests_ok_def moves1_def image_iff)
  from Cons.IH[OF rm1(2) this] m show ?case using moves1_moves moves_trans by blast
qed

lemmas op_moves = moves1_moves[OF abort_moves] moves1_moves[OF pause_moves] moves1_moves[OF unpause_moves]
  moves1_moves[OF update_moves] moves1_moves[OF startTask_moves] moves1_moves[OF getUpdates_moves]
  moves1_moves[OF terminate_moves] moves1_moves[OF moves1_refl]

lemma handle_moves:
  assumes ok: "rsm_message_ok m rm" and h: "rsm_handle env d m rm = Some rm'"
  shows "moves rm rm'"
proof (cases m)
  case (FinishTaskRequest rid p err ch)
  then have "moves1 rid rm (finishTask rid p err rm)" using ok by (intro finishTask_moves) auto
  from reply_moves[OF moves1_moves[OF this]] FinishTaskRequest h show ?thesis by auto
qed (use ok h in \<open>auto simp: split_beta intro: processRequests_moves intro!: reply_moves op_moves\<close>)

text \<open>Between two messages the executor of a running response reads its signals.\<close>

inductive rsm_step :: "('n, 'l) response_manager \<Rightarrow> ('n, 'l) response_manager \<Rightarrow> bool" where
  rsm_message: "rsm_message_ok m rm \<Longrightarrow> rsm_handle env ctxDone m rm = Some rm' \<Longrightarrow> rsm_step rm rm'"
| rsm_executor: "mget (rsm_inProgress rm) rid = Some irs \<Longrightarrow> irs_state irs = Running \<Longrightarrow>
    rsm_step rm (set_irs rid (irs\<lparr>irs_PauseSignal := paused, irs_UpdateSignal := updated, irs_ErrSignal := err\<rparr>) rm)"

inductive rsm_reachable :: "('n, 'l) response_manager \<Rightarrow> bool" where
  rsm_start: "rsm_reachable (rsm_New ls maxLinks)"
| rsm_next: "rsm_reachable rm \<Longrightarrow> rsm_step rm rm' \<Longrightarrow> rsm_reachable rm'"

text \<open>The lives the automaton allows.\<close>

fun life_ok :: "resp_view \<Rightarrow> bool" where
  "life_ok (Some (p, st), evs) \<longleftrightarrow> evs = [LProtect p] \<or> st = CompletingSend \<and> (\<exists>c. evs = [LProtect p, LFinish p c])"
| "life_ok (None, evs) \<longleftrightarrow>
     evs = [] \<or> (\<exists>p. evs = [LProtect p, LUnprotect p]) \<or> (\<exists>p c. evs = [LProtect p, LFinish p c, LUnprotect p])"

lemma resp_step_life: "resp_step v v' \<Longrightarrow> life_ok v \<Longrightarrow> life_ok v'"
  by (induction rule: resp_step.induct) auto

lemma resp_steps_life: "resp_step\<^sup>*\<^sup>* v v' \<Longrightarrow> life_ok v \<Longrightarrow> life_ok v'"
  by (induction rule: rtranclp_induct) (auto intro: resp_step_life)

lemma rsm_step_moves: "rsm_step rm rm' \<Longrightarrow> moves rm rm'"
proof (induction rule: rsm_step.induct)
  case (rsm_executor rm rid irs)
  then show ?case by (intro moves1_moves[of rid]) (simp add: moves1_def view_of_def)
qed (rule handle_moves)

lemma reachable_life:
  fixes rm :: "('n, 'l) response_manager"
  assumes "rsm_reachable rm"
  shows "life_ok (view_of rid rm)"
  using assms
proof (induction rule: rsm_reachable.induct)
  case (rsm_next rm rm')
  then show ?case using resp_steps_life rsm_step_moves unfolding moves_def by blast
qed (simp add: rsm_New_def view_of_def)


definition rsm_example_env :: "(simple_node, nat) rsm_env" where
  "rsm_example_env =
     \<lparr>rsm_RequestHooks = (\<lambda>p r. \<lparr>hr_IsValidated = True, hr_IsPaused = (p = ''q''), hr_CustomLinkSystem = None,
        hr_CustomChooser = None, hr_Err = None, hr_Extensions = []\<rparr>),
      rsm_UpdateHooks = (\<lambda>p r u. \<lparr>uhr_Err = None, uhr_Unpause = True, uhr_Extensions = []\<rparr>), rsm_nodes = simple_ops\<rparr>"

fun rsm_run :: "('n, 'l) rsm_env \<Rightarrow> 'n rsm_message list \<Rightarrow> ('n, 'l) response_manager \<Rightarrow> ('n, 'l) response_manager option" where
  "rsm_run env [] rm = Some rm"
| "rsm_run env (m # ms) rm =
     (if rsm_message_ok m rm then Option.bind (rsm_handle env False m rm) (rsm_run env ms) else None)"

lemma rsm_run_reachable: "rsm_reachable rm \<Longrightarrow> rsm_run env ms rm = Some rm' \<Longrightarrow> rsm_reachable rm'"
  by (induction ms arbitrary: rm) (auto simp: bind_eq_Some_conv split: if_splits dest: rsm_reachable.rsm_next[OF _ rsm_step.rsm_message])

definition rsm_example :: "(simple_node, nat) response_manager" where
  "rsm_example = the (rsm_run rsm_example_env
     [ProcessRequestsMessage ''p'' [NewRequest ''r1'' ''c'' None 3 []], ProcessRequestsMessage ''q'' [NewRequest ''r2'' ''d'' None 1 []],
      StartTaskRequest ''r1'' ''p'' 0] (rsm_New 0 0))"

lemma rsm_example_runs: "rsm_run rsm_example_env
     [ProcessRequestsMessage ''p'' [NewRequest ''r1'' ''c'' None 3 []], ProcessRequestsMessage ''q'' [NewRequest ''r2'' ''d'' None 1 []],
      StartTaskRequest ''r1'' ''p'' 0] (rsm_New 0 0) = Some rsm_example"
proof -
  have "rsm_run rsm_example_env
     [ProcessRequestsMessage ''p'' [NewRequest ''r1'' ''c'' None 3 []], ProcessRequestsMessage ''q'' [NewRequest ''r2'' ''d'' None 1 []],
      StartTaskRequest ''r1'' ''p'' 0] (rsm_New 0 0) \<noteq> None" by code_simp
  then show ?thesis by (simp add: rsm_example_def)
qed

lemma rsm_example_reachable: "rsm_reachable rsm_example"
  using rsm_run_reachable[OF rsm_reachable.rsm_start rsm_example_runs] .

lemma rsm_example_views:
  "view_of ''r1'' rsm_example = (Some (''p'', Running), [LProtect ''p''])"
  "view_of ''r2'' rsm_example = (Some (''q'', Paused), [LProtect ''q''])"
  by code_simp+




section \<open>Crashes\<close>

definition known_exts :: "ext_name set" where
  "known_exts = {ExtensionDeDupByKey, ExtensionDoNotSendCIDs, ExtensionsDoNotSendFirstBlocks}"

text \<open>No extension the manager decodes is null.\<close>

definition data_ok :: "'n gs_request \<Rightarrow> bool" where
  "data_ok r \<longleftrightarrow> (\<forall>name \<in> known_exts. req_Extension r name \<noteq> (None, True))"

definition returns :: "'a option \<Rightarrow> bool" where
  "returns r \<longleftrightarrow> r \<noteq> None"

lemma returns_simps [simp]: "returns (Some x)" "\<not> returns None"
  by (simp_all add: returns_def)

lemma returns_bind: "returns m \<Longrightarrow> (\<And>x. m = Some x \<Longrightarrow> returns (f x)) \<Longrightarrow> returns (Option.bind m f)"
  by (cases m) auto

lemma processExtension_returns:
  assumes "\<And>d. returns (decode (Some d))" "req_Extension r name \<noteq> (None, True)"
  shows "returns (processExtension p r name decode use rm)"
proof -
  obtain data has where ext: "req_Extension r name = (data, has)" by fastforce
  show ?thesis
  proof (cases has)
    case True
    with assms ext have "returns (decode data)" by (cases data) auto
    then show ?thesis using True ext by (auto simp: processExtension_def intro!: returns_bind split: sum.split)
  qed (simp add: processExtension_def ext)
qed

lemma extensions_return:
  assumes "data_ok r"
  shows "returns (processDedupByKey ops p r rm)" "returns (processDoNoSendCids ops p r rm)"
    "returns (processDoNotSendFirstBlocks ops p r rm)"
  using assms unfolding processDedupByKey_def processDoNoSendCids_def processDoNotSendFirstBlocks_def data_ok_def known_exts_def
  by (auto intro!: processExtension_returns simp: DecodeDedupKey_def DecodeCidSet_def DecodeDoNotSendFirstBlocks_def)

lemma rsm_newRequest_returns:
  assumes ok: "data_ok r"
  shows "returns (rsm_newRequest env p r rm)"
proof -
  have "returns (prepareQuery ops p r result rm1)" for ops result rm1
    unfolding prepareQuery_def Let_def
    by (auto intro!: returns_bind extensions_return[OF ok] split: prod.split if_splits)
  then show ?thesis unfolding rsm_newRequest_def Let_def by (intro returns_bind) (auto split: prod.split)
qed

lemma processRequests_returns:
  assumes "\<And>r. r \<in> set requests \<Longrightarrow> gsr_requestType r = RequestTypeNew \<Longrightarrow> data_ok r"
  shows "returns (processRequests env p requests rm)"
  using assms
proof (induction requests arbitrary: rm)
  case (Cons r requests)
  have "returns (processUpdate env (gsr_id r) r rm)" using processUpdate_moves[of env "gsr_id r" r rm] by auto
  then have "returns (case gsr_requestType r of
      RequestTypeCancel \<Rightarrow> Some (snd (abortRequest (gsr_id r) ErrContextCancelled rm))
    | RequestTypeUpdate \<Rightarrow> processUpdate env (gsr_id r) r rm
    | RequestTypeNew \<Rightarrow> rsm_newRequest env p r rm)"
    using Cons.prems[of r] rsm_newRequest_returns[of r env p rm] by (auto split: request_type.split)
  then show ?case using Cons by (auto intro!: returns_bind)
qed simp

text \<open>The messages whose new requests carry no null data for an extension the manager decodes.\<close>

fun message_data_ok :: "'n rsm_message \<Rightarrow> bool" where
  "message_data_ok (ProcessRequestsMessage p requests) \<longleftrightarrow>
     (\<forall>r \<in> set requests. gsr_requestType r = RequestTypeNew \<longrightarrow> data_ok r)"
| "message_data_ok _ \<longleftrightarrow> True"

text \<open>C32: A message is handled to its end when none of its new requests has null data for an extension
  the manager decodes; the error branch of an update that reads a nil error is never reached. But a new
  request that the hooks accept and whose deduplication key is null, which a peer can send, makes
  the manager dereference nil.\<close>

theorem null_extension_crashes_only:
  "(message_data_ok m \<longrightarrow> (\<exists>rm'. rsm_handle env ctxDone m rm = Some rm')) \<and>
   (hr_Err (rsm_RequestHooks env p r) = None \<and> hr_IsValidated (rsm_RequestHooks env p r) \<and>
    gsr_requestType r = RequestTypeNew \<and> req_Extension r ExtensionDeDupByKey = (None, True) \<longrightarrow>
    rsm_handle env ctxDone (ProcessRequestsMessage p (r # requests)) rm = None)"
proof -
  have "returns (rsm_handle env ctxDone m rm)" if "message_data_ok m"
    using that by (cases m) (auto split: prod.split intro: processRequests_returns)
  moreover have "rsm_newRequest env p r rm = None"
    if "hr_Err (rsm_RequestHooks env p r) = None" "hr_IsValidated (rsm_RequestHooks env p r)"
      "req_Extension r ExtensionDeDupByKey = (None, True)"
    using that by (simp add: rsm_newRequest_def prepareQuery_def prepareTransaction_def processDedupByKey_def
        processExtension_def DecodeDedupKey_def Let_def split: prod.split)
  ultimately show ?thesis by (auto simp: returns_def)
qed

theorem null_extension_crashes_only_witness:
  "rsm_handle rsm_example_env False
     (ProcessRequestsMessage ''p'' [NewRequest ''r3'' ''c'' None 0 [\<lparr>ed_Name = ExtensionDeDupByKey, ed_Data = None\<rparr>]]) rsm_example = None \<and>
   (\<exists>rm'. rsm_handle rsm_example_env False
     (ProcessRequestsMessage ''p'' [NewRequest ''r3'' ''c'' None 0 [\<lparr>ed_Name = ExtensionDeDupByKey, ed_Data = Some (NString ''k'')\<rparr>]])
     rsm_example = Some rm')"
proof -
  let ?bad = "NewRequest ''r3'' ''c'' None 0 [\<lparr>ed_Name = ExtensionDeDupByKey, ed_Data = None\<rparr>] :: simple_node gs_request"
  let ?good = "NewRequest ''r3'' ''c'' None 0 [\<lparr>ed_Name = ExtensionDeDupByKey, ed_Data = Some (NString ''k'')\<rparr>] :: simple_node gs_request"
  have "message_data_ok (ProcessRequestsMessage ''p'' [?good])" by code_simp
  moreover have "hr_Err (rsm_RequestHooks rsm_example_env ''p'' ?bad) = None"
    "hr_IsValidated (rsm_RequestHooks rsm_example_env ''p'' ?bad)" "gsr_requestType ?bad = RequestTypeNew"
    "req_Extension ?bad ExtensionDeDupByKey = (None, True)" by code_simp+
  ultimately show ?thesis
    using null_extension_crashes_only[of "ProcessRequestsMessage ''p'' [?good]" rsm_example_env False rsm_example "''p''" ?bad "[]"] by blast
qed

section \<open>Whose requests a peer can end\<close>

text \<open>A cancel request ends the response it names whoever sent it: the manager does not compare the
  sender with the peer the response is for. The peer that made the request is told nothing.\<close>

theorem cancel_from_any_peer:
  assumes "mget (rsm_inProgress rm) rid = Some irs" "irs_state irs \<in> {Queued, Paused}"
  shows "\<exists>rm'. processRequests env p [NewCancelRequest rid] rm = Some rm' \<and> mget (rsm_inProgress rm') rid = None \<and>
    events rid (rsm_calls rm') = events rid (rsm_calls rm) @ [LUnprotect (irs_peer irs)]"
  using assms by (auto simp: NewCancelRequest_def newRequest_def abortRequest_def rsm_terminateRequest_def Let_def)

theorem cancel_from_any_peer_witness:
  "fst (view_of ''r2'' rsm_example) = Some (''q'', Paused) \<and>
   (\<exists>rm'. processRequests rsm_example_env ''p'' [NewCancelRequest ''r2''] rsm_example = Some rm' \<and> mget (rsm_inProgress rm') ''r2'' = None)"
proof -
  from rsm_example_views(2) obtain irs where "mget (rsm_inProgress rsm_example) ''r2'' = Some irs" "irs_state irs = Paused"
    by (auto simp: view_of_def)
  with cancel_from_any_peer[of rsm_example "''r2''" irs rsm_example_env "''p''"] show ?thesis by (auto simp: rsm_example_views)
qed

end
