(* ===== verification/Traverser.thy ===== *)
theory Traverser
  imports Message
begin

text \<open>
  \<^verbatim>\<open>ipldutil/traverser.go\<close>: a selector traversal that stops at every block boundary and waits for the caller to
  supply the block.

  The walk itself is go-ipld-prime's: a tree that either is done, with its error, or asks for the block of a link and
  goes on with the answer. The goroutine that performs it and the mutex that hands control back and forth
  become the function \<open>settle\<close>, which runs the walk to its next load or its end. Once the context of the traverser
  is cancelled every load the walk asks for is answered with the cancellation.
\<close>

section \<open>Walks\<close>

datatype walk =
    WalkDone "gs_error option"
  | WalkLoad cid path "gs_error + bytes \<Rightarrow> walk"

primrec cancelled :: "walk \<Rightarrow> gs_error option" where
  "cancelled (WalkDone err) = err"
| "cancelled (WalkLoad lnk lnkCtx k) = cancelled (k (Inl ErrContextCancelled))"

section \<open>The traverser\<close>

record traverser =
  tv_blocksCount :: int
  tv_ctxDone :: bool
  tv_isDone :: bool
  tv_completionErr :: "gs_error option"
  tv_currentLink :: cid
  tv_currentContext :: path
  tv_loader :: "(gs_error + bytes \<Rightarrow> walk) option"

definition writeDone :: "gs_error option \<Rightarrow> traverser \<Rightarrow> traverser" where
  "writeDone err t = t\<lparr>tv_isDone := True, tv_completionErr := err, tv_currentContext := [], tv_loader := None\<rparr>"

definition settle :: "walk \<Rightarrow> traverser \<Rightarrow> traverser" where
  "settle w t =
     (if tv_ctxDone t then writeDone (cancelled w) t
      else
        case w of
          WalkDone err \<Rightarrow> writeDone err t
        | WalkLoad lnk lnkCtx k \<Rightarrow> t\<lparr>tv_currentLink := lnk, tv_currentContext := lnkCtx, tv_loader := Some k\<rparr>)"

text \<open>The parameters: \<open>chooser\<close> is the error of the node prototype chooser, \<open>Load\<close> what the link system makes of the root block,
  \<open>ParseSelector\<close> the selector's error and \<open>WalkAdv\<close> the walk from the root node with the budget that is left.\<close>

definition start_walk ::
  "gs_error option \<Rightarrow> int option \<Rightarrow> cid \<Rightarrow> (gs_error + bytes \<Rightarrow> gs_error + 'nd) \<Rightarrow> gs_error option \<Rightarrow>
   (int option \<Rightarrow> 'nd \<Rightarrow> walk) \<Rightarrow> walk" where
  "start_walk chooserErr budget root load selectorErr walkAdv =
     (case chooserErr of
        Some err \<Rightarrow> WalkDone (Some err)
      | None \<Rightarrow>
          let budget = map_option (\<lambda>LinkBudget. LinkBudget - 1) budget
          in if (case budget of None \<Rightarrow> False | Some LinkBudget \<Rightarrow> LinkBudget \<le> 0)
             then WalkDone (Some (OtherErr ''traversal budget exceeded: budget for link reached zero''))
             else WalkLoad root [] (\<lambda>answer.
               case load answer of
                 Inl err \<Rightarrow> WalkDone (Some err)
               | Inr nd \<Rightarrow>
                   case selectorErr of
                     Some err \<Rightarrow> WalkDone (Some err)
                   | None \<Rightarrow> walkAdv budget nd))"

definition tv_Start :: "walk \<Rightarrow> traverser" where
  "tv_Start w =
     settle w \<lparr>tv_blocksCount = 0, tv_ctxDone = False, tv_isDone = False, tv_completionErr = None,
       tv_currentLink = cid_Undef, tv_currentContext = [], tv_loader = None\<rparr>"

definition NBlocksTraversed :: "traverser \<Rightarrow> int" where
  "NBlocksTraversed t = tv_blocksCount t"

definition IsComplete :: "traverser \<Rightarrow> bool \<times> gs_error option" where
  "IsComplete t = (tv_isDone t, tv_completionErr t)"

definition CurrentRequest :: "traverser \<Rightarrow> cid \<times> path" where
  "CurrentRequest t = (tv_currentLink t, tv_currentContext t)"

text \<open>The loader gets its answer and the walk goes on.\<close>

definition respond :: "gs_error + bytes \<Rightarrow> traverser \<Rightarrow> traverser" where
  "respond answer t = (case tv_loader t of None \<Rightarrow> t | Some k \<Rightarrow> settle (k answer) (t\<lparr>tv_loader := None\<rparr>))"

text \<open>\<open>raced\<close>: the cancellation is noticed here before the walk has run to its end.\<close>

definition Advance :: "bool \<Rightarrow> bytes \<Rightarrow> traverser \<Rightarrow> gs_error option \<times> traverser" where
  "Advance raced reader t =
     (if tv_ctxDone t \<and> raced then (Some ErrContextCancelled, t)
      else if tv_isDone t then (Some (OtherErr ''cannot advance when done''), t)
      else
        let t = respond (Inr reader) t
        in (None, t\<lparr>tv_blocksCount := tv_blocksCount t + 1\<rparr>))"

definition tv_Error :: "gs_error \<Rightarrow> traverser \<Rightarrow> traverser" where
  "tv_Error err t = (if tv_isDone t then t else respond (Inl err) t)"

text \<open>The context of the traverser is cancelled; \<^verbatim>\<open>Shutdown\<close> does so and waits for the walk to end.\<close>

definition tv_Shutdown :: "traverser \<Rightarrow> traverser" where
  "tv_Shutdown t =
     (let t = t\<lparr>tv_ctxDone := True\<rparr> in
      if tv_isDone t then t else respond (Inl ErrContextCancelled) t)"

section \<open>What the caller sees\<close>

text \<open>The walk a traverser still has to do.\<close>

definition tv_rest :: "traverser \<Rightarrow> walk" where
  "tv_rest t = (case tv_loader t of None \<Rightarrow> WalkDone (tv_completionErr t) | Some k \<Rightarrow> WalkLoad (tv_currentLink t) (tv_currentContext t) k)"

definition tv_ok :: "traverser \<Rightarrow> bool" where
  "tv_ok t \<longleftrightarrow> (tv_isDone t \<longleftrightarrow> tv_loader t = None) \<and> (tv_ctxDone t \<longrightarrow> tv_isDone t)"

lemma count_simps [simp]: "tv_rest (t\<lparr>tv_blocksCount := n\<rparr>) = tv_rest t" "tv_ok (t\<lparr>tv_blocksCount := n\<rparr>) = tv_ok t"
  by (simp_all add: tv_rest_def tv_ok_def split: option.split)

lemma settle_ok [simp]: "tv_loader t = None \<Longrightarrow> \<not> tv_isDone t \<Longrightarrow> tv_ok (settle w t)"
  by (auto simp: tv_ok_def settle_def writeDone_def split: walk.split)

lemma settle_rest: "\<not> tv_ctxDone t \<Longrightarrow> tv_rest (settle w t) = w"
  by (auto simp: tv_rest_def settle_def writeDone_def split: walk.split)

lemma settle_simps [simp]:
  "tv_blocksCount (settle w t) = tv_blocksCount t" "tv_ctxDone (settle w t) = tv_ctxDone t"
  by (auto simp: settle_def writeDone_def split: walk.split)

lemma tv_Start_ok: "tv_ok (tv_Start w)" "tv_rest (tv_Start w) = w" "tv_ctxDone (tv_Start w) = False" "tv_blocksCount (tv_Start w) = 0"
  by (simp_all add: tv_Start_def settle_rest)

lemma complete_iff: "tv_ok t \<Longrightarrow> tv_isDone t \<longleftrightarrow> (\<exists>err. tv_rest t = WalkDone err)"
  by (auto simp: tv_ok_def tv_rest_def split: option.split)

lemma rest_done: "tv_ok t \<Longrightarrow> tv_rest t = WalkDone err \<Longrightarrow> IsComplete t = (True, err)"
  by (auto simp: tv_ok_def tv_rest_def IsComplete_def split: option.splits)

lemma rest_load:
  assumes "tv_ok t" "tv_rest t = WalkLoad lnk ctx k"
  shows "IsComplete t = (False, tv_completionErr t)" "CurrentRequest t = (lnk, ctx)" "tv_loader t = Some k" "\<not> tv_isDone t" "\<not> tv_ctxDone t"
  using assms by (auto simp: tv_ok_def tv_rest_def IsComplete_def CurrentRequest_def split: option.splits)

lemma respond_ok:
  assumes "tv_ok t" "tv_rest t = WalkLoad lnk ctx k"
  shows "tv_ok (respond answer t)" "tv_rest (respond answer t) = k answer" "tv_ctxDone (respond answer t) = False"
    "tv_blocksCount (respond answer t) = tv_blocksCount t"
  using rest_load[OF assms] by (simp_all add: respond_def settle_rest)

lemma Advance_ok:
  assumes "tv_ok t" "tv_rest t = WalkLoad lnk ctx k"
  shows "\<exists>t'. Advance raced d t = (None, t') \<and> tv_ok t' \<and> tv_rest t' = k (Inr d) \<and> tv_blocksCount t' = tv_blocksCount t + 1"
  using rest_load[OF assms] respond_ok[OF assms, of "Inr d"] by (simp add: Advance_def Let_def)

lemma tv_Error_ok:
  assumes "tv_ok t" "tv_rest t = WalkLoad lnk ctx k"
  shows "tv_ok (tv_Error err t)" "tv_rest (tv_Error err t) = k (Inl err)" "tv_blocksCount (tv_Error err t) = tv_blocksCount t"
  using rest_load[OF assms] respond_ok[OF assms, of "Inl err"] by (simp_all add: tv_Error_def)

lemma tv_Shutdown_ok: "tv_ok t \<Longrightarrow> tv_ok (tv_Shutdown t) \<and> tv_isDone (tv_Shutdown t)"
  by (auto simp: tv_Shutdown_def Let_def respond_def settle_def writeDone_def tv_ok_def split: option.split)

text \<open>A budget of one link does not even admit the root block: the budget is decremented before it is
  compared with zero.\<close>

lemma budget_of_one_refuses_root:
  "\<exists>err. start_walk None (Some 1) root load selectorErr walkAdv = WalkDone (Some err)"
  "2 \<le> n \<Longrightarrow> \<exists>k. start_walk None (Some n) root load selectorErr walkAdv = WalkLoad root [] k"
  by (simp_all add: start_walk_def)

end
