(* ===== verification/Query_Executor.thy ===== *)
theory Query_Executor
  imports Response_Assembler Response_Manager Traverser
begin

text \<open>
  \<^verbatim>\<open>responsemanager/queryexecutor/queryexecutor.go\<close>: the execution of a response, which walks the requested
  graph, sends each block in a transaction of its own and closes the response.

  A transaction works on the link tracker of the peer; the operations it collects, which the response
  assembler puts into messages, are appended to a log (\<open>Transaction_splits\<close> relates this to the response
  stream). What other threads do meanwhile is an input for each block: the signals the select statement
  finds, in the order it takes them, and when the context of the response is cancelled. The traversal
  loop is a partial function; that it comes back is proved.
\<close>

section \<open>Environment\<close>

datatype 'n qe_signal = SigPause | SigErr gs_error | SigUpdate "'n gs_request list option"

datatype cancel_point = NotCancelled | CancelledBeforeCheck | CancelledBeforeAdvance bool

record 'n qe_input =
  in_cancel :: cancel_point
  in_signals :: "'n qe_signal list"

record 'n block_result =
  br_Err :: "gs_error option"
  br_Extensions :: "'n ext_data list"

record 'n qe_env =
  qe_Loader :: "path \<Rightarrow> cid \<Rightarrow> gs_error + (gs_error + bytes)"
  qe_BlockHooks :: "block_data \<Rightarrow> 'n block_result"
  qe_UpdateHooks :: "'n gs_request \<Rightarrow> 'n update_hook_result"

record 'n qe_state =
  qe_tracker :: tracker
  qe_log :: "'n response_operation list list"

type_synonym 'n transaction = "'n response_builder \<Rightarrow> (gs_error option \<times> 'n response_builder) option"

definition qe_Transaction :: "request_id \<Rightarrow> 'n transaction \<Rightarrow> 'n qe_state \<Rightarrow> (gs_error option \<times> 'n qe_state) option" where
  "qe_Transaction rid transaction st =
     map_option (\<lambda>(err, rb). (err, st\<lparr>qe_tracker := rb_linkTracker rb, qe_log := qe_log st @ [rb_operations rb]\<rparr>))
       (transaction \<lparr>rb_requestID = rid, rb_operations = [], rb_linkTracker = qe_tracker st\<rparr>)"

lemma Transaction_splits:
  "Transaction encLen rs f closedLater ctxDone (ts, mq) =
     map_option (\<lambda>(err, st). (err, mput (rs_p rs) (qe_tracker st) ts, execute encLen rs (last (qe_log st)) closedLater ctxDone mq))
       (qe_Transaction (rs_requestID rs) f \<lparr>qe_tracker = trackerOf ts (rs_p rs), qe_log = []\<rparr>)"
  by (auto simp: Transaction_def qe_Transaction_def Let_def split: option.splits)

definition qe_ClearRequest :: "request_id \<Rightarrow> 'n qe_state \<Rightarrow> 'n qe_state option" where
  "qe_ClearRequest rid st = map_option (\<lambda>(_, tr). st\<lparr>qe_tracker := tr\<rparr>) (FinishTracking (qe_tracker st) rid)"

section \<open>One block\<close>

fun applyUpdates ::
  "'n qe_env \<Rightarrow> 'n gs_request list \<Rightarrow> 'n response_builder \<Rightarrow> gs_error option \<times> 'n response_builder" where
  "applyUpdates env [] rb = (None, rb)"
| "applyUpdates env (update # updates) rb =
     (let result = qe_UpdateHooks env update;
          rb = foldl SendExtensionData rb (uhr_Extensions result)
      in if uhr_Err result \<noteq> None then (uhr_Err result, rb) else applyUpdates env updates rb)"

fun checkForUpdates ::
  "'n qe_env \<Rightarrow> 'n qe_signal list \<Rightarrow> 'n response_builder \<Rightarrow> gs_error option \<times> 'n response_builder" where
  "checkForUpdates env [] rb = (None, rb)"
| "checkForUpdates env (SigPause # signals) rb = (Some ErrPausedE, PauseRequest rb)"
| "checkForUpdates env (SigErr err # signals) rb = (Some err, rb)"
| "checkForUpdates env (SigUpdate None # signals) rb = checkForUpdates env signals rb"
| "checkForUpdates env (SigUpdate (Some updates) # signals) rb =
     (case applyUpdates env updates rb of
        (Some err, rb) \<Rightarrow> (Some err, rb)
      | (None, rb) \<Rightarrow> checkForUpdates env signals rb)"

definition loadBlock ::
  "'n qe_env \<Rightarrow> cancel_point \<Rightarrow> cid \<Rightarrow> path \<Rightarrow> traverser \<Rightarrow> bytes option \<times> gs_error option \<times> traverser" where
  "loadBlock env cancel lnk lnkCtx t =
     (case qe_Loader env lnkCtx lnk of
        Inl err \<Rightarrow> (None, None, tv_Error ErrSkipMe t)
      | Inr (Inl err) \<Rightarrow> (None, Some err, tv_Error err t)
      | Inr (Inr data) \<Rightarrow>
          (case cancel of
             CancelledBeforeAdvance raced \<Rightarrow>
               (case Advance raced data (tv_Shutdown t) of (err, t) \<Rightarrow> (Some data, err, t))
           | _ \<Rightarrow> (case Advance False data t of (err, t) \<Rightarrow> (Some data, err, t))))"

definition sendResponse :: "'n qe_env \<Rightarrow> 'n qe_signal list \<Rightarrow> cid \<Rightarrow> bytes option \<Rightarrow> 'n transaction" where
  "sendResponse env signals link data rb =
     (case checkForUpdates env signals rb of (err, rb) \<Rightarrow>
        if err \<noteq> Some ErrPausedE \<and> err \<noteq> None then Some (err, rb)
        else
          case SendResponse rb link data of
            None \<Rightarrow> None
          | Some (blockData, rb) \<Rightarrow>
              if bd_size blockData > 0
              then
                let result = qe_BlockHooks env blockData;
                    rb = foldl SendExtensionData rb (br_Extensions result);
                    rb = (if br_Err result = Some ErrPausedE then PauseRequest rb else rb)
                in if br_Err result \<noteq> None then Some (br_Err result, rb) else Some (err, rb)
              else Some (err, rb))"

section \<open>The traversal\<close>

definition next_input :: "'n qe_input list \<Rightarrow> 'n qe_input \<times> 'n qe_input list" where
  "next_input inputs =
     (case inputs of [] \<Rightarrow> (\<lparr>in_cancel = NotCancelled, in_signals = []\<rparr>, []) | i # is \<Rightarrow> (i, is))"

partial_function (option) runTraversal ::
  "'n qe_env \<Rightarrow> request_id \<Rightarrow> 'n qe_input list \<Rightarrow> traverser \<Rightarrow> 'n qe_state \<Rightarrow> (gs_error option \<times> 'n qe_state) option" where
  "runTraversal env rid inputs t st =
     (let (input, inputs) = next_input inputs;
          t = (if in_cancel input = CancelledBeforeCheck then tv_Shutdown t else t);
          (isComplete, err) = IsComplete t
      in if isComplete
         then Some (if NBlocksTraversed t = 0 \<and> err = Some ErrSkipMe then Some ErrFirstBlockLoadE else err, st)
         else
           let (lnk, lnkCtx) = CurrentRequest t;
               (data, err, t) = loadBlock env (in_cancel input) lnk lnkCtx t
           in if err \<noteq> None then Some (err, st)
              else Option.bind (qe_Transaction rid (sendResponse env (in_signals input) lnk data) st) (\<lambda>(err, st).
                if err \<noteq> None then Some (err, st) else runTraversal env rid inputs t st))"

definition closeResponse :: "gs_error option \<Rightarrow> 'n transaction" where
  "closeResponse err rb =
     (case err of
        None \<Rightarrow> map_option (\<lambda>(_, rb). (None, rb)) (FinishRequest rb)
      | Some e \<Rightarrow>
          map_option (Pair err)
            (FinishWithError rb
              (if e = ErrFirstBlockLoadE then RequestFailedContentNotFound
               else if e = ErrCancelledByCommand then RequestCancelled
               else RequestFailedUnknown)))"

definition executeQuery ::
  "'n qe_env \<Rightarrow> request_id \<Rightarrow> 'n qe_input list \<Rightarrow> traverser \<Rightarrow> 'n qe_state \<Rightarrow> (gs_error option \<times> 'n qe_state) option" where
  "executeQuery env rid inputs t st =
     Option.bind (runTraversal env rid inputs t st) (\<lambda>(err, st).
       if err = Some ErrPausedE then Some (err, st)
       else if err = Some ErrNetworkErrorE \<or> err = Some ErrContextCancelled
       then map_option (Pair err) (qe_ClearRequest rid st)
       else qe_Transaction rid (closeResponse err) st)"

text \<open>The task as a whole: an empty one is dropped, otherwise its outcome goes back to the response manager.\<close>

definition qe_ExecuteTask ::
  "'n qe_env \<Rightarrow> peer_id \<Rightarrow> request_id \<Rightarrow> nat \<Rightarrow> bool \<Rightarrow> 'n qe_input list \<Rightarrow> traverser \<Rightarrow> 'n qe_state \<Rightarrow>
   ('n rsm_message list \<times> 'n qe_state) option" where
  "qe_ExecuteTask env pid rid ch isEmpty inputs t st =
     (if isEmpty then Some ([], st)
      else Option.bind (executeQuery env rid inputs t st) (\<lambda>(err, st). Some ([FinishTaskRequest rid pid err ch], st)))"

section \<open>Every run returns and sends one final status\<close>

fun terminal_op :: "'n response_operation \<Rightarrow> bool" where
  "terminal_op (StatusOperation rid c) \<longleftrightarrow> IsTerminal c"
| "terminal_op _ \<longleftrightarrow> False"

text \<open>A builder to which nothing terminal was added.\<close>

definition grows :: "'n response_builder \<Rightarrow> 'n response_builder \<Rightarrow> bool" where
  "grows rb rb' \<longleftrightarrow> rb_requestID rb' = rb_requestID rb \<and> (plt_inv (rb_linkTracker rb) \<longrightarrow> plt_inv (rb_linkTracker rb')) \<and>
     filter terminal_op (rb_operations rb') = filter terminal_op (rb_operations rb)"

lemma grows_refl [simp]: "grows rb rb"
  by (simp add: grows_def)

lemma grows_trans: "grows a b \<Longrightarrow> grows b c \<Longrightarrow> grows a c"
  by (simp add: grows_def)

lemma grows_ext: "grows rb (foldl SendExtensionData rb exts)"
proof (induction exts arbitrary: rb)
  case (Cons e exts)
  have "grows rb (SendExtensionData rb e)" by (simp add: grows_def SendExtensionData_def addOperation_def)
  with Cons[of "SendExtensionData rb e"] grows_trans show ?case by auto
qed simp

lemma grows_pause: "grows rb (PauseRequest rb)"
  by (simp add: grows_def PauseRequest_def addOperation_def IsTerminal_def IsSuccess_def IsFailure_def status_codes)

lemma applyUpdates_grows: "grows rb (snd (applyUpdates env us rb))"
proof (induction us arbitrary: rb)
  case (Cons u us)
  let ?rb = "foldl SendExtensionData rb (uhr_Extensions (qe_UpdateHooks env u))"
  have "grows rb ?rb" by (rule grows_ext)
  with Cons[of ?rb] grows_trans show ?case by (fastforce simp: Let_def)
qed simp

lemma checkForUpdates_grows: "grows rb (snd (checkForUpdates env signals rb))"
proof (induction env signals rb rule: checkForUpdates.induct)
  case (5 env updates signals rb)
  obtain err rb1 where a: "applyUpdates env updates rb = (err, rb1)" by fastforce
  with applyUpdates_grows[of rb env updates] have "grows rb rb1" by simp
  with 5 a show ?case by (cases err) (auto intro: grows_trans)
qed (simp_all add: grows_pause)

lemma SendResponse_grows:
  assumes "plt_inv (rb_linkTracker rb)"
  shows "\<exists>blk rb'. SendResponse rb link data = Some (blk, rb') \<and> grows rb rb' \<and> plt_inv (rb_linkTracker rb')"
  using SendResponse_spec[OF assms, of link data] by (auto simp: grows_def)

lemma sendResponse_grows:
  assumes inv: "plt_inv (rb_linkTracker rb)"
  shows "\<exists>err rb'. sendResponse env signals link data rb = Some (err, rb') \<and> grows rb rb' \<and> plt_inv (rb_linkTracker rb')"
proof -
  obtain err rb1 where c: "checkForUpdates env signals rb = (err, rb1)" by fastforce
  with checkForUpdates_grows[of rb env signals] inv have g1: "grows rb rb1" "plt_inv (rb_linkTracker rb1)" by (auto simp: grows_def)
  from SendResponse_grows[OF g1(2), of link data] obtain blk rb2 where
    s: "SendResponse rb1 link data = Some (blk, rb2)" "grows rb1 rb2" "plt_inv (rb_linkTracker rb2)" by blast
  let ?res = "qe_BlockHooks env blk"
  let ?rb3 = "foldl SendExtensionData rb2 (br_Extensions ?res)"
  have g3: "grows rb2 ?rb3" by (rule grows_ext)
  have g4: "grows rb2 (PauseRequest ?rb3)" using g3 grows_pause grows_trans by blast
  have "plt_inv (rb_linkTracker ?rb3)" "plt_inv (rb_linkTracker (PauseRequest ?rb3))" using s(3) g3 g4 by (auto simp: grows_def)
  moreover have "grows rb rb2" "grows rb ?rb3" "grows rb (PauseRequest ?rb3)"
    using g1(1) s(2) g3 g4 grows_trans by blast+
  ultimately show ?thesis using c g1 s by (simp add: sendResponse_def Let_def)
qed

definition quiet_run :: "'n qe_state \<Rightarrow> (gs_error option \<times> 'n qe_state) option \<Rightarrow> bool" where
  "quiet_run st r \<longleftrightarrow> (\<exists>err st' new. r = Some (err, st') \<and> plt_inv (qe_tracker st') \<and> qe_log st' = qe_log st @ new \<and>
     (\<forall>ops \<in> set new. filter terminal_op ops = []))"

lemma quiet_run_now: "plt_inv (qe_tracker st) \<Longrightarrow> quiet_run st (Some (err, st))"
  by (auto simp: quiet_run_def)

lemma quiet_run_bind:
  assumes "quiet_run st r" "\<And>err st'. r = Some (err, st') \<Longrightarrow> plt_inv (qe_tracker st') \<Longrightarrow> quiet_run st' (f err st')"
  shows "quiet_run st (Option.bind r (\<lambda>(err, st). f err st))"
proof -
  from assms(1) obtain err st' new where r: "r = Some (err, st')" "plt_inv (qe_tracker st')" "qe_log st' = qe_log st @ new"
    "\<forall>ops \<in> set new. filter terminal_op ops = []" by (auto simp: quiet_run_def)
  from assms(2)[OF r(1,2)] obtain err2 st2 new2 where "f err st' = Some (err2, st2)" "plt_inv (qe_tracker st2)"
    "qe_log st2 = qe_log st' @ new2" "\<forall>ops \<in> set new2. filter terminal_op ops = []" by (auto simp: quiet_run_def)
  with r show ?thesis unfolding quiet_run_def by (intro exI[of _ err2] exI[of _ st2] exI[of _ "new @ new2"]) auto
qed

lemma block_transaction_quiet:
  assumes "plt_inv (qe_tracker st)"
  shows "quiet_run st (qe_Transaction rid (sendResponse env signals link data) st)"
proof -
  let ?rb = "\<lparr>rb_requestID = rid, rb_operations = [], rb_linkTracker = qe_tracker st\<rparr>"
  from sendResponse_grows[of ?rb env signals link data] assms obtain err rb' where
    "sendResponse env signals link data ?rb = Some (err, rb')" "grows ?rb rb'" "plt_inv (rb_linkTracker rb')" by auto
  then show ?thesis by (auto simp: qe_Transaction_def quiet_run_def grows_def)
qed

lemma loadBlock_spec:
  assumes "tv_ok t" "tv_rest t = WalkLoad lnk ctx k"
  shows "\<exists>data err t'. loadBlock env cancel lnk ctx t = (data, err, t') \<and>
    (err = None \<longrightarrow> tv_ok t' \<and> tv_rest t' = k (case data of None \<Rightarrow> Inl ErrSkipMe | Some d \<Rightarrow> Inr d))"
proof (cases "qe_Loader env ctx lnk")
  case (Inl e)
  with tv_Error_ok[OF assms, of ErrSkipMe] show ?thesis by (simp add: loadBlock_def)
next
  case (Inr r)
  show ?thesis
  proof (cases r)
    case r: (Inr d)
    have "tv_isDone (tv_Shutdown t)" "tv_ok (tv_Shutdown t)" using tv_Shutdown_ok[OF assms(1)] by auto
    then have c: "\<exists>e. Advance raced d (tv_Shutdown t) = (Some e, tv_Shutdown t)" for raced by (simp add: Advance_def)
    from Advance_ok[OF assms, of False d] obtain t' where "Advance False d t = (None, t')" "tv_ok t'" "tv_rest t' = k (Inr d)" by blast
    moreover obtain e where "cancel = CancelledBeforeAdvance raced \<Longrightarrow> Advance raced d (tv_Shutdown t) = (Some e, tv_Shutdown t)" for raced
      using c by (cases cancel) auto
    ultimately show ?thesis using Inr r by (cases cancel) (auto simp: loadBlock_def)
  qed (use Inr in \<open>simp add: loadBlock_def\<close>)
qed

lemma runTraversal_quiet:
  fixes st :: "'n qe_state"
  shows "tv_ok t \<Longrightarrow> tv_rest t = w \<Longrightarrow> plt_inv (qe_tracker st) \<Longrightarrow> quiet_run st (runTraversal env rid inputs t st)"
proof (induction w arbitrary: t st inputs)
  case (WalkDone e)
  have "fst (IsComplete (tv_Shutdown t)) \<and> fst (IsComplete t)"
    using tv_Shutdown_ok[OF WalkDone(1)] rest_done[OF WalkDone(1,2)] by (simp add: IsComplete_def)
  then show ?case
    using quiet_run_now[OF WalkDone(3)] by (subst runTraversal.simps) (auto simp: Let_def split: prod.splits)
next
  case (WalkLoad lnk ctx k)
  obtain input inputs' where i: "next_input inputs = (input, inputs')" by fastforce
  have fin: "fst (IsComplete (tv_Shutdown t))" using tv_Shutdown_ok[OF WalkLoad.prems(1)] by (simp add: IsComplete_def)
  note load = rest_load[OF WalkLoad.prems(1,2)]
  obtain data err t' where l: "loadBlock env (in_cancel input) lnk ctx t = (data, err, t')"
    "err = None \<Longrightarrow> tv_ok t'" "err = None \<Longrightarrow> tv_rest t' = k (case data of None \<Rightarrow> Inl ErrSkipMe | Some d \<Rightarrow> Inr d)"
    using loadBlock_spec[OF WalkLoad.prems(1,2), of env "in_cancel input"] by blast
  have go: "quiet_run st (Option.bind (qe_Transaction rid (sendResponse env (in_signals input) lnk data) st) (\<lambda>(err, st).
      if err \<noteq> None then Some (err, st) else runTraversal env rid inputs' t' st))" if "err = None"
  proof (rule quiet_run_bind[OF block_transaction_quiet[OF WalkLoad.prems(3)]])
    fix e and st' :: "'n qe_state"
    assume inv: "plt_inv (qe_tracker st')"
    show "quiet_run st' (if e \<noteq> None then Some (e, st') else runTraversal env rid inputs' t' st')"
      using quiet_run_now[OF inv] WalkLoad.IH[OF _ l(2)[OF that] l(3)[OF that] inv] by simp
  qed
  show ?case
    using i fin load l(1) go quiet_run_now[OF WalkLoad.prems(3)]
    by (subst runTraversal.simps) (auto simp: Let_def split: prod.splits if_splits)
qed

lemma closeResponse_status:
  assumes "plt_inv (qe_tracker st)"
  shows "\<exists>c st'. qe_Transaction rid (closeResponse err) st = Some (err, st') \<and> plt_inv (qe_tracker st') \<and>
    qe_log st' = qe_log st @ [[StatusOperation rid c]] \<and> IsTerminal c \<and> (IsSuccess c \<longleftrightarrow> err = None) \<and>
    (err = None \<longrightarrow> c = (if \<forall>l. (rid, l) \<notin> bucket_missing (qe_tracker st) (getLinkTracker (qe_tracker st) rid)
       then RequestCompletedFull else RequestCompletedPartial))"
proof -
  obtain tr' where "FinishTracking (qe_tracker st) rid =
      Some (\<forall>l. (rid, l) \<notin> bucket_missing (qe_tracker st) (getLinkTracker (qe_tracker st) rid), tr')" "plt_inv tr'"
    by - (rule FinishTracking_spec[OF assms, of rid], auto)
  then show ?thesis
    by (cases err)
      (auto simp: qe_Transaction_def closeResponse_def FinishRequest_def FinishWithError_def addOperation_def Let_def
        IsTerminal_def IsSuccess_def IsFailure_def status_codes)
qed

text \<open>C16: Executing a response always comes back, whatever the block store, the hooks, the signals and
  a cancellation do. Unless it was paused, cancelled or ended by a network error, in which case it has sent
  no final status, the last transaction carries exactly the final status, a success exactly when the execution
  ended without error, and no transaction before it carries one.\<close>

theorem query_sends_one_final_status:
  assumes "tv_ok t" "plt_inv (qe_tracker st)"
  shows "\<exists>err st' new. executeQuery env rid inputs t st = Some (err, st') \<and> plt_inv (qe_tracker st') \<and>
    qe_log st' = qe_log st @ new \<and>
    (if err \<in> {Some ErrPausedE, Some ErrNetworkErrorE, Some ErrContextCancelled}
     then \<forall>ops \<in> set new. filter terminal_op ops = []
     else \<exists>before c. new = before @ [[StatusOperation rid c]] \<and> (\<forall>ops \<in> set before. filter terminal_op ops = []) \<and>
            IsTerminal c \<and> (IsSuccess c \<longleftrightarrow> err = None))"
proof -
  from runTraversal_quiet[OF assms(1) refl assms(2), of env rid inputs] obtain err st1 new where
    run: "runTraversal env rid inputs t st = Some (err, st1)" "plt_inv (qe_tracker st1)" "qe_log st1 = qe_log st @ new"
      "\<forall>ops \<in> set new. filter terminal_op ops = []" by (auto simp: quiet_run_def)
  show ?thesis
  proof (cases "err \<in> {Some ErrPausedE, Some ErrNetworkErrorE, Some ErrContextCancelled}")
    case True
    obtain tr' where "FinishTracking (qe_tracker st1) rid =
        Some (\<forall>l. (rid, l) \<notin> bucket_missing (qe_tracker st1) (getLinkTracker (qe_tracker st1) rid), tr')" "plt_inv tr'"
      by - (rule FinishTracking_spec[OF run(2), of rid], auto)
    with True run show ?thesis by (auto simp: executeQuery_def qe_ClearRequest_def)
  next
    case False
    from closeResponse_status[OF run(2), of rid err] obtain c st2 where
      "qe_Transaction rid (closeResponse err) st1 = Some (err, st2)" "plt_inv (qe_tracker st2)"
      "qe_log st2 = qe_log st1 @ [[StatusOperation rid c]]" "IsTerminal c" "IsSuccess c \<longleftrightarrow> err = None" by blast
    with False run show ?thesis
      by (intro exI[of _ err] exI[of _ st2] exI[of _ "new @ [[StatusOperation rid c]]"]) (auto simp: executeQuery_def)
  qed
qed

section \<open>A whole traversal\<close>

text \<open>What a walk visits with the blocks of a store: each link with its block, or without when the store has none, and how it ends.\<close>

primrec visits :: "'n qe_env \<Rightarrow> walk \<Rightarrow> (cid \<times> bytes option) list \<times> gs_error option" where
  "visits env (WalkDone err) = ([], err)"
| "visits env (WalkLoad lnk ctx k) =
     (case qe_Loader env ctx lnk of
        Inl _ \<Rightarrow> apfst (Cons (lnk, None)) (visits env (k (Inl ErrSkipMe)))
      | Inr (Inl err) \<Rightarrow> ([], Some err)
      | Inr (Inr d) \<Rightarrow> apfst (Cons (lnk, Some d)) (visits env (k (Inr d))))"

definition silent_hooks :: "'n qe_env \<Rightarrow> bool" where
  "silent_hooks env \<longleftrightarrow> (\<forall>b. qe_BlockHooks env b = \<lparr>br_Err = None, br_Extensions = []\<rparr>)"

definition block_ops :: "request_id \<Rightarrow> (cid \<times> bytes option) list \<Rightarrow> (bool \<times> i64) list \<Rightarrow> 'n response_operation list list" where
  "block_ops rid lds sends = map (\<lambda>((l, d), (send, index)). [BlockOperation d send l rid index]) (zip lds sends)"

lemma send_one:
  fixes st :: "'n qe_state"
  assumes "silent_hooks env" "plt_inv (qe_tracker st)"
  shows "\<exists>send index tr. qe_Transaction rid (sendResponse env [] link data) st =
      Some (None, st\<lparr>qe_tracker := tr, qe_log := qe_log st @ [[BlockOperation data send link rid index]]\<rparr>) \<and>
    plt_inv tr \<and> (send \<longrightarrow> data \<noteq> None) \<and>
    bucket_missing tr (getLinkTracker tr rid) =
      (if data = None then {(rid, link)} else {}) \<union> bucket_missing (qe_tracker st) (getLinkTracker (qe_tracker st) rid)"
proof -
  let ?rb = "\<lparr>rb_requestID = rid, rb_operations = [], rb_linkTracker = qe_tracker st\<rparr> :: 'n response_builder"
  obtain blk send index tr where r: "SendResponse ?rb link data = Some (blk, \<lparr>rb_requestID = rid,
      rb_operations = [BlockOperation data send link rid index], rb_linkTracker = tr\<rparr>)" "plt_inv tr" "send \<longrightarrow> data \<noteq> None"
    "bucket_missing tr (getLinkTracker tr rid) =
      (if data = None then {(rid, link)} else {}) \<union> bucket_missing (qe_tracker st) (getLinkTracker (qe_tracker st) rid)"
    using SendResponse_spec[of ?rb link data, unfolded response_builder.simps append.simps, OF assms(2)] by blast
  have "sendResponse env [] link data ?rb = Some (None, \<lparr>rb_requestID = rid,
      rb_operations = [BlockOperation data send link rid index], rb_linkTracker = tr\<rparr>)"
    using r(1) assms(1) by (simp add: sendResponse_def silent_hooks_def Let_def)
  with r(2-4) show ?thesis
    by (intro exI[of _ send] exI[of _ index] exI[of _ tr]) (simp add: qe_Transaction_def)
qed

lemma runTraversal_visits:
  fixes st :: "'n qe_state"
  assumes "tv_ok t" "tv_rest t = w" "visits env w = (lds, None)" "silent_hooks env" "plt_inv (qe_tracker st)"
  shows "\<exists>sends st'. runTraversal env rid [] t st = Some (None, st') \<and> plt_inv (qe_tracker st') \<and> length sends = length lds \<and>
    qe_log st' = qe_log st @ block_ops rid lds sends \<and> (\<forall>((l, d), (send, index)) \<in> set (zip lds sends). send \<longrightarrow> d \<noteq> None) \<and>
    bucket_missing (qe_tracker st') (getLinkTracker (qe_tracker st') rid) =
      {(rid, l) | l. (l, None) \<in> set lds} \<union> bucket_missing (qe_tracker st) (getLinkTracker (qe_tracker st) rid)"
  using assms
proof (induction w arbitrary: t st lds)
  case (WalkDone e)
  with rest_done[OF WalkDone(1,2)] show ?case
    by (subst runTraversal.simps) (auto simp: Let_def next_input_def block_ops_def)
next
  case (WalkLoad lnk ctx k)
  note load = rest_load[OF WalkLoad.prems(1,2)]
  obtain data lds' where v: "lds = (lnk, data) # lds'"
    "visits env (k (case data of None \<Rightarrow> Inl ErrSkipMe | Some d \<Rightarrow> Inr d)) = (lds', None)"
    "\<And>d. data = Some d \<Longrightarrow> qe_Loader env ctx lnk = Inr (Inr d)" "data = None \<Longrightarrow> \<exists>e. qe_Loader env ctx lnk = Inl e"
  proof (cases "qe_Loader env ctx lnk")
    case (Inl e)
    with WalkLoad.prems(3) that[of None] show thesis by (cases "visits env (k (Inl ErrSkipMe))") auto
  next
    case (Inr r)
    with WalkLoad.prems(3) obtain d where "r = Inr d" by (cases r) auto
    with Inr WalkLoad.prems(3) that[of "Some d"] show thesis by (cases "visits env (k (Inr d))") auto
  qed
  obtain t' where l: "loadBlock env NotCancelled lnk ctx t = (data, None, t')" "tv_ok t'"
    "tv_rest t' = k (case data of None \<Rightarrow> Inl ErrSkipMe | Some d \<Rightarrow> Inr d)"
  proof (cases data)
    case None
    with v(4) that tv_Error_ok[OF WalkLoad.prems(1,2), of ErrSkipMe] show thesis by (auto simp: loadBlock_def)
  next
    case (Some d)
    with v(3) that Advance_ok[OF WalkLoad.prems(1,2), of False d] show thesis by (auto simp: loadBlock_def)
  qed
  from send_one[OF WalkLoad.prems(4,5), of rid lnk data] obtain send index tr where
    s: "qe_Transaction rid (sendResponse env [] lnk data) st =
        Some (None, st\<lparr>qe_tracker := tr, qe_log := qe_log st @ [[BlockOperation data send lnk rid index]]\<rparr>)"
      "plt_inv tr" "send \<longrightarrow> data \<noteq> None" "bucket_missing tr (getLinkTracker tr rid) =
      (if data = None then {(rid, lnk)} else {}) \<union> bucket_missing (qe_tracker st) (getLinkTracker (qe_tracker st) rid)" by blast
  let ?st = "st\<lparr>qe_tracker := tr, qe_log := qe_log st @ [[BlockOperation data send lnk rid index]]\<rparr>"
  from WalkLoad.IH[OF _ l(2,3) v(2) WalkLoad.prems(4), of ?st] s(2) obtain sends st' where
    r: "runTraversal env rid [] t' ?st = Some (None, st')" "plt_inv (qe_tracker st')" "length sends = length lds'"
      "qe_log st' = qe_log ?st @ block_ops rid lds' sends"
      "\<forall>((l, d), (send, index)) \<in> set (zip lds' sends). send \<longrightarrow> d \<noteq> None"
      "bucket_missing (qe_tracker st') (getLinkTracker (qe_tracker st') rid) =
        {(rid, l) | l. (l, None) \<in> set lds'} \<union> bucket_missing tr (getLinkTracker tr rid)" by auto
  have "runTraversal env rid [] t st = Some (None, st')"
    using load l(1) s(1) r(1) by (subst runTraversal.simps) (simp add: Let_def next_input_def)
  with r(2-6) s(3,4) v(1) show ?case
    by (intro exI[of _ "(send, index) # sends"] exI[of _ st']) (auto simp: block_ops_def)
qed

text \<open>C34: A response that runs undisturbed to the end of a traversal sends, in traversal order, one
  transaction for each link the walk visits, with the block the store has for it or without one when the store has
  none, and then the status: complete when no block was missing and partial otherwise.\<close>

theorem query_sends_traversal_in_order:
  fixes st :: "'n qe_state"
  assumes "visits env w = (lds, None)" "silent_hooks env" "plt_inv (qe_tracker st)"
    and "\<forall>l. (rid, l) \<notin> bucket_missing (qe_tracker st) (getLinkTracker (qe_tracker st) rid)"
  shows "\<exists>sends st'. executeQuery env rid [] (tv_Start w) st = Some (None, st') \<and> length sends = length lds \<and>
    qe_log st' = qe_log st @ block_ops rid lds sends @ [[StatusOperation rid (final_status lds)]] \<and>
    (\<forall>((l, d), (send, index)) \<in> set (zip lds sends). send \<longrightarrow> d \<noteq> None)"
proof -
  from runTraversal_visits[OF tv_Start_ok(1,2) assms(1-3), of rid] obtain sends st1 where
    run: "runTraversal env rid [] (tv_Start w) st = Some (None, st1)" "plt_inv (qe_tracker st1)" "length sends = length lds"
      "qe_log st1 = qe_log st @ block_ops rid lds sends"
      "\<forall>((l, d), (send, index)) \<in> set (zip lds sends). send \<longrightarrow> d \<noteq> None"
      "bucket_missing (qe_tracker st1) (getLinkTracker (qe_tracker st1) rid) =
        {(rid, l) | l. (l, None) \<in> set lds} \<union> bucket_missing (qe_tracker st) (getLinkTracker (qe_tracker st) rid)" by blast
  have "(\<forall>l. (rid, l) \<notin> bucket_missing (qe_tracker st1) (getLinkTracker (qe_tracker st1) rid)) \<longleftrightarrow> (\<forall>(l, d) \<in> set lds. d \<noteq> None)"
    unfolding run(6) using assms(4) by (auto simp: split_beta) (metis not_None_eq)
  with closeResponse_status[OF run(2), of rid None] obtain st2 where
    "qe_Transaction rid (closeResponse None) st1 = Some (None, st2)"
    "qe_log st2 = qe_log st1 @ [[StatusOperation rid (final_status lds)]]" by (auto simp: final_status_def)
  with run show ?thesis by (intro exI[of _ sends] exI[of _ st2]) (simp add: executeQuery_def)
qed

subsection \<open>Witnesses: two links, one of them missing from the store; a pause after the first block\<close>

definition demo_walk :: walk where
  "demo_walk = WalkLoad ''a'' [] (\<lambda>r. WalkLoad ''b'' [''x''] (\<lambda>r. WalkDone None))"

definition demo_env :: "simple_node qe_env" where
  "demo_env = \<lparr>qe_Loader = (\<lambda>ctx l. if l = ''a'' then Inr (Inr [1, 2]) else Inl (OtherErr ''not found'')),
     qe_BlockHooks = (\<lambda>b. \<lparr>br_Err = None, br_Extensions = []\<rparr>),
     qe_UpdateHooks = (\<lambda>u. \<lparr>uhr_Err = None, uhr_Unpause = False, uhr_Extensions = []\<rparr>)\<rparr>"

definition demo_qe :: "simple_node qe_state" where
  "demo_qe = \<lparr>qe_tracker = newTracker, qe_log = []\<rparr>"

lemma demo_qe_fresh: "plt_inv (qe_tracker demo_qe)"
  "\<forall>l. (''r'', l) \<notin> bucket_missing (qe_tracker demo_qe) (getLinkTracker (qe_tracker demo_qe) ''r'')"
  by (simp add: demo_qe_def gs_inv) (simp add: demo_qe_def newTracker_def getLinkTracker_def bucket_missing_def lt_missing_New)

theorem query_sends_traversal_in_order_witness:
  "\<exists>sends st'. executeQuery demo_env ''r'' [] (tv_Start demo_walk) demo_qe = Some (None, st') \<and>
     qe_log st' = block_ops ''r'' [(''a'', Some [1, 2]), (''b'', None)] sends @ [[StatusOperation ''r'' RequestCompletedPartial]]"
proof -
  have "visits demo_env demo_walk = ([(''a'', Some [1, 2]), (''b'', None)], None)" by (simp add: demo_env_def demo_walk_def)
  moreover have "silent_hooks demo_env" by (simp add: silent_hooks_def demo_env_def)
  ultimately show ?thesis
    using query_sends_traversal_in_order[of demo_env demo_walk "[(''a'', Some [1, 2]), (''b'', None)]" demo_qe "''r''"] demo_qe_fresh
    by (auto simp: final_status_def demo_qe_def)
qed

theorem query_sends_one_final_status_witness:
  "\<exists>err st'. executeQuery demo_env ''r'' [\<lparr>in_cancel = NotCancelled, in_signals = [SigPause]\<rparr>] (tv_Start demo_walk) demo_qe = Some (err, st') \<and>
     plt_inv (qe_tracker st')"
  using query_sends_one_final_status[OF tv_Start_ok(1) demo_qe_fresh(1),
      of demo_env "''r''" "[\<lparr>in_cancel = NotCancelled, in_signals = [SigPause]\<rparr>]" demo_walk] by blast

end
