(* ===== verification/Executor.thy ===== *)
theory Executor
  imports Request_Manager Traverser
begin

text \<open>
  \<^verbatim>\<open>requestmanager/executor/executor.go\<close>: the execution of a request, which walks the requested graph with blocks
  of the local store and asks the remote for the rest when a block is missing.

  What other threads do meanwhile is an input for each block: what happens to the loader before the load and
  while it waits, the last response the manager has stored, a cancellation of the request and a pause
  signal. The requests sent and the errors put on the channel of the request are a log. The loop is a
  partial function, with the result \<open>None\<close> when a load does not come back.
\<close>

section \<open>Environment\<close>

record ex_block_data =
  xb_link :: cid
  xb_local :: bool
  xb_size :: u64
  xb_index :: i64

definition xb_BlockSizeOnWire :: "ex_block_data \<Rightarrow> u64" where
  "xb_BlockSizeOnWire bd = (if xb_local bd then 0 else xb_size bd)"

datatype 'n ex_call = ExSendRequest peer_id "'n gs_request" | ExInProgressErr gs_error

record 'n ex_input =
  xi_before :: "rl_event list"
  xi_waiting :: "rl_event list"
  xi_lastResponse :: "'n gs_response"
  xi_cancelled :: bool
  xi_paused :: bool

record 'n request_task =
  rt_P :: peer_id
  rt_Request :: "'n gs_request"
  rt_DoNotSendFirstBlocks :: i64

record 'n ex_env =
  ex_BlockHooks :: "peer_id \<Rightarrow> 'n gs_response \<Rightarrow> ex_block_data \<Rightarrow> 'n update_result"
  ex_nodes :: "'n node_ops"

record ('n, 's) ex_state =
  ex_traverser :: traverser
  ex_loader :: "'s reconciled_loader"
  ex_log :: "'n ex_call list"

definition ex_call :: "'n ex_call list \<Rightarrow> ('n, 's) ex_state \<Rightarrow> ('n, 's) ex_state" where
  "ex_call cs st = st\<lparr>ex_log := ex_log st @ cs\<rparr>"

section \<open>One block\<close>

definition processBlockHooks ::
  "'n ex_env \<Rightarrow> peer_id \<Rightarrow> 'n gs_response \<Rightarrow> ex_block_data \<Rightarrow> ('n, 's) ex_state \<Rightarrow> gs_error option \<times> ('n, 's) ex_state" where
  "processBlockHooks env p response block st =
     (let result = ex_BlockHooks env p response block;
          st = (if length (ur_Extensions result) > 0
                then ex_call [ExSendRequest p (NewUpdateRequest (gsp_requestID response) (ur_Extensions result))] st else st)
      in (ur_Err result, st))"

definition onNewBlock ::
  "'n ex_env \<Rightarrow> 'n request_task \<Rightarrow> 'n ex_input \<Rightarrow> ex_block_data \<Rightarrow> ('n, 's) ex_state \<Rightarrow> gs_error option \<times> ('n, 's) ex_state" where
  "onNewBlock env rt input block st = processBlockHooks env (rt_P rt) (xi_lastResponse input) block st"

definition is_missing :: "gs_error option \<Rightarrow> bool" where
  "is_missing err = (case err of Some (RemoteMissingBlockErr c p) \<Rightarrow> True | _ \<Rightarrow> False)"

definition advanceTraversal ::
  "'n ex_input \<Rightarrow> async_load_result \<Rightarrow> ('n, 's) ex_state \<Rightarrow> gs_error option \<times> ('n, 's) ex_state" where
  "advanceTraversal input result st =
     (case alr_Err result of
        Some err \<Rightarrow>
          if xi_cancelled input then (Some ErrContextCancelled, st)
          else
            let st = ex_call [ExInProgressErr err] st
            in (None, st\<lparr>ex_traverser :=
                  tv_Error (if is_missing (Some err) then ErrSkipMe else err) (ex_traverser st)\<rparr>)
      | None \<Rightarrow>
          (case Advance False (case alr_Data result of None \<Rightarrow> [] | Some d \<Rightarrow> d) (ex_traverser st) of
             (err, t) \<Rightarrow> (err, st\<lparr>ex_traverser := t\<rparr>)))"

definition processResult ::
  "'n ex_env \<Rightarrow> 'n request_task \<Rightarrow> 'n ex_input \<Rightarrow> cid \<Rightarrow> async_load_result \<Rightarrow> ('n, 's) ex_state \<Rightarrow> gs_error option \<times> ('n, 's) ex_state" where
  "processResult env rt input link result st =
     (let (err, st) =
        (if alr_Err result = None
         then onNewBlock env rt input
                \<lparr>xb_link = link, xb_local = alr_Local result,
                 xb_size = (case alr_Data result of None \<Rightarrow> 0 | Some d \<Rightarrow> of_nat (length d)),
                 xb_index = NBlocksTraversed (ex_traverser st)\<rparr> st
         else (None, st))
      in (if xi_paused input \<and> err = None then Some ErrPausedE else err, st))"

definition startRemoteRequest :: "'n ex_env \<Rightarrow> 'n request_task \<Rightarrow> ('n, 's) ex_state \<Rightarrow> ('n, 's) ex_state" where
  "startRemoteRequest env rt st =
     (let doNotSendFirstBlocks =
            (if rt_DoNotSendFirstBlocks rt < NBlocksTraversed (ex_traverser st)
             then NBlocksTraversed (ex_traverser st) else rt_DoNotSendFirstBlocks rt);
          request =
            (if doNotSendFirstBlocks > 0
             then ReplaceExtensions (rt_Request rt)
                    [\<lparr>ed_Name = ExtensionsDoNotSendFirstBlocks,
                      ed_Data = Some (EncodeDoNotSendFirstBlocks (ex_nodes env) doNotSendFirstBlocks)\<rparr>]
             else rt_Request rt)
      in ex_call [ExSendRequest (rt_P rt) request] st)"

fun env_steps :: "rl_event list \<Rightarrow> 's reconciled_loader \<Rightarrow> 's reconciled_loader option" where
  "env_steps [] rl = Some rl"
| "env_steps (e # es) rl = Option.bind (env_step e rl) (env_steps es)"

text \<open>The load of one block: from the loader, and once more after going online when it is the first block missing.\<close>

definition loadStep ::
  "'n ex_env \<Rightarrow> 'n request_task \<Rightarrow> 'n ex_input \<Rightarrow> bool \<Rightarrow> path \<Rightarrow> cid \<Rightarrow> ('n, 's) ex_state \<Rightarrow>
   (bool \<times> async_load_result \<times> ('n, 's) ex_state) option" where
  "loadStep env rt input requestSent linkContext lnk st =
     Option.bind (env_steps (xi_before input) (ex_loader st)) (\<lambda>rl.
       Option.bind (BlockReadOpener (xi_waiting input) rl linkContext lnk) (\<lambda>(rl, evs, result).
         if is_missing (alr_Err result) \<and> \<not> requestSent
         then
           let rl = SetRemoteOnline True rl;
               st = startRemoteRequest env rt st
           in map_option (\<lambda>(rl, evs, result). (True, result, st\<lparr>ex_loader := rl\<rparr>)) (RetryLastLoad evs rl)
         else Some (requestSent, result, st\<lparr>ex_loader := rl\<rparr>)))"

section \<open>The traversal\<close>

definition next_ex_input :: "'n ex_input list \<Rightarrow> 'n ex_input \<times> 'n ex_input list" where
  "next_ex_input inputs =
     (case inputs of
        [] \<Rightarrow> (\<lparr>xi_before = [], xi_waiting = [], xi_lastResponse = NewResponse [] 0 [] [], xi_cancelled = False, xi_paused = False\<rparr>, [])
      | i # is \<Rightarrow> (i, is))"

partial_function (option) traverse ::
  "'n ex_env \<Rightarrow> 'n request_task \<Rightarrow> 'n ex_input list \<Rightarrow> bool \<Rightarrow> ('n, 's) ex_state \<Rightarrow> (gs_error option \<times> ('n, 's) ex_state) option" where
  "traverse env rt inputs requestSent st =
     (let (isComplete, err) = IsComplete (ex_traverser st)
      in if isComplete then Some (err, st)
         else
           let (input, inputs) = next_ex_input inputs;
               (lnk, linkContext) = CurrentRequest (ex_traverser st)
           in Option.bind (loadStep env rt input requestSent linkContext lnk st) (\<lambda>(requestSent, result, st).
                let (err, st) = advanceTraversal input result st
                in if err \<noteq> None then Some (err, st)
                   else
                     let (err, st) = processResult env rt input lnk result st
                     in if err \<noteq> None then Some (err, st)
                        else traverse env rt inputs requestSent st))"

declare traverse.simps [code]

definition ex_ExecuteTask ::
  "'n ex_env \<Rightarrow> 'n request_task \<Rightarrow> peer_id \<Rightarrow> bool \<Rightarrow> bool \<Rightarrow> nat \<Rightarrow> 'n ex_input list \<Rightarrow> ('n, 's) ex_state \<Rightarrow>
   ('n rm_message list \<times> ('n, 's) ex_state) option" where
  "ex_ExecuteTask env rt pid isEmpty ctxDone ch inputs st =
     (if isEmpty then Some ([], st)
      else
        Option.bind (traverse env rt inputs False st) (\<lambda>(err, st).
          let st = (case err of
                      None \<Rightarrow> st
                    | Some e \<Rightarrow>
                        if e = ErrContextCancelled then st
                        else
                          let st = ex_call [ExSendRequest (rt_P rt) (NewCancelRequest (gsr_id (rt_Request rt)))] st;
                              st = st\<lparr>ex_loader := SetRemoteOnline False (ex_loader st)\<rparr>
                          in if e = ErrPausedE \<or> ctxDone then st else ex_call [ExInProgressErr e] st)
          in Some ([ReleaseRequestTaskMessage pid (gsr_id (rt_Request rt)) err ch], st)))"

section \<open>The requests it sends\<close>

definition new_requests :: "'n ex_call list \<Rightarrow> 'n gs_request list" where
  "new_requests cs = concat (map (\<lambda>c. case c of
     ExSendRequest p r \<Rightarrow> if gsr_requestType r = RequestTypeNew then [r] else [] | ExInProgressErr e \<Rightarrow> []) cs)"

definition skipping :: "'n ex_env \<Rightarrow> 'n request_task \<Rightarrow> int \<Rightarrow> 'n gs_request" where
  "skipping env rt n =
     (if n > 0
      then ReplaceExtensions (rt_Request rt)
             [\<lparr>ed_Name = ExtensionsDoNotSendFirstBlocks, ed_Data = Some (EncodeDoNotSendFirstBlocks (ex_nodes env) n)\<rparr>]
      else rt_Request rt)"

lemma new_requests_simps [simp]: "new_requests [] = []" "new_requests (cs @ ds) = new_requests cs @ new_requests ds"
  by (simp_all add: new_requests_def)

lemma ex_call_simps [simp]: "ex_log (ex_call cs st) = ex_log st @ cs" "ex_traverser (ex_call cs st) = ex_traverser st"
  "ex_loader (ex_call cs st) = ex_loader st"
  by (simp_all add: ex_call_def)

text \<open>A part of the execution that traverses \<open>n\<close> or more blocks and sends the new requests \<open>rs\<close>.\<close>

definition part :: "('n, 's) ex_state \<Rightarrow> 'n gs_request list \<Rightarrow> ('n, 's) ex_state \<Rightarrow> bool" where
  "part st rs st' \<longleftrightarrow> (\<exists>cs. ex_log st' = ex_log st @ cs \<and> new_requests cs = rs) \<and>
     tv_blocksCount (ex_traverser st) \<le> tv_blocksCount (ex_traverser st')"

lemma part_trans: "part st rs st1 \<Longrightarrow> part st1 rs' st' \<Longrightarrow> part st (rs @ rs') st'"
  by (fastforce simp: part_def)

lemma part_loader [simp]: "part st rs (st'\<lparr>ex_loader := rl\<rparr>) \<longleftrightarrow> part st rs st'"
  by (simp add: part_def)

lemma part_refl: "part st [] st"
  by (auto simp: part_def)

lemma respond_count [simp]: "tv_blocksCount (respond a t) = tv_blocksCount t"
  by (simp add: respond_def split: option.split)

lemma advance_part: "part st [] (snd (advanceTraversal input result st))"
  by (auto simp: advanceTraversal_def part_def Let_def Advance_def tv_Error_def new_requests_def split: option.split)

lemma processResult_part: "part st [] (snd (processResult env rt input link result st))"
  by (auto simp: processResult_def onNewBlock_def processBlockHooks_def part_def Let_def new_requests_def
      NewUpdateRequest_def newRequest_def)

lemma startRemoteRequest_part:
  assumes "gsr_requestType (rt_Request rt) = RequestTypeNew"
  shows "part st [skipping env rt (max (rt_DoNotSendFirstBlocks rt) (NBlocksTraversed (ex_traverser st)))] (startRemoteRequest env rt st)"
  using assms
  by (auto simp: part_def startRemoteRequest_def skipping_def new_requests_def Let_def max_def ReplaceExtensions_lookup)

definition asks_once :: "'n ex_env \<Rightarrow> 'n request_task \<Rightarrow> bool \<Rightarrow> ('n, 's) ex_state \<Rightarrow> ('n, 's) ex_state \<Rightarrow> bool" where
  "asks_once env rt sent st st' \<longleftrightarrow> part st [] st' \<or>
     (\<not> sent \<and> (\<exists>n \<ge> max (rt_DoNotSendFirstBlocks rt) (NBlocksTraversed (ex_traverser st)). part st [skipping env rt n] st'))"

lemma asks_once_trans:
  assumes a: "part st [] st1" and b: "asks_once env rt sent st1 st'"
  shows "asks_once env rt sent st st'"
proof -
  have le: "NBlocksTraversed (ex_traverser st) \<le> NBlocksTraversed (ex_traverser st1)" using a by (simp add: part_def NBlocksTraversed_def)
  from b consider "part st1 [] st'" | n where "\<not> sent" "n \<ge> max (rt_DoNotSendFirstBlocks rt) (NBlocksTraversed (ex_traverser st1))"
    "part st1 [skipping env rt n] st'" by (auto simp: asks_once_def)
  then show ?thesis
  proof cases
    case 1
    with part_trans[OF a] show ?thesis by (auto simp: asks_once_def)
  next
    case 2
    with part_trans[OF a 2(3)] le show ?thesis by (auto simp: asks_once_def intro!: exI[of _ n])
  qed
qed

lemma asks_once_then: "asks_once env rt sent st st1 \<Longrightarrow> part st1 [] st' \<Longrightarrow> asks_once env rt sent st st'"
  unfolding asks_once_def using part_trans by fastforce

lemma loadStep_asks:
  assumes "gsr_requestType (rt_Request rt) = RequestTypeNew"
    and l: "loadStep env rt input sent ctx lnk st = Some (sent', result, st')"
  shows "asks_once env rt sent st st'" "sent \<Longrightarrow> sent'" "\<not> sent' \<Longrightarrow> part st [] st'"
proof -
  let ?n = "max (rt_DoNotSendFirstBlocks rt) (NBlocksTraversed (ex_traverser st))"
  have "sent' = sent \<and> part st [] st' \<or> \<not> sent \<and> sent' \<and> part st [skipping env rt ?n] st'"
    using l startRemoteRequest_part[OF assms(1), of st env] part_refl[of st]
    by (auto simp: loadStep_def Let_def bind_eq_Some_conv split: if_splits)
  then show "asks_once env rt sent st st'" "sent \<Longrightarrow> sent'" "\<not> sent' \<Longrightarrow> part st [] st'"
    by (auto simp: asks_once_def intro!: exI[of _ ?n])
qed

lemma traverse_asks:
  assumes "traverse env rt inputs sent st = Some y" "gsr_requestType (rt_Request rt) = RequestTypeNew"
  shows "asks_once env rt sent st (snd y)"
  using assms
proof (induction rule: traverse.raw_induct[rotated, consumes 1, case_names step])
  case (step trav env rt inputs sent st y)
  obtain isComplete err where c: "IsComplete (ex_traverser st) = (isComplete, err)" by fastforce
  obtain input inputs' where i: "next_ex_input inputs = (input, inputs')" by fastforce
  obtain lnk ctx where r: "CurrentRequest (ex_traverser st) = (lnk, ctx)" by fastforce
  show ?case
  proof (cases isComplete)
    case True
    with step.hyps c show ?thesis by (auto simp: asks_once_def part_refl)
  next
    case False
    with step.hyps c i r obtain sent' result st1 where l: "loadStep env rt input sent ctx lnk st = Some (sent', result, st1)"
      by (auto simp: bind_eq_Some_conv)
    obtain e2 st2 where a: "advanceTraversal input result st1 = (e2, st2)" by fastforce
    obtain e3 st3 where p: "processResult env rt input lnk result st2 = (e3, st3)" by fastforce
    have parts: "part st1 [] st2" "part st2 [] st3" using advance_part[of st1 input result] processResult_part[of st2 env rt input lnk result] a p by simp_all
    note once = loadStep_asks[OF step.prems l]
    from step.hyps False c i r l a p have y: "y = (e2, st2) \<or> y = (e3, st3) \<or> trav env rt inputs' sent' st3 = Some y"
      by (auto split: if_splits)
    have end3: "asks_once env rt sent st st3" using once(1) parts asks_once_then by blast
    have "asks_once env rt sent st (snd y)" if t: "trav env rt inputs' sent' st3 = Some y"
    proof (cases sent')
      case True
      with step.IH[OF t step.prems] have "part st3 [] (snd y)" by (simp add: asks_once_def)
      with end3 asks_once_then show ?thesis by blast
    next
      case False
      with once have "\<not> sent" "part st [] st1" by auto
      with part_trans[OF part_trans[OF _ parts(1)] parts(2), of st "[]"] have "part st [] st3" by simp
      from asks_once_trans[OF this, of env rt sent "snd y"] step.IH[OF t step.prems] False \<open>\<not> sent\<close> show ?thesis by simp
    qed
    moreover have "asks_once env rt sent st st2" using once(1) parts(1) asks_once_then by blast
    ultimately show ?thesis using y end3 by auto
  qed
qed

section \<open>Local blocks first\<close>

text \<open>How a walk ends when the local store has every block it asks for.\<close>

primrec local_end :: "'s reconciled_loader \<Rightarrow> walk \<Rightarrow> (nat \<times> gs_error option) option" where
  "local_end rl (WalkDone err) = Some (0, err)"
| "local_end rl (WalkLoad lnk ctx k) =
     (case alr_Err (loadLocal rl ctx lnk) of
        Some err \<Rightarrow> None
      | None \<Rightarrow> map_option (apfst Suc)
          (local_end rl (k (Inr (case alr_Data (loadLocal rl ctx lnk) of None \<Rightarrow> [] | Some d \<Rightarrow> d)))))"

definition offline_loader_state :: "'s reconciled_loader \<Rightarrow> bool" where
  "offline_loader_state rl \<longleftrightarrow> \<not> rl_open rl \<and> rq_empty (snd (rl_remoteQueue rl))"

lemma record_attempt_fields:
  "rl_open (record_attempt rl) = rl_open rl" "rl_remoteQueue (record_attempt rl) = rl_remoteQueue rl"
  "rl_lsys (record_attempt rl) = rl_lsys rl" "rl_store (record_attempt rl) = rl_store rl"
  by (simp_all add: record_attempt_def Let_def split: option.split)

lemma offline_load:
  assumes "offline_loader_state rl"
  shows "\<exists>rl'. BlockReadOpener evs rl ctx lnk = Some (rl', evs, loadLocal rl ctx lnk) \<and> offline_loader_state rl' \<and>
    rl_lsys rl' = rl_lsys rl \<and> rl_store rl' = rl_store rl"
proof -
  let ?rl = "record_attempt rl"
  have "waitRemote evs ?rl = Some (?rl, evs, False, None)"
    using assms by (subst waitRemote.simps) (simp add: record_attempt_fields offline_loader_state_def)
  moreover have "loadLocal ?rl ctx lnk = loadLocal rl ctx lnk" by (rule loadLocal_cong) (simp_all add: record_attempt_fields)
  moreover have "loadLocal (?rl\<lparr>rl_pathTracker := pt\<rparr>) ctx lnk = loadLocal rl ctx lnk" for pt
    by (rule loadLocal_cong) (simp_all add: record_attempt_fields)
  ultimately show ?thesis
    using assms by (auto simp: BlockReadOpener_def blockReadOpener_def Let_def offline_loader_state_def record_attempt_fields
        split: prod.splits if_splits)
qed

lemma local_end_cong:
  "rl_lsys a = rl_lsys b \<Longrightarrow> rl_store a = rl_store b \<Longrightarrow> local_end a w = local_end b w"
proof (induction w)
  case (WalkLoad lnk ctx k)
  then show ?case using loadLocal_cong[of a b ctx lnk] by (auto split: option.split)
qed simp

definition no_hooks :: "'n ex_env \<Rightarrow> bool" where
  "no_hooks env \<longleftrightarrow> (\<forall>p r b. ex_BlockHooks env p r b = \<lparr>ur_Err = None, ur_Extensions = []\<rparr>)"

lemma traverse_local:
  fixes st :: "('n, 's) ex_state"
  assumes "tv_ok (ex_traverser st)" "tv_rest (ex_traverser st) = w" "offline_loader_state (ex_loader st)"
    "local_end (ex_loader st) w = Some (n, err)" "no_hooks env"
  shows "\<exists>st'. traverse env rt [] sent st = Some (err, st') \<and> ex_log st' = ex_log st \<and>
    NBlocksTraversed (ex_traverser st') = NBlocksTraversed (ex_traverser st) + int n"
  using assms
proof (induction w arbitrary: st n)
  case (WalkDone e)
  with rest_done[OF WalkDone(1,2)] show ?case by (subst traverse.simps) auto
next
  case (WalkLoad lnk ctx k)
  note load = rest_load[OF WalkLoad.prems(1,2)]
  let ?res = "loadLocal (ex_loader st) ctx lnk"
  let ?d = "case alr_Data ?res of None \<Rightarrow> [] | Some d \<Rightarrow> d"
  from WalkLoad.prems(4) obtain m where ok: "alr_Err ?res = None" "local_end (ex_loader st) (k (Inr ?d)) = Some (m, err)" "n = Suc m"
    by (auto split: option.splits)
  from offline_load[OF WalkLoad.prems(3), of "[]" ctx lnk] obtain rl where
    rl: "BlockReadOpener [] (ex_loader st) ctx lnk = Some (rl, [], ?res)" "offline_loader_state rl"
      "rl_lsys rl = rl_lsys (ex_loader st)" "rl_store rl = rl_store (ex_loader st)" by blast
  from Advance_ok[OF WalkLoad.prems(1,2), of False ?d] obtain t where
    t: "Advance False ?d (ex_traverser st) = (None, t)" "tv_ok t" "tv_rest t = k (Inr ?d)"
      "tv_blocksCount t = tv_blocksCount (ex_traverser st) + 1" by blast
  let ?st = "st\<lparr>ex_loader := rl, ex_traverser := t\<rparr>"
  have "local_end (ex_loader ?st) (k (Inr ?d)) = Some (m, err)" using ok(2) local_end_cong[OF rl(3,4)] by simp
  with WalkLoad.IH[OF _ _ _ _ _ WalkLoad.prems(5), of "k (Inr ?d)" ?st m] t(2,3) rl(2) obtain st' where
    st': "traverse env rt [] sent ?st = Some (err, st')" "ex_log st' = ex_log st"
      "NBlocksTraversed (ex_traverser st') = NBlocksTraversed t + int m" by auto
  have "traverse env rt [] sent st = traverse env rt [] sent ?st"
    using load rl(1) t(1) ok(1) WalkLoad.prems(5)
    by (subst traverse.simps) (simp add: Let_def next_ex_input_def loadStep_def is_missing_def advanceTraversal_def
        processResult_def onNewBlock_def processBlockHooks_def no_hooks_def)
  with st' t(4) ok(3) show ?case by (simp add: NBlocksTraversed_def)
qed


subsection \<open>Witness: a traversal of one block the store has\<close>

definition local_walk :: walk where
  "local_walk = WalkLoad ''r'' [] (\<lambda>answer. WalkDone None)"

definition example_task :: "simple_node request_task" where
  "example_task = \<lparr>rt_P = ''p'', rt_Request = NewRequest ''q'' ''r'' None 0 [], rt_DoNotSendFirstBlocks = 0\<rparr>"

definition example_ex_env :: "simple_node ex_env" where
  "example_ex_env = \<lparr>ex_BlockHooks = (\<lambda>p r b. \<lparr>ur_Err = None, ur_Extensions = []\<rparr>), ex_nodes = simple_ops\<rparr>"

definition example_ex_state :: "(simple_node, (cid, bytes) gomap) ex_state" where
  "example_ex_state = \<lparr>ex_traverser = tv_Start local_walk, ex_loader = example_loader, ex_log = []\<rparr>"


end
