(* ===== verification/Subscribers.thy ===== *)
theory Subscribers
  imports Response_Manager Request_Manager Message_Queue
begin

text \<open>
  The subscribers the managers put on the topics of the message queue: \<^verbatim>\<open>responsemanager/subscriber.go\<close>, which
  closes a response when its messages are sent or fail, and the \<^verbatim>\<open>reqSubscriber\<close> of
  \<^verbatim>\<open>requestmanager/client.go\<close>. A subscriber's calls are a list: messages to its manager, which it waits for,
  and notifications of listeners.
\<close>

section \<open>The subscriber of a response\<close>

record 'n subscriber =
  sub_p :: peer_id
  sub_request :: "'n gs_request"

datatype 'n sub_call =
    SubMessage "'n rsm_message"
  | SubBlockSent peer_id "'n gs_request" block_data
  | SubCompleted peer_id "'n gs_request" status_code
  | SubNetworkError peer_id "'n gs_request" string

definition rsm_TerminateRequest :: "request_id \<Rightarrow> nat \<Rightarrow> 'n rsm_message" where
  "rsm_TerminateRequest requestID ch = TerminateRequestMessage requestID ch"

text \<open>The zero value of a missing status code is not terminal.\<close>

fun sub_OnNext :: "nat \<Rightarrow> 'n subscriber \<Rightarrow> mq_event \<Rightarrow> 'n sub_call list" where
  "sub_OnNext ch s (EvError err metadata) =
     (let rid = gsr_id (sub_request s);
          responseCode = mgetd 0 (mdt_ResponseCodes metadata) rid
      in [SubMessage (CloseWithNetworkError rid ch)] @
         (if IsTerminal responseCode then [SubMessage (rsm_TerminateRequest rid ch)] else []) @
         [SubNetworkError (sub_p s) (sub_request s) err])"
| "sub_OnNext ch s (EvSent metadata) =
     (let rid = gsr_id (sub_request s);
          responseCode = mgetd 0 (mdt_ResponseCodes metadata) rid
      in map (SubBlockSent (sub_p s) (sub_request s)) (mgetd [] (mdt_BlockData metadata) rid) @
         (if IsTerminal responseCode
          then [SubMessage (rsm_TerminateRequest rid ch), SubCompleted (sub_p s) (sub_request s) responseCode] else []))"
| "sub_OnNext ch s (EvQueued metadata) = []"

section \<open>The subscriber of a request\<close>

fun req_OnNext :: "peer_id \<Rightarrow> 'n gs_request \<Rightarrow> mq_event \<Rightarrow> (peer_id \<times> 'n gs_request \<times> string) list" where
  "req_OnNext p request (EvError err metadata) = [(p, request, err)]"
| "req_OnNext p request (EvSent metadata) = []"
| "req_OnNext p request (EvQueued metadata) = []"

section \<open>What an event does to its response\<close>

text \<open>The messages of a subscriber, handled by the response manager in order.\<close>

fun sub_run :: "('n, 'l) rsm_env \<Rightarrow> 'n sub_call list \<Rightarrow> ('n, 'l) response_manager \<Rightarrow> ('n, 'l) response_manager option" where
  "sub_run env [] rm = Some rm"
| "sub_run env (SubMessage m # cs) rm = Option.bind (rsm_handle env False m rm) (sub_run env cs)"
| "sub_run env (_ # cs) rm = sub_run env cs rm"

lemma sub_run_notifications:
  "sub_run env (map (SubBlockSent p r) bs @ cs) rm = sub_run env cs rm" "sub_run env (map (SubBlockSent p r) bs) rm = Some rm"
  by (induction bs) auto

lemma terminated:
  assumes "view_of rid rm = (Some (p, st), evs)"
  shows "view_of rid (rsm_reply d (RsReplyDone ch) (rsm_terminateRequest rid rm)) = (None, evs @ [LUnprotect p])"
  using assms by (auto simp: view_of_def rsm_terminateRequest_def rsm_reply_def)

lemma aborted:
  assumes "view_of rid rm = (Some (p, CompletingSend), evs)"
  shows "view_of rid (snd (abortRequest rid err rm)) = (Some (p, CompletingSend), evs)"
  using assms by (auto simp: view_of_def abortRequest_def Let_def)

text \<open>C36: The end of a response across the message queue, its subscriber and the response manager: once the
  message with the final status of a response that is completing was sent, or could not be sent, the subscriber makes
  the manager forget the response and unprotect the connection of its peer, exactly once; when it was sent the completion
  listeners get the status that was sent. An event of a message that does not carry a final status leaves the
  completing response in place.\<close>

theorem final_message_ends_response:
  assumes "rsm_reachable rm" "view_of (gsr_id (sub_request s)) rm = (Some (p, CompletingSend), evs)"
    "ev = EvSent md \<or> ev = EvError err md"
  shows "\<exists>rm'. sub_run env (sub_OnNext ch s ev) rm = Some rm' \<and>
    (let rid = gsr_id (sub_request s); code = mgetd 0 (mdt_ResponseCodes md) rid
     in if IsTerminal code
        then view_of rid rm' = (None, evs @ [LUnprotect p]) \<and> LUnprotect p \<notin> set evs \<and>
             (ev = EvSent md \<longrightarrow> SubCompleted (sub_p s) (sub_request s) code \<in> set (sub_OnNext ch s ev))
        else view_of rid rm' = (Some (p, CompletingSend), evs))"
proof -
  let ?rid = "gsr_id (sub_request s)"
  have once: "LUnprotect p \<notin> set evs" using reachable_life[OF assms(1), of ?rid] assms(2) by auto
  define rm1 where "rm1 = rsm_reply False (RsReply ch (fst (abortRequest ?rid ErrNetworkErrorE rm))) (snd (abortRequest ?rid ErrNetworkErrorE rm))"
  have rm1: "rsm_handle env False (CloseWithNetworkError ?rid ch) rm = Some rm1"
    "view_of ?rid rm1 = (Some (p, CompletingSend), evs)"
    using aborted[OF assms(2), of ErrNetworkErrorE]
    by (auto simp: CloseWithNetworkError_def rm1_def rsm_reply_def view_of_def split: prod.split)
  show ?thesis
  proof (cases "ev = EvSent md")
    case True
    with terminated[OF assms(2)] once assms(2) show ?thesis
      by (auto simp: Let_def sub_run_notifications rsm_TerminateRequest_def)
  next
    case False
    with assms(3) have "ev = EvError err md" by blast
    with rm1 terminated[OF rm1(2)] once show ?thesis by (auto simp: Let_def rsm_TerminateRequest_def)
  qed
qed

subsection \<open>Witness: a rejected request whose rejection was sent\<close>

definition rejecting_env :: "(simple_node, nat) rsm_env" where
  "rejecting_env = rsm_example_env\<lparr>rsm_RequestHooks := (\<lambda>p r. \<lparr>hr_IsValidated = False, hr_IsPaused = False, hr_CustomLinkSystem = None,
     hr_CustomChooser = None, hr_Err = None, hr_Extensions = []\<rparr>)\<rparr>"

definition rejected_request :: "simple_node gs_request" where
  "rejected_request = NewRequest ''r'' ''c'' None 0 []"

theorem final_message_ends_response_witness:
  "\<exists>rm rm'. rsm_run rejecting_env [ProcessRequestsMessage ''p'' [rejected_request]] (rsm_New 0 0) = Some rm \<and>
     sub_run rejecting_env (sub_OnNext 0 \<lparr>sub_p = ''p'', sub_request = rejected_request\<rparr>
       (EvSent \<lparr>mdt_BlockData = [], mdt_ResponseCodes = [(''r'', RequestRejected)]\<rparr>)) rm = Some rm' \<and> fst (view_of ''r'' rm') = None"
proof -
  let ?md = "\<lparr>mdt_BlockData = [], mdt_ResponseCodes = [(''r'', RequestRejected)]\<rparr>"
  have "map_option (view_of ''r'') (rsm_run rejecting_env [ProcessRequestsMessage ''p'' [rejected_request]] (rsm_New 0 0)) =
    Some (Some (''p'', CompletingSend), [LProtect ''p'', LFinish ''p'' RequestRejected])" by code_simp
  then obtain rm where rm: "rsm_run rejecting_env [ProcessRequestsMessage ''p'' [rejected_request]] (rsm_New 0 0) = Some rm"
    "view_of ''r'' rm = (Some (''p'', CompletingSend), [LProtect ''p'', LFinish ''p'' RequestRejected])" by auto
  have r: "gsr_id rejected_request = ''r''" "IsTerminal (mgetd 0 (mdt_ResponseCodes ?md) ''r'')" by code_simp+
  from final_message_ends_response[OF rsm_run_reachable[OF rsm_reachable.rsm_start rm(1)],
      of "\<lparr>sub_p = ''p'', sub_request = rejected_request\<rparr>" "''p''" _ "EvSent ?md" ?md "[]" rejecting_env 0] rm r
  show ?thesis by (auto simp: Let_def)
qed

end
