(* ===== verification/Hooks.thy ===== *)
theory Hooks
  imports Request_Manager Response_Manager Query_Executor
begin

text \<open>
  \<^verbatim>\<open>requestmanager/hooks\<close> and \<^verbatim>\<open>responsemanager/hooks\<close>: the hooks a caller registers and the actions they may
  take. A hook is user code: the list of the actions it takes for an event; an error it passes may be nil, and
  the contexts that incoming request hooks may augment are left out. The list of hooks and the order they run
  in is a third-party publisher, the parameter \<open>publish\<close>, which hands an event to a dispatcher for one hook after the
  other; that it stops at the first error the dispatcher returns is the hypothesis \<open>publish_law\<close>.
\<close>

type_synonym ('h, 'a) publish = "('h \<Rightarrow> 'a \<Rightarrow> gs_error option \<times> 'a) \<Rightarrow> 'h list \<Rightarrow> 'a \<Rightarrow> 'a"

definition publish_law :: "('h, 'a) publish \<Rightarrow> bool" where
  "publish_law publish \<longleftrightarrow>
     (\<forall>f s. publish f [] s = s) \<and>
     (\<forall>f h hs s. publish f (h # hs) s = (case f h s of (Some _, s') \<Rightarrow> s' | (None, s') \<Rightarrow> publish f hs s'))"

section \<open>Hooks of the request manager\<close>

record 'n update_hook_actions =
  uha_err :: "gs_error option"
  uha_extensions :: "'n ext_data list"

datatype 'n update_action = TerminateWithError "gs_error option" | UpdateRequestWithExtensions "'n ext_data list" | ActPauseRequest

fun uha_act :: "'n update_hook_actions \<Rightarrow> 'n update_action \<Rightarrow> 'n update_hook_actions" where
  "uha_act rha (TerminateWithError err) = rha\<lparr>uha_err := err\<rparr>"
| "uha_act rha (UpdateRequestWithExtensions extensions) = rha\<lparr>uha_extensions := uha_extensions rha @ extensions\<rparr>"
| "uha_act rha ActPauseRequest = rha\<lparr>uha_err := Some ErrPausedE\<rparr>"

definition uha_result :: "'n update_hook_actions \<Rightarrow> 'n update_result" where
  "uha_result rha = \<lparr>ur_Err = uha_err rha, ur_Extensions = uha_extensions rha\<rparr>"

definition responseHookDispatcher ::
  "peer_id \<Rightarrow> 'n gs_response \<Rightarrow> (peer_id \<Rightarrow> 'n gs_response \<Rightarrow> 'n update_action list) \<Rightarrow> 'n update_hook_actions \<Rightarrow>
   gs_error option \<times> 'n update_hook_actions" where
  "responseHookDispatcher p response hook rha = (let rha = foldl uha_act rha (hook p response) in (uha_err rha, rha))"

definition rm_ProcessResponseHooks ::
  "(peer_id \<Rightarrow> 'n gs_response \<Rightarrow> 'n update_action list, 'n update_hook_actions) publish \<Rightarrow>
   (peer_id \<Rightarrow> 'n gs_response \<Rightarrow> 'n update_action list) list \<Rightarrow> peer_id \<Rightarrow> 'n gs_response \<Rightarrow> 'n update_result" where
  "rm_ProcessResponseHooks publish hooks p response =
     uha_result (publish (responseHookDispatcher p response) hooks \<lparr>uha_err = None, uha_extensions = []\<rparr>)"

definition blockHookDispatcher ::
  "peer_id \<Rightarrow> 'n gs_response \<Rightarrow> 'b \<Rightarrow> (peer_id \<Rightarrow> 'n gs_response \<Rightarrow> 'b \<Rightarrow> 'n update_action list) \<Rightarrow> 'n update_hook_actions \<Rightarrow>
   gs_error option \<times> 'n update_hook_actions" where
  "blockHookDispatcher p response block hook rha = (let rha = foldl uha_act rha (hook p response block) in (uha_err rha, rha))"

definition rm_ProcessBlockHooks ::
  "(peer_id \<Rightarrow> 'n gs_response \<Rightarrow> 'b \<Rightarrow> 'n update_action list, 'n update_hook_actions) publish \<Rightarrow>
   (peer_id \<Rightarrow> 'n gs_response \<Rightarrow> 'b \<Rightarrow> 'n update_action list) list \<Rightarrow> peer_id \<Rightarrow> 'n gs_response \<Rightarrow> 'b \<Rightarrow> 'n update_result" where
  "rm_ProcessBlockHooks publish hooks p response block =
     uha_result (publish (blockHookDispatcher p response block) hooks \<lparr>uha_err = None, uha_extensions = []\<rparr>)"

text \<open>Hooks for outgoing requests choose the persistence option and the node prototypes; they cannot fail.\<close>

datatype request_action = UsePersistenceOption string | UseLinkTargetNodePrototypeChooser string

fun rqa_act :: "request_result \<Rightarrow> request_action \<Rightarrow> request_result" where
  "rqa_act rha (UsePersistenceOption name) = rha\<lparr>rr_PersistenceOption := name\<rparr>"
| "rqa_act rha (UseLinkTargetNodePrototypeChooser chooser) = rha\<lparr>rr_CustomChooser := Some chooser\<rparr>"

definition requestHooksDispatcher ::
  "peer_id \<Rightarrow> 'n gs_request \<Rightarrow> (peer_id \<Rightarrow> 'n gs_request \<Rightarrow> request_action list) \<Rightarrow> request_result \<Rightarrow> gs_error option \<times> request_result" where
  "requestHooksDispatcher p request hook rha = (None, foldl rqa_act rha (hook p request))"

definition rm_ProcessRequestHooks ::
  "(peer_id \<Rightarrow> 'n gs_request \<Rightarrow> request_action list, request_result) publish \<Rightarrow>
   (peer_id \<Rightarrow> 'n gs_request \<Rightarrow> request_action list) list \<Rightarrow> peer_id \<Rightarrow> 'n gs_request \<Rightarrow> request_result" where
  "rm_ProcessRequestHooks publish hooks p request =
     publish (requestHooksDispatcher p request) hooks \<lparr>rr_PersistenceOption = [], rr_CustomChooser = None\<rparr>"

section \<open>Hooks of the response manager\<close>

datatype 'n hook_action =
    ActSendExtensionData "'n ext_data"
  | ActTerminateWithError "gs_error option"
  | ActValidateRequest
  | ActUsePersistenceOption string
  | ActUseChooser string
  | ActPauseResponse

fun hra_act :: "'l persistence_options \<Rightarrow> ('n, 'l) hook_result \<Rightarrow> 'n hook_action \<Rightarrow> ('n, 'l) hook_result" where
  "hra_act po ha (ActSendExtensionData ext) = ha\<lparr>hr_Extensions := hr_Extensions ha @ [ext]\<rparr>"
| "hra_act po ha (ActTerminateWithError err) = ha\<lparr>hr_Err := err\<rparr>"
| "hra_act po ha ActValidateRequest = ha\<lparr>hr_IsValidated := True\<rparr>"
| "hra_act po ha (ActUsePersistenceOption name) =
     (case po_GetLinkSystem po name of
        None \<Rightarrow> ha\<lparr>hr_Err := Some (OtherErr ''unknown loader option'')\<rparr>
      | Some linkSystem \<Rightarrow> ha\<lparr>hr_CustomLinkSystem := Some linkSystem\<rparr>)"
| "hra_act po ha (ActUseChooser chooser) = ha\<lparr>hr_CustomChooser := Some chooser\<rparr>"
| "hra_act po ha ActPauseResponse = ha\<lparr>hr_IsPaused := True\<rparr>"

definition zero_hook_result :: "('n, 'l) hook_result" where
  "zero_hook_result = \<lparr>hr_IsValidated = False, hr_IsPaused = False, hr_CustomLinkSystem = None, hr_CustomChooser = None,
     hr_Err = None, hr_Extensions = []\<rparr>"

definition requestHookDispatcher ::
  "'l persistence_options \<Rightarrow> peer_id \<Rightarrow> 'n gs_request \<Rightarrow> (peer_id \<Rightarrow> 'n gs_request \<Rightarrow> 'n hook_action list) \<Rightarrow> ('n, 'l) hook_result \<Rightarrow>
   gs_error option \<times> ('n, 'l) hook_result" where
  "requestHookDispatcher po p request hook ha = (let ha = foldl (hra_act po) ha (hook p request) in (hr_Err ha, ha))"

definition rsm_ProcessRequestHooks ::
  "(peer_id \<Rightarrow> 'n gs_request \<Rightarrow> 'n hook_action list, ('n, 'l) hook_result) publish \<Rightarrow> 'l persistence_options \<Rightarrow>
   (peer_id \<Rightarrow> 'n gs_request \<Rightarrow> 'n hook_action list) list \<Rightarrow> peer_id \<Rightarrow> 'n gs_request \<Rightarrow> ('n, 'l) hook_result" where
  "rsm_ProcessRequestHooks publish po hooks p request =
     publish (requestHookDispatcher po p request) hooks zero_hook_result"

datatype 'n update_hook_action = UhaSendExtensionData "'n ext_data" | UhaTerminateWithError "gs_error option" | UhaUnpauseResponse

fun uhr_act :: "'n update_hook_result \<Rightarrow> 'n update_hook_action \<Rightarrow> 'n update_hook_result" where
  "uhr_act uha (UhaSendExtensionData data) = uha\<lparr>uhr_Extensions := uhr_Extensions uha @ [data]\<rparr>"
| "uhr_act uha (UhaTerminateWithError err) = uha\<lparr>uhr_Err := err\<rparr>"
| "uhr_act uha UhaUnpauseResponse = uha\<lparr>uhr_Unpause := True\<rparr>"

definition updateHookDispatcher ::
  "peer_id \<Rightarrow> 'n gs_request \<Rightarrow> 'n gs_request \<Rightarrow> (peer_id \<Rightarrow> 'n gs_request \<Rightarrow> 'n gs_request \<Rightarrow> 'n update_hook_action list) \<Rightarrow>
   'n update_hook_result \<Rightarrow> gs_error option \<times> 'n update_hook_result" where
  "updateHookDispatcher p request update hook uha = (let uha = foldl uhr_act uha (hook p request update) in (uhr_Err uha, uha))"

definition rsm_ProcessUpdateHooks ::
  "(peer_id \<Rightarrow> 'n gs_request \<Rightarrow> 'n gs_request \<Rightarrow> 'n update_hook_action list, 'n update_hook_result) publish \<Rightarrow>
   (peer_id \<Rightarrow> 'n gs_request \<Rightarrow> 'n gs_request \<Rightarrow> 'n update_hook_action list) list \<Rightarrow> peer_id \<Rightarrow> 'n gs_request \<Rightarrow> 'n gs_request \<Rightarrow>
   'n update_hook_result" where
  "rsm_ProcessUpdateHooks publish hooks p request update =
     publish (updateHookDispatcher p request update) hooks \<lparr>uhr_Err = None, uhr_Unpause = False, uhr_Extensions = []\<rparr>"

datatype 'n block_hook_action = BhaSendExtensionData "'n ext_data" | BhaTerminateWithError "gs_error option" | BhaPauseResponse

fun bha_act :: "'n block_result \<Rightarrow> 'n block_hook_action \<Rightarrow> 'n block_result" where
  "bha_act bha (BhaSendExtensionData data) = bha\<lparr>br_Extensions := br_Extensions bha @ [data]\<rparr>"
| "bha_act bha (BhaTerminateWithError err) = bha\<lparr>br_Err := err\<rparr>"
| "bha_act bha BhaPauseResponse = bha\<lparr>br_Err := Some ErrPausedE\<rparr>"

definition outgoingBlockHookDispatcher ::
  "peer_id \<Rightarrow> 'n gs_request \<Rightarrow> block_data \<Rightarrow> (peer_id \<Rightarrow> 'n gs_request \<Rightarrow> block_data \<Rightarrow> 'n block_hook_action list) \<Rightarrow> 'n block_result \<Rightarrow>
   gs_error option \<times> 'n block_result" where
  "outgoingBlockHookDispatcher p request block hook bha = (let bha = foldl bha_act bha (hook p request block) in (br_Err bha, bha))"

definition rsm_ProcessBlockHooks ::
  "(peer_id \<Rightarrow> 'n gs_request \<Rightarrow> block_data \<Rightarrow> 'n block_hook_action list, 'n block_result) publish \<Rightarrow>
   (peer_id \<Rightarrow> 'n gs_request \<Rightarrow> block_data \<Rightarrow> 'n block_hook_action list) list \<Rightarrow> peer_id \<Rightarrow> 'n gs_request \<Rightarrow> block_data \<Rightarrow> 'n block_result" where
  "rsm_ProcessBlockHooks publish hooks p request blockData =
     publish (outgoingBlockHookDispatcher p request blockData) hooks \<lparr>br_Err = None, br_Extensions = []\<rparr>"

section \<open>The hooks that run\<close>

text \<open>What all of these have in common: an event's actions are accumulated, and the error they leave stops the rest.\<close>

locale hook_chain =
  fixes act :: "'a \<Rightarrow> 'x \<Rightarrow> 'a" and err_of :: "'a \<Rightarrow> gs_error option"
    and dispatch :: "'h \<Rightarrow> 'a \<Rightarrow> gs_error option \<times> 'a" and actions :: "'h \<Rightarrow> 'x list"
  assumes dispatch_eq: "dispatch h s = (err_of (foldl act s (actions h)), foldl act s (actions h))"
begin

lemma runs_prefix:
  assumes law: "publish_law publish"
  shows "\<exists>run skipped. hooks = run @ skipped \<and> publish dispatch hooks s = foldl act s (concat (map actions run)) \<and>
     (skipped \<noteq> [] \<longrightarrow> err_of (publish dispatch hooks s) \<noteq> None) \<and>
     (\<forall>before h after. run = before @ h # after \<and> before \<noteq> [] \<longrightarrow> err_of (foldl act s (concat (map actions before))) = None)"
proof (induction hooks arbitrary: s)
  case Nil
  from law show ?case by (auto simp: publish_law_def)
next
  case (Cons h hooks)
  let ?s = "foldl act s (actions h)"
  have p: "publish dispatch (h # hooks) s = (case err_of ?s of Some _ \<Rightarrow> ?s | None \<Rightarrow> publish dispatch hooks ?s)"
    using law dispatch_eq[of h s] by (simp add: publish_law_def split: option.split)
  show ?case
  proof (cases "err_of ?s")
    case (Some e)
    with p show ?thesis by (intro exI[of _ "[h]"] exI[of _ hooks]) (auto simp: Cons_eq_append_conv)
  next
    case None
    from Cons.IH[of ?s] obtain run skipped where r: "hooks = run @ skipped"
      "publish dispatch hooks ?s = foldl act ?s (concat (map actions run))"
      "skipped \<noteq> [] \<longrightarrow> err_of (publish dispatch hooks ?s) \<noteq> None"
      "\<forall>before h after. run = before @ h # after \<and> before \<noteq> [] \<longrightarrow> err_of (foldl act ?s (concat (map actions before))) = None" by blast
    have "err_of (foldl act s (concat (map actions before))) = None" if "h # run = before @ h' # after" "before \<noteq> []" for before h' after
      using that spec[OF r(4), of "tl before"] None by (cases before; cases "tl before") auto
    with r None p show ?thesis by (intro exI[of _ "h # run"] exI[of _ skipped]) auto
  qed
qed

end

interpretation responseHooks: hook_chain uha_act uha_err "responseHookDispatcher p response" "\<lambda>hook. hook p response" for p response
  by unfold_locales (simp add: responseHookDispatcher_def Let_def)

interpretation blockHooks: hook_chain uha_act uha_err "blockHookDispatcher p response block" "\<lambda>hook. hook p response block"
  for p response block
  by unfold_locales (simp add: blockHookDispatcher_def Let_def)

interpretation outgoingRequestHooks: hook_chain rqa_act "\<lambda>_. None" "requestHooksDispatcher p request" "\<lambda>hook. hook p request"
  for p request
  by unfold_locales (simp add: requestHooksDispatcher_def)

interpretation incomingRequestHooks: hook_chain "hra_act po" hr_Err "requestHookDispatcher po p request" "\<lambda>hook. hook p request"
  for po p request
  by unfold_locales (simp add: requestHookDispatcher_def Let_def)

interpretation updateHooks: hook_chain uhr_act uhr_Err "updateHookDispatcher p request update" "\<lambda>hook. hook p request update"
  for p request update
  by unfold_locales (simp add: updateHookDispatcher_def Let_def)

interpretation outgoingBlockHooks: hook_chain bha_act br_Err "outgoingBlockHookDispatcher p request block" "\<lambda>hook. hook p request block"
  for p request block
  by unfold_locales (simp add: outgoingBlockHookDispatcher_def Let_def)

section \<open>What the hooks of an incoming request decide\<close>

definition sent_extensions :: "'n hook_action list \<Rightarrow> 'n ext_data list" where
  "sent_extensions acts = [ext. ActSendExtensionData ext \<leftarrow> acts]"

lemma hra_acts:
  "hr_Extensions (foldl (hra_act po) ha acts) = hr_Extensions ha @ sent_extensions acts"
  "hr_IsValidated (foldl (hra_act po) ha acts) \<longleftrightarrow> hr_IsValidated ha \<or> ActValidateRequest \<in> set acts"
  "hr_IsPaused (foldl (hra_act po) ha acts) \<longleftrightarrow> hr_IsPaused ha \<or> ActPauseResponse \<in> set acts"
proof (induction acts arbitrary: ha)
  case (Cons a acts)
  { case 1 show ?case using Cons by (cases a) (auto simp: sent_extensions_def split: option.split) }
  { case 2 show ?case using Cons by (cases a) (auto split: option.split) }
  { case 3 show ?case using Cons by (cases a) (auto split: option.split) }
qed (auto simp: sent_extensions_def)

text \<open>C37: The hooks of an incoming request decide on it: they run in the order of registration up to the first that
  leaves an error, whose actions still count; the response carries the extensions sent by the hooks that ran, in order.
  The set-up of the response goes on exactly when every hook ran without leaving an error and one of them validated the
  request, then paused when one of them asked for it; otherwise the response is finished at once, as failed after an
  error and as rejected when nobody validated it.\<close>

theorem request_hooks_decide:
  fixes publish :: "(peer_id \<Rightarrow> 'n gs_request \<Rightarrow> 'n hook_action list, ('n, 'l) hook_result) publish"
    and po :: "'l persistence_options" and hooks :: "(peer_id \<Rightarrow> 'n gs_request \<Rightarrow> 'n hook_action list) list"
    and p :: peer_id and request :: "'n gs_request"
  assumes "publish_law publish"
  defines "result \<equiv> rsm_ProcessRequestHooks publish po hooks p request"
  shows "\<exists>run skipped. hooks = run @ skipped \<and>
    (\<forall>before h after. run = before @ h # after \<and> before \<noteq> [] \<longrightarrow> hr_Err (rsm_ProcessRequestHooks publish po before p request) = None) \<and>
    (skipped \<noteq> [] \<longrightarrow> hr_Err result \<noteq> None) \<and>
    (let acts = concat (map (\<lambda>hook. hook p request) run);
         accepted = (hr_Err result = None \<and> ActValidateRequest \<in> set acts)
     in fst (prepareTransaction result) =
          (if accepted then None else if hr_Err result \<noteq> None then hr_Err result else Some errInvalidRequest) \<and>
        snd (prepareTransaction result) =
          map RbSendExtensionData (sent_extensions acts) @
          (if accepted then (if ActPauseResponse \<in> set acts then [RbPauseRequest] else [])
           else [RbFinishWithError (if hr_Err result \<noteq> None then RequestFailedUnknown else RequestRejected)]))"
proof -
  note chain = incomingRequestHooks.runs_prefix[OF assms(1), of _ po p request zero_hook_result, folded rsm_ProcessRequestHooks_def]
  obtain run skipped where r: "hooks = run @ skipped"
    "result = foldl (hra_act po) zero_hook_result (concat (map (\<lambda>hook. hook p request) run))"
    "skipped \<noteq> [] \<longrightarrow> hr_Err result \<noteq> None"
    "\<And>before h after. run = before @ h # after \<Longrightarrow> before \<noteq> [] \<Longrightarrow>
       hr_Err (foldl (hra_act po) zero_hook_result (concat (map (\<lambda>hook. hook p request) before))) = None"
    using chain[of hooks] unfolding result_def by blast
  have before: "hr_Err (rsm_ProcessRequestHooks publish po bs p request) = None" if "run = bs @ h # after" "bs \<noteq> []" for bs h after
  proof -
    from chain[of bs] obtain run' skipped' where "bs = run' @ skipped'"
      "rsm_ProcessRequestHooks publish po bs p request = foldl (hra_act po) zero_hook_result (concat (map (\<lambda>hook. hook p request) run'))"
      "skipped' \<noteq> [] \<longrightarrow> hr_Err (rsm_ProcessRequestHooks publish po bs p request) \<noteq> None" by blast
    with that r(4)[of run' "hd (skipped' @ h # after)" "tl (skipped' @ h # after)"] show ?thesis
      by (cases "run' = []"; cases "skipped' = []") (auto simp: zero_hook_result_def)
  qed
  note res = hra_acts[of po zero_hook_result "concat (map (\<lambda>hook. hook p request) run)", folded r(2)]
  show ?thesis
    using r(1,3) before by (intro exI[of _ run] exI[of _ skipped])
      (auto simp: Let_def prepareTransaction_def res zero_hook_result_def split: option.split)
qed

subsection \<open>Witness: the second of three hooks ends the request\<close>

fun run_hooks :: "('h, 'a) publish" where
  "run_hooks f [] s = s"
| "run_hooks f (h # hs) s = (case f h s of (Some _, s') \<Rightarrow> s' | (None, s') \<Rightarrow> run_hooks f hs s')"

lemma run_hooks_law: "publish_law run_hooks"
  by (simp add: publish_law_def)

definition example_hooks :: "(peer_id \<Rightarrow> nat gs_request \<Rightarrow> nat hook_action list) list" where
  "example_hooks =
     [\<lambda>p r. [ActValidateRequest, ActSendExtensionData \<lparr>ed_Name = ''a'', ed_Data = Some 1\<rparr>],
      \<lambda>p r. [ActUsePersistenceOption ''none''],
      \<lambda>p r. [ActPauseResponse]]"

theorem request_hooks_decide_witness:
  "\<exists>acts. prepareTransaction (rsm_ProcessRequestHooks run_hooks ([] :: nat persistence_options) example_hooks ''p''
       (NewRequest ''r'' ''c'' None 0 [])) =
     (Some (OtherErr ''unknown loader option''),
      map RbSendExtensionData (sent_extensions acts) @ [RbFinishWithError RequestFailedUnknown])"
proof -
  let ?r = "NewRequest ''r'' ''c'' None 0 [] :: nat gs_request"
  define res where "res = rsm_ProcessRequestHooks run_hooks ([] :: nat persistence_options) example_hooks ''p'' ?r"
  have err: "hr_Err res = Some (OtherErr ''unknown loader option'')" unfolding res_def by code_simp
  obtain run where
    "fst (prepareTransaction res) = (if hr_Err res = None \<and> ActValidateRequest \<in> set (concat (map (\<lambda>h. h ''p'' ?r) run)) then None
       else if hr_Err res \<noteq> None then hr_Err res else Some errInvalidRequest)"
    "snd (prepareTransaction res) = map RbSendExtensionData (sent_extensions (concat (map (\<lambda>h. h ''p'' ?r) run))) @
       (if hr_Err res = None \<and> ActValidateRequest \<in> set (concat (map (\<lambda>h. h ''p'' ?r) run))
        then (if ActPauseResponse \<in> set (concat (map (\<lambda>h. h ''p'' ?r) run)) then [RbPauseRequest] else [])
        else [RbFinishWithError (if hr_Err res \<noteq> None then RequestFailedUnknown else RequestRejected)])"
    using request_hooks_decide[OF run_hooks_law, of example_hooks "[] :: nat persistence_options" "''p''" ?r, folded res_def] unfolding Let_def by blast
  then have "prepareTransaction res = (Some (OtherErr ''unknown loader option''),
    map RbSendExtensionData (sent_extensions (concat (map (\<lambda>h. h ''p'' ?r) run))) @ [RbFinishWithError RequestFailedUnknown])"
    unfolding err by (intro prod_eqI) (simp_all only: fst_conv snd_conv option.distinct simp_thms if_False if_True)
  then show ?thesis unfolding res_def by blast
qed

end
