(* ===== verification/Event_Machine.thy ===== *)
theory Event_Machine
  imports Main
begin

text \<open>
  Components that run in several goroutines are machines driven by events: a step takes an event when it is possible in
  the state, and a run takes a list of them. What holds of the runs of all of them is proved here once.
\<close>

locale event_machine =
  fixes step :: "'s \<Rightarrow> 'e \<Rightarrow> 's option" and run :: "'e list \<Rightarrow> 's \<Rightarrow> 's option"
  assumes run_Nil: "run [] s = Some s"
    and run_Cons: "run (e # es) s = Option.bind (step s e) (run es)"
begin

lemma run_append: "run (es @ es') s = Option.bind (run es s) (run es')"
proof (induction es arbitrary: s)
  case (Cons e es)
  then show ?case by (cases "step s e") (auto simp: run_Cons)
qed (simp add: run_Nil)

lemma run_snoc: "run (es @ [e]) s = Option.bind (run es s) (\<lambda>s'. step s' e)"
  by (cases "run es s") (auto simp: run_append run_Cons run_Nil split: Option.bind_splits)

text \<open>A property of the events so far and the state they led to.\<close>

lemma history_induct:
  assumes "run es s = Some s'" "P [] s"
    "\<And>es s' e s''. P es s' \<Longrightarrow> step s' e = Some s'' \<Longrightarrow> P (es @ [e]) s''"
  shows "P es s'"
  using assms(1)
proof (induction es arbitrary: s' rule: rev_induct)
  case Nil
  with assms(2) show ?case by (simp add: run_Nil)
next
  case (snoc e es)
  then show ?case using assms(3) by (auto simp: run_snoc bind_eq_Some_conv)
qed

lemma run_invariant:
  assumes "run es s = Some s'" "P s" "\<And>s e s'. P s \<Longrightarrow> step s e = Some s' \<Longrightarrow> P s'"
  shows "P s'"
  using history_induct[of es s s' "\<lambda>_. P"] assms by blast

text \<open>An invariant that is kept as long as a measure of the state, which never shrinks, has not passed a bound.\<close>

lemma run_bounded_invariant:
  fixes size :: "'s \<Rightarrow> nat"
  assumes "run es s = Some s'" "P s" "size s' < n"
    "\<And>s e s'. step s e = Some s' \<Longrightarrow> size s \<le> size s'"
    "\<And>s e s'. P s \<Longrightarrow> size s < n \<Longrightarrow> step s e = Some s' \<Longrightarrow> P s'"
  shows "P s'"
proof -
  have "size s' < n \<longrightarrow> P s'" if "size s < n \<longrightarrow> P s" "step s e = Some s'" for s e s'
    using that assms(4)[OF that(2)] assms(5)[OF _ _ that(2)] by auto
  with assms(2) have "size s' < n \<longrightarrow> P s'" by (intro run_invariant[OF assms(1), where P = "\<lambda>s. size s < n \<longrightarrow> P s"]) blast+
  with assms(3) show ?thesis by blast
qed

end

end
