(* ===== verification/Response_Collector.thy ===== *)
theory Response_Collector
  imports GS_Prelude GS_Types Event_Machine
begin

text \<open>
  \<^verbatim>\<open>requestmanager/responsecollector.go\<close>: the two goroutines that stand between the request manager and the
  channels the caller of a request reads. Each buffers what comes in and hands it out as the caller is ready for it. The
  choices of their \<^verbatim>\<open>select\<close> statements and the cancellation of the two contexts are events; an event that is
  not possible in a state has no next state. A channel is what was sent on it.
\<close>

section \<open>State and events\<close>

datatype rc_call = CancelRequest | OnComplete | CloseReturnedResponses | CloseReturnedErrors

record 'p collector =
  rc_ctxDone :: bool
  rc_requestDone :: bool
  receivedResponses :: "'p list"
  incomingResponses :: bool
  returnedResponses :: "'p list"
  rc_responsesRunning :: bool
  receivedErrors :: "gs_error list"
  incomingErrors :: bool
  returnedErrors :: "gs_error list"
  rc_errorsRunning :: bool
  rc_calls :: "rc_call list"

text \<open>
  \<open>ResponseIn None\<close> and \<open>ErrorIn None\<close> are the closing of the incoming channel. The flag of the other error events
  says whether the caller takes the error of the cancellation, or the collector's context ends that wait.
\<close>

datatype 'p rc_event =
    CtxDone | RequestCtxDone
  | ResponsesStop | ResponsesCancelled | ResponseIn "'p option" | ResponseOut
  | ErrorsStop | ErrorsCancelled bool | ErrorIn "gs_error option" bool | ErrorOut

definition newResponseCollector :: "'p collector" where
  "newResponseCollector = \<lparr>rc_ctxDone = False, rc_requestDone = False,
     receivedResponses = [], incomingResponses = True, returnedResponses = [], rc_responsesRunning = True,
     receivedErrors = [], incomingErrors = True, returnedErrors = [], rc_errorsRunning = True, rc_calls = []\<rparr>"

section \<open>The goroutine of the responses\<close>

definition rc_responsesReturn :: "'p collector \<Rightarrow> 'p collector" where
  "rc_responsesReturn c = c\<lparr>rc_responsesRunning := False, rc_calls := rc_calls c @ [OnComplete, CloseReturnedResponses]\<rparr>"

definition rc_responsesLoop :: "'p collector \<Rightarrow> 'p collector" where
  "rc_responsesLoop c = (if receivedResponses c \<noteq> [] \<or> incomingResponses c then c else rc_responsesReturn c)"

fun rc_responses :: "'p collector \<Rightarrow> 'p rc_event \<Rightarrow> 'p collector option" where
  "rc_responses c ResponsesStop = (if rc_ctxDone c then Some (rc_responsesReturn c) else None)"
| "rc_responses c ResponsesCancelled =
     (if rc_requestDone c
      then Some (rc_responsesReturn (if incomingResponses c then c\<lparr>rc_calls := rc_calls c @ [CancelRequest]\<rparr> else c)) else None)"
| "rc_responses c (ResponseIn r) =
     (if incomingResponses c
      then Some (rc_responsesLoop (case r of
             None \<Rightarrow> c\<lparr>incomingResponses := False\<rparr>
           | Some response \<Rightarrow> c\<lparr>receivedResponses := receivedResponses c @ [response]\<rparr>))
      else None)"
| "rc_responses c ResponseOut =
     (case receivedResponses c of
        [] \<Rightarrow> None
      | nextResponse # rest \<Rightarrow>
          Some (rc_responsesLoop (c\<lparr>receivedResponses := rest, returnedResponses := returnedResponses c @ [nextResponse]\<rparr>)))"
| "rc_responses c _ = None"

section \<open>The goroutine of the errors\<close>

definition rc_errorsReturn :: "'p collector \<Rightarrow> 'p collector" where
  "rc_errorsReturn c = c\<lparr>rc_errorsRunning := False, rc_calls := rc_calls c @ [CloseReturnedErrors]\<rparr>"

definition rc_errorsLoop :: "'p collector \<Rightarrow> 'p collector" where
  "rc_errorsLoop c = (if receivedErrors c \<noteq> [] \<or> incomingErrors c then c else rc_errorsReturn c)"

text \<open>The inner \<^verbatim>\<open>select\<close>: the caller takes the error of the cancellation, or the collector is stopped.\<close>

definition rc_sendCancelled :: "bool \<Rightarrow> 'p collector \<Rightarrow> 'p collector option" where
  "rc_sendCancelled taken c =
     (if taken then Some (c\<lparr>returnedErrors := returnedErrors c @ [RequestClientCancelledErr]\<rparr>)
      else if rc_ctxDone c then Some c else None)"

fun rc_errors :: "'p collector \<Rightarrow> 'p rc_event \<Rightarrow> 'p collector option" where
  "rc_errors c ErrorsStop = (if rc_ctxDone c then Some (rc_errorsReturn c) else None)"
| "rc_errors c (ErrorsCancelled taken) =
     (if rc_requestDone c then map_option rc_errorsReturn (rc_sendCancelled taken c) else None)"
| "rc_errors c (ErrorIn e taken) =
     (if incomingErrors c
      then (case e of
              None \<Rightarrow>
                (let c = c\<lparr>incomingErrors := False\<rparr>
                 in map_option rc_errorsLoop (if rc_requestDone c then rc_sendCancelled taken c else Some c))
            | Some err \<Rightarrow> Some (rc_errorsLoop (c\<lparr>receivedErrors := receivedErrors c @ [err]\<rparr>)))
      else None)"
| "rc_errors c ErrorOut =
     (case receivedErrors c of
        [] \<Rightarrow> None
      | nextError # rest \<Rightarrow> Some (rc_errorsLoop (c\<lparr>receivedErrors := rest, returnedErrors := returnedErrors c @ [nextError]\<rparr>)))"
| "rc_errors c _ = None"

section \<open>Both goroutines and the environment\<close>

fun collectResponses :: "'p collector \<Rightarrow> 'p rc_event \<Rightarrow> 'p collector option" where
  "collectResponses c CtxDone = Some (c\<lparr>rc_ctxDone := True\<rparr>)"
| "collectResponses c RequestCtxDone = Some (c\<lparr>rc_requestDone := True\<rparr>)"
| "collectResponses c e =
     (case e of
        ErrorsStop \<Rightarrow> if rc_errorsRunning c then rc_errors c e else None
      | ErrorsCancelled _ \<Rightarrow> if rc_errorsRunning c then rc_errors c e else None
      | ErrorIn _ _ \<Rightarrow> if rc_errorsRunning c then rc_errors c e else None
      | ErrorOut \<Rightarrow> if rc_errorsRunning c then rc_errors c e else None
      | _ \<Rightarrow> if rc_responsesRunning c then rc_responses c e else None)"

fun rc_run :: "'p rc_event list \<Rightarrow> 'p collector \<Rightarrow> 'p collector option" where
  "rc_run [] c = Some c"
| "rc_run (e # es) c = Option.bind (collectResponses c e) (rc_run es)"

text \<open>What was put into the incoming channels during a run.\<close>

definition responses_in :: "'p rc_event list \<Rightarrow> 'p list" where
  "responses_in es = [r. ResponseIn (Some r) \<leftarrow> es]"

definition errors_in :: "'p rc_event list \<Rightarrow> gs_error list" where
  "errors_in es = [err. ErrorIn (Some err) _ \<leftarrow> es]"

interpretation rcm: event_machine collectResponses rc_run
  by unfold_locales simp_all

lemma rc_in_append [simp]:
  "responses_in [] = []" "responses_in (es @ [e]) = responses_in es @ (case e of ResponseIn (Some r) \<Rightarrow> [r] | _ \<Rightarrow> [])"
  "errors_in [] = []" "errors_in (es @ [e]) = errors_in es @ (case e of ErrorIn (Some err) _ \<Rightarrow> [err] | _ \<Rightarrow> [])"
  by (auto simp: responses_in_def errors_in_def split: rc_event.split option.split)

lemmas rc_defs = rc_responsesReturn_def rc_responsesLoop_def rc_errorsReturn_def rc_errorsLoop_def rc_sendCancelled_def

section \<open>The responses\<close>

definition responses_inv :: "'p rc_event list \<Rightarrow> 'p collector \<Rightarrow> bool" where
  "responses_inv es c \<longleftrightarrow>
     responses_in es = returnedResponses c @ receivedResponses c \<and>
     (rc_responsesRunning c \<longrightarrow> receivedResponses c \<noteq> [] \<or> incomingResponses c) \<and>
     (\<not> rc_responsesRunning c \<longrightarrow> receivedResponses c = [] \<and> \<not> incomingResponses c \<or> rc_ctxDone c \<or> rc_requestDone c) \<and>
     (let calls = filter (\<lambda>call. call \<noteq> CloseReturnedErrors) (rc_calls c)
      in if rc_responsesRunning c then calls = []
         else calls = [OnComplete, CloseReturnedResponses] \<or>
              calls = [CancelRequest, OnComplete, CloseReturnedResponses] \<and> rc_requestDone c \<and> incomingResponses c)"

lemma rc_errors_frame:
  assumes "rc_errors c e = Some c'"
  shows "returnedResponses c' = returnedResponses c" "receivedResponses c' = receivedResponses c"
    "incomingResponses c' = incomingResponses c" "rc_responsesRunning c' = rc_responsesRunning c"
    "rc_ctxDone c' = rc_ctxDone c" "rc_requestDone c' = rc_requestDone c"
    "filter (\<lambda>call. call \<noteq> CloseReturnedErrors) (rc_calls c') = filter (\<lambda>call. call \<noteq> CloseReturnedErrors) (rc_calls c)"
    "responses_in (es @ [e]) = responses_in es"
  using assms by (cases "(c, e)" rule: rc_errors.cases; auto simp: rc_defs Let_def split: if_splits option.splits list.splits)+

lemma rc_responses_frame:
  assumes "rc_responses c e = Some c'"
  shows "returnedErrors c' = returnedErrors c" "receivedErrors c' = receivedErrors c"
    "incomingErrors c' = incomingErrors c" "rc_errorsRunning c' = rc_errorsRunning c"
    "rc_ctxDone c' = rc_ctxDone c" "rc_requestDone c' = rc_requestDone c"
    "filter (\<lambda>call. call = CloseReturnedErrors) (rc_calls c') = filter (\<lambda>call. call = CloseReturnedErrors) (rc_calls c)"
    "errors_in (es @ [e]) = errors_in es"
  using assms by (cases "(c, e)" rule: rc_responses.cases; auto simp: rc_defs Let_def split: if_splits option.splits list.splits)+

lemma collectResponses_cases [consumes 1, case_names ctx request responses errors]:
  assumes "collectResponses c e = Some c'"
  obtains "e = CtxDone" "c' = c\<lparr>rc_ctxDone := True\<rparr>"
  | "e = RequestCtxDone" "c' = c\<lparr>rc_requestDone := True\<rparr>"
  | "rc_responsesRunning c" "rc_responses c e = Some c'"
  | "rc_errorsRunning c" "rc_errors c e = Some c'"
  using assms by (cases e) (auto split: if_splits)

lemma responses_inv_responses:
  assumes "responses_inv es c" "rc_responsesRunning c" "rc_responses c e = Some c'"
  shows "responses_inv (es @ [e]) c'"
  using assms(3)
proof (cases "(c, e)" rule: rc_responses.cases)
  case (3 c r)
  with assms show ?thesis by (cases r) (auto simp: responses_inv_def rc_defs Let_def split: if_splits)
next
  case (4 c)
  with assms show ?thesis by (cases "receivedResponses c") (auto simp: responses_inv_def rc_defs Let_def split: if_splits)
qed (use assms in \<open>auto simp: responses_inv_def rc_defs Let_def split: if_splits\<close>)

lemma responses_inv_step:
  assumes "responses_inv es c" "collectResponses c e = Some c'"
  shows "responses_inv (es @ [e]) c'"
  using assms(2)
proof (cases rule: collectResponses_cases)
  case errors
  show ?thesis using assms(1) rc_errors_frame[OF errors(2)] unfolding responses_inv_def Let_def by simp
next
  case responses
  with assms(1) show ?thesis by (rule responses_inv_responses)
qed (use assms(1) in \<open>auto simp: responses_inv_def Let_def\<close>)

lemma responses_inv_run: "rc_run es newResponseCollector = Some c \<Longrightarrow> responses_inv es c"
  by (erule rcm.history_induct) (simp_all add: responses_inv_step, simp add: responses_inv_def newResponseCollector_def)

text \<open>Once the incoming channel is closed the goroutine ends when the caller takes what is left.\<close>

lemma responses_drain:
  assumes "rc_responsesRunning c" "\<not> incomingResponses c" "receivedResponses c \<noteq> []"
  shows "\<exists>c'. rc_run (replicate (length (receivedResponses c)) ResponseOut) c = Some c' \<and>
    \<not> rc_responsesRunning c' \<and> returnedResponses c' = returnedResponses c @ receivedResponses c"
  using assms
proof (induction "receivedResponses c" arbitrary: c)
  case (Cons r rs)
  let ?c = "c\<lparr>receivedResponses := rs, returnedResponses := returnedResponses c @ [r]\<rparr>"
  from Cons.hyps(2) have l: "receivedResponses c = r # rs" by simp
  show ?case
  proof (cases rs)
    case Nil
    with l Cons.prems show ?thesis by (auto simp: rc_defs)
  next
    case (Cons r' rs')
    with Cons.hyps(1)[of ?c] Cons.prems l show ?thesis by (auto simp: rc_defs)
  qed
qed simp

section \<open>The errors\<close>

text \<open>What was returned: errors that came in, in order, and at most two errors of a cancellation, one when the incoming
  channel was found closed and one at the end.\<close>

definition errors_split :: "'p rc_event list \<Rightarrow> 'p collector \<Rightarrow> gs_error list \<Rightarrow> gs_error list \<Rightarrow> gs_error list \<Rightarrow> gs_error list \<Rightarrow> bool" where
  "errors_split es c before late after fin \<longleftrightarrow>
     returnedErrors c = before @ late @ after @ fin \<and> before @ after @ receivedErrors c = errors_in es \<and>
     late \<in> {[], [RequestClientCancelledErr]} \<and> fin \<in> {[], [RequestClientCancelledErr]} \<and>
     (late = [] \<longrightarrow> after = []) \<and> (late \<noteq> [] \<longrightarrow> \<not> incomingErrors c) \<and>
     (fin \<noteq> [] \<longrightarrow> \<not> rc_errorsRunning c) \<and> (late @ fin \<noteq> [] \<longrightarrow> rc_requestDone c)"

definition errors_inv :: "'p rc_event list \<Rightarrow> 'p collector \<Rightarrow> bool" where
  "errors_inv es c \<longleftrightarrow>
     (\<exists>before late after fin. errors_split es c before late after fin) \<and>
     (rc_errorsRunning c \<longrightarrow> receivedErrors c \<noteq> [] \<or> incomingErrors c) \<and>
     (\<not> rc_errorsRunning c \<longrightarrow> receivedErrors c = [] \<and> \<not> incomingErrors c \<or> rc_ctxDone c \<or> rc_requestDone c) \<and>
     filter (\<lambda>call. call = CloseReturnedErrors) (rc_calls c) = (if rc_errorsRunning c then [] else [CloseReturnedErrors])"

lemma errors_split_step:
  assumes "errors_split es c before late after fin" "rc_errorsRunning c" "rc_errors c e = Some c'"
  shows "\<exists>before late after fin. errors_split (es @ [e]) c' before late after fin"
  using assms(3)
proof (cases "(c, e)" rule: rc_errors.cases)
  case (1 c)
  with assms have "errors_split (es @ [e]) c' before late after fin"
    by (auto simp: errors_split_def rc_defs split: if_splits)
  then show ?thesis by blast
next
  case (2 c taken)
  let ?fin = "if taken then [RequestClientCancelledErr] else []"
  have "errors_split (es @ [e]) c' before late after ?fin"
    using assms 2 by (auto simp: errors_split_def rc_defs split: if_splits)
  then show ?thesis by blast
next
  case (3 c err taken)
  let ?late = "if err = None \<and> rc_requestDone c \<and> taken then [RequestClientCancelledErr] else []"
  have "errors_split (es @ [e]) c' before ?late [] []"
    using assms 3 by (cases err) (auto simp: errors_split_def rc_defs Let_def split: if_splits)
  then show ?thesis by blast
next
  case (4 c)
  then obtain x rest where x: "receivedErrors c = x # rest" using assms by (cases "receivedErrors c") auto
  show ?thesis
  proof (cases "late = []")
    case True
    then have "errors_split (es @ [e]) c' (before @ [x]) [] [] []"
      using assms 4 x by (auto simp: errors_split_def rc_defs split: if_splits)
    then show ?thesis by blast
  next
    case False
    then have "errors_split (es @ [e]) c' before late (after @ [x]) []"
      using assms 4 x by (auto simp: errors_split_def rc_defs split: if_splits)
    then show ?thesis by blast
  qed
qed (use assms in auto)

lemma errors_inv_errors:
  assumes "errors_inv es c" "rc_errorsRunning c" "rc_errors c e = Some c'"
  shows "errors_inv (es @ [e]) c'"
proof -
  have "\<exists>before late after fin. errors_split (es @ [e]) c' before late after fin"
    using assms errors_split_step unfolding errors_inv_def by blast
  moreover have "(rc_errorsRunning c' \<longrightarrow> receivedErrors c' \<noteq> [] \<or> incomingErrors c') \<and>
     (\<not> rc_errorsRunning c' \<longrightarrow> receivedErrors c' = [] \<and> \<not> incomingErrors c' \<or> rc_ctxDone c' \<or> rc_requestDone c') \<and>
     filter (\<lambda>call. call = CloseReturnedErrors) (rc_calls c') = (if rc_errorsRunning c' then [] else [CloseReturnedErrors])"
    using assms(3)
  proof (cases "(c, e)" rule: rc_errors.cases)
    case (3 c err taken)
    with assms show ?thesis by (cases err) (auto simp: errors_inv_def rc_defs Let_def split: if_splits)
  next
    case (4 c)
    with assms show ?thesis by (cases "receivedErrors c") (auto simp: errors_inv_def rc_defs split: if_splits)
  qed (use assms in \<open>auto simp: errors_inv_def rc_defs split: if_splits\<close>)
  ultimately show ?thesis unfolding errors_inv_def by blast
qed

lemma errors_inv_step:
  assumes "errors_inv es c" "collectResponses c e = Some c'"
  shows "errors_inv (es @ [e]) c'"
  using assms(2)
proof (cases rule: collectResponses_cases)
  case responses
  show ?thesis using assms(1) rc_responses_frame[OF responses(2)] unfolding errors_inv_def errors_split_def by simp
next
  case errors
  with assms(1) show ?thesis by (rule errors_inv_errors)
qed (use assms(1) in \<open>auto simp: errors_inv_def errors_split_def\<close>)

lemma errors_inv_run: "rc_run es newResponseCollector = Some c \<Longrightarrow> errors_inv es c"
  by (erule rcm.history_induct)
    (simp_all add: errors_inv_step, simp add: errors_inv_def errors_split_def newResponseCollector_def)

lemma cancelled_step:
  assumes "rc_requestDone c" "RequestClientCancelledErr \<in> set (returnedErrors c) \<or> incomingErrors c \<and> rc_errorsRunning c \<or> rc_ctxDone c"
    "collectResponses c e = Some c'"
  shows "rc_requestDone c' \<and>
    (RequestClientCancelledErr \<in> set (returnedErrors c') \<or> incomingErrors c' \<and> rc_errorsRunning c' \<or> rc_ctxDone c')"
  using assms(3)
proof (cases rule: collectResponses_cases)
  case responses
  show ?thesis using assms(1,2) rc_responses_frame[OF responses(2)] by simp
next
  case errors
  from errors(2) show ?thesis
  proof (cases "(c, e)" rule: rc_errors.cases)
    case (3 c err taken)
    with assms errors show ?thesis by (cases err) (auto simp: rc_defs Let_def split: if_splits)
  next
    case (4 c)
    with assms errors show ?thesis by (cases "receivedErrors c") (auto simp: rc_defs split: if_splits)
  qed (use assms errors in \<open>auto simp: rc_defs split: if_splits\<close>)
qed (use assms in auto)

lemma cancelled_run:
  assumes "rc_requestDone c" "RequestClientCancelledErr \<in> set (returnedErrors c) \<or> incomingErrors c \<and> rc_errorsRunning c \<or> rc_ctxDone c"
    "rc_run es c = Some c'"
  shows "RequestClientCancelledErr \<in> set (returnedErrors c') \<or> incomingErrors c' \<and> rc_errorsRunning c' \<or> rc_ctxDone c'"
proof -
  let ?P = "\<lambda>c. rc_requestDone c \<and>
    (RequestClientCancelledErr \<in> set (returnedErrors c) \<or> incomingErrors c \<and> rc_errorsRunning c \<or> rc_ctxDone c)"
  have "?P c'" using assms(3) by (rule rcm.run_invariant[where P = ?P]) (use assms(1,2) cancelled_step in blast)+
  then show ?thesis by blast
qed

section \<open>What the caller gets\<close>

text \<open>C18: Responses reach the caller in order and the collector finishes: after any sequence of events the responses the
  caller got are a prefix of those that came in and the rest is buffered; the goroutine ends only when everything was
  delivered after the incoming channel was closed, or one of the contexts is done; it then calls the function for
  completion once, closes the caller's channel, and has cancelled the request exactly once before that when it gave up
  on an incoming channel that was open. Once the incoming channel is closed it ends as soon as the caller has taken what is buffered.\<close>

theorem collector_delivers_responses:
  assumes "rc_run es newResponseCollector = Some c"
  shows "responses_in es = returnedResponses c @ receivedResponses c \<and>
    (rc_responsesRunning c \<longrightarrow> {CancelRequest, OnComplete, CloseReturnedResponses} \<inter> set (rc_calls c) = {}) \<and>
    (\<not> rc_responsesRunning c \<longrightarrow>
       (returnedResponses c = responses_in es \<and> \<not> incomingResponses c \<or> rc_ctxDone c \<or> rc_requestDone c) \<and>
       (\<exists>cancel. filter (\<lambda>call. call \<noteq> CloseReturnedErrors) (rc_calls c) = cancel @ [OnComplete, CloseReturnedResponses] \<and>
          (cancel = [] \<or> cancel = [CancelRequest] \<and> rc_requestDone c \<and> incomingResponses c))) \<and>
    (rc_responsesRunning c \<and> \<not> incomingResponses c \<longrightarrow>
       (\<exists>c'. rc_run (es @ replicate (length (receivedResponses c)) ResponseOut) newResponseCollector = Some c' \<and>
          \<not> rc_responsesRunning c' \<and> returnedResponses c' = responses_in es))"
proof -
  have inv: "responses_inv es c" using assms by (rule responses_inv_run)
  have "\<exists>c'. rc_run (es @ replicate (length (receivedResponses c)) ResponseOut) newResponseCollector = Some c' \<and>
      \<not> rc_responsesRunning c' \<and> returnedResponses c' = responses_in es"
    if "rc_responsesRunning c" "\<not> incomingResponses c"
    using responses_drain[of c] that inv assms by (simp add: responses_inv_def rcm.run_append)
  moreover have "{CancelRequest, OnComplete, CloseReturnedResponses} \<inter> set (rc_calls c) = {}" if "rc_responsesRunning c"
    using inv that by (fastforce simp: responses_inv_def Let_def filter_empty_conv)
  ultimately show ?thesis using inv by (auto simp: responses_inv_def Let_def)
qed

text \<open>Witness: two responses come in, one is taken, the channel is closed.\<close>

theorem collector_delivers_responses_witness:
  "\<exists>c'. rc_run [ResponseIn (Some (1::nat)), ResponseIn (Some 2), ResponseOut, ResponseIn None, ResponseOut] newResponseCollector = Some c' \<and>
     returnedResponses c' = [1, 2]"
proof -
  let ?es = "[ResponseIn (Some (1::nat)), ResponseIn (Some 2), ResponseOut, ResponseIn None]"
  have "map_option (\<lambda>c. (rc_responsesRunning c, incomingResponses c, length (receivedResponses c))) (rc_run ?es newResponseCollector) =
    Some (True, False, 1)" by code_simp
  then obtain c where c: "rc_run ?es newResponseCollector = Some c" "rc_responsesRunning c" "\<not> incomingResponses c"
    "length (receivedResponses c) = 1" by auto
  have r: "responses_in ?es = [1, 2]" by code_simp
  have "\<exists>c'. rc_run (?es @ replicate (length (receivedResponses c)) ResponseOut) newResponseCollector = Some c' \<and>
      returnedResponses c' = responses_in ?es"
    using collector_delivers_responses[OF c(1)] c(2,3) by blast
  then show ?thesis unfolding c(4) r by (simp del: rc_run.simps)
qed

text \<open>C38: Errors reach the caller, and so does a cancellation: what the caller got is the errors that came in, in order,
  with at most two errors that say that the request was cancelled, and none unless its context was done; without a
  cancellation the goroutine ends only when every error was delivered. When the context of the request was done while the
  incoming channel was open, the goroutine does not end before the caller was told of the cancellation, unless the whole
  collector is stopped. The channel is closed exactly once, at the end.\<close>

theorem collector_reports_errors:
  assumes "rc_run es newResponseCollector = Some c" "rc_run es' c = Some c'"
  shows "(\<exists>before late after fin.
      returnedErrors c = before @ late @ after @ fin \<and> before @ after @ receivedErrors c = errors_in es \<and>
      late \<in> {[], [RequestClientCancelledErr]} \<and> fin \<in> {[], [RequestClientCancelledErr]} \<and>
      (late @ fin \<noteq> [] \<longrightarrow> rc_requestDone c)) \<and>
    (\<not> rc_errorsRunning c \<and> \<not> rc_ctxDone c \<and> \<not> rc_requestDone c \<longrightarrow> returnedErrors c = errors_in es) \<and>
    (rc_requestDone c \<and> incomingErrors c \<and> rc_errorsRunning c \<and> \<not> rc_errorsRunning c' \<and> \<not> rc_ctxDone c' \<longrightarrow>
       RequestClientCancelledErr \<in> set (returnedErrors c')) \<and>
    filter (\<lambda>call. call = CloseReturnedErrors) (rc_calls c) = (if rc_errorsRunning c then [] else [CloseReturnedErrors])"
proof -
  have inv: "errors_inv es c" using assms(1) by (rule errors_inv_run)
  then obtain before late after fin where split: "errors_split es c before late after fin" by (auto simp: errors_inv_def)
  then have "returnedErrors c = errors_in es" if "\<not> rc_errorsRunning c" "\<not> rc_ctxDone c" "\<not> rc_requestDone c"
    using that inv by (auto simp: errors_inv_def errors_split_def)
  moreover have "RequestClientCancelledErr \<in> set (returnedErrors c')"
    if "rc_requestDone c" "incomingErrors c" "rc_errorsRunning c" "\<not> rc_errorsRunning c'" "\<not> rc_ctxDone c'"
    using cancelled_run[OF that(1) _ assms(2)] that by blast
  moreover have "filter (\<lambda>call. call = CloseReturnedErrors) (rc_calls c) = (if rc_errorsRunning c then [] else [CloseReturnedErrors])"
    using inv by (simp only: errors_inv_def)
  moreover have "\<exists>before late after fin.
      returnedErrors c = before @ late @ after @ fin \<and> before @ after @ receivedErrors c = errors_in es \<and>
      late \<in> {[], [RequestClientCancelledErr]} \<and> fin \<in> {[], [RequestClientCancelledErr]} \<and>
      (late @ fin \<noteq> [] \<longrightarrow> rc_requestDone c)"
    using split unfolding errors_split_def by (intro exI[of _ before] exI[of _ late] exI[of _ after] exI[of _ fin]) simp
  ultimately show ?thesis by (intro conjI impI; (elim conjE)?; assumption?; simp)
qed

text \<open>Witness: the incoming channel is closed after the cancellation, with an error still buffered; the caller is told of
  the cancellation twice.\<close>

theorem collector_reports_errors_witness:
  "\<exists>c c'. rc_run [ErrorIn (Some RequestFailedBusyErr) False, RequestCtxDone] (newResponseCollector :: nat collector) = Some c \<and>
     rc_run [ErrorIn None True, ErrorsCancelled True] c = Some c' \<and> RequestClientCancelledErr \<in> set (returnedErrors c')"
proof -
  let ?es = "[ErrorIn (Some RequestFailedBusyErr) False, RequestCtxDone] :: nat rc_event list" and ?es' = "[ErrorIn None True, ErrorsCancelled True]"
  have "map_option (\<lambda>c. (rc_requestDone c, incomingErrors c, rc_errorsRunning c,
      map_option (\<lambda>c'. (rc_errorsRunning c', rc_ctxDone c')) (rc_run ?es' c))) (rc_run ?es newResponseCollector) =
    Some (True, True, True, Some (False, False))" by code_simp
  then obtain c c' where c: "rc_run ?es newResponseCollector = Some c" "rc_run ?es' c = Some c'" "rc_requestDone c" "incomingErrors c"
    "rc_errorsRunning c" "\<not> rc_errorsRunning c'" "\<not> rc_ctxDone c'" by auto
  with collector_reports_errors[OF c(1,2)] show ?thesis by blast
qed

end
