(* ===== verification/Task_Queue.thy ===== *)
theory Task_Queue
  imports GS_Prelude GS_Types Event_Machine "HOL-Library.Word" "HOL-Library.Multiset"
begin

text \<open>
  \<^verbatim>\<open>taskqueue/taskqueue.go\<close>: the workers that take tasks from the third-party \<^verbatim>\<open>PeerTaskQueue\<close> and run
  them. The operations of that queue are a record of parameters. A worker is where it stands in its loop; the choice of
  which goroutine moves next, the ticker and the answers of the executor are events, and an event that is not possible
  in a state has no next state. Calls that hold a lock are one step.
\<close>

section \<open>State\<close>

record ('t, 'q) ptq_ops =
  ptq_PushTasks :: "peer_id \<Rightarrow> 't \<Rightarrow> 'q \<Rightarrow> 'q"
  ptq_TasksDone :: "peer_id \<Rightarrow> 't \<Rightarrow> 'q \<Rightarrow> 'q"
  ptq_PopTasks :: "int \<Rightarrow> 'q \<Rightarrow> peer_id \<times> 't list \<times> 'q"
  ptq_ThawRound :: "'q \<Rightarrow> 'q"
  ptq_Remove :: "request_id \<Rightarrow> peer_id \<Rightarrow> 'q \<Rightarrow> 'q"
  ptq_Stats :: "'q \<Rightarrow> int \<times> int \<times> int"

text \<open>A worker pops, waits in the \<^verbatim>\<open>select\<close>, is between the tasks it got, executes one of them, or has returned.\<close>

datatype 't worker = WPop | WWait | WTasks peer_id "'t list" | WExec peer_id 't "'t list" | WReturned

text \<open>A caller of \<^verbatim>\<open>WaitForNoActiveTasks\<close> sleeps on the condition, was woken and tests it again, or has returned.\<close>

datatype waiter = WaitTest | WaitSleep | WaitReturned

record ('t, 'q) worker_task_queue =
  tq_PeerTaskQueue :: 'q
  tq_ctxDone :: bool
  workSignal :: bool
  activeTasks :: "32 word"
  tq_workers :: "'t worker list"
  tq_waiters :: "waiter list"
  tq_popped :: "'t multiset"
  tq_executed :: "'t multiset"
  tq_dropped :: "'t multiset"

definition NewTaskQueue :: "'q \<Rightarrow> ('t, 'q) worker_task_queue" where
  "NewTaskQueue q = \<lparr>tq_PeerTaskQueue = q, tq_ctxDone = False, workSignal = False, activeTasks = 0, tq_workers = [], tq_waiters = [],
     tq_popped = {#}, tq_executed = {#}, tq_dropped = {#}\<rparr>"

section \<open>Operations\<close>

definition tq_PushTask :: "('t, 'q) ptq_ops \<Rightarrow> peer_id \<Rightarrow> 't \<Rightarrow> ('t, 'q) worker_task_queue \<Rightarrow> ('t, 'q) worker_task_queue" where
  "tq_PushTask ops p task tq = tq\<lparr>tq_PeerTaskQueue := ptq_PushTasks ops p task (tq_PeerTaskQueue tq), workSignal := True\<rparr>"

definition tq_TaskDone :: "('t, 'q) ptq_ops \<Rightarrow> peer_id \<Rightarrow> 't \<Rightarrow> ('t, 'q) worker_task_queue \<Rightarrow> ('t, 'q) worker_task_queue" where
  "tq_TaskDone ops p task tq = tq\<lparr>tq_PeerTaskQueue := ptq_TasksDone ops p task (tq_PeerTaskQueue tq)\<rparr>"

definition tq_Stats :: "('t, 'q) ptq_ops \<Rightarrow> ('t, 'q) worker_task_queue \<Rightarrow> 64 word \<times> 64 word \<times> 64 word" where
  "tq_Stats ops tq = (let (numPeers, numActive, numPending) = ptq_Stats ops (tq_PeerTaskQueue tq)
                      in (word_of_int numPeers, word_of_int numActive, word_of_int numPending))"

definition tq_Startup :: "nat \<Rightarrow> ('t, 'q) worker_task_queue \<Rightarrow> ('t, 'q) worker_task_queue" where
  "tq_Startup workerCount tq = tq\<lparr>tq_workers := tq_workers tq @ replicate workerCount WPop\<rparr>"

definition tq_Shutdown :: "('t, 'q) worker_task_queue \<Rightarrow> ('t, 'q) worker_task_queue" where
  "tq_Shutdown tq = tq\<lparr>tq_ctxDone := True\<rparr>"

definition targetWork :: int where "targetWork = 1"

definition set_worker :: "nat \<Rightarrow> 't worker \<Rightarrow> ('t, 'q) worker_task_queue \<Rightarrow> ('t, 'q) worker_task_queue" where
  "set_worker i w tq = tq\<lparr>tq_workers := (tq_workers tq)[i := w]\<rparr>"

text \<open>Popping tasks: with none the worker waits.\<close>

definition tq_pop :: "('t, 'q) ptq_ops \<Rightarrow> nat \<Rightarrow> ('t, 'q) worker_task_queue \<Rightarrow> ('t, 'q) worker_task_queue" where
  "tq_pop ops i tq =
     (let (pid, tasks, q) = ptq_PopTasks ops targetWork (tq_PeerTaskQueue tq)
      in set_worker i (if tasks = [] then WWait else WTasks pid tasks)
           (tq\<lparr>tq_PeerTaskQueue := q, tq_popped := tq_popped tq + mset tasks\<rparr>))"

definition tq_Broadcast :: "('t, 'q) worker_task_queue \<Rightarrow> ('t, 'q) worker_task_queue" where
  "tq_Broadcast tq = tq\<lparr>tq_waiters := map (\<lambda>w. if w = WaitSleep then WaitTest else w) (tq_waiters tq)\<rparr>"

definition tq_begin :: "('t, 'q) worker_task_queue \<Rightarrow> ('t, 'q) worker_task_queue" where
  "tq_begin tq = tq\<lparr>activeTasks := activeTasks tq + 1\<rparr>"

definition tq_finish :: "('t, 'q) worker_task_queue \<Rightarrow> ('t, 'q) worker_task_queue" where
  "tq_finish tq =
     (let tq = tq\<lparr>activeTasks := activeTasks tq - 1\<rparr>
      in if activeTasks tq = 0 then tq_Broadcast tq else tq)"

datatype 't tq_event =
    EvPush peer_id 't | EvDone nat peer_id 't | EvRemove request_id peer_id | EvStartup nat | EvShutdown | EvWaitCall | EvWaitTest nat
  | EvPop nat | EvSignal nat | EvTick nat | EvCtx nat | EvBegin nat | EvFinish nat bool

text \<open>The loop of \<^verbatim>\<open>worker\<close>, from one blocking point to the next.\<close>

fun tq_worker :: "('t, 'q) ptq_ops \<Rightarrow> 't tq_event \<Rightarrow> 't worker \<Rightarrow> nat \<Rightarrow> ('t, 'q) worker_task_queue \<Rightarrow> ('t, 'q) worker_task_queue option" where
  "tq_worker ops (EvPop _) WPop i tq = Some (tq_pop ops i tq)"
| "tq_worker ops (EvCtx _) WWait i tq = (if tq_ctxDone tq then Some (set_worker i WReturned tq) else None)"
| "tq_worker ops (EvSignal _) WWait i tq = (if workSignal tq then Some (tq_pop ops i (tq\<lparr>workSignal := False\<rparr>)) else None)"
| "tq_worker ops (EvTick _) WWait i tq =
     Some (tq_pop ops i (tq\<lparr>tq_PeerTaskQueue := ptq_ThawRound ops (tq_PeerTaskQueue tq)\<rparr>))"
| "tq_worker ops (EvBegin _) (WTasks pid (task # tasks)) i tq =
     Some (set_worker i (WExec pid task tasks) (tq_begin tq))"
| "tq_worker ops (EvFinish _ terminate) (WExec pid task tasks) i tq =
     (let tq = (tq_finish tq)\<lparr>tq_executed := tq_executed tq + {#task#}\<rparr>
      in Some (if terminate then set_worker i WReturned (tq\<lparr>tq_dropped := tq_dropped tq + mset tasks\<rparr>)
               else set_worker i (if tasks = [] then WPop else WTasks pid tasks) tq))"
| "tq_worker ops _ _ i tq = None"

text \<open>
  A task is done while the executor that runs it waits for the manager, so some worker is executing then. \<^verbatim>\<open>Remove\<close>
  is the method of the embedded queue.
\<close>

fun tq_step :: "('t, 'q) ptq_ops \<Rightarrow> 't tq_event \<Rightarrow> ('t, 'q) worker_task_queue \<Rightarrow> ('t, 'q) worker_task_queue option" where
  "tq_step ops (EvPush p task) tq = Some (tq_PushTask ops p task tq)"
| "tq_step ops (EvDone i p task) tq =
     (if i < length (tq_workers tq)
      then (case tq_workers tq ! i of WExec _ _ _ \<Rightarrow> Some (tq_TaskDone ops p task tq) | _ \<Rightarrow> None) else None)"
| "tq_step ops (EvRemove topic p) tq = Some (tq\<lparr>tq_PeerTaskQueue := ptq_Remove ops topic p (tq_PeerTaskQueue tq)\<rparr>)"
| "tq_step ops (EvStartup n) tq = Some (tq_Startup n tq)"
| "tq_step ops EvShutdown tq = Some (tq_Shutdown tq)"
| "tq_step ops EvWaitCall tq = Some (tq\<lparr>tq_waiters := tq_waiters tq @ [WaitTest]\<rparr>)"
| "tq_step ops (EvWaitTest j) tq =
     (if j < length (tq_waiters tq) \<and> tq_waiters tq ! j = WaitTest
      then Some (tq\<lparr>tq_waiters := (tq_waiters tq)[j := if 0 <s activeTasks tq then WaitSleep else WaitReturned]\<rparr>) else None)"
| "tq_step ops e tq =
     (let i = (case e of EvPop i \<Rightarrow> i | EvSignal i \<Rightarrow> i | EvTick i \<Rightarrow> i | EvCtx i \<Rightarrow> i | EvBegin i \<Rightarrow> i | EvFinish i _ \<Rightarrow> i | _ \<Rightarrow> 0)
      in if i < length (tq_workers tq) then tq_worker ops e (tq_workers tq ! i) i tq else None)"

fun tq_run :: "('t, 'q) ptq_ops \<Rightarrow> 't tq_event list \<Rightarrow> ('t, 'q) worker_task_queue \<Rightarrow> ('t, 'q) worker_task_queue option" where
  "tq_run ops [] tq = Some tq"
| "tq_run ops (e # es) tq = Option.bind (tq_step ops e tq) (tq_run ops es)"

section \<open>The invariant\<close>

fun is_exec :: "'t worker \<Rightarrow> bool" where
  "is_exec (WExec _ _ _) = True"
| "is_exec _ = False"

fun held :: "'t worker \<Rightarrow> 't multiset" where
  "held (WTasks _ tasks) = mset tasks"
| "held (WExec _ task tasks) = {#task#} + mset tasks"
| "held _ = {#}"

definition executing :: "('t, 'q) worker_task_queue \<Rightarrow> nat" where
  "executing tq = length (filter is_exec (tq_workers tq))"

definition poppable :: "('t, 'q) ptq_ops \<Rightarrow> 'q \<Rightarrow> bool" where
  "poppable ops q \<longleftrightarrow> fst (snd (ptq_PopTasks ops targetWork q)) \<noteq> []"

text \<open>What is relied on of the third-party queue: popping nothing leaves nothing to pop, and removing a task does not
  make another one available.\<close>

definition ptq_law :: "('t, 'q) ptq_ops \<Rightarrow> bool" where
  "ptq_law ops \<longleftrightarrow>
     (\<forall>q. \<not> poppable ops q \<longrightarrow> \<not> poppable ops (snd (snd (ptq_PopTasks ops targetWork q)))) \<and>
     (\<forall>q topic p. \<not> poppable ops q \<longrightarrow> \<not> poppable ops (ptq_Remove ops topic p q))"

definition tq_inv :: "('t, 'q) ptq_ops \<Rightarrow> ('t, 'q) worker_task_queue \<Rightarrow> bool" where
  "tq_inv ops tq \<longleftrightarrow>
     activeTasks tq = of_nat (executing tq) \<and>
     tq_popped tq = tq_executed tq + tq_dropped tq + \<Sum>\<^sub># (image_mset held (mset (tq_workers tq))) \<and>
     (WaitSleep \<in> set (tq_waiters tq) \<longrightarrow> activeTasks tq \<noteq> 0) \<and>
     (poppable ops (tq_PeerTaskQueue tq) \<longrightarrow> workSignal tq \<or> (\<exists>w \<in> set (tq_workers tq). w \<noteq> WWait))"

lemma nth_split:
  assumes "i < length ws"
  obtains us vs where "ws = us @ ws ! i # vs" "length us = i"
  using assms id_take_nth_drop[OF assms] by (metis length_take min.absorb4)

lemma tq_inv_pop:
  assumes "ptq_law ops" "tq_inv ops tq" "tq_workers tq = us @ w # vs" "\<not> is_exec w" "held w = {#}"
  shows "tq_inv ops (tq_pop ops (length us) (tq\<lparr>workSignal := s, tq_PeerTaskQueue := q'\<rparr>))"
proof -
  obtain pid tasks q'' where p: "ptq_PopTasks ops targetWork q' = (pid, tasks, q'')" by (metis prod_cases3)
  have "\<not> poppable ops q''" if "tasks = []"
    using assms(1)[unfolded ptq_law_def poppable_def, THEN conjunct1, rule_format, of q'] p that by (auto simp: poppable_def)
  with assms p show ?thesis
    by (auto simp: tq_inv_def tq_pop_def set_worker_def executing_def ac_simps)
qed

lemma executing_bound: "tq_workers tq = us @ w # vs \<Longrightarrow> \<not> is_exec w \<Longrightarrow> executing tq < length (tq_workers tq)"
  using length_filter_le[of is_exec us] length_filter_le[of is_exec vs]
  by (simp add: executing_def less_Suc_eq_le add_mono del: length_filter_le)

lemma word_executing:
  assumes "executing tq < 2 ^ 31"
  shows "0 <s (of_nat (executing tq) :: 32 word) \<longleftrightarrow> executing tq \<noteq> 0"
    "(1 + of_nat (executing tq) :: 32 word) \<noteq> 0"
proof -
  have "sint (of_nat (executing tq) :: 32 word) = int (executing tq)"
    using assms by (simp add: signed_of_nat signed_take_bit_int_eq_self)
  then show "0 <s (of_nat (executing tq) :: 32 word) \<longleftrightarrow> executing tq \<noteq> 0" by (simp add: word_sless_alt)
  have "unat (of_nat (Suc (executing tq)) :: 32 word) = Suc (executing tq)"
    using assms by (simp add: unat_of_nat del: of_nat_Suc)
  then show "(1 + of_nat (executing tq) :: 32 word) \<noteq> 0" by (metis Zero_not_Suc of_nat_Suc unat_0)
qed

lemma tq_inv_begin:
  assumes "tq_inv ops tq" "tq_workers tq = us @ WTasks pid (task # tasks) # vs" "length (tq_workers tq) < 2 ^ 31"
  shows "tq_inv ops (set_worker (length us) (WExec pid task tasks) (tq_begin tq))"
proof -
  have "executing tq < 2 ^ 31" using executing_bound[OF assms(2)] assms(3) by simp
  note word_executing(2)[OF this]
  with assms show ?thesis
    by (auto simp: tq_inv_def set_worker_def executing_def tq_begin_def ac_simps)
qed

lemma tq_inv_finish:
  assumes "tq_inv ops tq" "tq_workers tq = us @ WExec pid task tasks # vs"
    "tq_worker ops (EvFinish n terminate) (WExec pid task tasks) (length us) tq = Some tq'"
  shows "tq_inv ops tq'"
  using assms
  by (auto simp: tq_inv_def set_worker_def executing_def tq_finish_def tq_Broadcast_def Let_def ac_simps split: if_splits)

lemma tq_inv_worker:
  assumes "ptq_law ops" "tq_inv ops tq" "i < length (tq_workers tq)" "length (tq_workers tq) < 2 ^ 31"
    "tq_worker ops e (tq_workers tq ! i) i tq = Some tq'"
  shows "tq_inv ops tq' \<and> length (tq_workers tq') = length (tq_workers tq)"
proof -
  obtain us w vs where ws: "tq_workers tq = us @ w # vs" "i = length us" "tq_workers tq ! i = w"
    using assms(3) by (metis id_take_nth_drop length_take min.absorb4)
  note pop = tq_inv_pop[OF assms(1,2) ws(1)]
  have len: "length (tq_workers tq') = length (tq_workers tq)"
    using assms(5) by (cases "(ops, e, w, i, tq)" rule: tq_worker.cases)
      (auto simp: ws(3) tq_pop_def set_worker_def tq_begin_def tq_finish_def tq_Broadcast_def Let_def split: if_splits prod.splits)
  from assms(5)[unfolded ws(3)] have "tq_inv ops tq'"
  proof (cases "(ops, e, w, i, tq)" rule: tq_worker.cases)
    case (1 ops n i tq)
    with pop[of "tq_PeerTaskQueue tq" "workSignal tq"] assms(5) ws show ?thesis by simp
  next
    case (2 ops n i tq)
    with assms ws show ?thesis by (auto simp: tq_inv_def set_worker_def executing_def split: if_splits)
  next
    case (3 ops n i tq)
    with pop[of "tq_PeerTaskQueue tq" False] assms(5) ws show ?thesis by (auto split: if_splits)
  next
    case (4 ops n i tq)
    with pop[of "ptq_ThawRound ops (tq_PeerTaskQueue tq)" "workSignal tq"] assms(5) ws show ?thesis by simp
  next
    case (5 ops n pid task tasks i tq)
    with tq_inv_begin[OF assms(2) _ assms(4)] assms(5) ws show ?thesis by auto
  next
    case (6 ops n terminate pid task tasks i tq)
    with tq_inv_finish[OF assms(2), of us pid task tasks vs n terminate tq'] assms(5) ws show ?thesis
      by (auto simp del: tq_worker.simps)
  qed (use assms(5) ws in auto)
  with len show ?thesis by blast
qed

lemma tq_inv_step:
  assumes "ptq_law ops" "tq_inv ops tq" "length (tq_workers tq) < 2 ^ 31" "tq_step ops e tq = Some tq'"
  shows "tq_inv ops tq'"
proof (cases "\<exists>i. i < length (tq_workers tq) \<and> tq_worker ops e (tq_workers tq ! i) i tq = Some tq'")
  case True
  with tq_inv_worker[OF assms(1,2) _ assms(3)] show ?thesis by blast
next
  case False
  have bound: "executing tq < 2 ^ 31"
    using length_filter_le[of is_exec "tq_workers tq"] assms(3) unfolding executing_def by linarith
  show ?thesis
  proof (cases e)
    case (EvWaitTest j)
    with assms(2,4) word_executing(1)[OF bound] show ?thesis
      by (auto simp: tq_inv_def executing_def split: if_splits dest!: set_mp[OF set_update_subset_insert])
  next
    case (EvRemove topic p)
    with assms(1,2,4) show ?thesis unfolding ptq_law_def by (auto simp: tq_inv_def executing_def)
  next
    case (EvDone i p task)
    with assms(2,4) show ?thesis
      by (fastforce simp: tq_inv_def tq_TaskDone_def executing_def split: if_splits worker.splits dest: nth_mem)
  qed (use assms(2,4) False in \<open>auto simp: tq_inv_def tq_PushTask_def tq_Startup_def tq_Shutdown_def executing_def Let_def split: if_splits\<close>)
qed

lemma tq_workers_step:
  assumes "tq_step ops e tq = Some tq'"
  shows "length (tq_workers tq) \<le> length (tq_workers tq')"
proof -
  have "length (tq_workers tq') = length (tq_workers tq)" if "tq_worker ops e w i tq = Some tq'" for w i
    using that by (cases "(ops, e, w, i, tq)" rule: tq_worker.cases)
      (auto simp: tq_pop_def set_worker_def tq_begin_def tq_finish_def tq_Broadcast_def Let_def split: if_splits prod.splits)
  with assms show ?thesis
    by (cases e) (auto simp: tq_PushTask_def tq_TaskDone_def tq_Startup_def tq_Shutdown_def Let_def split: if_splits worker.splits)
qed

interpretation tqm: event_machine "\<lambda>tq e. tq_step ops e tq" "tq_run ops" for ops
  by unfold_locales simp_all

lemma tq_inv_run:
  assumes "ptq_law ops" "tq_inv ops tq" "tq_run ops es tq = Some tq'" "length (tq_workers tq') < 2 ^ 31"
  shows "tq_inv ops tq'"
  using assms(3,2,4) tq_workers_step
  by (rule tqm.run_bounded_invariant[where size = "\<lambda>tq. length (tq_workers tq)"]) (auto intro: tq_inv_step[OF assms(1)])

lemma tq_inv_start: "\<not> poppable ops q \<Longrightarrow> tq_inv ops (NewTaskQueue q)"
  by (simp add: tq_inv_def NewTaskQueue_def executing_def)

section \<open>What the workers guarantee\<close>

text \<open>C39: The task queue with its workers, after any interleaving of their steps with the calls of other threads: every
  task that was popped was executed, is held by a worker that has it still to run, or was dropped by a worker whose
  executor told it to stop; the counter of active tasks is the number of workers that execute one, so that a caller of
  WaitForNoActiveTasks returns exactly when no task is executing and never sleeps while none is; and no task is
  overlooked: when a task can be popped and no worker has returned or is busy, the work signal is set.\<close>

theorem task_queue_loses_no_task:
  assumes "ptq_law ops" "\<not> poppable ops q" "tq_run ops es (NewTaskQueue q) = Some tq" "length (tq_workers tq) < 2 ^ 31"
  shows "tq_popped tq = tq_executed tq + tq_dropped tq + \<Sum>\<^sub># (image_mset held (mset (tq_workers tq))) \<and>
    unat (activeTasks tq) = executing tq \<and>
    (WaitSleep \<in> set (tq_waiters tq) \<longrightarrow> 0 < executing tq) \<and>
    (\<forall>j tq'. tq_step ops (EvWaitTest j) tq = Some tq' \<longrightarrow> (tq_waiters tq' ! j = WaitReturned \<longleftrightarrow> executing tq = 0)) \<and>
    (poppable ops (tq_PeerTaskQueue tq) \<and> set (tq_workers tq) \<subseteq> {WWait} \<longrightarrow> workSignal tq)"
proof -
  have inv: "tq_inv ops tq" by (rule tq_inv_run[OF assms(1) tq_inv_start[OF assms(2)] assms(3,4)])
  have bound: "executing tq < 2 ^ 31"
    using length_filter_le[of is_exec "tq_workers tq"] assms(4) unfolding executing_def by linarith
  have "unat (activeTasks tq) = executing tq" using inv bound by (simp add: tq_inv_def unat_of_nat)
  with inv word_executing(1)[OF bound] show ?thesis by (auto simp: tq_inv_def split: if_splits)
qed

subsection \<open>Witness: two workers, two tasks, one signal\<close>

definition list_ptq :: "(nat, (peer_id \<times> nat) list) ptq_ops" where
  "list_ptq = \<lparr>ptq_PushTasks = (\<lambda>p t q. q @ [(p, t)]), ptq_TasksDone = (\<lambda>p t q. q),
     ptq_PopTasks = (\<lambda>n q. case q of [] \<Rightarrow> ([], [], []) | (p, t) # q \<Rightarrow> (p, [t], q)),
     ptq_ThawRound = (\<lambda>q. q), ptq_Remove = (\<lambda>topic p q. filter (\<lambda>(p', t). p' \<noteq> p) q), ptq_Stats = (\<lambda>q. (1, 0, int (length q)))\<rparr>"

lemma list_ptq_poppable: "poppable list_ptq q \<longleftrightarrow> q \<noteq> []"
  by (cases q) (auto simp: list_ptq_def poppable_def)

lemma list_ptq_law: "ptq_law list_ptq"
  unfolding ptq_law_def list_ptq_poppable by (simp add: list_ptq_def)

theorem task_queue_loses_no_task_witness:
  "\<exists>tq. tq_run list_ptq [EvStartup 2, EvPop 0, EvPop 1, EvPush ''p'' 1, EvPush ''p'' 2, EvSignal 0, EvBegin 0, EvWaitCall, EvWaitTest 0]
       (NewTaskQueue []) = Some tq \<and> poppable list_ptq (tq_PeerTaskQueue tq) \<and> \<not> workSignal tq \<and>
     tq_popped tq = tq_executed tq + tq_dropped tq + \<Sum>\<^sub># (image_mset held (mset (tq_workers tq))) \<and> 0 < executing tq"
proof -
  let ?es = "[EvStartup 2, EvPop 0, EvPop 1, EvPush ''p'' 1, EvPush ''p'' 2, EvSignal 0, EvBegin 0, EvWaitCall, EvWaitTest 0] :: nat tq_event list"
  have "map_option (\<lambda>tq. (length (tq_workers tq), tq_waiters tq, workSignal tq, tq_PeerTaskQueue tq))
      (tq_run list_ptq ?es (NewTaskQueue [])) = Some (2, [WaitSleep], False, [(''p'', 2)])" by code_simp
  then obtain tq where tq: "tq_run list_ptq ?es (NewTaskQueue []) = Some tq" "length (tq_workers tq) = 2" "tq_waiters tq = [WaitSleep]"
    "\<not> workSignal tq" "tq_PeerTaskQueue tq = [(''p'', 2)]" by auto
  with task_queue_loses_no_task[OF list_ptq_law _ tq(1)] tq show ?thesis
    by (intro exI[of _ tq]) (simp del: tq_run.simps add: list_ptq_poppable)
qed

end
