(* ===== verification/Network.thy ===== *)
theory Network
  imports Message_Wire
begin

text \<open>
  \<^verbatim>\<open>network/libp2p_impl.go\<close> and \<^verbatim>\<open>panics/panics.go\<close>: messages over libp2p streams. The host, its streams
  and the reader that cuts a stream into frames are third-party: opening, writing and closing a stream answer with an
  error or not (parameters), what the reader returns is a list of answers, one per call. Calls to a stream and to the
  receiver are a log. Deadlines and log output are left out. The senders that the message queue opens are here as well.
\<close>

section \<open>Panics\<close>

text \<open>A handler answers nothing for nothing; otherwise it calls the callback when there is one and answers with an error.\<close>

definition RecoveredPanicErr :: "string \<Rightarrow> gs_error" where
  "RecoveredPanicErr obj = OtherErr (''recovered from panic: '' @ obj)"

definition MakeHandler :: "bool \<Rightarrow> string option \<Rightarrow> gs_error option \<times> string list" where
  "MakeHandler cb obj =
     (case obj of
        None \<Rightarrow> (None, [])
      | Some obj \<Rightarrow> (Some (RecoveredPanicErr obj), if cb then [obj] else []))"

section \<open>Configuration\<close>

type_synonym protocol_id = string

definition ProtocolGraphsync_2_0_0 :: protocol_id where "ProtocolGraphsync_2_0_0 = ''/ipfs/graphsync/2.0.0''"

datatype 'n net_call =
    NetReset | NetClose
  | NetReceiveMessage peer_id "'n gs_message"
  | NetReceiveError peer_id gs_error
  | NetPanicCallback string
  | NetSetStreamHandler protocol_id
  | NetNotify
  | NetConnected peer_id
  | NetDisconnected peer_id

record graphsync_network =
  gn_receiver :: bool
  gn_protocols :: "protocol_id list"
  gn_panicCallback :: bool

datatype net_option = GraphsyncProtocols "protocol_id list" | PanicCallback bool

fun setProtocols :: "protocol_id list \<Rightarrow> graphsync_network \<Rightarrow> graphsync_network" where
  "setProtocols protocols gsnet =
     foldl (\<lambda>gsnet proto. if proto = ProtocolGraphsync_2_0_0 then gsnet\<lparr>gn_protocols := [] @ [proto]\<rparr> else gsnet)
       (gsnet\<lparr>gn_protocols := []\<rparr>) protocols"

fun net_apply :: "graphsync_network \<Rightarrow> net_option \<Rightarrow> graphsync_network" where
  "net_apply gsnet (GraphsyncProtocols protocols) = setProtocols protocols gsnet"
| "net_apply gsnet (PanicCallback callbackFn) = gsnet\<lparr>gn_panicCallback := callbackFn\<rparr>"

definition NewFromLibp2pHost :: "net_option list \<Rightarrow> graphsync_network" where
  "NewFromLibp2pHost options =
     foldl net_apply \<lparr>gn_receiver = False, gn_protocols = [ProtocolGraphsync_2_0_0], gn_panicCallback = False\<rparr> options"

definition net_SetDelegate :: "graphsync_network \<Rightarrow> graphsync_network \<times> 'n net_call list" where
  "net_SetDelegate gsnet = (gsnet\<lparr>gn_receiver := True\<rparr>, map NetSetStreamHandler (gn_protocols gsnet) @ [NetNotify])"

text \<open>The notifee calls a method of the receiver, which is there once the delegate is set.\<close>

definition notifee_Connected :: "graphsync_network \<Rightarrow> peer_id \<Rightarrow> 'n net_call list option" where
  "notifee_Connected nn p = (if gn_receiver nn then Some [NetConnected p] else None)"

definition notifee_Disconnected :: "graphsync_network \<Rightarrow> peer_id \<Rightarrow> 'n net_call list option" where
  "notifee_Disconnected nn p = (if gn_receiver nn then Some [NetDisconnected p] else None)"

definition sendMessageTimeout :: int where "sendMessageTimeout = 10 * 60"

definition setDefaults :: "int \<Rightarrow> int" where
  "setDefaults SendTimeout = (if SendTimeout = 0 then sendMessageTimeout else SendTimeout)"

section \<open>Sending\<close>

text \<open>The handler of a protocol: the v2 handler or one that answers every call with an error.\<close>

record 'n message_handler =
  mh_FromMsgReader :: "gs_error + bytes \<Rightarrow> gs_error + 'n gs_message"
  mh_ToNet :: "'n gs_message \<Rightarrow> gs_error + bytes"

definition messageHandlerErrorer :: "gs_error \<Rightarrow> 'n message_handler" where
  "messageHandlerErrorer err = \<lparr>mh_FromMsgReader = (\<lambda>_. Inl err), mh_ToNet = (\<lambda>_. Inl err)\<rparr>"

definition v2MessageHandler :: "'n wire_env \<Rightarrow> 'n message_handler" where
  "v2MessageHandler E =
     \<lparr>mh_FromMsgReader = (\<lambda>answer. FromMsgReader (E\<lparr>readMsg := (\<lambda>_. answer)\<rparr>) []), mh_ToNet = ToNet E\<rparr>"

definition mhs_Select :: "'n wire_env \<Rightarrow> protocol_id \<Rightarrow> 'n message_handler" where
  "mhs_Select E protocol =
     (if protocol = ProtocolGraphsync_2_0_0 then v2MessageHandler E
      else messageHandlerErrorer (OtherErr (''unrecognized protocol version: '' @ protocol)))"

text \<open>What was written to a stream; a write may fail, or the code may panic.\<close>

datatype write_result = WriteOk | WriteErr gs_error | WritePanic string

definition msgToStream ::
  "'n wire_env \<Rightarrow> bool \<Rightarrow> protocol_id \<Rightarrow> 'n gs_message \<Rightarrow> write_result \<Rightarrow> bytes \<Rightarrow> gs_error option \<times> bytes \<times> 'n net_call list" where
  "msgToStream E cb protocol msg wr written =
     (case mh_ToNet (mhs_Select E protocol) msg of
        Inl err \<Rightarrow> (Some err, written, [])
      | Inr out \<Rightarrow>
          (case wr of
             WriteOk \<Rightarrow> (None, written @ out, [])
           | WriteErr err \<Rightarrow> (Some err, written, [])
           | WritePanic obj \<Rightarrow>
               (let (rerr, called) = MakeHandler cb (Some obj) in (rerr, written, map NetPanicCallback called))))"

definition net_SendMessage ::
  "'n wire_env \<Rightarrow> graphsync_network \<Rightarrow> gs_error + protocol_id \<Rightarrow> 'n gs_message \<Rightarrow> write_result \<Rightarrow> gs_error option \<Rightarrow>
   gs_error option \<times> bytes \<times> 'n net_call list" where
  "net_SendMessage E gsnet newStream outgoing wr closeErr =
     (case newStream of
        Inl err \<Rightarrow> (Some err, [], [])
      | Inr protocol \<Rightarrow>
          (let (err, written, calls) = msgToStream E (gn_panicCallback gsnet) protocol outgoing wr []
           in if err \<noteq> None then (err, written, calls @ [NetReset]) else (closeErr, written, calls @ [NetClose])))"

text \<open>A message sender writes one message after another to its stream.\<close>

fun net_SendMsgs :: "'n wire_env \<Rightarrow> bool \<Rightarrow> protocol_id \<Rightarrow> 'n gs_message list \<Rightarrow> bytes \<Rightarrow> gs_error option \<times> bytes" where
  "net_SendMsgs E cb protocol [] written = (None, written)"
| "net_SendMsgs E cb protocol (msg # msgs) written =
     (let (err, written, _) = msgToStream E cb protocol msg WriteOk written
      in if err \<noteq> None then (err, written) else net_SendMsgs E cb protocol msgs written)"

subsection \<open>Message senders\<close>

text \<open>The host answers whether a connection could be made, and with the protocol of a new stream; both are third-party.\<close>

record net_host =
  host_Connect :: "peer_id \<Rightarrow> gs_error option"
  host_NewStream :: "peer_id \<Rightarrow> protocol_id list \<Rightarrow> gs_error + protocol_id"

text \<open>A sender: the protocol of its stream, its timeout, what was written to the stream and the calls it made.\<close>

record 'n stream_message_sender =
  sms_protocol :: protocol_id
  sms_SendTimeout :: int
  sms_written :: bytes
  sms_calls :: "'n net_call list"

definition net_ConnectTo :: "net_host \<Rightarrow> peer_id \<Rightarrow> gs_error option" where
  "net_ConnectTo host p = host_Connect host p"

definition newStreamToPeer :: "net_host \<Rightarrow> graphsync_network \<Rightarrow> peer_id \<Rightarrow> gs_error + protocol_id" where
  "newStreamToPeer host gsnet p = host_NewStream host p (gn_protocols gsnet)"

definition NewMessageSender :: "net_host \<Rightarrow> graphsync_network \<Rightarrow> peer_id \<Rightarrow> int \<Rightarrow> gs_error + 'n stream_message_sender" where
  "NewMessageSender host gsnet p SendTimeout =
     (case newStreamToPeer host gsnet p of
        Inl err \<Rightarrow> Inl err
      | Inr protocol \<Rightarrow> Inr \<lparr>sms_protocol = protocol, sms_SendTimeout = setDefaults SendTimeout, sms_written = [], sms_calls = []\<rparr>)"

definition sms_SendMsg ::
  "'n wire_env \<Rightarrow> graphsync_network \<Rightarrow> 'n gs_message \<Rightarrow> write_result \<Rightarrow> 'n stream_message_sender \<Rightarrow> gs_error option \<times> 'n stream_message_sender" where
  "sms_SendMsg E gsnet msg wr s =
     (let (err, written, calls) = msgToStream E (gn_panicCallback gsnet) (sms_protocol s) msg wr (sms_written s)
      in (err, s\<lparr>sms_written := written, sms_calls := sms_calls s @ calls\<rparr>))"

definition sms_Close :: "'n stream_message_sender \<Rightarrow> 'n stream_message_sender" where
  "sms_Close s = s\<lparr>sms_calls := sms_calls s @ [NetClose]\<rparr>"

definition sms_Reset :: "'n stream_message_sender \<Rightarrow> 'n stream_message_sender" where
  "sms_Reset s = s\<lparr>sms_calls := sms_calls s @ [NetReset]\<rparr>"

text \<open>How the message queue opens a sender.\<close>

definition openSender :: "net_host \<Rightarrow> graphsync_network \<Rightarrow> peer_id \<Rightarrow> int \<Rightarrow> gs_error + 'n stream_message_sender" where
  "openSender host gsnet p sendTimeout =
     (case net_ConnectTo host p of
        Some err \<Rightarrow> Inl err
      | None \<Rightarrow> NewMessageSender host gsnet p sendTimeout)"

text \<open>Whatever the options, the network offers no other protocol than version 2.\<close>

lemma setProtocols_only_v2: "set (gn_protocols (setProtocols protocols gsnet)) \<subseteq> {ProtocolGraphsync_2_0_0}"
proof -
  have "set (gn_protocols (foldl (\<lambda>gsnet proto. if proto = ProtocolGraphsync_2_0_0 then gsnet\<lparr>gn_protocols := [] @ [proto]\<rparr> else gsnet) gsnet protocols))
      \<subseteq> {ProtocolGraphsync_2_0_0}" if "set (gn_protocols gsnet) \<subseteq> {ProtocolGraphsync_2_0_0}" for gsnet
    using that by (induction protocols arbitrary: gsnet) simp_all
  from this[of "gsnet\<lparr>gn_protocols := []\<rparr>"] show ?thesis by simp
qed

lemma network_offers_only_v2: "set (gn_protocols (NewFromLibp2pHost options)) \<subseteq> {ProtocolGraphsync_2_0_0}"
proof -
  have "set (gn_protocols (foldl net_apply gsnet options)) \<subseteq> {ProtocolGraphsync_2_0_0}" if "set (gn_protocols gsnet) \<subseteq> {ProtocolGraphsync_2_0_0}" for gsnet
    using that
  proof (induction options arbitrary: gsnet)
    case (Cons opt options)
    then show ?case using setProtocols_only_v2 by (cases opt) (simp_all del: setProtocols.simps)
  qed simp
  then show ?thesis by (simp add: NewFromLibp2pHost_def)
qed

text \<open>A sender that was opened speaks version 2, so that no message is refused for its protocol, and has a timeout.\<close>

lemma opened_sender_speaks_v2:
  assumes "\<And>p protocols protocol. host_NewStream host p protocols = Inr protocol \<Longrightarrow> protocol \<in> set protocols"
    "openSender host (NewFromLibp2pHost options) p sendTimeout = Inr s"
  shows "mhs_Select E (sms_protocol s) = v2MessageHandler E" "sms_SendTimeout s \<noteq> 0" "sms_written s = []"
proof -
  from assms(2) have s: "host_NewStream host p (gn_protocols (NewFromLibp2pHost options)) = Inr (sms_protocol s)"
      "sms_SendTimeout s = setDefaults sendTimeout" "sms_written s = []"
    by (auto simp: openSender_def NewMessageSender_def newStreamToPeer_def split: option.splits sum.splits)
  then have "sms_protocol s = ProtocolGraphsync_2_0_0" using assms(1)[OF s(1)] network_offers_only_v2[of options] by blast
  then show "mhs_Select E (sms_protocol s) = v2MessageHandler E" by (simp add: mhs_Select_def)
  show "sms_SendTimeout s \<noteq> 0" "sms_written s = []" using s by (simp_all add: setDefaults_def sendMessageTimeout_def)
qed

section \<open>Receiving\<close>

definition io_EOF :: gs_error where "io_EOF = OtherErr ''EOF''"

text \<open>One call of the reader: what it answers, or a panic while the message is read or handled.\<close>

datatype read_result = ReadAnswer "gs_error + bytes" | ReadPanic string

text \<open>The loop of \<^verbatim>\<open>handleNewStream\<close>; \<open>None\<close> is a loop that waits for more of the stream.\<close>

fun receive_loop :: "'n wire_env \<Rightarrow> bool \<Rightarrow> protocol_id \<Rightarrow> peer_id \<Rightarrow> read_result list \<Rightarrow> 'n net_call list \<Rightarrow> 'n net_call list option" where
  "receive_loop E cb protocol p [] calls = None"
| "receive_loop E cb protocol p (ReadPanic obj # reads) calls =
     (let (rerr, called) = MakeHandler cb (Some obj)
      in Some (calls @ map NetPanicCallback called @
           (case rerr of None \<Rightarrow> [] | Some rerr \<Rightarrow> [NetReset, NetReceiveError p rerr])))"
| "receive_loop E cb protocol p (ReadAnswer answer # reads) calls =
     (case mh_FromMsgReader (mhs_Select E protocol) answer of
        Inl err \<Rightarrow> Some (calls @ (if err \<noteq> io_EOF then [NetReset, NetReceiveError p err] else []))
      | Inr received \<Rightarrow> receive_loop E cb protocol p reads (calls @ [NetReceiveMessage p received]))"

definition handleNewStream ::
  "'n wire_env \<Rightarrow> graphsync_network \<Rightarrow> protocol_id \<Rightarrow> peer_id \<Rightarrow> read_result list \<Rightarrow> 'n net_call list option" where
  "handleNewStream E gsnet protocol p reads =
     (if \<not> gn_receiver gsnet then Some [NetReset, NetClose]
      else map_option (\<lambda>calls. calls @ [NetClose]) (receive_loop E (gn_panicCallback gsnet) protocol p reads []))"

section \<open>What a stream delivers\<close>

lemma readMsg_irrelevant:
  "wire_ok (E\<lparr>readMsg := r\<rparr>) m = wire_ok E m" "toIPLD (E\<lparr>readMsg := r\<rparr>) m = toIPLD E m"
  by (simp_all add: wire_ok_def block_certified_def toIPLD_def cong: if_cong)

lemma v2_decodes:
  assumes "wire_ok E m" "decodeCbor E payload = Inr (toIPLD E m)"
  shows "mh_FromMsgReader (mhs_Select E ProtocolGraphsync_2_0_0) (Inr payload) = Inr m"
  using assms ipld_roundtrip[of "E\<lparr>readMsg := (\<lambda>_. Inr payload)\<rparr>" m]
  by (simp add: mhs_Select_def v2MessageHandler_def FromMsgReader_def readMsg_irrelevant)

text \<open>What is relied on of the reader of frames: the end of the stream is an EOF, and a frame of at most the maximal size is
  answered with its payload.\<close>

definition reader_law :: "nat \<Rightarrow> (bytes \<Rightarrow> read_result list) \<Rightarrow> bool" where
  "reader_law maxSize rd \<longleftrightarrow>
     rd [] = [ReadAnswer (Inl io_EOF)] \<and>
     (\<forall>payload rest. length payload \<le> maxSize \<longrightarrow>
        rd (uvarint (length payload) @ payload @ rest) = ReadAnswer (Inr payload) # rd rest)"

definition codec_ok :: "'n wire_env \<Rightarrow> nat \<Rightarrow> 'n gs_message \<Rightarrow> bool" where
  "codec_ok E maxSize m \<longleftrightarrow>
     (\<exists>payload. encodeCbor E (toIPLD E m) = Inr payload \<and> length payload \<le> maxSize \<and> decodeCbor E payload = Inr (toIPLD E m))"

lemma sent_frames:
  assumes "maxSize < 2 ^ 64" "\<forall>m \<in> set msgs. codec_ok E maxSize m"
  shows "\<exists>payloads. net_SendMsgs E cb ProtocolGraphsync_2_0_0 msgs written =
      (None, written @ concat (map (\<lambda>payload. uvarint (length payload) @ payload) payloads)) \<and>
    list_all2 (\<lambda>m payload. decodeCbor E payload = Inr (toIPLD E m) \<and> length payload \<le> maxSize) msgs payloads"
  using assms(2)
proof (induction msgs arbitrary: written)
  case (Cons m msgs)
  then obtain payload where p: "encodeCbor E (toIPLD E m) = Inr payload" "length payload \<le> maxSize"
    "decodeCbor E payload = Inr (toIPLD E m)" by (auto simp: codec_ok_def)
  let ?w = "written @ uvarint (length payload) @ payload"
  have m: "msgToStream E cb ProtocolGraphsync_2_0_0 m WriteOk written = (None, ?w, [])"
    using ToNet_frame[OF p(1)] p(2) assms(1) by (simp add: msgToStream_def mhs_Select_def v2MessageHandler_def)
  from Cons.IH[of ?w] Cons.prems obtain payloads where
    "net_SendMsgs E cb ProtocolGraphsync_2_0_0 msgs ?w =
       (None, ?w @ concat (map (\<lambda>payload. uvarint (length payload) @ payload) payloads))"
    "list_all2 (\<lambda>m payload. decodeCbor E payload = Inr (toIPLD E m) \<and> length payload \<le> maxSize) msgs payloads" by auto
  with m p show ?case by (intro exI[of _ "payload # payloads"]) simp
qed simp

lemma read_frames:
  assumes "reader_law maxSize rd"
    "list_all2 (\<lambda>m payload. wire_ok E m \<and> decodeCbor E payload = Inr (toIPLD E m) \<and> length payload \<le> maxSize) msgs payloads"
  shows "receive_loop E cb ProtocolGraphsync_2_0_0 p
      (rd (concat (map (\<lambda>payload. uvarint (length payload) @ payload) payloads))) calls =
    Some (calls @ map (NetReceiveMessage p) msgs)"
  using assms(2)
proof (induction arbitrary: calls rule: list_all2_induct)
  case Nil
  have "mh_FromMsgReader (mhs_Select E ProtocolGraphsync_2_0_0) (Inl io_EOF) = Inl io_EOF"
    by (simp add: mhs_Select_def v2MessageHandler_def FromMsgReader_def)
  with assms(1) show ?case by (simp add: reader_law_def)
next
  case (Cons m msgs payload payloads)
  with assms(1) v2_decodes[of E m payload] show ?case by (simp add: reader_law_def)
qed

text \<open>C15: A stream carries messages in order: when a message sender writes messages one after another with the graphsync
  protocol, the peer that reads the stream hands exactly these messages to its receiver, in order and each once, and
  closes the stream without an error.\<close>

theorem network_delivers_in_order:
  assumes "maxSize < 2 ^ 64" "reader_law maxSize rd" "gn_receiver gsnet"
    "\<forall>m \<in> set msgs. wire_ok E m \<and> codec_ok E maxSize m"
  shows "\<exists>written. net_SendMsgs E cb ProtocolGraphsync_2_0_0 msgs [] = (None, written) \<and>
    handleNewStream E gsnet ProtocolGraphsync_2_0_0 p (rd written) = Some (map (NetReceiveMessage p) msgs @ [NetClose])"
proof -
  obtain payloads where s: "net_SendMsgs E cb ProtocolGraphsync_2_0_0 msgs [] =
      (None, concat (map (\<lambda>payload. uvarint (length payload) @ payload) payloads))"
    "list_all2 (\<lambda>m payload. decodeCbor E payload = Inr (toIPLD E m) \<and> length payload \<le> maxSize) msgs payloads"
    using sent_frames[OF assms(1), of msgs E cb "[]"] assms(4) by auto
  from s(2) assms(4) have
    "list_all2 (\<lambda>m payload. wire_ok E m \<and> decodeCbor E payload = Inr (toIPLD E m) \<and> length payload \<le> maxSize) msgs payloads"
    by (auto simp: list_all2_conv_all_nth)
  from read_frames[OF assms(2) this] s(1) assms(3) show ?thesis by (simp add: handleNewStream_def)
qed

text \<open>How the loop ends: the reads that were decoded, the one that was not, and the calls it leads to.\<close>

fun failed_calls :: "'n wire_env \<Rightarrow> bool \<Rightarrow> protocol_id \<Rightarrow> peer_id \<Rightarrow> read_result \<Rightarrow> 'n net_call list \<Rightarrow> bool" where
  "failed_calls E cb protocol p (ReadPanic obj) tail \<longleftrightarrow>
     tail = (if cb then [NetPanicCallback obj] else []) @ [NetReset, NetReceiveError p (RecoveredPanicErr obj)]"
| "failed_calls E cb protocol p (ReadAnswer answer) tail \<longleftrightarrow>
     (\<exists>err. mh_FromMsgReader (mhs_Select E protocol) answer = Inl err \<and>
        tail = (if err = io_EOF then [] else [NetReset, NetReceiveError p err]))"

definition decodes :: "'n wire_env \<Rightarrow> protocol_id \<Rightarrow> read_result \<Rightarrow> 'n gs_message \<Rightarrow> bool" where
  "decodes E protocol read m \<longleftrightarrow>
     (case read of ReadAnswer answer \<Rightarrow> mh_FromMsgReader (mhs_Select E protocol) answer = Inr m | ReadPanic _ \<Rightarrow> False)"

lemma decodes_protocol: "decodes E protocol read m \<Longrightarrow> protocol = ProtocolGraphsync_2_0_0"
  by (auto simp: decodes_def mhs_Select_def messageHandlerErrorer_def split: read_result.splits if_splits)

lemma receive_loop_outcome:
  assumes "receive_loop E cb protocol p reads calls = Some calls'"
  shows "\<exists>oks r rest msgs tail. reads = oks @ r # rest \<and> list_all2 (decodes E protocol) oks msgs \<and>
    failed_calls E cb protocol p r tail \<and> calls' = calls @ map (NetReceiveMessage p) msgs @ tail"
  using assms
proof (induction reads arbitrary: calls)
  case (Cons read reads)
  show ?case
  proof (cases "\<exists>m. decodes E protocol read m")
    case True
    then obtain m where m: "decodes E protocol read m" by blast
    with Cons.prems have "receive_loop E cb protocol p reads (calls @ [NetReceiveMessage p m]) = Some calls'"
      by (auto simp: decodes_def split: read_result.splits)
    from Cons.IH[OF this] obtain oks r rest msgs tail where
      "reads = oks @ r # rest" "list_all2 (decodes E protocol) oks msgs" "failed_calls E cb protocol p r tail"
      "calls' = (calls @ [NetReceiveMessage p m]) @ map (NetReceiveMessage p) msgs @ tail" by blast
    with m show ?thesis
      by (intro exI[of _ "read # oks"] exI[of _ r] exI[of _ rest] exI[of _ "m # msgs"] exI[of _ tail]) simp
  next
    case False
    with Cons.prems obtain tail where "failed_calls E cb protocol p read tail" "calls' = calls @ tail"
      by (cases read) (auto simp: decodes_def MakeHandler_def split: sum.splits)
    then show ?thesis
      by (intro exI[of _ "[]"] exI[of _ read] exI[of _ reads] exI[of _ tail]) simp
  qed
qed simp

text \<open>What receiving a stream does, whatever its content and even when reading it panics: the receiver gets the
  messages decoded from the first reads, in order, and after the first read that fails nothing more; an end of file closes
  the stream quietly, every other failure resets it and is reported to the receiver once, for the peer of the stream, and
  a panic also to the callback; the stream is closed exactly once, as the last thing. A stream of another protocol
  delivers no message, and without a receiver the stream is reset.\<close>

theorem network_stream_outcome:
  assumes "handleNewStream E gsnet protocol p reads = Some calls"
  shows "if gn_receiver gsnet
    then \<exists>oks r rest msgs tail. reads = oks @ r # rest \<and> list_all2 (decodes E protocol) oks msgs \<and>
      failed_calls E (gn_panicCallback gsnet) protocol p r tail \<and>
      calls = map (NetReceiveMessage p) msgs @ tail @ [NetClose] \<and>
      (protocol \<noteq> ProtocolGraphsync_2_0_0 \<longrightarrow> msgs = [])
    else calls = [NetReset, NetClose]"
proof (cases "gn_receiver gsnet")
  case True
  with assms obtain calls' where c: "receive_loop E (gn_panicCallback gsnet) protocol p reads [] = Some calls'" "calls = calls' @ [NetClose]"
    by (auto simp: handleNewStream_def)
  from receive_loop_outcome[OF c(1)] obtain oks r rest msgs tail where o: "reads = oks @ r # rest"
    "list_all2 (decodes E protocol) oks msgs" "failed_calls E (gn_panicCallback gsnet) protocol p r tail"
    "calls' = map (NetReceiveMessage p) msgs @ tail" by auto
  have "msgs = []" if "protocol \<noteq> ProtocolGraphsync_2_0_0"
    using o(2) that decodes_protocol by (cases rule: list.rel_cases) auto
  with o c(2) True show ?thesis by auto
next
  case False
  with assms show ?thesis by (simp add: handleNewStream_def)
qed

subsection \<open>A concrete reader\<close>

fun get_uvarint :: "bytes \<Rightarrow> nat \<times> bytes" where
  "get_uvarint [] = (0, [])"
| "get_uvarint (b # bs) = (if b < 128 then (b, bs) else let (n, rest) = get_uvarint bs in (b - 128 + 128 * n, rest))"

lemma get_uvarint_roundtrip: "get_uvarint (uvarint n @ rest) = (n, rest)"
proof (induction n rule: uvarint.induct)
  case (1 n)
  show ?case
  proof (cases "n \<ge> 128")
    case True
    with 1[OF True] show ?thesis by (subst uvarint.simps) (simp add: Let_def)
  next
    case False
    then show ?thesis by (subst uvarint.simps) simp
  qed
qed

lemma get_uvarint_length: "length (snd (get_uvarint bs)) \<le> length bs - 1"
  by (induction bs rule: get_uvarint.induct) (auto simp: Let_def split: prod.splits)

function frame_reader :: "bytes \<Rightarrow> read_result list" where
  "frame_reader bs =
     (if bs = [] then [ReadAnswer (Inl io_EOF)]
      else let (n, rest) = get_uvarint bs in ReadAnswer (Inr (take n rest)) # frame_reader (drop n rest))"
  by pat_completeness auto
termination
proof (relation "measure length")
  fix bs :: bytes and x n rest
  assume "bs \<noteq> []" "x = get_uvarint bs" "(n, rest) = x"
  then have "rest = snd (get_uvarint bs)" by (metis snd_conv)
  with get_uvarint_length[of bs] \<open>bs \<noteq> []\<close> show "(drop n rest, bs) \<in> measure length" by (cases bs) auto
qed simp

lemma frame_reader_law: "reader_law maxSize frame_reader"
proof -
  have "uvarint n \<noteq> []" for n by (subst uvarint.simps) simp
  then show ?thesis
    unfolding reader_law_def
    by (intro conjI allI impI; subst frame_reader.simps) (simp_all add: get_uvarint_roundtrip)
qed

theorem network_delivers_in_order_witness:
  "\<exists>written. net_SendMsgs demo_env False ProtocolGraphsync_2_0_0 [demo_msg, demo_msg] [] = (None, written) \<and>
     handleNewStream demo_env (fst (net_SetDelegate (NewFromLibp2pHost []) :: graphsync_network \<times> nat net_call list))
       ProtocolGraphsync_2_0_0 ''p'' (frame_reader written) =
     Some [NetReceiveMessage ''p'' demo_msg, NetReceiveMessage ''p'' demo_msg, NetClose]"
proof -
  have "encodeCbor demo_env (toIPLD demo_env demo_msg) = Inr [9, 9]" "decodeCbor demo_env [9, 9] = Inr (toIPLD demo_env demo_msg)"
    by (simp_all only: demo_root) (simp_all add: demo_env_def)
  then have "codec_ok demo_env 100 demo_msg" by (simp add: codec_ok_def)
  with network_delivers_in_order[of 100 frame_reader "fst (net_SetDelegate (NewFromLibp2pHost []))" "[demo_msg, demo_msg]" demo_env False "''p''"]
    frame_reader_law demo_wire_ok
  show ?thesis by (simp add: net_SetDelegate_def)
qed

theorem network_stream_outcome_witness:
  "handleNewStream demo_env \<lparr>gn_receiver = True, gn_protocols = [], gn_panicCallback = True\<rparr> ''other'' ''p'' [ReadAnswer (Inr [9])] =
     Some [NetReset, NetReceiveError ''p'' (OtherErr ''unrecognized protocol version: other''), NetClose]"
proof -
  let ?n = "\<lparr>gn_receiver = True, gn_protocols = [], gn_panicCallback = True\<rparr>"
  have p: "''other'' \<noteq> ProtocolGraphsync_2_0_0" by (simp add: ProtocolGraphsync_2_0_0_def)
  have "handleNewStream demo_env ?n ''other'' ''p'' [ReadAnswer (Inr [9])] \<noteq> None"
    using p by (simp add: handleNewStream_def mhs_Select_def messageHandlerErrorer_def)
  then obtain calls where c: "handleNewStream demo_env ?n ''other'' ''p'' [ReadAnswer (Inr [9])] = Some calls" by blast
  from network_stream_outcome[OF c] p show ?thesis unfolding c
    by (auto simp: Cons_eq_append_conv mhs_Select_def messageHandlerErrorer_def io_EOF_def)
qed

end
