(* ===== verification/Remote_Feed.thy ===== *)
theory Remote_Feed
  imports Query_Executor Executor
begin

text \<open>
  The requestor's side of an exchange: a traversal whose loads are answered, one after the other, by the items that the request
  manager has queued for it or queues while it waits.
\<close>

section \<open>The local store\<close>

text \<open>What a load from the local store returns.\<close>

definition reads :: "'s link_system \<Rightarrow> 's \<Rightarrow> path \<Rightarrow> cid \<Rightarrow> bytes option" where
  "reads lsys s lctx link =
     (case StorageReadOpener lsys s lctx link of
        Inl _ \<Rightarrow> None
      | Inr (ByteReader d) \<Rightarrow> Some d
      | Inr (Reader (Inl _)) \<Rightarrow> None
      | Inr (Reader (Inr d)) \<Rightarrow> Some d)"

lemma loadLocal_reads:
  "loadLocal rl lctx link =
     (case reads (rl_lsys rl) (rl_store rl) lctx link of
        None \<Rightarrow> \<lparr>alr_Data = None, alr_Err = Some (RemoteMissingBlockErr link lctx), alr_Local = True\<rparr>
      | Some d \<Rightarrow> \<lparr>alr_Data = Some d, alr_Err = None, alr_Local = True\<rparr>)"
  by (simp add: loadLocal_def reads_def split: sum.split stream.split)

text \<open>The contract of a link system with a working store: a block that is written can be read under its link, and what is
  stored under other links stays.\<close>

definition store_law :: "'s link_system \<Rightarrow> bool" where
  "store_law lsys \<longleftrightarrow>
     (\<forall>s lctx link d. \<exists>s'. writeBlock lsys s lctx link d = Inr s' \<and>
        (\<forall>lctx' link'. reads lsys s' lctx' link' = (if link' = link then Some d else reads lsys s lctx' link')))"

section \<open>Arrivals\<close>

text \<open>What events of the request manager do to an open loader: items are queued, and the end of the response closes it.\<close>

fun arrive :: "rl_event list \<Rightarrow> bool \<times> remote_item list \<Rightarrow> (bool \<times> remote_item list) option" where
  "arrive [] s = Some s"
| "arrive (EvIngest picks md blocks # es) (opened, q) = arrive es (opened, q @ (if opened then response_items md [] blocks else []))"
| "arrive (EvSetRemoteOnline False # es) (opened, q) = arrive es (False, q)"
| "arrive (_ # es) s = None"

text \<open>A loader that takes what it is asked for from the front of its queue.\<close>

definition online :: "'s reconciled_loader \<Rightarrow> bool" where
  "online rl \<longleftrightarrow> rq_good (rl_remoteQueue rl) \<and> rl_verifier rl = None \<and> lastUnfollowedRemotePath (rl_pathTracker rl) = []"

definition same_store :: "'s reconciled_loader \<Rightarrow> 's reconciled_loader \<Rightarrow> bool" where
  "same_store rl rl' \<longleftrightarrow> rl_lsys rl' = rl_lsys rl \<and> rl_store rl' = rl_store rl"

lemma ingest_good:
  assumes "rq_good (rl_remoteQueue rl)"
  shows "\<exists>q. IngestResponse picks md blocks rl = Some (rl\<lparr>rl_remoteQueue := q\<rparr>) \<and> rq_good q \<and>
    rq_content q = queued rl @ (if rl_open rl then response_items md [] blocks else [])"
proof (cases "md = []")
  case True
  with assms show ?thesis by (intro exI[of _ "rl_remoteQueue rl"]) (simp add: IngestResponse_def)
next
  case False
  obtain h items where i: "ingest_items picks md [] blocks (fst (rl_remoteQueue rl)) = (h, items)" by fastforce
  from enqueue_response_good[OF assms, of picks md blocks] i obtain q where
    "rq_queue items (h, snd (rl_remoteQueue rl)) = Some q" "rq_good q" "rq_content q = queued rl @ response_items md [] blocks"
    by (auto simp: enqueue_response_def)
  with False i freed_good[OF assms i] show ?thesis
    by (intro exI[of _ "if rl_open rl then q else (freeList items h, snd (rl_remoteQueue rl))"]) (simp add: IngestResponse_def)
qed

lemma close_loader: "SetRemoteOnline False rl = rl\<lparr>rl_open := False\<rparr>"
  by (simp add: SetRemoteOnline_def Let_def)

lemma env_steps_arrive:
  assumes "online rl" "arrive es (rl_open rl, queued rl) = Some (opened, q)"
  shows "\<exists>rl'. env_steps es rl = Some rl' \<and> online rl' \<and> same_store rl rl' \<and> rl_open rl' = opened \<and> queued rl' = q"
  using assms
proof (induction es arbitrary: rl)
  case Nil
  then show ?case by (simp add: same_store_def)
next
  case (Cons e es)
  show ?case
  proof (cases e)
    case (EvIngest picks md blocks)
    from ingest_good[of rl picks md blocks] Cons.prems(1) obtain q' where
      q': "IngestResponse picks md blocks rl = Some (rl\<lparr>rl_remoteQueue := q'\<rparr>)" "rq_good q'"
      "rq_content q' = queued rl @ (if rl_open rl then response_items md [] blocks else [])" by (auto simp: online_def)
    with Cons.IH[of "rl\<lparr>rl_remoteQueue := q'\<rparr>"] Cons.prems EvIngest show ?thesis
      by (auto simp: online_def same_store_def)
  next
    case (EvSetRemoteOnline b)
    with Cons.IH[of "rl\<lparr>rl_open := False\<rparr>"] Cons.prems show ?thesis
      by (cases b) (auto simp: online_def same_store_def close_loader)
  qed (use Cons.prems in auto)
qed

section \<open>A load that takes the front of the queue\<close>

lemma loadRemote_front:
  assumes "online rl" "queued rl = i # is" "ri_link i = link" "ri_action i = Some LinkActionPresent"
  shows "\<exists>rl'. loadRemote rl lctx link = Some (rl', fst (head_result (rl_lsys rl) (rl_store rl) i lctx link)) \<and>
    online rl' \<and> queued rl' = is \<and> rl_open rl' = rl_open rl \<and> rl_lsys rl' = rl_lsys rl \<and>
    rl_store rl' = snd (head_result (rl_lsys rl) (rl_store rl) i lctx link)"
proof -
  have good: "rq_good (rl_remoteQueue rl)" using assms(1) by (simp add: online_def)
  from rqi.drop_front_tail[OF good assms(2)] rqi.front_head[OF good assms(2)] obtain q where
    "consume (rl_remoteQueue rl) = Some q" "rq_good q" "rq_content q = is"
    "rq_first (fst (rl_remoteQueue rl)) (snd (rl_remoteQueue rl)) = i" by blast
  with assms show ?thesis
    by (simp add: loadRemote_def head_result_def Let_def online_def recordRemoteLoadAttempt_def did_follow_def DidFollowLink_def
        split: option.split sum.split)
qed

text \<open>The item at the front answers the load: with its block, which is written, or without one for a block the store has.\<close>

definition answers_load :: "'s reconciled_loader \<Rightarrow> remote_item \<Rightarrow> path \<Rightarrow> cid \<Rightarrow> bytes \<Rightarrow> bool" where
  "answers_load rl i lctx link d \<longleftrightarrow> ri_link i = link \<and> ri_action i = Some LinkActionPresent \<and>
     (ri_block i = Some d \<or> ri_block i = None \<and> reads (rl_lsys rl) (rl_store rl) lctx link = Some d)"

text \<open>What a load that is answered leaves behind.\<close>

definition loaded :: "'s reconciled_loader \<Rightarrow> remote_item \<Rightarrow> cid \<Rightarrow> bytes \<Rightarrow> 's reconciled_loader \<Rightarrow> bool" where
  "loaded rl i link d rl' \<longleftrightarrow> online rl' \<and> rl_lsys rl' = rl_lsys rl \<and>
     (\<forall>lctx' link'. reads (rl_lsys rl) (rl_store rl') lctx' link' =
        (if link' = link \<and> ri_block i \<noteq> None then Some d else reads (rl_lsys rl) (rl_store rl) lctx' link'))"

lemma loaded_cong:
  assumes "rl_lsys a = rl_lsys b" "rl_store a = rl_store b"
  shows "loaded a i link d rl' = loaded b i link d rl'"
  unfolding loaded_def assms ..

lemma loaded_attempt [simp]: "loaded rl i link d (rl'\<lparr>rl_mostRecentLoadAttempt := la\<rparr>) = loaded rl i link d rl'"
  by (simp add: loaded_def online_def)

lemma front_load:
  assumes "online rl" "store_law (rl_lsys rl)" "queued rl = i # is" "answers_load rl i lctx link d"
  shows "\<exists>rl' res. blockReadOpener evs rl lctx link = Some (rl', evs, True, res) \<and> alr_Err res = None \<and> alr_Data res = Some d \<and>
    loaded rl i link d rl' \<and> queued rl' = is \<and> rl_open rl' = rl_open rl"
proof -
  have i: "ri_link i = link" "ri_action i = Some LinkActionPresent" using assms(4) by (auto simp: answers_load_def)
  have "\<not> rq_empty (snd (rl_remoteQueue rl))"
    using assms(1,3) rqi.empty_iff by (simp add: online_def)
  then have w: "waitRemote evs rl = Some (rl, evs, True, None)"
    using assms(1) by (subst waitRemote.simps) (simp add: online_def)
  have pt: "stillOnUnfollowedRemotePath (rl_pathTracker rl) lctx = (rl_pathTracker rl, False)"
    using assms(1) by (simp add: stillOnUnfollowedRemotePath_def online_def)
  from loadRemote_front[OF assms(1,3) i, of lctx] obtain rl' where
    r: "loadRemote rl lctx link = Some (rl', fst (head_result (rl_lsys rl) (rl_store rl) i lctx link))"
    "online rl'" "queued rl' = is" "rl_open rl' = rl_open rl" "rl_lsys rl' = rl_lsys rl"
    "rl_store rl' = snd (head_result (rl_lsys rl) (rl_store rl) i lctx link)" by blast
  show ?thesis
  proof (cases "ri_block i")
    case None
    with assms(4) i r w pt show ?thesis
      by (auto simp: blockReadOpener_def head_result_def answers_load_def loadLocal_reads loaded_def)
  next
    case (Some d')
    with assms(4) have d: "ri_block i = Some d" by (auto simp: answers_load_def)
    obtain s' where s': "writeBlock (rl_lsys rl) (rl_store rl) lctx link d = Inr s'"
      "\<forall>lctx' link'. reads (rl_lsys rl) s' lctx' link' = (if link' = link then Some d else reads (rl_lsys rl) (rl_store rl) lctx' link')"
      using assms(2) unfolding store_law_def by blast
    with i d r w pt show ?thesis by (auto simp: blockReadOpener_def head_result_def loaded_def)
  qed
qed

lemma record_online [simp]:
  "online (record_attempt rl) = online rl" "queued (record_attempt rl) = queued rl" "rl_open (record_attempt rl) = rl_open rl"
  "rl_lsys (record_attempt rl) = rl_lsys rl" "rl_store (record_attempt rl) = rl_store rl"
  by (auto simp: record_attempt_def online_def Let_def split: option.split)

lemma front_BlockReadOpener:
  assumes "online rl" "store_law (rl_lsys rl)" "queued rl = i # is" "answers_load rl i lctx link d"
  shows "\<exists>rl' res. BlockReadOpener evs rl lctx link = Some (rl', evs, res) \<and> alr_Err res = None \<and> alr_Data res = Some d \<and>
    loaded rl i link d rl' \<and> queued rl' = is \<and> rl_open rl' = rl_open rl"
proof -
  have "answers_load (record_attempt rl) i lctx link d" using assms(4) by (simp add: answers_load_def)
  from front_load[OF _ _ _ this, of "is" evs] assms(1-3) obtain rl' res where
    "blockReadOpener evs (record_attempt rl) lctx link = Some (rl', evs, True, res)" "alr_Err res = None" "alr_Data res = Some d"
    "loaded rl i link d rl'" "queued rl' = is" "rl_open rl' = rl_open rl"
    by (auto simp: loaded_cong[of "record_attempt rl" rl])
  then show ?thesis by (auto simp: BlockReadOpener_def)
qed

text \<open>A load that has to wait for the next message first.\<close>

lemma waiting_BlockReadOpener:
  assumes "online rl" "store_law (rl_lsys rl)" "queued rl = []" "rl_open rl" "response_items md [] blocks = i # is"
    "answers_load rl i lctx link d"
  shows "\<exists>rl' res. BlockReadOpener (EvIngest picks md blocks # evs) rl lctx link = Some (rl', evs, res) \<and>
    alr_Err res = None \<and> alr_Data res = Some d \<and> loaded rl i link d rl' \<and> queued rl' = is \<and> rl_open rl'"
proof -
  let ?rl = "record_attempt rl"
  have good: "rq_good (rl_remoteQueue ?rl)" using assms(1) record_online(1)[of rl] by (simp add: online_def)
  from ingest_good[OF good, of picks md blocks] assms(3-5) obtain q where
    q: "IngestResponse picks md blocks ?rl = Some (?rl\<lparr>rl_remoteQueue := q\<rparr>)" "rq_good q" "rq_content q = i # is" by auto
  let ?rl1 = "?rl\<lparr>rl_remoteQueue := q\<rparr>"
  have on: "online ?rl1" "rl_lsys ?rl1 = rl_lsys rl" "rl_store ?rl1 = rl_store rl" "rl_open ?rl1"
    using assms(1,4) q(2) record_online[of rl] by (auto simp: online_def)
  have "rq_empty (snd (rl_remoteQueue ?rl))" using good rqi.empty_iff assms(3) record_online(2)[of rl] by simp
  then have "waitRemote (EvIngest picks md blocks # evs) ?rl = waitRemote evs ?rl1"
    using assms(4) q(1) by (subst waitRemote.simps) simp
  then have same: "blockReadOpener (EvIngest picks md blocks # evs) ?rl lctx link = blockReadOpener evs ?rl1 lctx link"
    by (simp only: blockReadOpener_def)
  have "answers_load ?rl1 i lctx link d" using assms(6) by (simp add: answers_load_def on)
  from front_load[OF on(1) _ _ this, of "is" evs] assms(2) q(3) on obtain rl' res where
    "blockReadOpener evs ?rl1 lctx link = Some (rl', evs, True, res)" "alr_Err res = None" "alr_Data res = Some d"
    "loaded rl i link d rl'" "queued rl' = is" "rl_open rl'"
    by (auto simp: loaded_cong[of ?rl1 rl])
  with same show ?thesis by (auto simp: BlockReadOpener_def)
qed

section \<open>A traversal fed by the remote\<close>

text \<open>The items still to be taken, given what is queued and what arrives before and during each load.\<close>

fun feeds :: "'n ex_input list \<Rightarrow> bool \<Rightarrow> remote_item list \<Rightarrow> remote_item list \<Rightarrow> bool" where
  "feeds inputs opened q [] \<longleftrightarrow> True"
| "feeds inputs opened q (x # xs) \<longleftrightarrow>
     (let (input, inputs) = next_ex_input inputs
      in \<not> xi_paused input \<and>
         (case arrive (xi_before input) (opened, q) of
            None \<Rightarrow> False
          | Some (opened, i # is) \<Rightarrow> i = x \<and> feeds inputs opened is xs
          | Some (opened, []) \<Rightarrow>
              opened \<and>
              (case xi_waiting input of
                 EvIngest picks md blocks # _ \<Rightarrow>
                   (case response_items md [] blocks of [] \<Rightarrow> False | i # is \<Rightarrow> i = x \<and> feeds inputs True is xs)
               | _ \<Rightarrow> False)))"

text \<open>Items that answer the loads of a traversal: every link as present, with its block unless that was among the earlier links.\<close>

fun answers :: "cid set \<Rightarrow> (cid \<times> bytes option) list \<Rightarrow> remote_item list \<Rightarrow> bool" where
  "answers got [] [] \<longleftrightarrow> True"
| "answers got ((l, Some d) # lds) (i # is) \<longleftrightarrow>
     ri_link i = l \<and> ri_action i = Some LinkActionPresent \<and> (ri_block i = Some d \<or> ri_block i = None \<and> l \<in> got) \<and>
     answers (insert l got) lds is"
| "answers got _ _ \<longleftrightarrow> False"

definition holds_blocks :: "(cid \<Rightarrow> bytes) \<Rightarrow> cid set \<Rightarrow> 's reconciled_loader \<Rightarrow> bool" where
  "holds_blocks content got rl \<longleftrightarrow> (\<forall>l \<in> got. \<forall>lctx. reads (rl_lsys rl) (rl_store rl) lctx l = Some (content l))"

definition content_of :: "(cid \<Rightarrow> bytes) \<Rightarrow> (cid \<times> bytes option) list \<Rightarrow> bool" where
  "content_of content lds \<longleftrightarrow> (\<forall>(l, d) \<in> set lds. d = Some (content l))"

lemma loaded_holds:
  assumes "loaded rl i l (content l) rl'" "holds_blocks content got rl" "ri_block i \<noteq> None \<or> l \<in> got"
  shows "holds_blocks content (insert l got) rl'"
  using assms by (auto simp: loaded_def holds_blocks_def)

lemma answers_load_cong:
  "rl_lsys a = rl_lsys b \<Longrightarrow> rl_store a = rl_store b \<Longrightarrow> answers_load a i lctx link d = answers_load b i lctx link d"
  by (simp add: answers_load_def)

lemma fed_load:
  assumes "online (ex_loader st)" "store_law (rl_lsys (ex_loader st))" "answers_load (ex_loader st) i lctx link d"
    "feeds inputs (rl_open (ex_loader st)) (queued (ex_loader st)) (i # is)" "next_ex_input inputs = (input, inputs')"
  shows "\<exists>rl' res. loadStep env rt input True lctx link st = Some (True, res, st\<lparr>ex_loader := rl'\<rparr>) \<and>
    alr_Err res = None \<and> alr_Data res = Some d \<and> loaded (ex_loader st) i link d rl' \<and>
    feeds inputs' (rl_open rl') (queued rl') is"
proof -
  from assms(4,5) obtain opened q where a: "arrive (xi_before input) (rl_open (ex_loader st), queued (ex_loader st)) = Some (opened, q)"
    by (auto split: option.splits)
  from env_steps_arrive[OF assms(1) a] obtain rl1 where rl1: "env_steps (xi_before input) (ex_loader st) = Some rl1" "online rl1"
    "rl_lsys rl1 = rl_lsys (ex_loader st)" "rl_store rl1 = rl_store (ex_loader st)" "rl_open rl1 = opened" "queued rl1 = q"
    by (auto simp: same_store_def)
  have law: "store_law (rl_lsys rl1)" "answers_load rl1 i lctx link d"
    using assms(2,3) rl1(3,4) answers_load_cong[of rl1 "ex_loader st"] by auto
  have "\<exists>rl' evs' res. BlockReadOpener (xi_waiting input) rl1 lctx link = Some (rl', evs', res) \<and>
    alr_Err res = None \<and> alr_Data res = Some d \<and> loaded rl1 i link d rl' \<and> feeds inputs' (rl_open rl') (queued rl') is"
  proof (cases q)
    case Nil
    have "opened \<and> (case xi_waiting input of
        EvIngest picks md blocks # _ \<Rightarrow> (case response_items md [] blocks of [] \<Rightarrow> False | i' # is' \<Rightarrow> i' = i \<and> feeds inputs' True is' is)
      | _ \<Rightarrow> False)" using assms(4,5) a Nil by simp
    then obtain picks md blocks evs is' where
      w: "xi_waiting input = EvIngest picks md blocks # evs" "response_items md [] blocks = i # is'" "opened" "feeds inputs' True is' is"
      by (cases "xi_waiting input"; cases "hd (xi_waiting input)") (auto simp del: feeds.simps split: list.split_asm)
    with waiting_BlockReadOpener[OF rl1(2) law(1) _ _ w(2) law(2), of picks evs] rl1(5,6) Nil show ?thesis by auto
  next
    case (Cons i' is')
    with assms(4,5) a have "i' = i" "feeds inputs' opened is' is" by auto
    with front_BlockReadOpener[OF rl1(2) law(1) _ law(2), of is' "xi_waiting input"] rl1(5,6) Cons show ?thesis by auto
  qed
  then obtain rl' evs' res where "BlockReadOpener (xi_waiting input) rl1 lctx link = Some (rl', evs', res)"
    "alr_Err res = None" "alr_Data res = Some d" "loaded rl1 i link d rl'" "feeds inputs' (rl_open rl') (queued rl') is" by blast
  with rl1 loaded_cong[of rl1 "ex_loader st"] show ?thesis by (auto simp: loadStep_def)
qed

text \<open>One turn of the traversal with the block it was given.\<close>

lemma traverse_step:
  fixes st :: "('n, 's) ex_state"
  assumes "tv_ok (ex_traverser st)" "tv_rest (ex_traverser st) = WalkLoad lnk ctx k" "no_hooks env"
    "next_ex_input inputs = (input, inputs')" "\<not> xi_paused input"
    "loadStep env rt input sent ctx lnk st = Some (sent', res, st1)" "ex_traverser st1 = ex_traverser st"
    "alr_Err res = None" "alr_Data res = Some d"
  obtains t where "traverse env rt inputs sent st = traverse env rt inputs' sent' (st1\<lparr>ex_traverser := t\<rparr>)"
    "tv_ok t" "tv_rest t = k (Inr d)"
proof -
  from Advance_ok[OF assms(1,2), of False d] obtain t where
    t: "Advance False d (ex_traverser st) = (None, t)" "tv_ok t" "tv_rest t = k (Inr d)" by blast
  have adv: "advanceTraversal input res st1 = (None, st1\<lparr>ex_traverser := t\<rparr>)"
    using t(1) assms(7-9) by (simp add: advanceTraversal_def)
  have pr: "processResult env rt input lnk res (st1\<lparr>ex_traverser := t\<rparr>) = (None, st1\<lparr>ex_traverser := t\<rparr>)"
    using assms(3,5,8) by (simp add: processResult_def onNewBlock_def processBlockHooks_def no_hooks_def Let_def)
  note c = rest_load[OF assms(1,2)]
  have "traverse env rt inputs sent st = traverse env rt inputs' sent' (st1\<lparr>ex_traverser := t\<rparr>)"
    by (subst traverse.simps) (simp add: c(1,2) assms(4,6) adv pr)
  with t that show thesis by blast
qed

lemma visits_present:
  assumes "visits renv (WalkLoad lnk ctx k) = (lds, None)" "content_of content lds"
  shows "\<exists>lds'. lds = (lnk, Some (content lnk)) # lds' \<and> visits renv (k (Inr (content lnk))) = (lds', None) \<and> content_of content lds'"
proof (cases "qe_Loader renv ctx lnk")
  case (Inl e)
  with assms show ?thesis by (cases "visits renv (k (Inl ErrSkipMe))") (auto simp: content_of_def)
next
  case (Inr r)
  with assms(1) obtain d where "r = Inr d" by (cases r) auto
  with Inr assms show ?thesis by (cases "visits renv (k (Inr d))") (auto simp: content_of_def)
qed

lemma traverse_fed:
  fixes st :: "('n, 's) ex_state" and renv :: "'m qe_env"
  assumes "tv_ok (ex_traverser st)" "tv_rest (ex_traverser st) = w" "visits renv w = (lds, None)" "content_of content lds"
    "online (ex_loader st)" "store_law (rl_lsys (ex_loader st))" "answers got lds items" "holds_blocks content got (ex_loader st)"
    "feeds inputs (rl_open (ex_loader st)) (queued (ex_loader st)) items" "no_hooks env"
  shows "\<exists>st'. traverse env rt inputs True st = Some (None, st') \<and> ex_log st' = ex_log st \<and>
    holds_blocks content (got \<union> fst ` set lds) (ex_loader st') \<and> rl_lsys (ex_loader st') = rl_lsys (ex_loader st)"
  using assms
proof (induction w arbitrary: st lds got items inputs)
  case (WalkDone e)
  with rest_done[OF WalkDone(1,2)] show ?case by (subst traverse.simps) auto
next
  case (WalkLoad lnk ctx k)
  let ?d = "content lnk"
  obtain lds' where v: "lds = (lnk, Some ?d) # lds'" "visits renv (k (Inr ?d)) = (lds', None)" "content_of content lds'"
    using visits_present[OF WalkLoad.prems(3,4)] by blast
  obtain i "is" where items: "items = i # is" "answers (insert lnk got) lds' is" "ri_link i = lnk" "ri_action i = Some LinkActionPresent"
    "ri_block i = Some ?d \<or> ri_block i = None \<and> lnk \<in> got"
    using WalkLoad.prems(7) v(1) by (cases items) auto
  have ans: "answers_load (ex_loader st) i ctx lnk ?d"
    using items WalkLoad.prems(8) by (auto simp: answers_load_def holds_blocks_def)
  obtain input inputs' where inp: "next_ex_input inputs = (input, inputs')" by fastforce
  have paused: "\<not> xi_paused input" using WalkLoad.prems(9) items(1) inp by simp
  from fed_load[OF WalkLoad.prems(5,6) ans _ inp, of "is" env rt] WalkLoad.prems(9) items(1) obtain rl' res where
    l: "loadStep env rt input True ctx lnk st = Some (True, res, st\<lparr>ex_loader := rl'\<rparr>)" "alr_Err res = None" "alr_Data res = Some ?d"
      "loaded (ex_loader st) i lnk ?d rl'" "feeds inputs' (rl_open rl') (queued rl') is" by auto
  obtain t where t: "traverse env rt inputs True st = traverse env rt inputs' True (st\<lparr>ex_loader := rl', ex_traverser := t\<rparr>)"
    "tv_ok t" "tv_rest t = k (Inr ?d)"
    by (rule traverse_step[OF WalkLoad.prems(1,2,10) inp paused l(1) _ l(2,3)]) auto
  have hold: "holds_blocks content (insert lnk got) rl'"
    by (rule loaded_holds[OF l(4) WalkLoad.prems(8)]) (use items(5) in auto)
  let ?st = "st\<lparr>ex_loader := rl', ex_traverser := t\<rparr>"
  have "\<exists>st'. traverse env rt inputs' True ?st = Some (None, st') \<and> ex_log st' = ex_log ?st \<and>
    holds_blocks content (insert lnk got \<union> fst ` set lds') (ex_loader st') \<and> rl_lsys (ex_loader st') = rl_lsys (ex_loader ?st)"
    by (rule WalkLoad.IH[where items = "is"]) (use t v l hold items WalkLoad.prems(6,10) in \<open>auto simp: loaded_def\<close>)
  with t(1) v(1) l(4) show ?case by (auto simp: insert_commute loaded_def)
qed

section \<open>Going online for the first block\<close>

definition fresh_loader :: "'s reconciled_loader \<Rightarrow> bool" where
  "fresh_loader rl \<longleftrightarrow> online rl \<and> queued rl = [] \<and> \<not> rl_open rl \<and> rl_traversalRecord rl = NewTraversalRecord \<and>
     la_link (rl_mostRecentLoadAttempt rl) = None"

lemma fresh_new: "fresh_loader (NewReconciledLoader lsys s \<lparr>cells = [], pool = []\<rparr>)"
  using rl_ok_new[of lsys s] by (simp add: fresh_loader_def online_def NewReconciledLoader_def zero_attempt_def rl_ok_def)

lemma nothing_to_replay: "v_Done NewTraversalRecord (NewVerifier NewTraversalRecord)"
  by code_simp

lemma wait_after_opening:
  assumes "rq_good (rl_remoteQueue rl)" "queued rl = []" "rl_open rl" "rl_traversalRecord rl = NewTraversalRecord"
    "rl_verifier rl = Some (NewVerifier NewTraversalRecord)" "response_items md [] blocks = i # is"
  shows "\<exists>q. waitRemote (EvIngest picks md blocks # evs) rl = Some (rl\<lparr>rl_remoteQueue := q, rl_verifier := None\<rparr>, evs, True, None) \<and>
    rq_good q \<and> rq_content q = i # is"
proof -
  from ingest_good[OF assms(1), of picks md blocks] assms(2,3,6) obtain q where
    q: "IngestResponse picks md blocks rl = Some (rl\<lparr>rl_remoteQueue := q\<rparr>)" "rq_good q" "rq_content q = i # is" by auto
  have "waitRemote (EvIngest picks md blocks # evs) rl = waitRemote evs (rl\<lparr>rl_remoteQueue := q\<rparr>)"
    using rqi.empty_iff[OF assms(1)] assms(2,3) q(1) by (subst waitRemote.simps) simp
  also have "\<dots> = Some (rl\<lparr>rl_remoteQueue := q, rl_verifier := None\<rparr>, evs, True, None)"
    using rqi.empty_iff[OF q(2)] q(3) assms(4,5) nothing_to_replay by (subst waitRemote.simps) simp
  finally show ?thesis using q by blast
qed

lemma offline_probe:
  assumes "rq_good (rl_remoteQueue rl)" "queued rl = []" "\<not> rl_open rl" "la_link (rl_mostRecentLoadAttempt rl) = None"
    "reads (rl_lsys rl) (rl_store rl) lctx link = None"
  shows "BlockReadOpener evs rl lctx link =
    Some (rl\<lparr>rl_mostRecentLoadAttempt := \<lparr>la_link = Some link, la_linkContext = lctx, la_successful = False, la_usedRemote = False\<rparr>\<rparr>,
      evs, loadLocal rl lctx link)"
proof -
  have "waitRemote evs rl = Some (rl, evs, False, None)"
    using rqi.empty_iff[OF assms(1)] assms(2,3) by (subst waitRemote.simps) simp
  with assms(4,5) show ?thesis by (simp add: BlockReadOpener_def blockReadOpener_def record_attempt_def loadLocal_reads)
qed

lemma first_load:
  assumes "fresh_loader rl" "store_law (rl_lsys rl)" "reads (rl_lsys rl) (rl_store rl) lctx link = None" "ex_loader st = rl"
    "xi_before input = []" "xi_waiting input = EvIngest picks md blocks # evs" "response_items md [] blocks = i # is"
    "answers_load rl i lctx link d"
  shows "\<exists>rl' res. loadStep env rt input False lctx link st = Some (True, res, (startRemoteRequest env rt st)\<lparr>ex_loader := rl'\<rparr>) \<and>
    alr_Err res = None \<and> alr_Data res = Some d \<and> loaded rl i link d rl' \<and> queued rl' = is \<and> rl_open rl'"
proof -
  have good: "rq_good (rl_remoteQueue rl)" and empty: "queued rl = []" and closed: "\<not> rl_open rl"
    and rec: "rl_traversalRecord rl = NewTraversalRecord" "la_link (rl_mostRecentLoadAttempt rl) = None"
    using assms(1) by (auto simp: fresh_loader_def online_def)
  let ?evs = "xi_waiting input"
  let ?la = "\<lparr>la_link = Some link, la_linkContext = lctx, la_successful = False, la_usedRemote = False\<rparr>"
  note off = offline_probe[OF good empty closed rec(2) assms(3), of ?evs]
  define rl2 where "rl2 = rl\<lparr>rl_mostRecentLoadAttempt := zero_attempt, rl_open := True, rl_verifier := Some (NewVerifier NewTraversalRecord)\<rparr>"
  have retry: "RetryLastLoad ?evs (SetRemoteOnline True (rl\<lparr>rl_mostRecentLoadAttempt := ?la\<rparr>)) = BlockReadOpener ?evs rl2 lctx link"
    using closed rec(1) by (cases rl) (simp add: RetryLastLoad_def SetRemoteOnline_opens rl2_def)
  have rl2: "rq_good (rl_remoteQueue rl2)" "queued rl2 = []" "rl_open rl2" "rl_traversalRecord rl2 = NewTraversalRecord"
    "rl_verifier rl2 = Some (NewVerifier NewTraversalRecord)" "record_attempt rl2 = rl2"
    using good empty rec(1) by (simp_all add: rl2_def record_attempt_def zero_attempt_def)
  from wait_after_opening[OF rl2(1-5) assms(7), of picks evs] obtain q where
    q: "waitRemote ?evs rl2 = Some (rl2\<lparr>rl_remoteQueue := q, rl_verifier := None\<rparr>, evs, True, None)" "rq_good q" "rq_content q = i # is"
    using assms(6) by auto
  define rl3 where "rl3 = rl2\<lparr>rl_remoteQueue := q, rl_verifier := None\<rparr>"
  have on3: "online rl3" "queued rl3 = i # is" "rl_open rl3" "rl_lsys rl3 = rl_lsys rl" "rl_store rl3 = rl_store rl"
    using assms(1) q by (auto simp: rl3_def rl2_def online_def fresh_loader_def)
  have "waitRemote evs rl3 = Some (rl3, evs, True, None)"
    using on3 rqi.empty_iff by (subst waitRemote.simps) (simp add: online_def)
  then have same: "blockReadOpener ?evs rl2 lctx link = blockReadOpener evs rl3 lctx link"
    using q(1) by (simp add: blockReadOpener_def rl3_def)
  have "answers_load rl3 i lctx link d" using assms(8) answers_load_cong[OF on3(4,5)] by simp
  from front_load[OF on3(1) _ on3(2) this, of evs] assms(2) on3 loaded_cong[OF on3(4,5)] obtain rl' res where
    "blockReadOpener evs rl3 lctx link = Some (rl', evs, True, res)" "alr_Err res = None" "alr_Data res = Some d"
    "loaded rl i link d rl'" "queued rl' = is" "rl_open rl'" by auto
  then have "\<exists>rl' res. BlockReadOpener ?evs rl2 lctx link = Some (rl', evs, res) \<and> alr_Err res = None \<and> alr_Data res = Some d \<and>
    loaded rl i link d rl' \<and> queued rl' = is \<and> rl_open rl'"
    using same rl2(6) by (auto simp: BlockReadOpener_def)
  with off retry assms(3-5) show ?thesis
    by (auto simp: loadStep_def is_missing_def loadLocal_reads Let_def)
qed

lemma request_fed:
  fixes st :: "('n, 's) ex_state" and renv :: "'m qe_env"
  assumes "ex_traverser st = tv_Start (WalkLoad root ctx k)" "visits renv (WalkLoad root ctx k) = (lds, None)" "content_of content lds"
    "fresh_loader (ex_loader st)" "store_law (rl_lsys (ex_loader st))"
    "reads (rl_lsys (ex_loader st)) (rl_store (ex_loader st)) ctx root = None"
    "answers {} lds items" "xi_before (fst (next_ex_input inputs)) = []" "feeds inputs True [] items" "no_hooks env"
    "rt_DoNotSendFirstBlocks rt \<le> 0"
  shows "\<exists>st'. traverse env rt inputs False st = Some (None, st') \<and> ex_log st' = ex_log st @ [ExSendRequest (rt_P rt) (rt_Request rt)] \<and>
    holds_blocks content (fst ` set lds) (ex_loader st') \<and> rl_lsys (ex_loader st') = rl_lsys (ex_loader st)"
proof -
  let ?d = "content root"
  obtain lds' where v: "lds = (root, Some ?d) # lds'" "visits renv (k (Inr ?d)) = (lds', None)" "content_of content lds'"
    using visits_present[OF assms(2,3)] by blast
  obtain i "is" where items: "items = i # is" "answers {root} lds' is" "ri_link i = root" "ri_action i = Some LinkActionPresent"
    "ri_block i = Some ?d" using assms(7) v(1) by (cases items) auto
  obtain input inputs' where inp: "next_ex_input inputs = (input, inputs')" by fastforce
  have "\<not> xi_paused input \<and> (case xi_waiting input of
      EvIngest picks md blocks # _ \<Rightarrow> (case response_items md [] blocks of [] \<Rightarrow> False | i' # is' \<Rightarrow> i' = i \<and> feeds inputs' True is' is)
    | _ \<Rightarrow> False)" using assms(8,9) items(1) inp by simp
  then obtain picks md blocks evs is' where w: "xi_waiting input = EvIngest picks md blocks # evs"
    "response_items md [] blocks = i # is'" "feeds inputs' True is' is" "\<not> xi_paused input"
    by (cases "xi_waiting input"; cases "hd (xi_waiting input)") (auto simp del: feeds.simps split: list.split_asm)
  have ans: "answers_load (ex_loader st) i ctx root ?d" using items by (simp add: answers_load_def)
  have before: "xi_before input = []" using assms(8) inp by simp
  from first_load[OF assms(4,5,6) refl before w(1,2) ans, of env rt] obtain rl' res where
    l: "loadStep env rt input False ctx root st = Some (True, res, (startRemoteRequest env rt st)\<lparr>ex_loader := rl'\<rparr>)"
      "alr_Err res = None" "alr_Data res = Some ?d" "loaded (ex_loader st) i root ?d rl'" "queued rl' = is'" "rl_open rl'" by blast
  have start: "startRemoteRequest env rt st = ex_call [ExSendRequest (rt_P rt) (rt_Request rt)] st"
    using assms(1,11) by (simp add: startRemoteRequest_def NBlocksTraversed_def tv_Start_ok Let_def)
  have tv: "tv_ok (ex_traverser st)" "tv_rest (ex_traverser st) = WalkLoad root ctx k" using assms(1) tv_Start_ok by simp_all
  let ?st1 = "(startRemoteRequest env rt st)\<lparr>ex_loader := rl'\<rparr>"
  obtain t where t: "traverse env rt inputs False st = traverse env rt inputs' True (?st1\<lparr>ex_traverser := t\<rparr>)"
    "tv_ok t" "tv_rest t = k (Inr ?d)"
    by (rule traverse_step[OF tv assms(10) inp w(4) l(1) _ l(2,3)]) (auto simp: start)
  have hold: "holds_blocks content {root} rl'"
    by (rule loaded_holds[where content = content, OF l(4)]) (use items(5) in \<open>auto simp: holds_blocks_def\<close>)
  have "\<exists>st'. traverse env rt inputs' True (?st1\<lparr>ex_traverser := t\<rparr>) = Some (None, st') \<and> ex_log st' = ex_log (?st1\<lparr>ex_traverser := t\<rparr>) \<and>
    holds_blocks content ({root} \<union> fst ` set lds') (ex_loader st') \<and> rl_lsys (ex_loader st') = rl_lsys (ex_loader (?st1\<lparr>ex_traverser := t\<rparr>))"
    by (rule traverse_fed[where items = "is"]) (use t v l w hold items assms(5,10) in \<open>auto simp: loaded_def\<close>)
  with t(1) v(1) start l(4) show ?thesis by (auto simp: loaded_def)
qed

end
