(* ===== verification/Store_Util.thy ===== *)
theory Store_Util
  imports Remote_Feed
begin

text \<open>
  \<^verbatim>\<open>storeutil\<close>: the link system over a block store. The store and the constructor of blocks are third-party code: the
  parameter \<open>bs\<close>, relied on by \<open>blockstore_law\<close>, and \<open>NewBlockWithCid\<close>, relied on by \<open>new_block_law\<close>. Links that are no CIDs do not
  occur in the model; reading UnixFS nodes as directories, which the link system is also set up for, changes no block.
\<close>

record 's blockstore =
  bs_Get :: "'s \<Rightarrow> cid \<Rightarrow> gs_error + block"
  bs_Put :: "'s \<Rightarrow> block \<Rightarrow> gs_error + 's"

section \<open>The buffer for a block to write\<close>

record settableBuffer =
  sb_Buffer :: bytes
  sb_didSetData :: bool
  sb_data :: bytes

definition sb_new :: settableBuffer where
  "sb_new = \<lparr>sb_Buffer = [], sb_didSetData = False, sb_data = []\<rparr>"

definition sb_SetBytes :: "bytes \<Rightarrow> settableBuffer \<Rightarrow> settableBuffer" where
  "sb_SetBytes data sb = sb\<lparr>sb_didSetData := True, sb_data := data\<rparr>"

definition sb_Bytes :: "settableBuffer \<Rightarrow> bytes" where
  "sb_Bytes sb = (if sb_didSetData sb then sb_data sb else sb_Buffer sb)"

section \<open>The link system\<close>

definition LinkSystemForBlockstore :: "(bytes \<Rightarrow> cid \<Rightarrow> gs_error + block) \<Rightarrow> 's blockstore \<Rightarrow> 's link_system" where
  "LinkSystemForBlockstore NewBlockWithCid bs =
     \<lparr>StorageReadOpener = (\<lambda>st lnkCtx lnk.
        case bs_Get bs st lnk of
          Inl err \<Rightarrow> Inl err
        | Inr block \<Rightarrow> Inr (ByteReader (blk_RawData block))),
      StorageWriteOpener = (\<lambda>st lnkCtx. None),
      settableWriter = True,
      SetBytes = (\<lambda>data. None),
      Write = (\<lambda>data. None),
      committer = (\<lambda>st lnk data.
        case NewBlockWithCid (sb_Bytes (sb_SetBytes data sb_new)) lnk of
          Inl err \<Rightarrow> Inl err
        | Inr block \<Rightarrow> bs_Put bs st block)\<rparr>"

text \<open>What is relied on: a block that was put is found under its CID, and nothing else changes.\<close>

definition blockstore_law :: "'s blockstore \<Rightarrow> bool" where
  "blockstore_law bs \<longleftrightarrow>
     (\<forall>st block. \<exists>st'. bs_Put bs st block = Inr st' \<and>
        bs_Get bs st' (blk_Cid block) = Inr block \<and> (\<forall>c. c \<noteq> blk_Cid block \<longrightarrow> bs_Get bs st' c = bs_Get bs st c))"

definition new_block_law :: "(bytes \<Rightarrow> cid \<Rightarrow> gs_error + block) \<Rightarrow> bool" where
  "new_block_law NewBlockWithCid \<longleftrightarrow> (\<forall>d c. NewBlockWithCid d c = Inr \<lparr>blk_Cid = c, blk_RawData = d\<rparr>)"

lemma blockstore_reads:
  "reads (LinkSystemForBlockstore NewBlockWithCid bs) st lctx link =
     (case bs_Get bs st link of Inl e \<Rightarrow> None | Inr block \<Rightarrow> Some (blk_RawData block))"
  by (simp add: reads_def LinkSystemForBlockstore_def split: sum.split)

theorem blockstore_store_law:
  assumes "blockstore_law bs" "new_block_law NewBlockWithCid"
  shows "store_law (LinkSystemForBlockstore NewBlockWithCid bs)"
  unfolding store_law_def
proof (intro allI)
  fix s :: 'a and lctx link d
  let ?lsys = "LinkSystemForBlockstore NewBlockWithCid bs" and ?block = "\<lparr>blk_Cid = link, blk_RawData = d\<rparr>"
  obtain s' where s': "bs_Put bs s ?block = Inr s'" "bs_Get bs s' link = Inr ?block"
    "\<And>c. c \<noteq> link \<Longrightarrow> bs_Get bs s' c = bs_Get bs s c"
    using assms(1) unfolding blockstore_law_def by (metis block.select_convs(1))
  have "writeBlock ?lsys s lctx link d = Inr s'"
    using assms(2) s'(1) by (simp add: writeBlock_def LinkSystemForBlockstore_def new_block_law_def sb_Bytes_def sb_SetBytes_def)
  then show "\<exists>s'. writeBlock ?lsys s lctx link d = Inr s' \<and>
      (\<forall>lctx' link'. reads ?lsys s' lctx' link' = (if link' = link then Some d else reads ?lsys s lctx' link'))"
    using s'(2,3) by (auto simp: blockstore_reads)
qed

end
