(* ===== verification/Exchange.thy ===== *)
theory Exchange
  imports Store_Util
begin

text \<open>
  The two sides of a request together: the responder walks a graph in its store and its response assembler puts the links
  and blocks into messages; the requestor walks the same graph and loads each block from the messages as they arrive.
\<close>

section \<open>The blocks the responder sends\<close>

text \<open>The tracker of the peer when the request has traversed the links \<open>got\<close> with their blocks and skips none.\<close>

definition tracks :: "request_id \<Rightarrow> tracker \<Rightarrow> cid set \<Rightarrow> bool" where
  "tracks rid tr got \<longleftrightarrow> plt_inv tr \<and> mgetd 0 (skipFirstBlocks tr) rid \<le> mgetd 0 (blockSentCount tr) rid \<and>
     (\<forall>l. (\<exists>r. (r, l) \<in># bucket_present tr (getLinkTracker tr rid)) \<longleftrightarrow> l \<in> got)"

lemma tracks_new: "tracks rid newTracker {}"
  using plt_inv_newTracker by (simp add: tracks_def newTracker_def getLinkTracker_def bucket_present_def lt_present_New)

fun first_visits :: "cid set \<Rightarrow> (cid \<times> bytes option) list \<Rightarrow> bool list" where
  "first_visits got [] = []"
| "first_visits got ((l, d) # lds) = (l \<notin> got) # first_visits (insert l got) lds"

lemma Record_tracks:
  assumes "tracks rid tr got"
  shows "\<exists>index tr'. plt_RecordLinkTraversal tr rid l True = Some ((l \<notin> got, index), tr') \<and> tracks rid tr' (insert l got)"
proof -
  have inv: "plt_inv tr" using assms by (simp add: tracks_def)
  obtain tr' where r: "plt_RecordLinkTraversal tr rid l True =
       Some ((True \<and> mgetd 0 (skipFirstBlocks tr) rid < mgetd 0 (blockSentCount tr) rid + 1 \<and>
              (\<forall>r'. (r', l) \<notin># bucket_present tr (getLinkTracker tr rid)), mgetd 0 (blockSentCount tr) rid + 1), tr')"
    "plt_inv tr'"
    "\<And>ref. bucket_present tr' ref =
       (if True \<and> ref = getLinkTracker tr rid then add_mset (rid, l) (bucket_present tr ref) else bucket_present tr ref)"
    "\<And>r'. getLinkTracker tr' r' = getLinkTracker tr r'"
    by (rule plt_Record_spec[OF inv, of rid l True]) blast
  have "skipFirstBlocks tr' = skipFirstBlocks tr" "mgetd 0 (blockSentCount tr') rid = mgetd 0 (blockSentCount tr) rid + 1"
    using r(1) by (auto simp: plt_RecordLinkTraversal_def Let_def split: option.splits)
  with assms r show ?thesis by (auto simp: tracks_def)
qed

lemma send_tracks:
  fixes st :: "'n qe_state"
  assumes "silent_hooks env" "tracks rid (qe_tracker st) got"
  shows "\<exists>index tr. qe_Transaction rid (sendResponse env [] link (Some d)) st =
      Some (None, st\<lparr>qe_tracker := tr, qe_log := qe_log st @ [[BlockOperation (Some d) (link \<notin> got) link rid index]]\<rparr>) \<and>
    tracks rid tr (insert link got)"
proof -
  from Record_tracks[OF assms(2), of link] obtain index tr where
    "plt_RecordLinkTraversal (qe_tracker st) rid link True = Some ((link \<notin> got, index), tr)" "tracks rid tr (insert link got)" by blast
  with assms(1) show ?thesis
    by (intro exI[of _ index] exI[of _ tr])
      (simp add: qe_Transaction_def sendResponse_def SendResponse_def setupBlockOperation_def addOperation_def silent_hooks_def Let_def)
qed

lemma run_tracks:
  fixes st :: "'n qe_state"
  assumes "tv_ok t" "tv_rest t = w" "visits env w = (lds, None)" "content_of content lds" "silent_hooks env" "tracks rid (qe_tracker st) got"
  shows "\<exists>sends st'. runTraversal env rid [] t st = Some (None, st') \<and> length sends = length lds \<and>
    qe_log st' = qe_log st @ block_ops rid lds sends \<and> map fst sends = first_visits got lds"
  using assms
proof (induction w arbitrary: t st lds got)
  case (WalkDone e)
  with rest_done[OF WalkDone(1,2)] show ?case
    by (subst runTraversal.simps) (auto simp: Let_def next_input_def block_ops_def)
next
  case (WalkLoad lnk ctx k)
  note load = rest_load[OF WalkLoad.prems(1,2)]
  let ?d = "content lnk"
  obtain lds' where v: "lds = (lnk, Some ?d) # lds'" "visits env (k (Inr ?d)) = (lds', None)" "content_of content lds'"
    using visits_present[OF WalkLoad.prems(3,4)] by blast
  have "qe_Loader env ctx lnk = Inr (Inr ?d)"
    using WalkLoad.prems(3) v(1) by (auto split: sum.splits prod.splits simp: apfst_def map_prod_def)
  with Advance_ok[OF WalkLoad.prems(1,2), of False ?d] obtain t' where
    l: "loadBlock env NotCancelled lnk ctx t = (Some ?d, None, t')" "tv_ok t'" "tv_rest t' = k (Inr ?d)"
    by (auto simp: loadBlock_def)
  from send_tracks[OF WalkLoad.prems(5,6), of lnk ?d] obtain index tr where
    s: "qe_Transaction rid (sendResponse env [] lnk (Some ?d)) st =
        Some (None, st\<lparr>qe_tracker := tr, qe_log := qe_log st @ [[BlockOperation (Some ?d) (lnk \<notin> got) lnk rid index]]\<rparr>)"
      "tracks rid tr (insert lnk got)" by blast
  let ?st = "st\<lparr>qe_tracker := tr, qe_log := qe_log st @ [[BlockOperation (Some ?d) (lnk \<notin> got) lnk rid index]]\<rparr>"
  from WalkLoad.IH[OF _ l(2,3) v(2,3) WalkLoad.prems(5), of ?st "insert lnk got"] s(2) obtain sends st' where
    r: "runTraversal env rid [] t' ?st = Some (None, st')" "length sends = length lds'"
      "qe_log st' = qe_log ?st @ block_ops rid lds' sends" "map fst sends = first_visits (insert lnk got) lds'" by auto
  have "runTraversal env rid [] t st = Some (None, st')"
    using load l(1) s(1) r(1) by (subst runTraversal.simps) (simp add: Let_def next_input_def)
  with r(2-4) v(1) show ?case
    by (intro exI[of _ "(lnk \<notin> got, index) # sends"] exI[of _ st']) (auto simp: block_ops_def)
qed

lemma response_log:
  fixes env :: "'n qe_env"
  assumes "visits env w = (lds, None)" "content_of content lds" "silent_hooks env"
  shows "\<exists>sends st'. executeQuery env rid [] (tv_Start w) \<lparr>qe_tracker = newTracker, qe_log = []\<rparr> = Some (None, st' :: 'n qe_state) \<and>
    length sends = length lds \<and> map fst sends = first_visits {} lds \<and>
    qe_log st' = block_ops rid lds sends @ [[StatusOperation rid RequestCompletedFull]]"
proof -
  let ?st = "\<lparr>qe_tracker = newTracker, qe_log = []\<rparr> :: 'n qe_state"
  from run_tracks[OF tv_Start_ok(1,2) assms(1-3), of rid ?st "{}"] tracks_new obtain sends st1 where
    run: "runTraversal env rid [] (tv_Start w) ?st = Some (None, st1)" "length sends = length lds"
      "qe_log st1 = block_ops rid lds sends" "map fst sends = first_visits {} lds" by auto
  have inv: "plt_inv (qe_tracker ?st)" using plt_inv_newTracker by simp
  have "(l, None) \<notin> set lds" for l using assms(2) by (auto simp: content_of_def)
  with runTraversal_visits[OF tv_Start_ok(1,2) assms(1,3) inv, of rid] run(1)
  have st1: "plt_inv (qe_tracker st1)" "bucket_missing (qe_tracker st1) (getLinkTracker (qe_tracker st1) rid) = {}"
    by (auto simp: newTracker_def getLinkTracker_def bucket_missing_def lt_missing_New)
  obtain tr' where f: "FinishTracking (qe_tracker st1) rid = Some (True, tr')"
    using st1 by - (rule FinishTracking_spec[OF st1(1), of rid], auto)
  let ?st' = "st1\<lparr>qe_tracker := tr', qe_log := qe_log st1 @ [[StatusOperation rid RequestCompletedFull]]\<rparr>"
  have "executeQuery env rid [] (tv_Start w) ?st = Some (None, ?st')"
    using run(1) f by (simp add: executeQuery_def qe_Transaction_def closeResponse_def FinishRequest_def addOperation_def Let_def)
  with run show ?thesis by (intro exI[of _ sends] exI[of _ ?st']) simp
qed

section \<open>From operations to messages to events\<close>

text \<open>The message that a run of operations of the response assembler builds, and what the request manager passes on from it
  to the loader of the request: links and blocks, and the end of the response.\<close>

definition ops_message :: "'n response_operation list \<Rightarrow> 'n gs_message" where
  "ops_message ops = Build (b_run (concat (map op_ops ops)))"

definition block_map :: "block list \<Rightarrow> (cid, bytes) gomap" where
  "block_map blks = foldl (\<lambda>m blk. mput (blk_Cid blk) (blk_RawData blk) m) [] blks"

definition message_events :: "request_id \<Rightarrow> nat option list \<Rightarrow> 'n gs_message \<Rightarrow> rl_event list" where
  "message_events rid picks m =
     (case mget (gsm_responses m) rid of
        None \<Rightarrow> []
      | Some r \<Rightarrow> EvIngest picks (md_pairs (gsp_metadata r)) (block_map (Blocks m)) #
                  (if IsTerminal (gsp_status r) then [EvSetRemoteOnline False] else []))"

fun ev_items :: "rl_event \<Rightarrow> remote_item list" where
  "ev_items (EvIngest picks md blocks) = response_items md [] blocks"
| "ev_items _ = []"

abbreviation evs_items :: "rl_event list \<Rightarrow> remote_item list" where
  "evs_items es \<equiv> concat (map ev_items es)"

lemma foldl_block_map:
  "mget (foldl (\<lambda>m blk. mput (blk_Cid blk) (blk_RawData blk) m) acc blks) =
     mget acc ++ map_of (rev (map (\<lambda>blk. (blk_Cid blk, blk_RawData blk)) blks))"
  by (induction blks arbitrary: acc) auto

lemma block_map_lookup:
  assumes "builder_inv b"
  shows "mget (block_map (Blocks (Build b))) c = map_option blk_RawData (mget (b_outgoingBlocks b) c)"
proof -
  let ?m = "b_outgoingBlocks b"
  have wf: "mwf ?m" using assms by (simp add: builder_inv_def)
  have key: "blk_Cid blk = k" if "(k, blk) \<in> set ?m" for k blk
    using assms that map_of_is_SomeI[OF wf that] by (simp add: builder_inv_def)
  have "map (\<lambda>blk. (blk_Cid blk, blk_RawData blk)) (mvals ?m) = map (\<lambda>(k, blk). (k, blk_RawData blk)) ?m"
    using key by (auto simp: mvals_def)
  moreover have "Blocks (Build b) = mvals ?m" by (simp add: Blocks_def Build_def foldl_snoc_map Let_def)
  ultimately have "mget (block_map (Blocks (Build b))) c = mget (map (\<lambda>(k, blk). (k, blk_RawData blk)) (rev ?m)) c"
    by (simp add: block_map_def foldl_block_map rev_map)
  then show ?thesis by (simp add: map_of_map mget_rev[OF wf])
qed

section \<open>The items of a response split into messages\<close>

abbreviation bop :: "request_id \<Rightarrow> (cid \<times> bytes option) \<times> (bool \<times> i64) \<Rightarrow> 'n response_operation" where
  "bop rid \<equiv> \<lambda>((l, d), (send, index)). BlockOperation d send l rid index"

lemma concat_block_ops: "concat (block_ops rid lds sends) = map (bop rid) (zip lds sends)"
proof -
  have "concat (map (\<lambda>((l, d), (send, index)). [BlockOperation d send l rid index]) xs) = map (bop rid) xs" for xs
    by (induction xs) auto
  then show ?thesis by (simp add: block_ops_def)
qed

lemma answers_append:
  "answers got lds is \<Longrightarrow> answers (got \<union> fst ` set lds) lds' is' \<Longrightarrow> answers got (lds @ lds') (is @ is')"
  by (induction got lds "is" rule: answers.induct) auto

lemma first_visits_append: "first_visits got (lds @ lds') = first_visits got lds @ first_visits (got \<union> fst ` set lds) lds'"
  by (induction got lds rule: first_visits.induct) auto

lemma length_first_visits [simp]: "length (first_visits got lds) = length lds"
  by (induction got lds rule: first_visits.induct) auto

text \<open>A message has the blocks of the links that its operations visit for the first time.\<close>

lemma message_blocks:
  assumes "map fst sends = first_visits got lds" "content_of content lds"
  shows "mget (b_outgoingBlocks (fold b_apply (concat (map op_ops (map (bop rid) (zip lds sends)))) b)) c =
     (if c \<in> fst ` set lds - got then Some \<lparr>blk_Cid = c, blk_RawData = content c\<rparr> else mget (b_outgoingBlocks b) c)"
  using assms
proof (induction lds arbitrary: sends got b)
  case (Cons ld lds)
  obtain l d index sends' where s: "ld = (l, Some (content l))" "sends = (l \<notin> got, index) # sends'"
    "map fst sends' = first_visits (insert l got) lds" "content_of content lds"
    using Cons.prems by (cases ld; cases sends) (auto simp: content_of_def)
  show ?case
    using Cons.IH[OF s(3,4), of "fold b_apply (op_ops (bop rid (ld, (l \<notin> got, index)))) b"] s(1,2)
    by (auto simp: AddBlock_def AddLink_def)
qed simp

lemma chunk_answers:
  assumes "content_of content lds"
    "\<And>l. l \<in> fst ` set lds \<Longrightarrow> mget blocks l = (if l \<in> got then None else Some (content l))"
  shows "answers (got \<union> set seen) lds (response_items (md_pairs (metadata_of lds)) seen blocks)"
  using assms
proof (induction lds arbitrary: seen)
  case (Cons ld lds)
  obtain l where ld: "ld = (l, Some (content l))" "content_of content lds"
    using Cons.prems(1) by (cases ld) (auto simp: content_of_def)
  have "answers (got \<union> set (l # seen)) lds (response_items (md_pairs (metadata_of lds)) (l # seen) blocks)"
    by (rule Cons.IH) (use ld Cons.prems(2) in auto)
  with ld Cons.prems(2)[of l] show ?case by (auto simp: metadata_of_def)
qed (simp add: metadata_of_def)

text \<open>What the operations of one message come to at the requestor.\<close>

lemma ops_part:
  assumes "length sends = length lds"
  shows "fold (part_step rid) (concat (map op_ops (map (bop rid) (zip lds sends)))) None =
    (if lds = [] then None else Some (metadata_of lds, None, []))"
proof (cases lds)
  case (Cons ld lds')
  obtain x sends' where "sends = x # sends'" using Cons assms by (cases sends) auto
  with Cons assms part_blocks[where 'a = 'a, of sends' lds' rid] show ?thesis
    by (cases x; cases ld) (auto simp: part_content_def metadata_of_def)
qed simp

lemma terminal_codes [simp]: "\<not> IsTerminal PartialResponse" "IsTerminal RequestCompletedFull"
  by code_simp+

lemma message_response:
  fixes ops :: "'n response_operation list"
  assumes "fold (part_step rid) (concat (map op_ops ops)) None = Some (ls, code, [])"
  shows "message_events rid picks (ops_message ops) =
    EvIngest picks (md_pairs ls) (block_map (Blocks (ops_message ops))) #
      (if IsTerminal (case code of None \<Rightarrow> PartialResponse | Some st \<Rightarrow> st) then [EvSetRemoteOnline False] else [])"
  using Build_response[OF builder_inv_run, of "concat (map op_ops ops)" rid] part_run[of "concat (map op_ops ops)" rid] assms
  by (simp add: message_events_def ops_message_def NewResponse_def newResponse_def)

lemma message_answers:
  fixes tl :: "'n response_operation list"
  assumes "map fst sends = first_visits got lds" "content_of content lds" "tl = [] \<or> tl = [StatusOperation rid code]"
    and m: "m = ops_message (map (bop rid) (zip lds sends) @ tl)"
  shows "answers got lds (response_items (md_pairs (metadata_of lds)) [] (block_map (Blocks m)))"
proof -
  let ?b = "b_run (concat (map op_ops (map (bop rid) (zip lds sends) @ tl))) :: 'n builder"
  have "mget (b_outgoingBlocks ?b) c =
      mget (b_outgoingBlocks (b_run (concat (map op_ops (map (bop rid) (zip lds sends)))) :: 'n builder)) c" for c
    using assms(3) by (auto simp: b_run_def AddResponseCode_def touch_fields)
  moreover have "mget (block_map (Blocks m)) c = map_option blk_RawData (mget (b_outgoingBlocks ?b) c)" for c
    unfolding m ops_message_def by (rule block_map_lookup[OF builder_inv_run])
  ultimately have "mget (block_map (Blocks m)) l = (if l \<in> got then None else Some (content l))" if "l \<in> fst ` set lds" for l
    using that message_blocks[where 'a = 'n, OF assms(1,2), of rid NewBuilder l] by (simp add: b_run_def) (simp add: NewBuilder_def)
  from chunk_answers[OF assms(2), of "block_map (Blocks m)" got "[]"] this show ?thesis by simp
qed

text \<open>The events of a response come in order: links while there are any, then the end.\<close>

fun orderly :: "rl_event list \<Rightarrow> bool" where
  "orderly [] \<longleftrightarrow> True"
| "orderly (EvIngest picks md blocks # es) \<longleftrightarrow> (md \<noteq> [] \<or> evs_items es = []) \<and> orderly es"
| "orderly (EvSetRemoteOnline b # es) \<longleftrightarrow> \<not> b \<and> evs_items es = [] \<and> orderly es"
| "orderly (EvCleanup # es) \<longleftrightarrow> False"

definition response_events :: "request_id \<Rightarrow> nat option list \<Rightarrow> 'n response_operation list list \<Rightarrow> rl_event list" where
  "response_events rid picks chunks = concat (map (\<lambda>ops. message_events rid picks (ops_message ops)) chunks)"

lemma no_message: "message_events rid picks (ops_message []) = []"
  by (simp add: ops_message_def message_events_def b_run_def Build_def NewBuilder_def)

lemma no_messages: "concat chunks = [] \<Longrightarrow> response_events rid picks chunks = []"
  by (auto simp: response_events_def no_message)

lemma answers_length: "answers got lds is \<Longrightarrow> length is = length lds"
  by (induction got lds "is" rule: answers.induct) auto

lemma split_snoc:
  assumes "c @ r = xs @ [x]"
  shows "length c \<le> length xs \<Longrightarrow> c = take (length c) xs \<and> r = drop (length c) xs @ [x]"
    and "\<not> length c \<le> length xs \<Longrightarrow> c = xs @ [x] \<and> r = []"
  using assms by (auto simp: append_eq_append_conv2 append_eq_Cons_conv)

lemma first_visits_split:
  assumes "map fst sends = first_visits got lds"
  shows "map fst (take k sends) = first_visits got (take k lds)"
    "map fst (drop k sends) = first_visits (got \<union> fst ` set (take k lds)) (drop k lds)"
proof -
  have "length sends = length lds" using arg_cong[OF assms, of length] by simp
  moreover have "map fst (take k sends) @ map fst (drop k sends) =
      first_visits got (take k lds) @ first_visits (got \<union> fst ` set (take k lds)) (drop k lds)"
    using assms first_visits_append[of got "take k lds" "drop k lds"] by (metis append_take_drop_id map_append)
  ultimately show "map fst (take k sends) = first_visits got (take k lds)"
    "map fst (drop k sends) = first_visits (got \<union> fst ` set (take k lds)) (drop k lds)" by (auto simp: append_eq_append_conv)
qed

lemma response_events_answer:
  fixes chunks :: "'n response_operation list list"
  assumes "concat chunks = map (bop rid) (zip lds sends) @ [StatusOperation rid RequestCompletedFull]"
    "length sends = length lds" "map fst sends = first_visits got lds" "content_of content lds"
  shows "orderly (response_events rid picks chunks) \<and> answers got lds (evs_items (response_events rid picks chunks))"
  using assms
proof (induction chunks arbitrary: lds sends got)
  case (Cons c cs)
  let ?es = "message_events rid picks (ops_message c)"
  have es: "response_events rid picks (c # cs) = ?es @ response_events rid picks cs" by (simp add: response_events_def)
  show ?case
  proof (cases "length c \<le> length lds")
    case True
    define k where "k = length c"
    note visits = first_visits_split[OF Cons.prems(3), of k]
    have c: "c = map (bop rid) (zip (take k lds) (take k sends))"
      and cs: "concat cs = map (bop rid) (zip (drop k lds) (drop k sends)) @ [StatusOperation rid RequestCompletedFull]"
      using split_snoc(1)[of c "concat cs"] Cons.prems(1,2) True by (auto simp: k_def take_map drop_map take_zip drop_zip)
    have content: "content_of content (take k lds)" "content_of content (drop k lds)"
      using Cons.prems(4) by (auto simp: content_of_def dest: in_set_takeD in_set_dropD)
    let ?m = "ops_message c"
    have IH: "orderly (response_events rid picks cs)"
      "answers (got \<union> fst ` set (take k lds)) (drop k lds) (evs_items (response_events rid picks cs))"
      using Cons.IH[OF cs _ visits(2) content(2)] Cons.prems(2) by simp_all
    show ?thesis
    proof (cases "take k lds = []")
      case True
      with c IH es show ?thesis by (auto simp: no_message)
    next
      case False
      have "?es = [EvIngest picks (md_pairs (metadata_of (take k lds))) (block_map (Blocks ?m))]"
        using message_response[of rid c] ops_part[where 'a = 'n, of "take k sends" "take k lds" rid] False c Cons.prems(2)
        by simp
      moreover have "answers got (take k lds) (response_items (md_pairs (metadata_of (take k lds))) [] (block_map (Blocks ?m)))"
        by (rule message_answers[OF visits(1) content(1), where tl = "[]"]) (use c in auto)
      from answers_append[OF this IH(2)]
      have "answers got lds (response_items (md_pairs (metadata_of (take k lds))) [] (block_map (Blocks ?m)) @ evs_items (response_events rid picks cs))"
        by simp
      ultimately show ?thesis using IH(1) es False by (simp add: metadata_of_def)
    qed
  next
    case False
    have c: "c = map (bop rid) (zip lds sends) @ [StatusOperation rid RequestCompletedFull]" "concat cs = []"
      using split_snoc(2)[of c "concat cs"] Cons.prems(1,2) False by auto
    have "?es = [EvIngest picks (md_pairs (metadata_of lds)) (block_map (Blocks (ops_message c))), EvSetRemoteOnline False]"
      using message_response[of rid c] part_response[where 'a = 'n, OF Cons.prems(2), of rid RequestCompletedFull] c(1)
      by simp
    with message_answers[OF Cons.prems(3,4) disjI2[OF refl] refl, where 'n = 'n] c es no_messages[OF c(2)] show ?thesis
      by simp
  qed
qed simp

section \<open>Timing\<close>

text \<open>How the events fall between the loads: \<open>ns\<close> says how many have arrived when each load starts; a load that finds the queue
  empty then waits for the next one.\<close>

definition quiet_input :: "rl_event list \<Rightarrow> rl_event list \<Rightarrow> 'n ex_input" where
  "quiet_input before waiting = \<lparr>xi_before = before, xi_waiting = waiting, xi_lastResponse = NewResponse [] 0 [] [],
     xi_cancelled = False, xi_paused = False\<rparr>"

fun schedule :: "nat list \<Rightarrow> remote_item list \<Rightarrow> rl_event list \<Rightarrow> 'n ex_input list" where
  "schedule [] q es = []"
| "schedule (n # ns) q es =
     (let q = q @ evs_items (take n es); es' = drop n es
      in case q of
           i # is \<Rightarrow> quiet_input (take n es) [] # schedule ns is es'
         | [] \<Rightarrow> quiet_input (take n es) (take 1 es') # schedule ns (tl (evs_items (take 1 es'))) (drop 1 es'))"

lemma arrive_prefix:
  assumes "orderly es" "opened \<or> evs_items es = []"
  shows "\<exists>opened'. arrive (take n es) (opened, q) = Some (opened', q @ evs_items (take n es)) \<and>
    (opened' \<or> evs_items (drop n es) = []) \<and> orderly (drop n es)"
  using assms
proof (induction es arbitrary: n opened q)
  case (Cons e es)
  show ?case
  proof (cases n)
    case (Suc m)
    show ?thesis
    proof (cases e)
      case (EvIngest picks md blocks)
      with Suc Cons.prems Cons.IH[of opened m "q @ (if opened then response_items md [] blocks else [])"] show ?thesis by auto
    next
      case (EvSetRemoteOnline b)
      with Suc Cons.prems Cons.IH[of False m q] show ?thesis by auto
    qed (use Cons.prems in auto)
  qed (use Cons.prems in auto)
qed auto

lemma orderly_head:
  assumes "orderly es" "evs_items es \<noteq> []"
  shows "\<exists>picks md blocks es'. es = EvIngest picks md blocks # es' \<and> md \<noteq> [] \<and> orderly es'"
  using assms by (cases es rule: orderly.cases) (auto simp del: concat_eq_Nil_conv)

lemma schedule_feeds:
  assumes "orderly es" "opened \<or> evs_items es = []" "items = q @ evs_items es" "length items \<le> length ns"
  shows "feeds (schedule ns q es :: 'n ex_input list) opened q items"
  using assms
proof (induction ns arbitrary: q es opened items)
  case Nil
  then have "items = []" by simp
  then show ?case by simp
next
  case (Cons n ns)
  note prems = Cons.prems and IH = Cons.IH
  show ?case
  proof (cases items)
    case (Cons x xs)
    from arrive_prefix[OF prems(1,2), of n q] obtain opened' where
      a: "arrive (take n es) (opened, q) = Some (opened', q @ evs_items (take n es))"
        "opened' \<or> evs_items (drop n es) = []" "orderly (drop n es)" by blast
    have "evs_items es = evs_items (take n es) @ evs_items (drop n es)"
      by (metis append_take_drop_id concat_append map_append)
    with Cons prems(3) have items: "x # xs = (q @ evs_items (take n es)) @ evs_items (drop n es)" by simp
    show ?thesis
    proof (cases "q @ evs_items (take n es)")
      case Nil
      then have rest: "x # xs = evs_items (drop n es)" using items by simp
      then obtain picks md blocks es' where es': "drop n es = EvIngest picks md blocks # es'" "md \<noteq> []" "orderly es'"
        using orderly_head[OF a(3)] by (metis list.distinct(1))
      with rest obtain ys where ys: "response_items md [] blocks = x # ys" "xs = ys @ evs_items es'" by (cases md) auto
      with IH[of es' True xs ys] es'(3) prems(4) have "feeds (schedule ns ys es' :: 'n ex_input list) True ys xs" using Cons by simp
      with Nil Cons a(1,2) es' ys show ?thesis
        by (simp add: next_ex_input_def quiet_input_def Let_def del: concat_eq_Nil_conv)
    next
      case (Cons i "is")
      with IH[OF a(3,2), of xs "is"] items prems(4) \<open>items = x # xs\<close>
      have "feeds (schedule ns is (drop n es) :: 'n ex_input list) opened' is xs" by simp
      with Cons \<open>items = x # xs\<close> a(1) items show ?thesis by (simp add: next_ex_input_def quiet_input_def)
    qed
  qed simp
qed

section \<open>The exchange\<close>

text \<open>C1: A request completes: when the responder has every block of the graph that the selector visits, its query ends without an
  error, and however its operations are put into messages and whenever these arrive, the requestor, which has none of
  it, sends one request, walks the same graph to its end and holds every block of it in its store.\<close>

theorem exchange_completes:
  fixes renv :: "'n qe_env" and st :: "('n, 's) ex_state"
  assumes responder: "visits renv (WalkLoad root ctx k) = (lds, None)" "content_of content lds" "silent_hooks renv"
    and requestor: "ex_traverser st = tv_Start (WalkLoad root ctx k)"
      "ex_loader st = NewReconciledLoader lsys s \<lparr>cells = [], pool = []\<rparr>"
      "store_law lsys" "reads lsys s ctx root = None" "no_hooks env" "rt_DoNotSendFirstBlocks rt \<le> 0"
  shows "\<exists>qst. executeQuery renv rid [] (tv_Start (WalkLoad root ctx k)) \<lparr>qe_tracker = newTracker, qe_log = []\<rparr> =
      Some (None, qst :: 'n qe_state) \<and>
    (\<forall>messages picks ns. concat messages = concat (qe_log qst) \<and> length lds \<le> length ns \<and> hd ns = 0 \<longrightarrow>
      (\<exists>st'. traverse env rt (schedule ns [] (response_events rid picks messages)) False st = Some (None, st') \<and>
        ex_log st' = ex_log st @ [ExSendRequest (rt_P rt) (rt_Request rt)] \<and>
        (\<forall>l d. (l, d) \<in> set lds \<longrightarrow> (\<forall>lctx. reads lsys (rl_store (ex_loader st')) lctx l = d))))"
proof -
  let ?w = "WalkLoad root ctx k"
  from response_log[OF responder, of rid] obtain sends qst where
    q: "executeQuery renv rid [] (tv_Start ?w) \<lparr>qe_tracker = newTracker, qe_log = []\<rparr> = Some (None, qst)"
      "length sends = length lds" "map fst sends = first_visits {} lds"
      "qe_log qst = block_ops rid lds sends @ [[StatusOperation rid RequestCompletedFull]]" by blast
  have "\<exists>st'. traverse env rt (schedule ns [] (response_events rid picks messages)) False st = Some (None, st') \<and>
      ex_log st' = ex_log st @ [ExSendRequest (rt_P rt) (rt_Request rt)] \<and> holds_blocks content (fst ` set lds) (ex_loader st') \<and>
      rl_lsys (ex_loader st') = lsys"
    if m: "concat messages = concat (qe_log qst)" "length lds \<le> length ns" "hd ns = 0" for messages picks ns
  proof -
    let ?es = "response_events rid picks messages"
    have "orderly ?es \<and> answers {} lds (evs_items ?es)"
      by (rule response_events_answer[OF _ q(2,3) responder(2)]) (simp add: m(1) q(4) concat_block_ops)
    then have es: "orderly ?es" "answers {} lds (evs_items ?es)" by blast+
    have len: "length (evs_items ?es) \<le> length ns" using answers_length[OF es(2)] m(2) by simp
    have fed: "feeds (schedule ns [] ?es :: 'n ex_input list) True [] (evs_items ?es)"
      by (rule schedule_feeds[OF es(1) _ _ len]) simp_all
    have before: "xi_before (fst (next_ex_input (schedule ns [] ?es :: 'n ex_input list))) = []"
      using m(3) by (cases ns) (auto simp: next_ex_input_def quiet_input_def Let_def)
    note f = request_fed[OF requestor(1) responder(1,2) _ _ _ es(2) before fed requestor(5,6)]
    show ?thesis
      using f requestor(2-4) fresh_new[of lsys s] by (simp add: NewReconciledLoader_def)
  qed
  moreover have "reads lsys (rl_store rl) lctx l = d"
    if "holds_blocks content (fst ` set lds) rl" "rl_lsys rl = lsys" "(l, d) \<in> set lds" for rl lctx l d
    using that responder(2) by (force simp: holds_blocks_def content_of_def)
  ultimately show ?thesis using q(1) by blast
qed

subsection \<open>Witness: a graph of two blocks, one of them visited twice\<close>

definition exchange_walk :: walk where
  "exchange_walk = WalkLoad ''a'' [] (\<lambda>r. WalkLoad ''b'' [''x''] (\<lambda>r. WalkLoad ''a'' [''x'', ''y''] (\<lambda>r. WalkDone None)))"

definition exchange_env :: "simple_node qe_env" where
  "exchange_env = demo_env\<lparr>qe_Loader := (\<lambda>ctx l. Inr (Inr (if l = ''a'' then [1, 2] else [3])))\<rparr>"

definition map_blockstore :: "(cid, block) gomap blockstore" where
  "map_blockstore =
     \<lparr>bs_Get = (\<lambda>st c. case mget st c of None \<Rightarrow> Inl (OtherErr ''block not found'') | Some block \<Rightarrow> Inr block),
      bs_Put = (\<lambda>st block. Inr (mput (blk_Cid block) block st))\<rparr>"

definition map_lsys_store :: "(cid, block) gomap link_system" where
  "map_lsys_store = LinkSystemForBlockstore (\<lambda>d c. Inr \<lparr>blk_Cid = c, blk_RawData = d\<rparr>) map_blockstore"

definition exchange_state :: "(simple_node, (cid, block) gomap) ex_state" where
  "exchange_state = \<lparr>ex_traverser = tv_Start exchange_walk, ex_loader = NewReconciledLoader map_lsys_store [] \<lparr>cells = [], pool = []\<rparr>,
     ex_log = []\<rparr>"

lemma map_lsys_law: "store_law map_lsys_store"
  unfolding map_lsys_store_def
  by (rule blockstore_store_law) (auto simp: blockstore_law_def map_blockstore_def new_block_law_def)

theorem exchange_completes_witness:
  "\<exists>qst st'. executeQuery exchange_env ''q'' [] (tv_Start exchange_walk) \<lparr>qe_tracker = newTracker, qe_log = []\<rparr> = Some (None, qst) \<and>
     traverse example_ex_env example_task (schedule [0, 1, 0] [] (response_events ''q'' [] (qe_log qst))) False exchange_state =
       Some (None, st') \<and>
     length (ex_log st') = 1 \<and> reads map_lsys_store (rl_store (ex_loader st')) [] ''b'' = Some [3]"
proof -
  let ?lds = "[(''a'', Some [1, 2]), (''b'', Some [3]), (''a'', Some [1, 2])] :: (cid \<times> bytes option) list"
  let ?content = "\<lambda>l :: cid. if l = ''a'' then [1, 2] else [3] :: bytes"
  have w: "exchange_walk = WalkLoad ''a'' [] (\<lambda>r. WalkLoad ''b'' [''x''] (\<lambda>r. WalkLoad ''a'' [''x'', ''y''] (\<lambda>r. WalkDone None)))"
    by (simp add: exchange_walk_def)
  have v: "visits exchange_env (WalkLoad ''a'' [] (\<lambda>r. WalkLoad ''b'' [''x''] (\<lambda>r. WalkLoad ''a'' [''x'', ''y''] (\<lambda>r. WalkDone None)))) = (?lds, None)"
    by (simp add: exchange_env_def demo_env_def)
  have c: "content_of ?content ?lds" by (simp add: content_of_def)
  have hooks: "silent_hooks exchange_env" "no_hooks example_ex_env"
    by (simp_all add: silent_hooks_def exchange_env_def demo_env_def no_hooks_def example_ex_env_def)
  have st: "ex_traverser exchange_state = tv_Start exchange_walk"
    "ex_loader exchange_state = NewReconciledLoader map_lsys_store [] \<lparr>cells = [], pool = []\<rparr>" by (simp_all add: exchange_state_def)
  have root: "reads map_lsys_store [] [] ''a'' = None" by (simp add: map_lsys_store_def blockstore_reads map_blockstore_def)
  have skip: "rt_DoNotSendFirstBlocks example_task \<le> 0" by (simp add: example_task_def)
  from exchange_completes[OF v c hooks(1) st(1)[unfolded w] st(2) map_lsys_law root hooks(2) skip, of "''q''"] obtain qst where
    q: "executeQuery exchange_env ''q'' [] (tv_Start exchange_walk) \<lparr>qe_tracker = newTracker, qe_log = []\<rparr> = Some (None, qst)"
    and all: "\<And>messages picks ns. concat messages = concat (qe_log qst) \<Longrightarrow> length ?lds \<le> length ns \<Longrightarrow> hd ns = 0 \<Longrightarrow>
      \<exists>st'. traverse example_ex_env example_task (schedule ns [] (response_events ''q'' picks messages)) False exchange_state = Some (None, st') \<and>
        ex_log st' = ex_log exchange_state @ [ExSendRequest (rt_P example_task) (rt_Request example_task)] \<and>
        (\<forall>l d. (l, d) \<in> set ?lds \<longrightarrow> (\<forall>lctx. reads map_lsys_store (rl_store (ex_loader st')) lctx l = d))"
    unfolding w by blast
  from all[OF refl, of "[0, 1, 0]" "[]"] q show ?thesis
    by (auto simp: exchange_state_def)
qed

end
