(* ===== verification/GraphSync.thy ===== *)
theory GraphSync
  imports Request_Manager Response_Manager Allocator Event_Machine
begin

text \<open>
  \<^verbatim>\<open>impl/graphsync.go\<close>: the exchange, which builds the components from its options, hands incoming messages to the two
  managers and offers one set of calls for requests and responses. A call sends a message to the request manager and waits;
  when that does not know the request it does the same with the response manager. The goroutines of the exchange (the loops of
  the managers, the callers, the network) are the events of a machine; the channels of the managers are lists.
\<close>

section \<open>Options\<close>

definition maxRecursionDepth :: int where "maxRecursionDepth = 100"
definition defaultTotalMaxMemory :: u64 where "defaultTotalMaxMemory = push_bit 20 256"
definition defaultMaxMemoryPerPeer :: u64 where "defaultMaxMemoryPerPeer = push_bit 20 16"
definition defaultMaxInProgressRequests :: u64 where "defaultMaxInProgressRequests = 6"
definition defaultMessageSendRetries :: int where "defaultMessageSendRetries = 10"

text \<open>In nanoseconds.\<close>

definition defaultSendMessageTimeout :: int where "defaultSendMessageTimeout = 10 * 60 * 1000000000"

record gs_config =
  totalMaxMemoryResponder :: u64
  maxMemoryPerPeerResponder :: u64
  maxInProgressIncomingRequests :: u64
  maxInProgressIncomingRequestsPerPeer :: u64
  maxInProgressOutgoingRequests :: u64
  registerDefaultValidator :: bool
  maxLinksPerOutgoingRequest :: u64
  maxLinksPerIncomingRequest :: u64
  messageSendRetries :: int
  sendMessageTimeout :: int

type_synonym gs_option = "gs_config \<Rightarrow> gs_config"

definition RejectAllRequestsByDefault :: gs_option where
  "RejectAllRequestsByDefault gs = gs\<lparr>registerDefaultValidator := False\<rparr>"

definition MaxMemoryResponder :: "u64 \<Rightarrow> gs_option" where
  "MaxMemoryResponder totalMaxMemory gs = gs\<lparr>totalMaxMemoryResponder := totalMaxMemory\<rparr>"

definition MaxMemoryPerPeerResponder :: "u64 \<Rightarrow> gs_option" where
  "MaxMemoryPerPeerResponder maxMemoryPerPeer gs = gs\<lparr>maxMemoryPerPeerResponder := maxMemoryPerPeer\<rparr>"

definition MaxInProgressIncomingRequests :: "u64 \<Rightarrow> gs_option" where
  "MaxInProgressIncomingRequests n gs = gs\<lparr>maxInProgressIncomingRequests := n\<rparr>"

definition MaxInProgressIncomingRequestsPerPeer :: "u64 \<Rightarrow> gs_option" where
  "MaxInProgressIncomingRequestsPerPeer n gs = gs\<lparr>maxInProgressIncomingRequestsPerPeer := n\<rparr>"

definition MaxInProgressOutgoingRequests :: "u64 \<Rightarrow> gs_option" where
  "MaxInProgressOutgoingRequests n gs = gs\<lparr>maxInProgressOutgoingRequests := n\<rparr>"

definition MaxLinksPerOutgoingRequests :: "u64 \<Rightarrow> gs_option" where
  "MaxLinksPerOutgoingRequests n gs = gs\<lparr>maxLinksPerOutgoingRequest := n\<rparr>"

definition MaxLinksPerIncomingRequests :: "u64 \<Rightarrow> gs_option" where
  "MaxLinksPerIncomingRequests n gs = gs\<lparr>maxLinksPerIncomingRequest := n\<rparr>"

definition MessageSendRetries :: "int \<Rightarrow> gs_option" where
  "MessageSendRetries n gs = gs\<lparr>messageSendRetries := n\<rparr>"

definition SendMessageTimeout :: "int \<Rightarrow> gs_option" where
  "SendMessageTimeout t gs = gs\<lparr>sendMessageTimeout := t\<rparr>"

definition gs_default :: gs_config where
  "gs_default =
     \<lparr>totalMaxMemoryResponder = defaultTotalMaxMemory, maxMemoryPerPeerResponder = defaultMaxMemoryPerPeer,
      maxInProgressIncomingRequests = defaultMaxInProgressRequests, maxInProgressIncomingRequestsPerPeer = 0,
      maxInProgressOutgoingRequests = defaultMaxInProgressRequests, registerDefaultValidator = True,
      maxLinksPerOutgoingRequest = 0, maxLinksPerIncomingRequest = 0,
      messageSendRetries = defaultMessageSendRetries, sendMessageTimeout = defaultSendMessageTimeout\<rparr>"

definition gs_configure :: "gs_option list \<Rightarrow> gs_config" where
  "gs_configure options = foldl (\<lambda>gsConfig option. option gsConfig) gs_default options"

section \<open>State\<close>

text \<open>A call of the user and how far it is: waiting for the request manager's answer, for the response manager's, or returned.\<close>

datatype 'n gs_call =
    Pause request_id
  | Unpause request_id "'n ext_data list"
  | Cancel request_id
  | SendUpdate request_id "'n ext_data list"

datatype call_status = AskedRequests nat | AskedResponses nat | Returned "gs_error option"

record ('n, 's) graph_sync =
  gs_requestManager :: "('n, 's) request_manager"
  gs_requestMessages :: "'n rm_message list"
  gs_responseManager :: "('n, 's store_system) response_manager"
  gs_responseMessages :: "'n rsm_message list"
  gs_peerManager :: peer_manager
  gs_responseAllocator :: allocator
  gs_validator :: "int option"
  gs_requestWorkers :: u64
  gs_responseWorkers :: u64
  gs_maxOutstandingWorkPerPeer :: "i64 option"
  gs_queueOptions :: "int \<times> int"
  gs_receiverErrors :: "(peer_id \<times> gs_error) list"
  gs_calls :: "('n gs_call \<times> call_status) list"
  gs_nextChan :: nat
  gs_done :: bool
  gs_stopped :: "bool \<times> bool"

definition gs_New :: "'s store_system \<Rightarrow> gs_option list \<Rightarrow> ('n, 's) graph_sync" where
  "gs_New linkSystem options =
     (let gsConfig = gs_configure options
      in \<lparr>gs_requestManager = rm_New [] linkSystem (maxLinksPerOutgoingRequest gsConfig), gs_requestMessages = [],
          gs_responseManager = rsm_New linkSystem (maxLinksPerIncomingRequest gsConfig), gs_responseMessages = [],
          gs_peerManager = pm_New True,
          gs_responseAllocator = NewAllocator (totalMaxMemoryResponder gsConfig) (maxMemoryPerPeerResponder gsConfig),
          gs_validator = (if registerDefaultValidator gsConfig then Some maxRecursionDepth else None),
          gs_requestWorkers = maxInProgressOutgoingRequests gsConfig,
          gs_responseWorkers = maxInProgressIncomingRequests gsConfig,
          gs_maxOutstandingWorkPerPeer =
            (if maxInProgressIncomingRequestsPerPeer gsConfig > 0
             then Some (sint (maxInProgressIncomingRequestsPerPeer gsConfig)) else None),
          gs_queueOptions = (messageSendRetries gsConfig, sendMessageTimeout gsConfig),
          gs_receiverErrors = [], gs_calls = [], gs_nextChan = 0, gs_done = False, gs_stopped = (False, False)\<rparr>)"

section \<open>Calls of the managers\<close>

text \<open>The messages that the managers' own calls, \<^verbatim>\<open>client.go\<close> of each, send, with the channel for the answer.\<close>

definition rm_PauseRequest :: "request_id \<Rightarrow> nat \<Rightarrow> 'n rm_message" where
  "rm_PauseRequest requestID response = PauseRequestMessage requestID response"

definition rm_UnpauseRequest :: "request_id \<Rightarrow> 'n ext_data list \<Rightarrow> nat \<Rightarrow> 'n rm_message" where
  "rm_UnpauseRequest requestID extensions response = UnpauseRequestMessage requestID extensions response"

definition rm_UpdateRequest :: "request_id \<Rightarrow> 'n ext_data list \<Rightarrow> nat \<Rightarrow> 'n rm_message" where
  "rm_UpdateRequest requestID extensions response = UpdateRequestMessage requestID extensions response"

definition PauseResponse :: "request_id \<Rightarrow> nat \<Rightarrow> 'n rsm_message" where
  "PauseResponse requestID response = RsPauseRequestMessage requestID response"

definition UnpauseResponse :: "request_id \<Rightarrow> 'n ext_data list \<Rightarrow> nat \<Rightarrow> 'n rsm_message" where
  "UnpauseResponse requestID extensions response = RsUnpauseRequestMessage requestID response extensions"

definition UpdateResponse :: "request_id \<Rightarrow> 'n ext_data list \<Rightarrow> nat \<Rightarrow> 'n rsm_message" where
  "UpdateResponse requestID extensions response = RsUpdateRequestMessage requestID extensions response"

text \<open>Which of them a call of the exchange uses first and, for a request that is not found, next.\<close>

fun ask_requests :: "'n gs_call \<Rightarrow> nat \<Rightarrow> 'n rm_message" where
  "ask_requests (Pause requestID) ch = rm_PauseRequest requestID ch"
| "ask_requests (Unpause requestID extensions) ch = rm_UnpauseRequest requestID extensions ch"
| "ask_requests (Cancel requestID) ch = rm_CancelRequest requestID ch"
| "ask_requests (SendUpdate requestID extensions) ch = rm_UpdateRequest requestID extensions ch"

fun ask_responses :: "'n gs_call \<Rightarrow> nat \<Rightarrow> 'n rsm_message" where
  "ask_responses (Pause requestID) ch = PauseResponse requestID ch"
| "ask_responses (Unpause requestID extensions) ch = UnpauseResponse requestID extensions ch"
| "ask_responses (Cancel requestID) ch = CancelResponse requestID ch"
| "ask_responses (SendUpdate requestID extensions) ch = UpdateResponse requestID extensions ch"

text \<open>Sending to a manager: nothing is sent when the context of the call has ended.\<close>

definition rm_send :: "bool \<Rightarrow> 'n rm_message \<Rightarrow> ('n, 's) graph_sync \<Rightarrow> ('n, 's) graph_sync" where
  "rm_send ok m gs = (if ok then gs\<lparr>gs_requestMessages := gs_requestMessages gs @ [m]\<rparr> else gs)"

definition rsm_send :: "bool \<Rightarrow> 'n rsm_message \<Rightarrow> ('n, 's) graph_sync \<Rightarrow> ('n, 's) graph_sync" where
  "rsm_send ok m gs = (if ok then gs\<lparr>gs_responseMessages := gs_responseMessages gs @ [m]\<rparr> else gs)"

text \<open>The answer on a channel.\<close>

fun rm_answer :: "nat \<Rightarrow> 'n rm_call list \<Rightarrow> gs_error option option" where
  "rm_answer ch [] = None"
| "rm_answer ch (Reply ch' err # cs) = (if ch' = ch then Some err else rm_answer ch cs)"
| "rm_answer ch (_ # cs) = rm_answer ch cs"

fun rsm_answer :: "nat \<Rightarrow> 'n rsm_call list \<Rightarrow> gs_error option option" where
  "rsm_answer ch [] = None"
| "rsm_answer ch (RsReply ch' err # cs) = (if ch' = ch then Some err else rsm_answer ch cs)"
| "rsm_answer ch (_ # cs) = rsm_answer ch cs"

section \<open>The calls of the exchange\<close>

definition begin_call :: "'n gs_call \<Rightarrow> bool \<Rightarrow> ('n, 's) graph_sync \<Rightarrow> ('n, 's) graph_sync" where
  "begin_call c ok gs =
     (let ch = gs_nextChan gs
      in rm_send ok (ask_requests c ch)
           (gs\<lparr>gs_nextChan := ch + 1, gs_calls := gs_calls gs @ [(c, AskedRequests ch)]\<rparr>))"

definition set_call :: "nat \<Rightarrow> 'n gs_call \<times> call_status \<Rightarrow> ('n, 's) graph_sync \<Rightarrow> ('n, 's) graph_sync" where
  "set_call i c gs = gs\<lparr>gs_calls := (gs_calls gs)[i := c]\<rparr>"

text \<open>A call whose manager has answered: it returns, or goes on to the response manager.\<close>

definition go_on :: "nat \<Rightarrow> bool \<Rightarrow> ('n, 's) graph_sync \<Rightarrow> ('n, 's) graph_sync option" where
  "go_on i ok gs =
     (if i \<ge> length (gs_calls gs) then None
      else
        case gs_calls gs ! i of
          (c, AskedRequests ch) \<Rightarrow>
            (case rm_answer ch (rm_calls (gs_requestManager gs)) of
               None \<Rightarrow> None
             | Some err \<Rightarrow>
                 if err \<noteq> Some RequestNotFoundErr then Some (set_call i (c, Returned err) gs)
                 else
                   let ch = gs_nextChan gs
                   in Some (rsm_send ok (ask_responses c ch) (set_call i (c, AskedResponses ch) (gs\<lparr>gs_nextChan := ch + 1\<rparr>))))
        | (c, AskedResponses ch) \<Rightarrow>
            map_option (\<lambda>err. set_call i (c, Returned err) gs) (rsm_answer ch (rsm_calls (gs_responseManager gs)))
        | (c, Returned err) \<Rightarrow> None)"

definition give_up :: "nat \<Rightarrow> ('n, 's) graph_sync \<Rightarrow> ('n, 's) graph_sync option" where
  "give_up i gs =
     (if i \<ge> length (gs_calls gs) \<or> \<not> gs_done gs then None
      else case gs_calls gs ! i of
             (c, Returned err) \<Rightarrow> None
           | (c, _) \<Rightarrow> Some (set_call i (c, Returned (Some (OtherErr ''context cancelled''))) gs))"

definition RegisterPersistenceOption ::
  "string \<Rightarrow> 's store_system \<Rightarrow> ('n, 's) graph_sync \<Rightarrow> gs_error option \<times> ('n, 's) graph_sync" where
  "RegisterPersistenceOption name lsys gs =
     (case po_Register (rm_persistenceOptions (gs_requestManager gs)) name lsys of
        Inl err \<Rightarrow> (Some err, gs)
      | Inr po \<Rightarrow> (None, gs\<lparr>gs_requestManager := (gs_requestManager gs)\<lparr>rm_persistenceOptions := po\<rparr>\<rparr>))"

definition UnregisterPersistenceOption :: "string \<Rightarrow> ('n, 's) graph_sync \<Rightarrow> gs_error option \<times> ('n, 's) graph_sync" where
  "UnregisterPersistenceOption name gs =
     (case po_Unregister (rm_persistenceOptions (gs_requestManager gs)) name of
        Inl err \<Rightarrow> (Some err, gs)
      | Inr po \<Rightarrow> (None, gs\<lparr>gs_requestManager := (gs_requestManager gs)\<lparr>rm_persistenceOptions := po\<rparr>\<rparr>))"

section \<open>The receiver of the network's events\<close>

definition ReceiveMessage :: "peer_id \<Rightarrow> 'n gs_message \<Rightarrow> ('n, 's) graph_sync \<Rightarrow> ('n, 's) graph_sync" where
  "ReceiveMessage sender incoming gs =
     (let requests = Requests incoming;
          responses = Responses incoming;
          blocks = Blocks incoming;
          gs = (if length requests > 0 then rsm_send True (ProcessRequestsMessage sender requests) gs else gs)
      in if length responses > 0 \<or> length blocks > 0
         then rm_send True (ProcessResponsesMessage sender responses blocks) gs else gs)"

definition ReceiveError :: "peer_id \<Rightarrow> gs_error \<Rightarrow> ('n, 's) graph_sync \<Rightarrow> ('n, 's) graph_sync" where
  "ReceiveError p err gs = gs\<lparr>gs_receiverErrors := gs_receiverErrors gs @ [(p, err)]\<rparr>"

definition gs_Connected :: "peer_id \<Rightarrow> ('n, 's) graph_sync \<Rightarrow> ('n, 's) graph_sync" where
  "gs_Connected p gs = gs\<lparr>gs_peerManager := pm_Connected (gs_peerManager gs) p\<rparr>"

definition gs_Disconnected :: "peer_id \<Rightarrow> ('n, 's) graph_sync \<Rightarrow> ('n, 's) graph_sync" where
  "gs_Disconnected p gs = gs\<lparr>gs_peerManager := pm_Disconnected (gs_peerManager gs) p\<rparr>"

section \<open>The machine\<close>

text \<open>Messages for a manager that are no calls of the user: new requests, and what executors and subscribers send.\<close>

fun answers_call :: "'n rm_message \<Rightarrow> nat option" where
  "answers_call (UpdateRequestMessage rid extensions ch) = Some ch"
| "answers_call (PauseRequestMessage rid ch) = Some ch"
| "answers_call (UnpauseRequestMessage rid extensions ch) = Some ch"
| "answers_call (CancelRequestMessage rid ch err) = ch"
| "answers_call _ = None"

fun rs_answers_call :: "'n rsm_message \<Rightarrow> nat option" where
  "rs_answers_call (RsUpdateRequestMessage rid extensions ch) = Some ch"
| "rs_answers_call (RsPauseRequestMessage rid ch) = Some ch"
| "rs_answers_call (RsUnpauseRequestMessage rid ch extensions) = Some ch"
| "rs_answers_call (ErrorRequestMessage rid e ch) = Some ch"
| "rs_answers_call (SynchronizeMessage ch) = Some ch"
| "rs_answers_call _ = None"

datatype 'n gs_event =
    EvCall "'n gs_call" bool
  | EvAnswered nat bool
  | EvGiveUp nat
  | EvRequestTurn bool
  | EvResponseTurn bool
  | EvToRequests "'n rm_message"
  | EvToResponses "'n rsm_message"
  | EvNetworkError request_id
  | EvReceiveMessage peer_id "'n gs_message"
  | EvReceiveError peer_id gs_error
  | EvConnected peer_id
  | EvDisconnected peer_id
  | EvShutdown

type_synonym ('n, 's) gs_env = "'n rm_env \<times> ('n, 's store_system) rsm_env"

text \<open>One turn of the loop of a manager: it handles a message, or returns when its context has ended.\<close>

definition request_turn :: "'n rm_env \<Rightarrow> bool \<Rightarrow> ('n, 's) graph_sync \<Rightarrow> ('n, 's) graph_sync option" where
  "request_turn env quit gs =
     (if fst (gs_stopped gs) then None
      else if quit
      then if gs_done gs
           then Some (gs\<lparr>gs_requestManager := cleanupInProcessRequests (gs_requestManager gs), gs_stopped := (True, snd (gs_stopped gs))\<rparr>)
           else None
      else case gs_requestMessages gs of
             [] \<Rightarrow> None
           | m # ms \<Rightarrow> map_option (\<lambda>rm. gs\<lparr>gs_requestManager := rm, gs_requestMessages := ms\<rparr>)
                         (rm_handle env (gs_done gs) m (gs_requestManager gs)))"

definition response_turn :: "('n, 's store_system) rsm_env \<Rightarrow> bool \<Rightarrow> ('n, 's) graph_sync \<Rightarrow> ('n, 's) graph_sync option" where
  "response_turn env quit gs =
     (if snd (gs_stopped gs) then None
      else if quit
      then if gs_done gs
           then Some (gs\<lparr>gs_responseManager := cleanupInProcessResponses (gs_responseManager gs), gs_stopped := (fst (gs_stopped gs), True)\<rparr>)
           else None
      else case gs_responseMessages gs of
             [] \<Rightarrow> None
           | m # ms \<Rightarrow> map_option (\<lambda>rm. gs\<lparr>gs_responseManager := rm, gs_responseMessages := ms\<rparr>)
                         (rsm_handle env (gs_done gs) m (gs_responseManager gs)))"

fun gs_step :: "('n, 's) gs_env \<Rightarrow> ('n, 's) graph_sync \<Rightarrow> 'n gs_event \<Rightarrow> ('n, 's) graph_sync option" where
  "gs_step env gs (EvCall c ok) = Some (begin_call c ok gs)"
| "gs_step env gs (EvAnswered i ok) = go_on i ok gs"
| "gs_step env gs (EvGiveUp i) = give_up i gs"
| "gs_step env gs (EvRequestTurn quit) = request_turn (fst env) quit gs"
| "gs_step env gs (EvResponseTurn quit) = response_turn (snd env) quit gs"
| "gs_step env gs (EvToRequests m) = (if answers_call m = None then Some (rm_send True m gs) else None)"
| "gs_step env gs (EvToResponses m) = (if rs_answers_call m = None then Some (rsm_send True m gs) else None)"
| "gs_step env gs (EvNetworkError rid) =
     Some (rsm_send True (CloseWithNetworkError rid (gs_nextChan gs)) (gs\<lparr>gs_nextChan := gs_nextChan gs + 1\<rparr>))"
| "gs_step env gs (EvReceiveMessage p m) = Some (ReceiveMessage p m gs)"
| "gs_step env gs (EvReceiveError p err) = Some (ReceiveError p err gs)"
| "gs_step env gs (EvConnected p) = Some (gs_Connected p gs)"
| "gs_step env gs (EvDisconnected p) = Some (gs_Disconnected p gs)"
| "gs_step env gs EvShutdown = Some (gs\<lparr>gs_done := True\<rparr>)"

primrec gs_run :: "('n, 's) gs_env \<Rightarrow> 'n gs_event list \<Rightarrow> ('n, 's) graph_sync \<Rightarrow> ('n, 's) graph_sync option" where
  "gs_run env [] gs = Some gs"
| "gs_run env (e # es) gs = Option.bind (gs_step env gs e) (gs_run env es)"

interpretation gsm: event_machine "gs_step env" "gs_run env" for env
  by unfold_locales simp_all

section \<open>A caller that waits for the end of a request\<close>

text \<open>Whoever cancels a request is answered at once, or is on the list of those to answer when the request ends.\<close>

definition attended :: "request_id \<Rightarrow> nat \<Rightarrow> ('n, 's) request_manager \<Rightarrow> bool" where
  "attended rid ch rm \<longleftrightarrow> (\<exists>e. Reply ch e \<in> set (rm_calls rm)) \<or>
     (\<exists>ipr. mget (rm_inProgress rm) rid = Some ipr \<and> ch \<in> set (ipr_onTerminated ipr))"

definition keeps_waiting :: "nat set \<Rightarrow> ('n, 's) request_manager \<Rightarrow> ('n, 's) request_manager \<Rightarrow> bool" where
  "keeps_waiting C rm rm' \<longleftrightarrow> (\<forall>rid ch. attended rid ch rm \<longrightarrow> attended rid ch rm') \<and>
     (\<forall>rid ch. attended rid ch rm' \<longrightarrow> ch \<in> C \<or> (\<exists>rid. attended rid ch rm)) \<and>
     set (rm_calls rm) \<subseteq> set (rm_calls rm') \<and> dom (mget (rm_inProgress rm')) \<subseteq> dom (mget (rm_inProgress rm))"

lemma keeps_waiting_refl [simp]: "keeps_waiting C rm rm"
  by (auto simp: keeps_waiting_def)

lemma keeps_waiting_trans: "keeps_waiting C a b \<Longrightarrow> keeps_waiting C b c \<Longrightarrow> keeps_waiting C a c"
  unfolding keeps_waiting_def by (meson order_trans)

lemma keeps_waiting_call:
  assumes "keeps_waiting C rm rm'" "\<And>ch e. Reply ch e \<in> set cs \<Longrightarrow> ch \<in> C"
  shows "keeps_waiting C rm (rm_call cs rm')"
proof -
  have "keeps_waiting C rm' (rm_call cs rm')" using assms(2) by (auto simp: keeps_waiting_def attended_def)
  with assms(1) show ?thesis by (rule keeps_waiting_trans)
qed

lemma keeps_waiting_send: "keeps_waiting C rm rm' \<Longrightarrow> keeps_waiting C rm (SendRequest p r rm')"
  unfolding SendRequest_def by (erule keeps_waiting_call) simp

lemma keeps_waiting_set:
  assumes "keeps_waiting C rm rm'" "mget (rm_inProgress rm') rid = Some ipr" "set (ipr_onTerminated ipr) \<subseteq> set (ipr_onTerminated ipr')"
    "set (ipr_onTerminated ipr') \<subseteq> set (ipr_onTerminated ipr) \<union> C"
  shows "keeps_waiting C rm (set_ipr rid ipr' rm')"
proof -
  have "keeps_waiting C rm' (set_ipr rid ipr' rm')" using assms(2-4) by (auto simp: keeps_waiting_def attended_def)
  with assms(1) show ?thesis by (rule keeps_waiting_trans)
qed

lemma terminate_waiting:
  assumes "terminateRequest False rid ipr' rm = Some rm'" "mget (rm_inProgress rm) rid = Some ipr"
    "ipr_onTerminated ipr' = ipr_onTerminated ipr"
  shows "keeps_waiting C rm rm'"
proof -
  have rm': "rm_inProgress rm' = mdel rid (rm_inProgress rm)" "set (rm_calls rm) \<subseteq> set (rm_calls rm')"
    "\<And>ch e. Reply ch e \<in> set (rm_calls rm') \<longleftrightarrow> Reply ch e \<in> set (rm_calls rm) \<or> e = None \<and> ch \<in> set (ipr_onTerminated ipr)"
    using assms(1,3) by (auto simp: terminateRequest_def Let_def rm_call_def split: option.splits if_splits Option.bind_splits)
  have "attended r ch rm' \<Longrightarrow> \<exists>r. attended r ch rm" for r ch
    unfolding attended_def rm' using assms(2) by (auto split: if_splits)
  moreover have "attended r ch rm \<Longrightarrow> attended r ch rm'" for r ch
    unfolding attended_def rm' using assms(2) by auto
  ultimately show ?thesis using rm'(1,2) by (auto simp: keeps_waiting_def)
qed

lemma cancelOnError_waiting:
  assumes "cancelOnError False rid err rm = Some rm'"
  shows "keeps_waiting C rm rm'"
proof -
  from assms obtain ipr where ipr: "mget (rm_inProgress rm) rid = Some ipr" by (auto simp: cancelOnError_def split: option.splits)
  define ipr1 where "ipr1 = (if ipr_terminalError ipr = None then ipr\<lparr>ipr_terminalError := err\<rparr> else ipr)"
  have same: "ipr_onTerminated ipr1 = ipr_onTerminated ipr" by (simp add: ipr1_def)
  have s: "keeps_waiting C rm (set_ipr rid ipr1 rm)" by (rule keeps_waiting_set[OF keeps_waiting_refl ipr]) (auto simp: same)
  have unf: "cancelOnError False rid err rm =
    (if ipr_state ipr1 \<noteq> Running then terminateRequest False rid ipr1 (set_ipr rid ipr1 rm)
     else case ipr_reconciledLoader ipr1 of None \<Rightarrow> None
       | Some rl \<Rightarrow> Some (set_ipr rid (ipr1\<lparr>ipr_reconciledLoader := Some (SetRemoteOnline False rl)\<rparr>) (rm_call [CallCancelFn rid] (set_ipr rid ipr1 rm))))"
    unfolding cancelOnError_def ipr option.case Let_def ipr1_def[symmetric] by (rule refl)
  show ?thesis
  proof (cases "ipr_state ipr1 = Running")
    case True
    with assms obtain rl where "rm' = set_ipr rid (ipr1\<lparr>ipr_reconciledLoader := Some (SetRemoteOnline False rl)\<rparr>) (rm_call [CallCancelFn rid] (set_ipr rid ipr1 rm))"
      by (auto simp: unf split: option.splits)
    moreover have "keeps_waiting C rm (rm_call [CallCancelFn rid] (set_ipr rid ipr1 rm))" by (rule keeps_waiting_call[OF s]) simp
    ultimately show ?thesis by (auto intro: keeps_waiting_set)
  next
    case False
    with assms have t: "terminateRequest False rid ipr1 (set_ipr rid ipr1 rm) = Some rm'" by (simp add: unf)
    have "keeps_waiting C (set_ipr rid ipr1 rm) rm'" by (rule terminate_waiting[OF t, of ipr1]) auto
    with s show ?thesis by (rule keeps_waiting_trans)
  qed
qed

lemma cancelRequest_waiting:
  assumes "cancelRequest False rid onT err rm = Some rm'" "set_option onT \<subseteq> C"
  shows "keeps_waiting C rm rm'" "onT = Some ch \<Longrightarrow> attended rid ch rm'"
proof -
  have "keeps_waiting C rm rm' \<and> (\<forall>ch. onT = Some ch \<longrightarrow> attended rid ch rm')"
  proof (cases "mget (rm_inProgress rm) rid")
    case None
    with assms show ?thesis by (auto simp: cancelRequest_def attended_def split: option.splits intro!: keeps_waiting_call)
  next
    case (Some ipr)
    define ipr1 where "ipr1 = (case onT of None \<Rightarrow> ipr | Some ch \<Rightarrow> ipr\<lparr>ipr_onTerminated := ipr_onTerminated ipr @ [ch]\<rparr>)"
    let ?rm = "SendRequest (ipr_p ipr1) (NewCancelRequest rid) (set_ipr rid ipr1 rm)"
    have s: "keeps_waiting C rm ?rm"
      by (intro keeps_waiting_send keeps_waiting_set[OF keeps_waiting_refl Some]) (use assms(2) in \<open>auto simp: ipr1_def split: option.split\<close>)
    have "cancelOnError False rid err ?rm = Some rm'" using assms(1) Some by (simp add: cancelRequest_def ipr1_def Let_def)
    from cancelOnError_waiting[OF this, of C] have c: "keeps_waiting C ?rm rm'" .
    moreover have "attended rid ch ?rm" if "onT = Some ch" for ch using that by (auto simp: attended_def ipr1_def)
    ultimately show ?thesis using keeps_waiting_trans[OF s c] by (auto simp: keeps_waiting_def)
  qed
  then show "keeps_waiting C rm rm'" "onT = Some ch \<Longrightarrow> attended rid ch rm'" by blast+
qed

lemma processExtensionsForResponse_waiting:
  "processExtensionsForResponse env False p r rm = Some (b, rm') \<Longrightarrow> keeps_waiting C rm rm'"
  by (auto simp: processExtensionsForResponse_def Let_def split: option.splits if_splits
      intro!: keeps_waiting_send dest!: cancelOnError_waiting elim!: keeps_waiting_trans[rotated])

lemma processExtensions_waiting:
  "processExtensions env False responses p rm = Some (rs, rm') \<Longrightarrow> keeps_waiting C rm rm'"
proof (induction responses arbitrary: rm rs rm')
  case (Cons r responses)
  then show ?case
    by (auto simp: bind_eq_Some_conv split: if_splits) (blast intro: keeps_waiting_trans processExtensionsForResponse_waiting)+
qed simp

lemma ingestResponses_waiting: "ingestResponses env blkMap responses rm = Some rm' \<Longrightarrow> keeps_waiting C rm rm'"
proof (induction responses arbitrary: rm)
  case (Cons r responses)
  then obtain ipr rm1 where "mget (rm_inProgress rm) (gsp_requestID r) = Some ipr"
    "rm1 = rm \<or> (\<exists>rl. rm1 = set_ipr (gsp_requestID r) (ipr\<lparr>ipr_reconciledLoader := Some rl\<rparr>) rm)"
    "ingestResponses env blkMap responses rm1 = Some rm'"
    by (auto simp: bind_eq_Some_conv split: option.splits)
  moreover from this have "keeps_waiting C rm rm1" by (auto intro: keeps_waiting_set)
  ultimately show ?case using Cons.IH[of rm1] keeps_waiting_trans by blast
qed simp

lemma updateLastResponses_waiting: "updateLastResponses responses rm = Some rm' \<Longrightarrow> keeps_waiting C rm rm'"
proof (induction responses arbitrary: rm)
  case (Cons r responses)
  then obtain ipr where ipr: "mget (rm_inProgress rm) (gsp_requestID r) = Some ipr"
    "updateLastResponses responses (set_ipr (gsp_requestID r) (ipr\<lparr>ipr_lastResponse := r\<rparr>) rm) = Some rm'"
    by (auto split: option.splits)
  have "keeps_waiting C rm (set_ipr (gsp_requestID r) (ipr\<lparr>ipr_lastResponse := r\<rparr>) rm)"
    by (rule keeps_waiting_set[OF keeps_waiting_refl ipr(1)]) auto
  with Cons.IH[OF ipr(2)] show ?case using keeps_waiting_trans by blast
qed simp

lemma goOffline_waiting: "keeps_waiting C rm (goOffline rid rm)"
  by (auto simp: goOffline_def split: option.split intro: keeps_waiting_set)

lemma processTerminations_waiting: "processTerminations False responses rm = Some rm' \<Longrightarrow> keeps_waiting C rm rm'"
proof (induction responses arbitrary: rm)
  case (Cons r responses)
  then show ?case
    by (auto simp: bind_eq_Some_conv split: if_splits)
      (blast intro: keeps_waiting_trans cancelOnError_waiting goOffline_waiting)+
qed simp

lemma processResponses_waiting: "processResponses env False p responses blks rm = Some rm' \<Longrightarrow> keeps_waiting C rm rm'"
  by (auto simp: processResponses_def bind_eq_Some_conv Let_def)
    (blast intro: keeps_waiting_trans processExtensions_waiting ingestResponses_waiting updateLastResponses_waiting processTerminations_waiting)

lemma requestTask_waiting: "keeps_waiting C rm (snd (requestTask rid rm))"
  by (auto simp: requestTask_def Let_def split: option.split intro!: keeps_waiting_set keeps_waiting_call)

lemma getRequestTask_waiting: "getRequestTask p rid rm = (b, rm') \<Longrightarrow> keeps_waiting C rm rm'"
  using requestTask_waiting[of _ rm rid] by (auto simp: getRequestTask_def split: prod.splits bool.splits intro: keeps_waiting_call)

lemma release_waiting:
  assumes "releaseRequestTask False p rid err rm = Some rm'"
  shows "keeps_waiting C rm rm'"
proof -
  let ?rm = "rm_call [CallTaskDone p rid] rm"
  have "keeps_waiting C ?rm rm'"
    using assms terminate_waiting[of rid _ ?rm rm' _ C]
    by (auto simp: releaseRequestTask_def Let_def split: option.splits if_splits intro: keeps_waiting_set)
  moreover have "keeps_waiting C rm ?rm" by (rule keeps_waiting_call) simp_all
  ultimately show ?thesis using keeps_waiting_trans by blast
qed

lemma pausing_waiting:
  "keeps_waiting C rm (snd (rm_unpause rid exts rm))" "keeps_waiting C rm (snd (rm_pause rid rm))" "keeps_waiting C rm (snd (rm_update rid exts rm))"
  by (auto simp: rm_unpause_def rm_pause_def rm_update_def split: option.split intro!: keeps_waiting_call keeps_waiting_set keeps_waiting_send)

lemma reply_waiting: "keeps_waiting C rm (snd r) \<Longrightarrow> ch \<in> C \<Longrightarrow> keeps_waiting C rm (reply_err False ch r)"
  unfolding reply_err_def by (auto intro!: keeps_waiting_call)

lemma handle_waiting:
  assumes "rm_handle env False m rm = Some rm'" "\<not> is_new m" "set_option (answers_call m) \<subseteq> C"
  shows "keeps_waiting C rm rm'"
proof (cases m)
  case (GetRequestTaskMessage p rid)
  with assms(1) obtain b rm1 where "getRequestTask p rid rm = (b, rm1)" "rm' = rm_call [ReplyTask rid b] rm1"
    by (auto split: prod.splits)
  then show ?thesis by (auto intro!: keeps_waiting_call intro: getRequestTask_waiting)
next
  case (ReleaseRequestTaskMessage p rid err ch)
  with assms(1) show ?thesis by (auto simp: bind_eq_Some_conv intro!: keeps_waiting_call intro: release_waiting)
next
  case (CancelRequestMessage rid onT err)
  with assms show ?thesis by (auto intro: cancelRequest_waiting(1))
next
  case (PeerStateMessage p pt ch)
  with assms(1) show ?thesis by (auto intro!: keeps_waiting_call)
qed (use assms in \<open>auto intro!: reply_waiting pausing_waiting intro: processResponses_waiting\<close>)

text \<open>A new request is put in the place of whatever had its identifier.\<close>

lemma newRequest_cases:
  assumes "rm_newRequest env rid p root sel exts rm = Some (err, rm')"
  shows "rm' = rm \<or> (\<exists>ipr. rm' = rm_call [CallProtect p rid, CallPushTask p rid] (set_ipr rid ipr rm) \<and> ipr_onTerminated ipr = [])"
proof (cases "validateRequest env rid p root sel exts rm")
  case (Inr v)
  obtain req hr ls where v: "v = (req, hr, ls)" by (cases v)
  note val = Inr[unfolded v]
  obtain d has where ext: "req_Extension req ExtensionsDoNotSendFirstBlocks = (d, has)" by fastforce
  from assms obtain r where "(if has then DecodeDoNotSendFirstBlocks (node_ops env) d else Some (Inr 0)) = Some r"
    by (auto simp: rm_newRequest_def val ext Let_def bind_eq_Some_conv)
  with assms validateRequest_request(1)[OF val] show ?thesis
    by (cases r) (auto simp: rm_newRequest_def val ext Let_def split: if_splits
        intro!: exI[where P = "\<lambda>ipr. rm_call _ (set_ipr _ _ _) = rm_call _ (set_ipr _ ipr _) \<and> _ ipr"])
qed (use assms in \<open>simp add: rm_newRequest_def\<close>)

lemma handle_new:
  assumes "rm_handle env False (NewRequestMessage rid p root sel exts ch) rm = Some rm'"
  shows "\<exists>ipr cs. rm_inProgress rm' \<in> {rm_inProgress rm, mput rid ipr (rm_inProgress rm)} \<and> ipr_onTerminated ipr = [] \<and>
    rm_calls rm' = rm_calls rm @ cs \<and> (\<forall>ch e. Reply ch e \<notin> set cs)"
proof -
  from assms obtain err rm1 c where rm1: "rm_newRequest env rid p root sel exts rm = Some (err, rm1)" "rm' = rm_call [c] rm1" "\<And>ch e. c \<noteq> Reply ch e"
    by (auto simp: bind_eq_Some_conv split: option.splits)
  obtain ipr :: "('a, 'b) in_progress_request" where empty: "ipr_onTerminated ipr = []" by (metis (mono_tags) in_progress_request.select_convs(6))
  from newRequest_cases[OF rm1(1)] show ?thesis
  proof
    assume "rm1 = rm"
    with rm1 empty show ?thesis by (intro exI[of _ ipr] exI[of _ "[c]"]) auto
  next
    assume "\<exists>ipr. rm1 = rm_call [CallProtect p rid, CallPushTask p rid] (set_ipr rid ipr rm) \<and> ipr_onTerminated ipr = []"
    then obtain ipr where ipr: "rm1 = rm_call [CallProtect p rid, CallPushTask p rid] (set_ipr rid ipr rm)" "ipr_onTerminated ipr = []" by blast
    with rm1(2,3) show ?thesis by (intro exI[of _ ipr] exI[of _ "[CallProtect p rid, CallPushTask p rid, c]"]) auto
  qed
qed

lemma handle_channels:
  assumes "rm_handle env False m rm = Some rm'" "attended r ch rm'"
  shows "answers_call m = Some ch \<or> (\<exists>r. attended r ch rm)"
proof (cases "is_new m")
  case False
  from handle_waiting[OF assms(1) False, of "set_option (answers_call m)"] assms(2) show ?thesis
    by (auto simp: keeps_waiting_def)
next
  case True
  then obtain rid p root sel exts ch' where m: "m = NewRequestMessage rid p root sel exts ch'" by (cases m) auto
  from handle_new[OF assms(1)[unfolded m]] assms(2) show ?thesis by (auto simp: attended_def split: if_splits)
qed

lemma answered_iff: "rm_answer ch cs \<noteq> None \<longleftrightarrow> (\<exists>e. Reply ch e \<in> set cs)"
  by (induction ch cs rule: rm_answer.induct) auto

text \<open>The message of a call is answered at once, but for a cancellation of a request that goes on for a while.\<close>

lemma ask_requests_answered:
  assumes "rm_handle env False (ask_requests c ch) rm = Some rm'"
  shows "(\<exists>e. Reply ch e \<in> set (rm_calls rm')) \<or> (\<exists>rid. c = Cancel rid \<and> attended rid ch rm')"
  using assms by (cases c)
    (auto simp: rm_PauseRequest_def rm_UnpauseRequest_def rm_UpdateRequest_def rm_CancelRequest_def reply_err_def
      intro: cancelRequest_waiting(2)[where C = UNIV])

lemma answers_ask_requests [simp]: "answers_call (ask_requests c ch) = Some ch"
  by (cases c) (simp_all add: rm_PauseRequest_def rm_UnpauseRequest_def rm_UpdateRequest_def rm_CancelRequest_def)

lemma not_new_ask [simp]: "\<not> is_new (ask_requests c ch)"
  by (cases c) (simp_all add: rm_PauseRequest_def rm_UnpauseRequest_def rm_UpdateRequest_def rm_CancelRequest_def)

section \<open>The log of the response manager\<close>

definition rs_grows :: "('n, 'l) response_manager \<Rightarrow> ('n, 'l) response_manager \<Rightarrow> bool" where
  "rs_grows rm rm' \<longleftrightarrow> set (rsm_calls rm) \<subseteq> set (rsm_calls rm')"

lemma rs_grows_simps [simp]:
  "rs_grows rm rm" "rs_grows rm rm' \<Longrightarrow> rs_grows rm (rsm_call cs rm')" "rs_grows rm rm' \<Longrightarrow> rs_grows rm (set_irs rid irs rm')"
  "rs_grows rm rm' \<Longrightarrow> rs_grows rm (rsm_reply d c rm')"
  by (auto simp: rs_grows_def rsm_reply_def)

lemma rs_grows_trans: "rs_grows a b \<Longrightarrow> rs_grows b c \<Longrightarrow> rs_grows a c"
  unfolding rs_grows_def by (rule order_trans)

lemma rs_grows_terminate [simp]: "rs_grows rm rm' \<Longrightarrow> rs_grows rm (rsm_terminateRequest rid rm')"
  by (auto simp: rsm_terminateRequest_def rs_grows_def rsm_call_def split: option.split)

lemma rs_grows_ops:
  "rs_grows rm (snd (abortRequest rid e rm))" "rs_grows rm (snd (rsm_pauseRequest rid rm))"
  "rs_grows rm (snd (rsm_unpauseRequest rid exts rm))" "rs_grows rm (snd (rsm_updateRequest rid exts rm))"
  "rs_grows rm (snd (startTask rid p rm))" "rs_grows rm (finishTask rid p err rm)" "rs_grows rm (snd (getUpdates rid rm))"
  by (auto simp: abortRequest_def rsm_pauseRequest_def rsm_unpauseRequest_def rsm_updateRequest_def startTask_def taskDataForKey_def
      finishTask_def getUpdates_def Let_def split: option.split)

lemma rs_grows_extension:
  "processExtension p request name decode use rm = Some (err, rm') \<Longrightarrow> rs_grows rm rm'"
  by (auto simp: processExtension_def Let_def split: prod.splits if_splits sum.split_asm Option.bind_splits)

lemma rs_grows_prepare: "prepareQuery ops p request result rm = Some (err, rm') \<Longrightarrow> rs_grows rm rm'"
  unfolding prepareQuery_def processDedupByKey_def processDoNoSendCids_def processDoNotSendFirstBlocks_def Let_def
  by (auto simp: bind_eq_Some_conv split: prod.splits if_splits dest!: rs_grows_extension)
    (meson rs_grows_trans rs_grows_simps(1,2))+

lemma rs_grows_new: "rsm_newRequest env p request rm = Some rm' \<Longrightarrow> rs_grows rm rm'"
  by (auto simp: rsm_newRequest_def Let_def bind_eq_Some_conv dest!: rs_grows_prepare split: if_splits)
    (meson rs_grows_trans rs_grows_simps)+

lemma rs_grows_update: "processUpdate env rid u rm = Some rm' \<Longrightarrow> rs_grows rm rm'"
  by (auto simp: processUpdate_def rsm_unpauseRequest_def Let_def split: option.splits if_splits prod.splits)

lemma rs_grows_requests: "processRequests env p requests rm = Some rm' \<Longrightarrow> rs_grows rm rm'"
proof (induction requests arbitrary: rm)
  case (Cons r requests)
  then obtain rm1 where rm1: "processRequests env p requests rm1 = Some rm'"
    "(case gsr_requestType r of
        RequestTypeCancel \<Rightarrow> Some (snd (abortRequest (gsr_id r) ErrContextCancelled rm))
      | RequestTypeUpdate \<Rightarrow> processUpdate env (gsr_id r) r rm
      | RequestTypeNew \<Rightarrow> rsm_newRequest env p r rm) = Some rm1" by (auto simp: bind_eq_Some_conv)
  then have "rs_grows rm rm1"
    by (auto intro: rs_grows_ops rs_grows_update rs_grows_new split: request_type.splits)
  with Cons.IH[OF rm1(1)] show ?case using rs_grows_trans by blast
qed simp

lemma rs_grows_handle: "rsm_handle env d m rm = Some rm' \<Longrightarrow> rs_grows rm rm'"
  using rs_grows_ops[of rm]
  by (cases m) (auto split: prod.splits intro!: rs_grows_simps(4) intro: rs_grows_requests, (metis snd_conv)+)

lemma rs_answered_iff: "rsm_answer ch cs \<noteq> None \<longleftrightarrow> (\<exists>e. RsReply ch e \<in> set cs)"
  by (induction ch cs rule: rsm_answer.induct) auto

lemma ask_responses_answered:
  "rsm_handle env False (ask_responses c ch) rm = Some rm' \<Longrightarrow> \<exists>e. RsReply ch e \<in> set (rsm_calls rm')"
  by (cases c) (auto simp: PauseResponse_def UnpauseResponse_def UpdateResponse_def CancelResponse_def rsm_reply_def split: prod.splits)

section \<open>No call is lost\<close>

text \<open>What a call that has not returned waits for.\<close>

definition call_ok :: "('n, 's) graph_sync \<Rightarrow> 'n gs_call \<times> call_status \<Rightarrow> bool" where
  "call_ok gs = (\<lambda>(c, st). case st of
       AskedRequests ch \<Rightarrow>
         ask_requests c ch \<in> set (gs_requestMessages gs) \<or> (\<exists>e. Reply ch e \<in> set (rm_calls (gs_requestManager gs))) \<or>
         (\<exists>rid. c = Cancel rid \<and> attended rid ch (gs_requestManager gs))
     | AskedResponses ch \<Rightarrow>
         ask_responses c ch \<in> set (gs_responseMessages gs) \<or> (\<exists>e. RsReply ch e \<in> set (rsm_calls (gs_responseManager gs)))
     | Returned e \<Rightarrow> True)"

fun new_id :: "'n gs_event \<Rightarrow> request_id list" where
  "new_id (EvToRequests (NewRequestMessage rid p root sel exts ch)) = [rid]"
| "new_id _ = []"

fun queued_id :: "'n rm_message \<Rightarrow> request_id list" where
  "queued_id (NewRequestMessage rid p root sel exts ch) = [rid]"
| "queued_id _ = []"

fun accepted :: "'n gs_event \<Rightarrow> bool" where
  "accepted (EvCall c ok) = ok"
| "accepted (EvAnswered i ok) = ok"
| "accepted _ = True"

abbreviation new_ids :: "'n gs_event list \<Rightarrow> request_id list" where
  "new_ids es \<equiv> concat (map new_id es)"

abbreviation queued_ids :: "('n, 's) graph_sync \<Rightarrow> request_id list" where
  "queued_ids gs \<equiv> concat (map queued_id (gs_requestMessages gs))"

abbreviation running_ids :: "('n, 's) graph_sync \<Rightarrow> request_id set" where
  "running_ids gs \<equiv> dom (mget (rm_inProgress (gs_requestManager gs)))"

text \<open>The identifiers in use: those on the way to the manager and those of the requests in progress.\<close>

definition ids_ok :: "request_id list \<Rightarrow> ('n, 's) graph_sync \<Rightarrow> bool" where
  "ids_ok used gs \<longleftrightarrow> distinct (queued_ids gs) \<and> set (queued_ids gs) \<inter> running_ids gs = {} \<and>
     set (queued_ids gs) \<union> running_ids gs \<subseteq> set used"

definition calls_inv :: "request_id list \<Rightarrow> ('n, 's) graph_sync \<Rightarrow> bool" where
  "calls_inv used gs \<longleftrightarrow> ids_ok used gs \<and> list_all (call_ok gs) (gs_calls gs)"

lemma queued_id_ask [simp]: "queued_id (ask_requests c ch) = []"
  by (cases c) (simp_all add: rm_PauseRequest_def rm_UnpauseRequest_def rm_UpdateRequest_def rm_CancelRequest_def)

lemma queued_id_not_new: "\<not> is_new m \<Longrightarrow> queued_id m = []"
  by (cases m) auto

lemma ids_taken:
  assumes "distinct (xs @ q)" "set (xs @ q) \<inter> R = {}" "set (xs @ q) \<union> R \<subseteq> U" "R' \<subseteq> set xs \<union> R"
  shows "distinct q \<and> set q \<inter> R' = {} \<and> set q \<union> R' \<subseteq> U"
  using assms by auto

lemma ids_ok_taken:
  assumes "ids_ok used gs" "queued_ids gs = xs @ queued_ids gs'" "running_ids gs' \<subseteq> set xs \<union> running_ids gs"
  shows "ids_ok used gs'"
  using assms(1) unfolding ids_ok_def assms(2) by (elim conjE) (rule ids_taken[OF _ _ _ assms(3)])

lemma ids_added:
  assumes "distinct q" "set q \<inter> R = {}" "set q \<union> R \<subseteq> set used" "distinct (used @ xs)"
  shows "distinct (q @ xs) \<and> set (q @ xs) \<inter> R = {} \<and> set (q @ xs) \<union> R \<subseteq> set (used @ xs)"
  using assms by auto

lemma ids_ok_added:
  assumes "ids_ok used gs" "queued_ids gs' = queued_ids gs @ xs" "running_ids gs' = running_ids gs" "distinct (used @ xs)"
  shows "ids_ok (used @ xs) gs'"
  using assms(1) unfolding ids_ok_def assms(2,3) by (elim conjE) (rule ids_added[OF _ _ _ assms(4)])

text \<open>One turn of the request manager.\<close>

lemma request_turn_ids:
  assumes "request_turn env quit gs = Some gs'" "\<not> gs_done gs" "ids_ok used gs"
  shows "ids_ok used gs'"
proof -
  from assms(1,2) obtain m ms rm' where t: "gs_requestMessages gs = m # ms" "rm_handle env False m (gs_requestManager gs) = Some rm'"
    "gs' = gs\<lparr>gs_requestManager := rm', gs_requestMessages := ms\<rparr>" by (auto simp: request_turn_def split: list.splits if_splits)
  show ?thesis
  proof (cases "is_new m")
    case False
    from handle_waiting[OF t(2) False, of UNIV] have "dom (mget (rm_inProgress rm')) \<subseteq> running_ids gs" by (simp add: keeps_waiting_def)
    with t(1,3) queued_id_not_new[OF False] show ?thesis by (intro ids_ok_taken[OF assms(3), of "[]"]) auto
  next
    case True
    then obtain rid p root sel exts ch where m: "m = NewRequestMessage rid p root sel exts ch" by (cases m) auto
    from handle_new[OF t(2)[unfolded m]] have "dom (mget (rm_inProgress rm')) \<subseteq> insert rid (running_ids gs)" by auto
    with t(1,3) m show ?thesis by (intro ids_ok_taken[OF assms(3), of "[rid]"]) auto
  qed
qed

lemma request_turn_calls:
  assumes "request_turn env quit gs = Some gs'" "\<not> gs_done gs" "ids_ok used gs" "call_ok gs c"
  shows "call_ok gs' c"
proof -
  from assms(1,2) obtain m ms rm' where t: "gs_requestMessages gs = m # ms" "rm_handle env False m (gs_requestManager gs) = Some rm'"
    "gs' = gs\<lparr>gs_requestManager := rm', gs_requestMessages := ms\<rparr>" by (auto simp: request_turn_def split: list.splits if_splits)
  have keep: "set (rm_calls (gs_requestManager gs)) \<subseteq> set (rm_calls rm')"
    "attended rid ch (gs_requestManager gs) \<Longrightarrow> attended rid ch rm'" for rid ch
  proof -
    have "set (rm_calls (gs_requestManager gs)) \<subseteq> set (rm_calls rm') \<and> (attended rid ch (gs_requestManager gs) \<longrightarrow> attended rid ch rm')"
    proof (cases "is_new m")
      case False
      from handle_waiting[OF t(2) False, of UNIV] show ?thesis by (simp add: keeps_waiting_def)
    next
      case True
      then obtain r p root sel exts ch' where m: "m = NewRequestMessage r p root sel exts ch'" by (cases m) auto
      have "mget (rm_inProgress (gs_requestManager gs)) r = None" using assms(3) t(1) m by (auto simp: ids_ok_def)
      then have "rid = r \<Longrightarrow> attended rid ch (gs_requestManager gs) \<Longrightarrow> \<exists>e. Reply ch e \<in> set (rm_calls (gs_requestManager gs))"
        by (auto simp: attended_def)
      with handle_new[OF t(2)[unfolded m]] show ?thesis by (cases "rid = r") (auto simp: attended_def)
    qed
    then show "set (rm_calls (gs_requestManager gs)) \<subseteq> set (rm_calls rm')"
      "attended rid ch (gs_requestManager gs) \<Longrightarrow> attended rid ch rm'" by blast+
  qed
  obtain call st where c: "c = (call, st)" by (cases c)
  show ?thesis
  proof (cases st)
    case (AskedRequests ch)
    with assms(4) t(1) c keep ask_requests_answered[of env call ch "gs_requestManager gs" rm'] t(2,3) show ?thesis
      by (auto simp: call_ok_def)
  qed (use assms(4) c t(3) in \<open>simp_all add: call_ok_def\<close>)
qed

lemma response_turn_calls:
  assumes "response_turn env quit gs = Some gs'" "\<not> gs_done gs" "call_ok gs c"
  shows "call_ok gs' c"
proof -
  from assms(1,2) obtain m ms rm' where t: "gs_responseMessages gs = m # ms" "rsm_handle env False m (gs_responseManager gs) = Some rm'"
    "gs' = gs\<lparr>gs_responseManager := rm', gs_responseMessages := ms\<rparr>" by (auto simp: response_turn_def split: list.splits if_splits)
  have keep: "set (rsm_calls (gs_responseManager gs)) \<subseteq> set (rsm_calls rm')" using rs_grows_handle[OF t(2)] by (simp add: rs_grows_def)
  obtain call st where c: "c = (call, st)" by (cases c)
  show ?thesis
  proof (cases st)
    case (AskedResponses ch)
    with assms(3) t keep c ask_responses_answered[of env call ch "gs_responseManager gs" rm'] show ?thesis
      by (auto simp: call_ok_def)
  qed (use assms(3) c t(3) in \<open>simp_all add: call_ok_def\<close>)
qed

text \<open>Sending more to the managers takes nothing from a call.\<close>

lemma call_ok_more:
  assumes "call_ok gs c" "gs_requestManager gs' = gs_requestManager gs" "gs_responseManager gs' = gs_responseManager gs"
    "set (gs_requestMessages gs) \<subseteq> set (gs_requestMessages gs')" "set (gs_responseMessages gs) \<subseteq> set (gs_responseMessages gs')"
  shows "call_ok gs' c"
  using assms by (cases c) (auto simp: call_ok_def split: call_status.splits)

lemma calls_inv_more:
  assumes "calls_inv used gs" "gs_requestManager gs' = gs_requestManager gs" "gs_responseManager gs' = gs_responseManager gs"
    "gs_requestMessages gs' = gs_requestMessages gs @ ms" "set (gs_responseMessages gs) \<subseteq> set (gs_responseMessages gs')"
    "distinct (used @ concat (map queued_id ms))" "list_all (\<lambda>c. call_ok gs c \<or> call_ok gs' c) (gs_calls gs')"
  shows "calls_inv (used @ concat (map queued_id ms)) gs'"
proof -
  have "list_all (call_ok gs') (gs_calls gs')"
    using assms(7) by (rule list.pred_mono_strong) (use assms(2-5) in \<open>auto intro: call_ok_more[of gs _ gs']\<close>)
  moreover have "ids_ok (used @ concat (map queued_id ms)) gs'"
    by (rule ids_ok_added[OF _ _ _ assms(6), where gs = gs]) (use assms(1) in \<open>simp_all add: calls_inv_def assms(2,4)\<close>)
  ultimately show ?thesis by (simp add: calls_inv_def)
qed

lemmas send_defs = begin_call_def rm_send_def rsm_send_def set_call_def ReceiveMessage_def ReceiveError_def gs_Connected_def
  gs_Disconnected_def

lemma list_all_update: "list_all P xs \<Longrightarrow> P x \<Longrightarrow> list_all P (xs[i := x])"
  by (auto simp: list_all_iff dest!: set_update_subset_insert[THEN subsetD])

lemma go_on_calls:
  assumes "go_on i True gs = Some gs'" "calls_inv used gs" "distinct used"
  shows "calls_inv used gs'"
proof -
  have old: "list_all (call_ok gs) (gs_calls gs)" using assms(2) by (simp add: calls_inv_def)
  then have new: "list_all (\<lambda>c. call_ok gs c \<or> call_ok gs' c) ((gs_calls gs)[i := x])" if "call_ok gs' x" for x
    using that by (auto intro!: list_all_update elim: list.pred_mono_strong)
  obtain c st where st: "i < length (gs_calls gs)" "gs_calls gs ! i = (c, st)"
    using assms(1) by (cases "gs_calls gs ! i") (auto simp: go_on_def split: if_splits)
  have "gs_calls gs' = (gs_calls gs)[i := gs_calls gs' ! i] \<and> call_ok gs' (gs_calls gs' ! i) \<and> gs_requestManager gs' = gs_requestManager gs \<and>
    gs_responseManager gs' = gs_responseManager gs \<and> gs_requestMessages gs' = gs_requestMessages gs \<and>
    set (gs_responseMessages gs) \<subseteq> set (gs_responseMessages gs')"
    using assms(1) st by (cases st) (auto simp: go_on_def send_defs call_ok_def Let_def split: option.splits if_splits)
  with new[of "gs_calls gs' ! i"] assms(3) calls_inv_more[OF assms(2), of gs' "[]"] show ?thesis by auto
qed

lemma receive_adds:
  "\<exists>ms ns. ReceiveMessage p m gs =
     gs\<lparr>gs_requestMessages := gs_requestMessages gs @ ms, gs_responseMessages := gs_responseMessages gs @ ns\<rparr> \<and>
     (\<forall>m \<in> set ms. answers_call m = None) \<and> concat (map queued_id ms) = []"
proof -
  define ms where "ms = (if length (Responses m) > 0 \<or> length (Blocks m) > 0 then [ProcessResponsesMessage p (Responses m) (Blocks m)] else [])"
  define ns where "ns = (if length (Requests m) > 0 then [ProcessRequestsMessage p (Requests m)] else [])"
  have "ReceiveMessage p m gs =
     gs\<lparr>gs_requestMessages := gs_requestMessages gs @ ms, gs_responseMessages := gs_responseMessages gs @ ns\<rparr>"
    by (simp add: ReceiveMessage_def rm_send_def rsm_send_def ms_def ns_def Let_def)
  moreover have "(\<forall>m \<in> set ms. answers_call m = None) \<and> concat (map queued_id ms) = []" by (simp add: ms_def)
  ultimately show ?thesis by blast
qed

lemma calls_inv_step:
  assumes "gs_step env gs e = Some gs'" "accepted e" "\<not> gs_done gs'" "distinct (used @ new_id e)" "calls_inv used gs"
  shows "calls_inv (used @ new_id e) gs'"
proof -
  have old: "list_all (call_ok gs) (gs_calls gs)" "ids_ok used gs" using assms(5) by (simp_all add: calls_inv_def)
  have weak: "list_all (\<lambda>c. call_ok gs c \<or> call_ok gs' c) (gs_calls gs)" using old(1) by (auto elim: list.pred_mono_strong)
  note more = calls_inv_more[OF assms(5), of gs']
  show ?thesis
  proof (cases e)
    case (EvCall c ok)
    with assms(1,2) have "gs' = begin_call c True gs" by simp
    with EvCall assms(4) weak show ?thesis
      using more[of "[ask_requests c (gs_nextChan gs)]"] by (simp add: send_defs Let_def call_ok_def)
  next
    case (EvAnswered i ok)
    with assms go_on_calls[of i gs gs' used] show ?thesis by simp
  next
    case (EvGiveUp i)
    with assms(1,3) show ?thesis by (auto simp: give_up_def set_call_def split: if_splits prod.splits call_status.splits)
  next
    case (EvRequestTurn quit)
    then have t: "request_turn (fst env) quit gs = Some gs'" using assms(1) by simp
    then have "gs_calls gs' = gs_calls gs" "\<not> gs_done gs" using assms(3) by (auto simp: request_turn_def split: list.splits if_splits)
    with t request_turn_ids[OF t _ old(2)] request_turn_calls[OF t _ old(2)] old(1) EvRequestTurn show ?thesis
      by (auto simp: calls_inv_def elim: list.pred_mono_strong)
  next
    case (EvResponseTurn quit)
    then have t: "response_turn (snd env) quit gs = Some gs'" using assms(1) by simp
    then have gs': "gs_calls gs' = gs_calls gs" "\<not> gs_done gs" "gs_requestManager gs' = gs_requestManager gs"
      "gs_requestMessages gs' = gs_requestMessages gs" using assms(3) by (auto simp: response_turn_def split: list.splits if_splits)
    then have "ids_ok used gs'" using old(2) by (simp add: ids_ok_def)
    with gs' response_turn_calls[OF t] old(1) EvResponseTurn show ?thesis by (auto simp: calls_inv_def elim: list.pred_mono_strong)
  next
    case (EvToRequests m)
    with assms(1,4) weak more[of "[m]"] show ?thesis
      by (cases m) (auto simp: send_defs split: if_splits)
  next
    case (EvReceiveMessage p m)
    with receive_adds[of p m gs] assms(1) obtain ms ns where
      "gs' = gs\<lparr>gs_requestMessages := gs_requestMessages gs @ ms, gs_responseMessages := gs_responseMessages gs @ ns\<rparr>"
      "concat (map queued_id ms) = []" by auto
    with EvReceiveMessage assms(4) weak more[of ms] show ?thesis by simp
  qed (use assms(1,3,4) weak more[of "[]"] in \<open>auto simp: send_defs subset_insertI split: if_splits\<close>)
qed

lemma answered_goes_on:
  assumes "i < length (gs_calls gs)"
  shows "gs_calls gs ! i = (c, AskedRequests ch) \<Longrightarrow> Reply ch e \<in> set (rm_calls (gs_requestManager gs)) \<Longrightarrow> go_on i ok gs \<noteq> None"
    "gs_calls gs ! i = (c, AskedResponses ch) \<Longrightarrow> RsReply ch e \<in> set (rsm_calls (gs_responseManager gs)) \<Longrightarrow> go_on i ok gs \<noteq> None"
  using answered_iff[of ch "rm_calls (gs_requestManager gs)"] rs_answered_iff[of ch "rsm_calls (gs_responseManager gs)"] assms
  by (auto simp: go_on_def Let_def)

lemma done_stays: "gs_step env gs e = Some gs' \<Longrightarrow> gs_done gs \<Longrightarrow> gs_done gs'"
  by (cases e) (auto simp: send_defs go_on_def give_up_def request_turn_def response_turn_def Let_def
      split: if_splits prod.splits call_status.splits option.splits list.splits)


section \<open>A call whose context has ended\<close>

text \<open>The channels that answers can still come on.\<close>

definition open_chan :: "nat \<Rightarrow> ('n, 's) graph_sync \<Rightarrow> bool" where
  "open_chan ch gs \<longleftrightarrow> (\<exists>rid. attended rid ch (gs_requestManager gs)) \<or> (\<exists>m \<in> set (gs_requestMessages gs). answers_call m = Some ch)"

lemma open_chan_step:
  assumes "gs_step env gs e = Some gs'" "\<not> gs_done gs'"
  shows "gs_nextChan gs \<le> gs_nextChan gs'"
    and "open_chan ch gs' \<Longrightarrow> open_chan ch gs \<or> gs_nextChan gs \<le> ch \<and> ch < gs_nextChan gs'"
proof -
  have "gs_nextChan gs \<le> gs_nextChan gs' \<and> (open_chan ch gs' \<longrightarrow> open_chan ch gs \<or> gs_nextChan gs \<le> ch \<and> ch < gs_nextChan gs')"
  proof (cases e)
    case (EvRequestTurn quit)
    with assms obtain m ms rm' where t: "gs_requestMessages gs = m # ms" "rm_handle (fst env) False m (gs_requestManager gs) = Some rm'"
      "gs' = gs\<lparr>gs_requestManager := rm', gs_requestMessages := ms\<rparr>" by (auto simp: request_turn_def split: list.splits if_splits)
    with handle_channels[OF t(2)] show ?thesis by (auto simp: open_chan_def)
  next
    case (EvReceiveMessage p m)
    with receive_adds[of p m gs] assms(1) obtain ms ns where
      "gs' = gs\<lparr>gs_requestMessages := gs_requestMessages gs @ ms, gs_responseMessages := gs_responseMessages gs @ ns\<rparr>"
      "\<forall>m \<in> set ms. answers_call m = None" by auto
    then show ?thesis by (auto simp: open_chan_def)
  qed (use assms in \<open>auto simp: send_defs open_chan_def go_on_def give_up_def response_turn_def Let_def
      split: if_splits prod.splits call_status.splits option.splits list.splits\<close>)
  then show "gs_nextChan gs \<le> gs_nextChan gs'"
    "open_chan ch gs' \<Longrightarrow> open_chan ch gs \<or> gs_nextChan gs \<le> ch \<and> ch < gs_nextChan gs'" by blast+
qed

text \<open>A call that waits on a channel nobody knows.\<close>

definition stuck :: "nat \<Rightarrow> 'n gs_call \<Rightarrow> nat \<Rightarrow> ('n, 's) graph_sync \<Rightarrow> bool" where
  "stuck i c ch gs \<longleftrightarrow> i < length (gs_calls gs) \<and> gs_calls gs ! i = (c, AskedRequests ch) \<and> \<not> open_chan ch gs \<and> ch < gs_nextChan gs"

lemma stuck_step:
  assumes "gs_step env gs e = Some gs'" "\<not> gs_done gs'" "stuck i c ch gs"
  shows "stuck i c ch gs'"
proof -
  have none: "rm_answer ch (rm_calls (gs_requestManager gs)) = None"
    using assms(3) answered_iff[of ch "rm_calls (gs_requestManager gs)"] by (auto simp: stuck_def open_chan_def attended_def)
  have "i < length (gs_calls gs') \<and> gs_calls gs' ! i = (c, AskedRequests ch)"
  proof (cases e)
    case (EvAnswered j ok)
    with assms none show ?thesis
      by (cases "j = i") (auto simp: stuck_def go_on_def send_defs Let_def nth_list_update
          split: if_splits prod.splits call_status.splits option.splits)
  next
    case (EvReceiveMessage p m)
    with receive_adds[of p m gs] assms(1,3) show ?thesis by (auto simp: stuck_def)
  qed (use assms in \<open>auto simp: stuck_def send_defs give_up_def request_turn_def response_turn_def Let_def nth_append
      split: if_splits prod.splits call_status.splits list.splits\<close>)
  with open_chan_step[OF assms(1,2)] assms(3) show ?thesis by (force simp: stuck_def)
qed

text \<open>A call whose context has ended when it is made may be dropped before it reaches the request manager, and then never
  returns, whatever happens afterwards short of a shutdown of the exchange: it waits for an answer that nobody owes it.\<close>

theorem dropped_call_never_returns:
  fixes gs :: "('n, 's) graph_sync"
  assumes "gs_run env es (gs_New lsys options) = Some gs" "gs_run env es' (begin_call c False gs) = Some gs'" "\<not> gs_done gs'"
  shows "gs_calls gs' ! length (gs_calls gs) = (c, AskedRequests (gs_nextChan gs))"
proof -
  let ?ch = "gs_nextChan gs" and ?gs = "begin_call c False gs"
  have stays: "gs_done a \<longrightarrow> gs_done gs''" if "gs_run env es a = Some gs''" for es a and gs'' :: "('n, 's) graph_sync"
    using that by (rule gsm.run_invariant[where P = "\<lambda>s. gs_done a \<longrightarrow> gs_done s"]) (auto intro: done_stays)
  have "\<not> gs_done gs" using stays[OF assms(2)] assms(3) by (simp add: send_defs Let_def)
  moreover have "\<not> gs_done gs \<longrightarrow> (\<forall>ch. open_chan ch gs \<longrightarrow> ch < gs_nextChan gs)"
    using assms(1)
  proof (rule gsm.run_invariant[where P = "\<lambda>gs. \<not> gs_done gs \<longrightarrow> (\<forall>ch. open_chan ch gs \<longrightarrow> ch < gs_nextChan gs)"])
    fix s s' :: "('n, 's) graph_sync" and e
    assume "\<not> gs_done s \<longrightarrow> (\<forall>ch. open_chan ch s \<longrightarrow> ch < gs_nextChan s)" "gs_step env s e = Some s'"
    then show "\<not> gs_done s' \<longrightarrow> (\<forall>ch. open_chan ch s' \<longrightarrow> ch < gs_nextChan s')"
      using open_chan_step[of env s e s'] done_stays[of env s e s'] by (metis order_less_le_trans)
  qed (simp add: open_chan_def attended_def gs_New_def rm_New_def Let_def)
  ultimately have "\<not> open_chan ?ch gs" by blast
  then have "stuck (length (gs_calls gs)) c ?ch ?gs" by (simp add: stuck_def open_chan_def send_defs Let_def)
  then have "\<not> gs_done gs' \<longrightarrow> stuck (length (gs_calls gs)) c ?ch gs'"
    by (intro gsm.run_invariant[OF assms(2), where P = "\<lambda>s. \<not> gs_done s \<longrightarrow> stuck (length (gs_calls gs)) c ?ch s"])
      (auto intro: stuck_step dest: done_stays)
  with assms(3) show ?thesis by (simp add: stuck_def)
qed

subsection \<open>Witnesses: a request that runs while its cancellation waits; a call that is dropped\<close>

definition gs_example_env :: "(simple_node, (cid, bytes) gomap) gs_env" where
  "gs_example_env = (example_env,
     \<lparr>rsm_RequestHooks = (\<lambda>p r. \<lparr>hr_IsValidated = True, hr_IsPaused = False, hr_CustomLinkSystem = None,
        hr_CustomChooser = None, hr_Err = None, hr_Extensions = []\<rparr>),
      rsm_UpdateHooks = (\<lambda>p r u. \<lparr>uhr_Err = None, uhr_Unpause = True, uhr_Extensions = []\<rparr>), rsm_nodes = simple_ops\<rparr>)"

definition gs_example_events :: "simple_node gs_event list" where
  "gs_example_events =
     [EvToRequests (NewRequestMessage ''r'' ''p'' (Some ''c'') None [] 0), EvRequestTurn False,
      EvToRequests (GetRequestTaskMessage ''p'' ''r''), EvRequestTurn False,
      EvCall (Cancel ''r'') True, EvRequestTurn False]"

definition gs_example :: "(simple_node, (cid, bytes) gomap) graph_sync" where
  "gs_example = the (gs_run gs_example_env gs_example_events (gs_New (map_lsys, []) [MaxMemoryResponder 1000]))"

lemma gs_example_runs: "gs_run gs_example_env gs_example_events (gs_New (map_lsys, []) [MaxMemoryResponder 1000]) = Some gs_example"
proof -
  have "gs_run gs_example_env gs_example_events (gs_New (map_lsys, []) [MaxMemoryResponder 1000]) \<noteq> None" by code_simp
  then show ?thesis by (simp add: gs_example_def)
qed

lemma gs_example_calls: "gs_calls gs_example = [(Cancel ''r'', AskedRequests 0)]" "gs_done gs_example = False"
  "gs_requestMessages gs_example = []" "go_on 0 True gs_example = None"
proof -
  have "map_option (\<lambda>gs. (gs_calls gs, gs_done gs, gs_requestMessages gs, go_on 0 True gs = None))
      (gs_run gs_example_env gs_example_events (gs_New (map_lsys, []) [MaxMemoryResponder 1000])) =
    Some ([(Cancel ''r'', AskedRequests 0)], False, [], True)" by code_simp
  then show "gs_calls gs_example = [(Cancel ''r'', AskedRequests 0)]" "gs_done gs_example = False"
    "gs_requestMessages gs_example = []" "go_on 0 True gs_example = None" by (simp_all add: gs_example_runs)
qed


theorem dropped_call_never_returns_witness:
  "\<exists>gs'. gs_run gs_example_env [EvConnected ''p'', EvCall (Pause ''q'') True, EvRequestTurn False] (begin_call (Pause ''r'') False gs_example) = Some gs' \<and>
     gs_calls gs' ! 1 = (Pause ''r'', AskedRequests 1)"
proof -
  let ?es = "[EvConnected ''p'', EvCall (Pause ''q'') True, EvRequestTurn False]"
  have "map_option (\<lambda>gs. (gs_nextChan gs, map_option gs_done (gs_run gs_example_env ?es (begin_call (Pause ''r'') False gs))))
      (gs_run gs_example_env gs_example_events (gs_New (map_lsys, []) [MaxMemoryResponder 1000])) = Some (1, Some False)" by code_simp
  then have "gs_nextChan gs_example = 1" "map_option gs_done (gs_run gs_example_env ?es (begin_call (Pause ''r'') False gs_example)) = Some False"
    by (simp_all add: gs_example_runs)
  with dropped_call_never_returns[OF gs_example_runs, of ?es "Pause ''r''"] gs_example_calls(1) show ?thesis by fastforce
qed

end
