(* ===== verification/Selector_Validator.thy ===== *)
theory Selector_Validator
  imports Hooks
begin

text \<open>
  \<^verbatim>\<open>selectorvalidator\<close>: the hook that validates incoming requests by default. It walks the node of a selector with a selector
  for selectors and accepts the request when no recursion it finds may go deeper than a limit.

  The interpreter of selectors, \<^verbatim>\<open>traversal.WalkMatching\<close>, and the names of the fields of a selector are from go-ipld-prime: the
  first is the parameter \<open>WalkMatching\<close>, which is relied on to call the visitor for the nodes a selector matches up to the first
  error (\<open>walk_law\<close>, over what the selectors used here match by their documentation); the second is the parameter \<open>keys\<close>.
\<close>

section \<open>Nodes and selectors\<close>

text \<open>Nodes of the IPLD data model, as far as selectors use it.\<close>

datatype dm_node = DMap "(string \<times> dm_node) list" | DList "dm_node list" | DInt int | DString string | DOther

text \<open>The selectors that \<^verbatim>\<open>init\<close> builds.\<close>

datatype sel =
    Matcher
  | ExploreAll sel
  | ExploreFields "(string \<times> sel) list"
  | ExploreRecursive sel
  | ExploreRecursiveEdge

record sel_keys =
  SelectorKey_ExploreRecursive :: string
  SelectorKey_ExploreFields :: string
  SelectorKey_ExploreUnion :: string
  SelectorKey_ExploreAll :: string
  SelectorKey_ExploreIndex :: string
  SelectorKey_ExploreRange :: string
  SelectorKey_ExploreConditional :: string
  SelectorKey_Limit :: string
  SelectorKey_Sequence :: string
  SelectorKey_Fields :: string
  SelectorKey_Next :: string
  SelectorKey_LimitDepth :: string
  SelectorKey_LimitNone :: string
  SelectorKey_Matcher :: string
  SelectorKey_ExploreRecursiveEdge :: string
  SelectorKey_Index :: string
  SelectorKey_Start :: string
  SelectorKey_End :: string
  SelectorKey_Condition :: string
  SelectorKey_StopAt :: string

definition maxDepthSelector :: "sel_keys \<Rightarrow> sel" where
  "maxDepthSelector K =
     ExploreRecursive (ExploreFields
       [(SelectorKey_ExploreRecursive K, ExploreFields
          [(SelectorKey_Limit K, Matcher),
           (SelectorKey_Sequence K, ExploreRecursiveEdge)]),
        (SelectorKey_ExploreFields K, ExploreFields [(SelectorKey_Fields K, ExploreAll ExploreRecursiveEdge)]),
        (SelectorKey_ExploreUnion K, ExploreAll ExploreRecursiveEdge),
        (SelectorKey_ExploreAll K, ExploreFields [(SelectorKey_Next K, ExploreRecursiveEdge)]),
        (SelectorKey_ExploreIndex K, ExploreFields [(SelectorKey_Next K, ExploreRecursiveEdge)]),
        (SelectorKey_ExploreRange K, ExploreFields [(SelectorKey_Next K, ExploreRecursiveEdge)]),
        (SelectorKey_ExploreConditional K, ExploreFields [(SelectorKey_Next K, ExploreRecursiveEdge)])])"

section \<open>Validation\<close>

definition ErrInvalidLimit :: gs_error where "ErrInvalidLimit = OtherErr ''unsupported recursive selector limit''"

definition check_limit :: "sel_keys \<Rightarrow> int \<Rightarrow> dm_node \<Rightarrow> gs_error option" where
  "check_limit K maxAcceptedDepth visited =
     (case visited of
        DMap [(kstr, v)] \<Rightarrow>
          if kstr = SelectorKey_LimitDepth K
          then (case v of
                  DInt maxDepthValue \<Rightarrow> if maxDepthValue > maxAcceptedDepth then Some ErrInvalidLimit else None
                | _ \<Rightarrow> Some ErrInvalidLimit)
          else Some ErrInvalidLimit
      | _ \<Rightarrow> Some ErrInvalidLimit)"

type_synonym walk_matching = "dm_node \<Rightarrow> sel \<Rightarrow> (dm_node \<Rightarrow> gs_error option) \<Rightarrow> gs_error option"

definition ValidateMaxRecursionDepth :: "walk_matching \<Rightarrow> sel_keys \<Rightarrow> dm_node \<Rightarrow> int \<Rightarrow> gs_error option" where
  "ValidateMaxRecursionDepth WalkMatching K nd maxAcceptedDepth =
     WalkMatching nd (maxDepthSelector K) (check_limit K maxAcceptedDepth)"

text \<open>The hook; \<open>dm\<close> reads the selector of a request as a node of the data model.\<close>

definition SelectorValidator ::
  "walk_matching \<Rightarrow> sel_keys \<Rightarrow> ('n option \<Rightarrow> dm_node) \<Rightarrow> int \<Rightarrow> peer_id \<Rightarrow> 'n gs_request \<Rightarrow> 'n hook_action list" where
  "SelectorValidator WalkMatching K dm maxAcceptedDepth p request =
     (let err = ValidateMaxRecursionDepth WalkMatching K (dm (gsr_selector request)) maxAcceptedDepth
      in if err = None then [ActValidateRequest] else [])"

section \<open>What a selector matches\<close>

text \<open>By the documentation of selectors: \<open>ExploreAll\<close> goes on with every child of a map or a list and \<open>ExploreFields\<close> with the
  named children of a map; the edge of a recursion stands for its sequence again.\<close>

fun children :: "dm_node \<Rightarrow> dm_node list" where
  "children (DMap kvs) = map snd kvs"
| "children (DList ns) = ns"
| "children _ = []"

fun field :: "string \<Rightarrow> dm_node \<Rightarrow> dm_node option" where
  "field k (DMap kvs) = map_of kvs k"
| "field k _ = None"

fun resolve :: "sel \<Rightarrow> sel \<Rightarrow> sel" where
  "resolve body ExploreRecursiveEdge = body"
| "resolve body s = s"

lemma children_size: "c \<in> set (children n) \<Longrightarrow> size c < size n"
proof (cases n)
  case (DMap kvs)
  then show "c \<in> set (children n) \<Longrightarrow> size c < size n"
    by (auto dest!: in_set_conv_decomp[THEN iffD1])
next
  case (DList ns)
  then show "c \<in> set (children n) \<Longrightarrow> size c < size n"
    using size_list_estimation'[of c ns "size c" size] by auto
qed auto

lemma field_child: "field k n = Some c \<Longrightarrow> c \<in> set (children n)"
  by (cases n) (auto dest!: map_of_SomeD simp: rev_image_eqI)

function matched :: "sel \<Rightarrow> sel \<Rightarrow> dm_node \<Rightarrow> dm_node list" where
  "matched body s n =
     (case s of
        Matcher \<Rightarrow> [n]
      | ExploreAll s \<Rightarrow> concat (map (\<lambda>c. matched body (resolve body s) c) (children n))
      | ExploreFields fs \<Rightarrow>
          concat (map (\<lambda>(k, s). case field k n of None \<Rightarrow> [] | Some c \<Rightarrow> matched body (resolve body s) c) fs)
      | _ \<Rightarrow> [])"
  by pat_completeness auto
termination
  by (relation "measure (\<lambda>(body, s, n). size n)") (auto simp: children_size dest!: field_child)

fun matches_of :: "sel \<Rightarrow> dm_node \<Rightarrow> dm_node list" where
  "matches_of (ExploreRecursive body) n = matched body body n"
| "matches_of s n = matched s s n"

fun first_error :: "gs_error option list \<Rightarrow> gs_error option" where
  "first_error [] = None"
| "first_error (Some e # es) = Some e"
| "first_error (None # es) = first_error es"

definition walk_law :: "walk_matching \<Rightarrow> bool" where
  "walk_law WalkMatching \<longleftrightarrow> (\<forall>n s f. WalkMatching n s f = first_error (map f (matches_of s n)))"

declare matched.simps [simp del]

lemma matched_simps [simp]:
  "matched body Matcher n = [n]"
  "matched body (ExploreAll s) n = concat (map (matched body (resolve body s)) (children n))"
  "matched body (ExploreFields fs) n =
     concat (map (\<lambda>(k, s). case field k n of None \<Rightarrow> [] | Some c \<Rightarrow> matched body (resolve body s) c) fs)"
  by (subst matched.simps, simp)+

lemma first_error_None: "first_error es = None \<longleftrightarrow> (\<forall>e \<in> set es. e = None)"
  by (induction es rule: first_error.induct) auto

section \<open>Selectors and their nodes\<close>

datatype rec_limit = LimitDepth int | LimitNone

datatype selector =
    SMatch
  | SEdge
  | SAll selector
  | SFields "(string \<times> selector) list"
  | SIndex int selector
  | SRange int int selector
  | SConditional dm_node selector
  | SUnion "selector list"
  | SRecursive rec_limit selector "dm_node option"

fun limit_node :: "sel_keys \<Rightarrow> rec_limit \<Rightarrow> dm_node" where
  "limit_node K (LimitDepth n) = DMap [(SelectorKey_LimitDepth K, DInt n)]"
| "limit_node K LimitNone = DMap [(SelectorKey_LimitNone K, DMap [])]"

primrec selector_node :: "sel_keys \<Rightarrow> selector \<Rightarrow> dm_node" where
  "selector_node K SMatch = DMap [(SelectorKey_Matcher K, DMap [])]"
| "selector_node K SEdge = DMap [(SelectorKey_ExploreRecursiveEdge K, DMap [])]"
| "selector_node K (SAll s) = DMap [(SelectorKey_ExploreAll K, DMap [(SelectorKey_Next K, selector_node K s)])]"
| "selector_node K (SFields fs) = DMap [(SelectorKey_ExploreFields K,
     DMap [(SelectorKey_Fields K, DMap (map (map_prod id (selector_node K)) fs))])]"
| "selector_node K (SIndex i s) = DMap [(SelectorKey_ExploreIndex K,
     DMap [(SelectorKey_Index K, DInt i), (SelectorKey_Next K, selector_node K s)])]"
| "selector_node K (SRange a b s) = DMap [(SelectorKey_ExploreRange K,
     DMap [(SelectorKey_Start K, DInt a), (SelectorKey_End K, DInt b), (SelectorKey_Next K, selector_node K s)])]"
| "selector_node K (SConditional c s) = DMap [(SelectorKey_ExploreConditional K,
     DMap [(SelectorKey_Condition K, c), (SelectorKey_Next K, selector_node K s)])]"
| "selector_node K (SUnion ss) = DMap [(SelectorKey_ExploreUnion K, DList (map (selector_node K) ss))]"
| "selector_node K (SRecursive l s stop) = DMap [(SelectorKey_ExploreRecursive K,
     DMap ([(SelectorKey_Limit K, limit_node K l), (SelectorKey_Sequence K, selector_node K s)] @
           (case stop of None \<Rightarrow> [] | Some c \<Rightarrow> [(SelectorKey_StopAt K, c)])))]"

text \<open>All limits of recursions in a selector.\<close>

primrec limits :: "selector \<Rightarrow> rec_limit list" where
  "limits SMatch = []"
| "limits SEdge = []"
| "limits (SAll s) = limits s"
| "limits (SFields fs) = concat (map snd (map (map_prod id limits) fs))"
| "limits (SIndex i s) = limits s"
| "limits (SRange a b s) = limits s"
| "limits (SConditional c s) = limits s"
| "limits (SUnion ss) = concat (map limits ss)"
| "limits (SRecursive l s stop) = l # limits s"

text \<open>The names of the kinds of selectors differ, and so do the names of the fields of one kind.\<close>

definition keys_ok :: "sel_keys \<Rightarrow> bool" where
  "keys_ok K \<longleftrightarrow>
     distinct [SelectorKey_ExploreRecursiveEdge K, SelectorKey_Matcher K, SelectorKey_ExploreConditional K, SelectorKey_ExploreRange K,
       SelectorKey_ExploreIndex K, SelectorKey_ExploreAll K, SelectorKey_ExploreUnion K, SelectorKey_ExploreFields K,
       SelectorKey_ExploreRecursive K] \<and>
     distinct [SelectorKey_StopAt K, SelectorKey_Sequence K, SelectorKey_Limit K] \<and>
     distinct [SelectorKey_Next K, SelectorKey_Index K, SelectorKey_Start K, SelectorKey_End K, SelectorKey_Condition K] \<and>
     SelectorKey_LimitDepth K \<noteq> SelectorKey_LimitNone K"

text \<open>Where the selector for selectors looks in a node of one kind.\<close>

lemma matched_one_field:
  assumes "distinct (map fst fs)"
  shows "matched body (ExploreFields fs) (DMap [(k, v)]) = (case map_of fs k of None \<Rightarrow> [] | Some s \<Rightarrow> matched body (resolve body s) v)"
proof -
  have none: "concat (map (\<lambda>(k', s). case field k' (DMap [(k, v)]) of None \<Rightarrow> [] | Some c \<Rightarrow> f s c) fs) = []" if "k \<notin> fst ` set fs" for fs and f :: "sel \<Rightarrow> dm_node \<Rightarrow> dm_node list"
    using that by (induction fs) auto
  have "concat (map (\<lambda>(k', s). case field k' (DMap [(k, v)]) of None \<Rightarrow> [] | Some c \<Rightarrow> f s c) fs) = (case map_of fs k of None \<Rightarrow> [] | Some s \<Rightarrow> f s v)"
    for f :: "sel \<Rightarrow> dm_node \<Rightarrow> dm_node list"
    using assms
  proof (induction fs)
    case (Cons p fs)
    then have "fst p = k \<Longrightarrow> mget fs k = None" by (auto simp: map_of_eq_None_iff)
    with Cons none[of fs f] show ?case by (cases p) (auto split: option.splits)
  qed simp
  then show ?thesis by simp
qed

lemma maxDepth_at:
  assumes "keys_ok K" "maxDepthSelector K = ExploreRecursive body"
  shows "\<exists>fs. body = ExploreFields fs \<and> distinct (map fst fs) \<and>
    map_of fs (SelectorKey_ExploreRecursive K) = Some (ExploreFields [(SelectorKey_Limit K, Matcher), (SelectorKey_Sequence K, ExploreRecursiveEdge)]) \<and>
    map_of fs (SelectorKey_ExploreFields K) = Some (ExploreFields [(SelectorKey_Fields K, ExploreAll ExploreRecursiveEdge)]) \<and>
    map_of fs (SelectorKey_ExploreUnion K) = Some (ExploreAll ExploreRecursiveEdge) \<and>
    (\<forall>k \<in> {SelectorKey_ExploreAll K, SelectorKey_ExploreIndex K, SelectorKey_ExploreRange K, SelectorKey_ExploreConditional K}.
       map_of fs k = Some (ExploreFields [(SelectorKey_Next K, ExploreRecursiveEdge)])) \<and>
    (\<forall>k. k \<notin> {SelectorKey_ExploreRecursive K, SelectorKey_ExploreFields K, SelectorKey_ExploreUnion K, SelectorKey_ExploreAll K,
       SelectorKey_ExploreIndex K, SelectorKey_ExploreRange K, SelectorKey_ExploreConditional K} \<longrightarrow> map_of fs k = None)"
  using assms by (auto simp: maxDepthSelector_def keys_ok_def)

lemma maxDepth_matches:
  assumes "keys_ok K"
  shows "matches_of (maxDepthSelector K) (selector_node K s) = map (limit_node K) (limits s)"
proof -
  obtain body where body: "maxDepthSelector K = ExploreRecursive body" by (simp add: maxDepthSelector_def)
  obtain fs where fs: "body = ExploreFields fs" "distinct (map fst fs)"
    "map_of fs (SelectorKey_ExploreRecursive K) = Some (ExploreFields [(SelectorKey_Limit K, Matcher), (SelectorKey_Sequence K, ExploreRecursiveEdge)])"
    "map_of fs (SelectorKey_ExploreFields K) = Some (ExploreFields [(SelectorKey_Fields K, ExploreAll ExploreRecursiveEdge)])"
    "map_of fs (SelectorKey_ExploreUnion K) = Some (ExploreAll ExploreRecursiveEdge)"
    and nxt: "\<forall>k \<in> {SelectorKey_ExploreAll K, SelectorKey_ExploreIndex K, SelectorKey_ExploreRange K, SelectorKey_ExploreConditional K}.
       map_of fs k = Some (ExploreFields [(SelectorKey_Next K, ExploreRecursiveEdge)])"
    and other: "\<forall>k. k \<notin> {SelectorKey_ExploreRecursive K, SelectorKey_ExploreFields K, SelectorKey_ExploreUnion K, SelectorKey_ExploreAll K,
       SelectorKey_ExploreIndex K, SelectorKey_ExploreRange K, SelectorKey_ExploreConditional K} \<longrightarrow> map_of fs k = None"
    using maxDepth_at[OF assms body] by (elim exE conjE) (rule that)
  have leaf: "map_of fs (SelectorKey_Matcher K) = None" "map_of fs (SelectorKey_ExploreRecursiveEdge K) = None"
    by (rule other[rule_format], use assms in \<open>auto simp: keys_ok_def\<close>)+
  have one: "matched body body (DMap [(k, v)]) = (case map_of fs k of None \<Rightarrow> [] | Some s \<Rightarrow> matched body (resolve body s) v)" for k v
    using matched_one_field[OF fs(2), of body k v] by (simp add: fs(1))
  have keys: "SelectorKey_Sequence K \<noteq> SelectorKey_Limit K" "SelectorKey_Next K \<noteq> SelectorKey_Index K" "SelectorKey_Next K \<noteq> SelectorKey_Start K"
    "SelectorKey_Next K \<noteq> SelectorKey_End K" "SelectorKey_Next K \<noteq> SelectorKey_Condition K"
    using assms by (auto simp: keys_ok_def)
  have "matched body body (selector_node K s) = map (limit_node K) (limits s)"
  proof (induction s)
    case (SFields ks)
    then have "map (\<lambda>f. matched body body (selector_node K (snd f))) ks = map (\<lambda>f. map (limit_node K) (limits (snd f))) ks"
      by (force simp: map_eq_conv snds.simps)
    then show ?case by (simp add: one fs(3-) nxt leaf o_def map_concat cong: map_cong)
  next
    case (SUnion ss)
    then have "map (\<lambda>s. matched body body (selector_node K s)) ss = map (\<lambda>s. map (limit_node K) (limits s)) ss" by simp
    then show ?case by (simp add: one fs(3-) nxt leaf o_def map_concat cong: map_cong)
  next
    case (SRecursive l s stop)
    then show ?case by (cases stop) (simp_all add: one fs(3-) nxt leaf keys)
  qed (simp_all add: one fs(3-) nxt leaf keys)
  with body show ?thesis by simp
qed

lemma check_limit_node:
  "keys_ok K \<Longrightarrow> check_limit K d (limit_node K l) = None \<longleftrightarrow> (\<exists>n \<le> d. l = LimitDepth n)"
  by (cases l) (auto simp: check_limit_def keys_ok_def)

lemma validates_bounded:
  assumes "walk_law WalkMatching" "keys_ok K"
  shows "ValidateMaxRecursionDepth WalkMatching K (selector_node K s) d = None \<longleftrightarrow> (\<forall>l \<in> set (limits s). \<exists>n \<le> d. l = LimitDepth n)"
  using assms(1)[unfolded walk_law_def] maxDepth_matches[OF assms(2), of s] check_limit_node[OF assms(2)]
  by (simp add: ValidateMaxRecursionDepth_def first_error_None)


text \<open>What the validator does not look into: a node whose only key is not one of the seven kinds is accepted, whatever is below it.\<close>

lemma other_kinds_not_examined:
  assumes "walk_law WalkMatching" "keys_ok K"
    "k \<notin> {SelectorKey_ExploreRecursive K, SelectorKey_ExploreFields K, SelectorKey_ExploreUnion K, SelectorKey_ExploreAll K,
       SelectorKey_ExploreIndex K, SelectorKey_ExploreRange K, SelectorKey_ExploreConditional K}"
  shows "ValidateMaxRecursionDepth WalkMatching K (DMap [(k, v)]) d = None"
proof -
  obtain body where body: "maxDepthSelector K = ExploreRecursive body" by (simp add: maxDepthSelector_def)
  from maxDepth_at[OF assms(2) body] obtain fs where fs: "body = ExploreFields fs" "distinct (map fst fs)" "map_of fs k = None"
    using assms(3) by (elim exE conjE) blast
  then have "matches_of (maxDepthSelector K) (DMap [(k, v)]) = []"
    using matched_one_field[OF fs(2), of body k v] by (simp add: body)
  with assms(1) show ?thesis by (simp add: ValidateMaxRecursionDepth_def walk_law_def)
qed

subsection \<open>Witness: a recursion within a union\<close>

definition spec_keys :: sel_keys where
  "spec_keys =
     \<lparr>SelectorKey_ExploreRecursive = ''R'', SelectorKey_ExploreFields = ''f'', SelectorKey_ExploreUnion = ''|'',
      SelectorKey_ExploreAll = ''a'', SelectorKey_ExploreIndex = ''i'', SelectorKey_ExploreRange = ''r'',
      SelectorKey_ExploreConditional = ''&'', SelectorKey_Limit = ''l'', SelectorKey_Sequence = '':>'', SelectorKey_Fields = ''f>'',
      SelectorKey_Next = ''>'', SelectorKey_LimitDepth = ''depth'', SelectorKey_LimitNone = ''none'', SelectorKey_Matcher = ''.'',
      SelectorKey_ExploreRecursiveEdge = ''@'', SelectorKey_Index = ''i'', SelectorKey_Start = ''^'', SelectorKey_End = ''$'',
      SelectorKey_Condition = ''&'', SelectorKey_StopAt = ''!''\<rparr>"

definition run_walk :: walk_matching where
  "run_walk n s f = first_error (map f (matches_of s n))"

definition example_selector :: selector where
  "example_selector = SUnion [SMatch, SFields [(''x'', SRecursive (LimitDepth 101) (SAll SEdge) None)]]"


end
