(* ===== verification/Listeners.thy ===== *)
theory Listeners
  imports Hooks Event_Machine
begin

text \<open>
  \<^verbatim>\<open>listeners\<close>: the sets of listeners that are told of completed and cancelled responses, requests that begin, blocks that
  are sent and errors of the network; and what is left of \<^verbatim>\<open>requestmanager/client.go\<close>: the report of a lost connection to the
  requests of a peer, the answers that are given without a request, and the goroutine that cancels a request and drains its channels.
  A listener is user code that changes the rest of the world; the publisher is the parameter of the hooks.
\<close>

section \<open>Listeners\<close>

type_synonym ('n, 'a, 'w) listener = "peer_id \<Rightarrow> 'n gs_request \<Rightarrow> 'a \<Rightarrow> 'w \<Rightarrow> 'w"

definition completedResponseDispatcher ::
  "peer_id \<times> 'n gs_request \<times> status_code \<Rightarrow> ('n, status_code, 'w) listener \<Rightarrow> 'w \<Rightarrow> gs_error option \<times> 'w" where
  "completedResponseDispatcher = (\<lambda>(p, request, status) listener w. (None, listener p request status w))"

definition NotifyCompletedListeners ::
  "(('n, status_code, 'w) listener, 'w) publish \<Rightarrow> ('n, status_code, 'w) listener list \<Rightarrow> peer_id \<Rightarrow> 'n gs_request \<Rightarrow> status_code \<Rightarrow> 'w \<Rightarrow> 'w" where
  "NotifyCompletedListeners publish crl p request status = publish (completedResponseDispatcher (p, request, status)) crl"

definition requestorCancelledDispatcher ::
  "peer_id \<times> 'n gs_request \<Rightarrow> (peer_id \<Rightarrow> 'n gs_request \<Rightarrow> 'w \<Rightarrow> 'w) \<Rightarrow> 'w \<Rightarrow> gs_error option \<times> 'w" where
  "requestorCancelledDispatcher = (\<lambda>(p, request) listener w. (None, listener p request w))"

definition NotifyCancelledListeners ::
  "(peer_id \<Rightarrow> 'n gs_request \<Rightarrow> 'w \<Rightarrow> 'w, 'w) publish \<Rightarrow> (peer_id \<Rightarrow> 'n gs_request \<Rightarrow> 'w \<Rightarrow> 'w) list \<Rightarrow> peer_id \<Rightarrow> 'n gs_request \<Rightarrow> 'w \<Rightarrow> 'w" where
  "NotifyCancelledListeners publish rcl p request = publish (requestorCancelledDispatcher (p, request)) rcl"

definition requestProcessingDispatcher ::
  "peer_id \<times> 'n gs_request \<times> nat \<Rightarrow> ('n, nat, 'w) listener \<Rightarrow> 'w \<Rightarrow> gs_error option \<times> 'w" where
  "requestProcessingDispatcher = (\<lambda>(p, request, inProgressRequestCount) listener w. (None, listener p request inProgressRequestCount w))"

definition NotifyRequestProcessingListeners ::
  "(('n, nat, 'w) listener, 'w) publish \<Rightarrow> ('n, nat, 'w) listener list \<Rightarrow> peer_id \<Rightarrow> 'n gs_request \<Rightarrow> nat \<Rightarrow> 'w \<Rightarrow> 'w" where
  "NotifyRequestProcessingListeners publish rpl p request inProgressRequestCount =
     publish (requestProcessingDispatcher (p, request, inProgressRequestCount)) rpl"

definition blockSentDispatcher ::
  "peer_id \<times> 'n gs_request \<times> block_data \<Rightarrow> ('n, block_data, 'w) listener \<Rightarrow> 'w \<Rightarrow> gs_error option \<times> 'w" where
  "blockSentDispatcher = (\<lambda>(p, request, block) listener w. (None, listener p request block w))"

definition NotifyBlockSentListeners ::
  "(('n, block_data, 'w) listener, 'w) publish \<Rightarrow> ('n, block_data, 'w) listener list \<Rightarrow> peer_id \<Rightarrow> 'n gs_request \<Rightarrow> block_data \<Rightarrow> 'w \<Rightarrow> 'w" where
  "NotifyBlockSentListeners publish bsl p request block = publish (blockSentDispatcher (p, request, block)) bsl"

definition networkErrorDispatcher ::
  "peer_id \<times> 'n gs_request \<times> gs_error \<Rightarrow> ('n, gs_error, 'w) listener \<Rightarrow> 'w \<Rightarrow> gs_error option \<times> 'w" where
  "networkErrorDispatcher = (\<lambda>(p, request, err) listener w. (None, listener p request err w))"

definition NotifyNetworkErrorListeners ::
  "(('n, gs_error, 'w) listener, 'w) publish \<Rightarrow> ('n, gs_error, 'w) listener list \<Rightarrow> peer_id \<Rightarrow> 'n gs_request \<Rightarrow> gs_error \<Rightarrow> 'w \<Rightarrow> 'w" where
  "NotifyNetworkErrorListeners publish nel p request err = publish (networkErrorDispatcher (p, request, err)) nel"

definition receiverNetworkErrorDispatcher ::
  "peer_id \<times> gs_error \<Rightarrow> (peer_id \<Rightarrow> gs_error \<Rightarrow> 'w \<Rightarrow> 'w) \<Rightarrow> 'w \<Rightarrow> gs_error option \<times> 'w" where
  "receiverNetworkErrorDispatcher = (\<lambda>(p, err) listener w. (None, listener p err w))"

definition NotifyReceiverErrorListeners ::
  "(peer_id \<Rightarrow> gs_error \<Rightarrow> 'w \<Rightarrow> 'w, 'w) publish \<Rightarrow> (peer_id \<Rightarrow> gs_error \<Rightarrow> 'w \<Rightarrow> 'w) list \<Rightarrow> peer_id \<Rightarrow> gs_error \<Rightarrow> 'w \<Rightarrow> 'w" where
  "NotifyReceiverErrorListeners publish nel p err = publish (receiverNetworkErrorDispatcher (p, err)) nel"

section \<open>A lost connection\<close>

definition disconnectDispatcher :: "peer_id \<Rightarrow> (peer_id \<Rightarrow> 'w \<Rightarrow> 'w) \<Rightarrow> 'w \<Rightarrow> gs_error option \<times> 'w" where
  "disconnectDispatcher p listener w = (None, listener p w)"

text \<open>\<open>peerString\<close> is the printing of a peer in the text of an error, that of libp2p.\<close>

definition listenForDisconnect :: "(peer_id \<Rightarrow> string) \<Rightarrow> peer_id \<Rightarrow> (gs_error \<Rightarrow> 'w \<Rightarrow> 'w) \<Rightarrow> peer_id \<Rightarrow> 'w \<Rightarrow> 'w" where
  "listenForDisconnect peerString p onDisconnect evtPeer w =
     (if evtPeer = p then onDisconnect (OtherErr (''disconnected from peer '' @ peerString p)) w else w)"

definition rm_Disconnected :: "(peer_id \<Rightarrow> 'w \<Rightarrow> 'w, 'w) publish \<Rightarrow> (peer_id \<Rightarrow> 'w \<Rightarrow> 'w) list \<Rightarrow> peer_id \<Rightarrow> 'w \<Rightarrow> 'w" where
  "rm_Disconnected publish disconnectNotif p = publish (disconnectDispatcher p) disconnectNotif"

text \<open>What a new request subscribes.\<close>

definition on_disconnect ::
  "(peer_id \<Rightarrow> string) \<Rightarrow> (('n, gs_error, 'w) listener, 'w) publish \<Rightarrow> ('n, gs_error, 'w) listener list \<Rightarrow> peer_id \<times> 'n gs_request \<Rightarrow> peer_id \<Rightarrow> 'w \<Rightarrow> 'w" where
  "on_disconnect peerString publish nel = (\<lambda>(p, request). listenForDisconnect peerString p (\<lambda>neterr. NotifyNetworkErrorListeners publish nel p request neterr))"

section \<open>Channels without a request\<close>

text \<open>A channel that was closed after some values were put into its buffer.\<close>

definition emptyResponse :: "'p list \<times> gs_error list" where
  "emptyResponse = ([], [])"

definition singleErrorResponse :: "gs_error \<Rightarrow> 'p list \<times> gs_error list" where
  "singleErrorResponse err = ([], [err])"

section \<open>Cancelling a request and draining its channels\<close>

text \<open>\<open>None\<close> is a nil channel; the values a channel still brings before it is closed are a list.\<close>

record ('n, 'p) canceller =
  cc_cancelMessageChannel :: bool
  cc_incomingResponses :: "'p list option"
  cc_incomingErrors :: "gs_error list option"
  cc_messages :: "'n rm_message list"
  cc_returned :: bool

datatype cc_event = CcCancel | CcResponse | CcError | CcCtxDone

definition cc_loop :: "('n, 'p) canceller \<Rightarrow> ('n, 'p) canceller" where
  "cc_loop c = c\<lparr>cc_returned :=
     \<not> (cc_cancelMessageChannel c \<or> cc_incomingResponses c \<noteq> None \<or> cc_incomingErrors c \<noteq> None)\<rparr>"

definition cc_start :: "'p list \<Rightarrow> gs_error list \<Rightarrow> ('n, 'p) canceller" where
  "cc_start responses errors =
     \<lparr>cc_cancelMessageChannel = True, cc_incomingResponses = Some responses, cc_incomingErrors = Some errors, cc_messages = [], cc_returned = False\<rparr>"

fun cc_step :: "request_id \<Rightarrow> ('n, 'p) canceller \<Rightarrow> cc_event \<Rightarrow> ('n, 'p) canceller option" where
  "cc_step requestID c CcCancel =
     (if cc_returned c \<or> \<not> cc_cancelMessageChannel c then None
      else Some (cc_loop (c\<lparr>cc_cancelMessageChannel := False, cc_messages := cc_messages c @ [cancelRequestAndClose requestID]\<rparr>)))"
| "cc_step requestID c CcResponse =
     (if cc_returned c then None
      else case cc_incomingResponses c of
             None \<Rightarrow> None
           | Some [] \<Rightarrow> Some (cc_loop (c\<lparr>cc_incomingResponses := None\<rparr>))
           | Some (_ # rs) \<Rightarrow> Some (cc_loop (c\<lparr>cc_incomingResponses := Some rs\<rparr>)))"
| "cc_step requestID c CcError =
     (if cc_returned c then None
      else case cc_incomingErrors c of
             None \<Rightarrow> None
           | Some [] \<Rightarrow> Some (cc_loop (c\<lparr>cc_incomingErrors := None\<rparr>))
           | Some (_ # es) \<Rightarrow> Some (cc_loop (c\<lparr>cc_incomingErrors := Some es\<rparr>)))"
| "cc_step requestID c CcCtxDone = (if cc_returned c then None else Some (c\<lparr>cc_returned := True\<rparr>))"

primrec cc_run :: "request_id \<Rightarrow> cc_event list \<Rightarrow> ('n, 'p) canceller \<Rightarrow> ('n, 'p) canceller option" where
  "cc_run requestID [] c = Some c"
| "cc_run requestID (e # es) c = Option.bind (cc_step requestID c e) (cc_run requestID es)"

interpretation ccm: event_machine "cc_step requestID" "cc_run requestID" for requestID
  by unfold_locales simp_all

section \<open>Every listener is told\<close>

interpretation completedListeners: hook_chain "\<lambda>w f. f w" "\<lambda>_. None" "completedResponseDispatcher (p, request, status)" "\<lambda>l. [l p request status]"
  for p request status by unfold_locales (simp add: completedResponseDispatcher_def)

interpretation cancelledListeners: hook_chain "\<lambda>w f. f w" "\<lambda>_. None" "requestorCancelledDispatcher (p, request)" "\<lambda>l. [l p request]"
  for p request by unfold_locales (simp add: requestorCancelledDispatcher_def)

interpretation processingListeners: hook_chain "\<lambda>w f. f w" "\<lambda>_. None" "requestProcessingDispatcher (p, request, n)" "\<lambda>l. [l p request n]"
  for p request n by unfold_locales (simp add: requestProcessingDispatcher_def)

interpretation blockSentListeners: hook_chain "\<lambda>w f. f w" "\<lambda>_. None" "blockSentDispatcher (p, request, block)" "\<lambda>l. [l p request block]"
  for p request block by unfold_locales (simp add: blockSentDispatcher_def)

interpretation networkErrorListeners: hook_chain "\<lambda>w f. f w" "\<lambda>_. None" "networkErrorDispatcher (p, request, err)" "\<lambda>l. [l p request err]"
  for p request err by unfold_locales (simp add: networkErrorDispatcher_def)

interpretation receiverErrorListeners: hook_chain "\<lambda>w f. f w" "\<lambda>_. None" "receiverNetworkErrorDispatcher (p, err)" "\<lambda>l. [l p err]"
  for p err by unfold_locales (simp add: receiverNetworkErrorDispatcher_def)

interpretation disconnectListeners: hook_chain "\<lambda>w f. f w" "\<lambda>_. None" "disconnectDispatcher p" "\<lambda>l. [l p]"
  for p by unfold_locales (simp add: disconnectDispatcher_def)

lemma runs_all: "(\<exists>run skipped. hooks = run @ skipped \<and> x = foldl act s (concat (map actions run)) \<and> (skipped \<noteq> [] \<longrightarrow> (None :: gs_error option) \<noteq> None) \<and> P run) \<Longrightarrow>
  x = foldl act s (concat (map actions hooks))"
  by auto

text \<open>A set of listeners runs all of them, in the order of their registration.\<close>

lemma listeners_told:
  "publish_law pub1 \<Longrightarrow> NotifyCompletedListeners pub1 crl p request status w = foldl (\<lambda>w l. l p request status w) w crl"
  "publish_law pub2 \<Longrightarrow> NotifyCancelledListeners pub2 rcl p request w = foldl (\<lambda>w l. l p request w) w rcl"
  "publish_law pub3 \<Longrightarrow> NotifyRequestProcessingListeners pub3 rpl p request n w = foldl (\<lambda>w l. l p request n w) w rpl"
  "publish_law pub4 \<Longrightarrow> NotifyBlockSentListeners pub4 bsl p request block w = foldl (\<lambda>w l. l p request block w) w bsl"
  "publish_law pub5 \<Longrightarrow> NotifyNetworkErrorListeners pub5 nel p request err w = foldl (\<lambda>w l. l p request err w) w nel"
  "publish_law pub6 \<Longrightarrow> NotifyReceiverErrorListeners pub6 rel p err w = foldl (\<lambda>w l. l p err w) w rel"
  "publish_law pub7 \<Longrightarrow> rm_Disconnected pub7 subs p w = foldl (\<lambda>w l. l p w) w subs"
  using runs_all[OF completedListeners.runs_prefix] runs_all[OF cancelledListeners.runs_prefix] runs_all[OF processingListeners.runs_prefix]
    runs_all[OF blockSentListeners.runs_prefix] runs_all[OF networkErrorListeners.runs_prefix] runs_all[OF receiverErrorListeners.runs_prefix]
    runs_all[OF disconnectListeners.runs_prefix]
  by (simp_all add: NotifyCompletedListeners_def NotifyCancelledListeners_def NotifyRequestProcessingListeners_def
      NotifyBlockSentListeners_def NotifyNetworkErrorListeners_def NotifyReceiverErrorListeners_def rm_Disconnected_def foldl_map)

text \<open>When the connection to a peer is lost, every listener for errors of the network is told of every request to that peer that
  still listens, in the order the requests were made, and of no other.\<close>

theorem disconnect_reports_requests:
  assumes "publish_law pub" "publish_law pub'"
  shows "rm_Disconnected pub' (map (on_disconnect peerString pub nel) requests) p w =
    foldl (\<lambda>w (request, l). l p request (OtherErr (''disconnected from peer '' @ peerString p)) w) w
      [(request, l). (q, request) \<leftarrow> requests, q = p, l \<leftarrow> nel]"
proof (induction requests arbitrary: w)
  case Nil
  show ?case by (simp add: listeners_told(7)[OF assms(2)])
next
  case (Cons r requests)
  have one: "on_disconnect peerString pub nel r p w = foldl (\<lambda>w (request, l). l p request (OtherErr (''disconnected from peer '' @ peerString p)) w) w
      (if fst r = p then map (Pair (snd r)) nel else [])" for w
    by (cases r) (simp add: on_disconnect_def listenForDisconnect_def listeners_told(5)[OF assms(1)] foldl_map)
  have "rm_Disconnected pub' (map (on_disconnect peerString pub nel) (r # requests)) p w =
      rm_Disconnected pub' (map (on_disconnect peerString pub nel) requests) p (on_disconnect peerString pub nel r p w)"
    by (simp add: listeners_told(7)[OF assms(2)])
  with Cons.IH one show ?case by (cases r) simp
qed

section \<open>Draining ends\<close>

definition cc_left :: "('n, 'p) canceller \<Rightarrow> nat" where
  "cc_left c = (if cc_cancelMessageChannel c then 1 else 0) +
     (case cc_incomingResponses c of None \<Rightarrow> 0 | Some rs \<Rightarrow> length rs + 1) + (case cc_incomingErrors c of None \<Rightarrow> 0 | Some es \<Rightarrow> length es + 1)"

lemma cc_left_simps [simp]:
  "cc_left (cc_loop c) = cc_left c" "cc_left (c\<lparr>cc_messages := ms\<rparr>) = cc_left c" "cc_left (c\<lparr>cc_returned := b\<rparr>) = cc_left c"
  "cc_returned (cc_loop c) \<longleftrightarrow> cc_left c = 0" "cc_messages (cc_loop c) = cc_messages c"
  "cc_cancelMessageChannel (cc_loop c) = cc_cancelMessageChannel c"
  by (simp_all add: cc_loop_def cc_left_def split: option.split)

lemma cc_left_less:
  "cc_cancelMessageChannel c \<Longrightarrow> cc_left c = Suc (cc_left (c\<lparr>cc_cancelMessageChannel := False\<rparr>))"
  "cc_incomingResponses c = Some [] \<Longrightarrow> cc_left c = Suc (cc_left (c\<lparr>cc_incomingResponses := None\<rparr>))"
  "cc_incomingResponses c = Some (r # rs) \<Longrightarrow> cc_left c = Suc (cc_left (c\<lparr>cc_incomingResponses := Some rs\<rparr>))"
  "cc_incomingErrors c = Some [] \<Longrightarrow> cc_left c = Suc (cc_left (c\<lparr>cc_incomingErrors := None\<rparr>))"
  "cc_incomingErrors c = Some (e # es) \<Longrightarrow> cc_left c = Suc (cc_left (c\<lparr>cc_incomingErrors := Some es\<rparr>))"
  by (simp_all add: cc_left_def)

definition cc_inv :: "request_id \<Rightarrow> nat \<Rightarrow> cc_event list \<Rightarrow> ('n, 'p) canceller \<Rightarrow> bool" where
  "cc_inv requestID n es c \<longleftrightarrow>
     length es + (if cc_returned c then 0 else cc_left c) \<le> n \<and> (\<not> cc_returned c \<longrightarrow> cc_left c > 0) \<and>
     cc_messages c = (if cc_cancelMessageChannel c then [] else [cancelRequestAndClose requestID]) \<and>
     (cc_returned c \<and> CcCtxDone \<notin> set es \<longrightarrow> cc_left c = 0)"

lemma cc_inv_loop:
  assumes "cc_inv requestID n es c" "\<not> cc_returned c" "cc_left c = Suc (cc_left c')"
    "cc_messages c' = (if cc_cancelMessageChannel c' then [] else [cancelRequestAndClose requestID])"
  shows "cc_inv requestID n (es @ [e]) (cc_loop c')"
  using assms by (simp add: cc_inv_def)

lemma cc_inv_step:
  assumes "cc_inv requestID n es c" "cc_step requestID c e = Some c'"
  shows "cc_inv requestID n (es @ [e]) c'"
proof -
  have live: "\<not> cc_returned c" using assms(2) by (cases e) (simp_all split: if_splits)
  have msgs: "cc_messages c = (if cc_cancelMessageChannel c then [] else [cancelRequestAndClose requestID])"
    using assms(1) by (simp add: cc_inv_def)
  note loop = cc_inv_loop[OF assms(1) live]
  show ?thesis
  proof (cases e)
    case CcCancel
    with assms(2) live have c: "cc_cancelMessageChannel c" by (simp split: if_splits)
    with CcCancel assms(2) live have "c' = cc_loop (c\<lparr>cc_cancelMessageChannel := False, cc_messages := cc_messages c @ [cancelRequestAndClose requestID]\<rparr>)"
      by simp
    then show ?thesis using msgs c cc_left_less(1)[OF c] by (simp add: loop)
  next
    case CcResponse
    with assms(2) live obtain rs where rs: "cc_incomingResponses c = Some rs" by (cases "cc_incomingResponses c") simp_all
    with CcResponse assms(2) live show ?thesis using msgs
      by (cases rs) (auto intro!: loop simp: cc_left_less)
  next
    case CcError
    with assms(2) live obtain rs where rs: "cc_incomingErrors c = Some rs" by (cases "cc_incomingErrors c") simp_all
    with CcError assms(2) live show ?thesis using msgs
      by (cases rs) (auto intro!: loop simp: cc_left_less)
  next
    case CcCtxDone
    with assms live show ?thesis by (auto simp: cc_inv_def)
  qed
qed

lemma cc_left_pos: "0 < cc_left c \<Longrightarrow> cc_cancelMessageChannel c \<or> cc_incomingResponses c \<noteq> None \<or> cc_incomingErrors c \<noteq> None"
  by (simp add: cc_left_def split: if_splits option.splits)

lemma cc_left_zero: "cc_left c = 0 \<longleftrightarrow> \<not> cc_cancelMessageChannel c \<and> cc_incomingResponses c = None \<and> cc_incomingErrors c = None"
  by (simp add: cc_left_def split: option.split)

lemma cc_not_stuck:
  assumes "\<not> cc_returned c" "0 < cc_left c"
  shows "\<exists>e \<in> {CcCancel, CcResponse, CcError}. cc_step requestID c e \<noteq> None"
proof -
  have "cc_incomingResponses c \<noteq> None \<Longrightarrow> cc_step requestID c CcResponse \<noteq> None"
    "cc_incomingErrors c \<noteq> None \<Longrightarrow> cc_step requestID c CcError \<noteq> None"
    using assms(1) by (auto split: list.split)
  moreover have "cc_cancelMessageChannel c \<Longrightarrow> cc_step requestID c CcCancel \<noteq> None" using assms(1) by simp
  ultimately show ?thesis using cc_left_pos[OF assms(2)] by blast
qed

text \<open>Cancelling a request whose caller has gone ends: the goroutine takes no more turns than there are values left in the channels
  of the request, their two ends and the cancellation; until it returns it always has something to wait for that will come; and
  unless the manager is shut down it has then sent the cancellation once and drained both channels.\<close>

theorem cancel_and_close_ends:
  assumes "cc_run requestID es (cc_start responses errors) = Some c"
  shows "length es \<le> length responses + length errors + 3"
    and "\<not> cc_returned c \<Longrightarrow> \<exists>e \<in> {CcCancel, CcResponse, CcError}. cc_step requestID c e \<noteq> None"
    and "cc_returned c \<Longrightarrow> CcCtxDone \<notin> set es \<Longrightarrow>
      cc_messages c = [cancelRequestAndClose requestID] \<and> cc_incomingResponses c = None \<and> cc_incomingErrors c = None"
proof -
  have start: "cc_inv requestID (length responses + length errors + 3) [] (cc_start responses errors)"
    by (simp add: cc_inv_def cc_start_def cc_left_def)
  have inv: "cc_inv requestID (length responses + length errors + 3) es c"
    using assms start cc_inv_step by (rule ccm.history_induct)
  then show "length es \<le> length responses + length errors + 3" by (simp add: cc_inv_def)
  show "\<exists>e \<in> {CcCancel, CcResponse, CcError}. cc_step requestID c e \<noteq> None" if "\<not> cc_returned c"
    using inv that by (intro cc_not_stuck) (simp_all add: cc_inv_def)
  show "cc_messages c = [cancelRequestAndClose requestID] \<and> cc_incomingResponses c = None \<and> cc_incomingErrors c = None"
    if "cc_returned c" "CcCtxDone \<notin> set es"
    using inv that by (simp add: cc_inv_def cc_left_zero)
qed

end
