(* ===== verification/Backpressure.thy ===== *)
theory Backpressure
  imports Allocator Response_Assembler Event_Machine
begin

text \<open>
  The allocator, the message queues of all peers and the transactions of the response streams together: what bounds the memory
  of the blocks that wait to be sent. Goroutines interleave between the steps: a transaction asks for memory, waits for the channel of the
  allocator and then builds its part of a message; the loop of a queue takes a message out, sends it for as long as the network
  needs and then reports and releases it; a queue is created for a peer that connects and told to stop when it disconnects.

  The calls of a queue to the allocator are those in its log. An error of a release is only logged, and the value that comes
  over the channel of an allocation is not looked at, as in the code.
\<close>

section \<open>The two halves of a transaction\<close>

definition build_signal ::
  "('n, 's, 'c) message_queue \<Rightarrow> u64 \<Rightarrow> (('n, 's, 'c) mq_builder \<Rightarrow> ('n, 's, 'c) mq_builder) \<Rightarrow> ('n, 's, 'c) message_queue" where
  "build_signal mq blkSize buildMessageFn =
     (let (work, mq') = buildMessage mq blkSize buildMessageFn in if work then signalWork mq' else mq')"

definition tx_size :: "('n \<Rightarrow> nat) \<Rightarrow> 'n response_operation list \<Rightarrow> u64" where
  "tx_size encLen operations = foldl (\<lambda>n op. n + op_size encLen op) 0 operations"

definition tx_build ::
  "('s, 'c) response_stream \<Rightarrow> 'n response_operation list \<Rightarrow> bool \<Rightarrow> ('n, 's, 'c) mq_builder \<Rightarrow> ('n, 's, 'c) mq_builder" where
  "tx_build rs operations closedLater builder = (if rs_closed rs \<or> closedLater then builder else buildOps rs operations builder)"

lemma execute_split:
  "execute encLen rs operations closedLater ctxDone mq =
     (if rs_closed rs then mq
      else if tx_size encLen operations > 0
      then let mq1 = call [CallAllocate (tx_size encLen operations)] mq
           in if ctxDone then mq1 else build_signal mq1 (tx_size encLen operations) (tx_build rs operations closedLater)
      else build_signal mq (tx_size encLen operations) (tx_build rs operations closedLater))"
  by (simp add: execute_def AllocateAndBuildMessage_def build_signal_def tx_size_def tx_build_def[abs_def] Let_def)

section \<open>The machine\<close>

record ('n, 's, 'c) bp_queue =
  bq_p :: peer_id
  bq_mq :: "('n, 's, 'c) message_queue"
  bq_flight :: "('n gs_message \<times> 'c internal_metadata) option"
  bq_done :: bool
  bq_running :: bool

text \<open>A transaction that waits for its channel; the queue it is for is an index.\<close>

record ('n, 's, 'c) bp_waiting =
  bw_chan :: nat
  bw_queue :: nat
  bw_rs :: "('s, 'c) response_stream"
  bw_ops :: "'n response_operation list"

record ('n, 's, 'c) bp_sys =
  bp_alloc :: allocator
  bp_queues :: "('n, 's, 'c) bp_queue list"
  bp_waits :: "('n, 's, 'c) bp_waiting list"

datatype ('n, 's, 'c) bp_event =
    BpConnect peer_id nat
  | BpDisconnect nat
  | BpTransact nat "('s, 'c) response_stream" "'n response_operation list" bool
  | BpBuild nat bool
  | BpGiveUp nat
  | BpRequest nat "'n gs_request"
  | BpTake nat
  | BpSettle nat bool "nat \<Rightarrow> attempt"
  | BpStop nat
  | BpCtxDone nat

definition bp_New :: "u64 \<Rightarrow> u64 \<Rightarrow> ('n, 's, 'c) bp_sys" where
  "bp_New maxTotal maxPerPeer = \<lparr>bp_alloc = NewAllocator maxTotal maxPerPeer, bp_queues = [], bp_waits = []\<rparr>"

definition bq_start :: "peer_id \<Rightarrow> nat \<Rightarrow> ('n, 's, 'c) bp_queue" where
  "bq_start p maxRetries = \<lparr>bq_p = p, bq_mq = mq_New maxRetries, bq_flight = None, bq_done = False, bq_running = True\<rparr>"

text \<open>The calls of a queue to the allocator.\<close>

fun alloc_call :: "peek_fn \<Rightarrow> peer_id \<Rightarrow> ('n, 's, 'c) mq_call \<Rightarrow> allocator \<Rightarrow> allocator option" where
  "alloc_call peek p (CallRelease amount) a =
     (case ReleaseBlockMemory peek a p amount of None \<Rightarrow> None | Some (Inl err) \<Rightarrow> Some a | Some (Inr a') \<Rightarrow> Some a')"
| "alloc_call peek p CallReleasePeer a =
     (case ReleasePeerMemory peek a p of None \<Rightarrow> None | Some (Inl err) \<Rightarrow> Some a | Some (Inr a') \<Rightarrow> Some a')"
| "alloc_call peek p _ a = Some a"

fun alloc_calls :: "peek_fn \<Rightarrow> peer_id \<Rightarrow> ('n, 's, 'c) mq_call list \<Rightarrow> allocator \<Rightarrow> allocator option" where
  "alloc_calls peek p [] a = Some a"
| "alloc_calls peek p (c # cs) a = Option.bind (alloc_call peek p c a) (alloc_calls peek p cs)"

definition bp_nth :: "('n, 's, 'c) bp_sys \<Rightarrow> nat \<Rightarrow> ('n, 's, 'c) bp_queue option" where
  "bp_nth s i = (if i < length (bp_queues s) then Some (bp_queues s ! i) else None)"

definition bp_set :: "nat \<Rightarrow> ('n, 's, 'c) bp_queue \<Rightarrow> ('n, 's, 'c) bp_sys \<Rightarrow> ('n, 's, 'c) bp_sys" where
  "bp_set i q s = s\<lparr>bp_queues := (bp_queues s)[i := q]\<rparr>"

text \<open>A turn of the loop of a queue: the state of the queue after it, and the allocator after the calls it made.\<close>

definition bp_turn ::
  "peek_fn \<Rightarrow> nat \<Rightarrow> ('n, 's, 'c) bp_queue \<Rightarrow> ('n, 's, 'c) bp_queue \<Rightarrow> ('n, 's, 'c) bp_sys \<Rightarrow> ('n, 's, 'c) bp_sys option" where
  "bp_turn peek i q q' s =
     map_option (\<lambda>a. bp_set i q' (s\<lparr>bp_alloc := a\<rparr>))
       (alloc_calls peek (bq_p q) (drop (length (mq_log (bq_mq q))) (mq_log (bq_mq q'))) (bp_alloc s))"

definition bq_take :: "('n, 's, 'c) bp_queue \<Rightarrow> ('n, 's, 'c) bp_queue" where
  "bq_take q =
     (case extractOutgoingMessage ((bq_mq q)\<lparr>mq_outgoingWork := False\<rparr>) of
        (None, mq) \<Rightarrow> q\<lparr>bq_mq := mq\<rparr>
      | (Some (message, metadata), mq) \<Rightarrow>
          q\<lparr>bq_mq := publishQueued metadata mq, bq_flight := Some (message, metadata)\<rparr>)"

text \<open>When the loop ends there is nothing to send; the outcomes of sending are not asked for.\<close>

definition no_attempt :: "nat \<Rightarrow> attempt" where
  "no_attempt n = \<lparr>at_sendOk = False, at_wake = WakeDone, at_openOk = False\<rparr>"

fun bp_step :: "peek_fn \<Rightarrow> ('n \<Rightarrow> nat) \<Rightarrow> ('n, 's, 'c) bp_sys \<Rightarrow> ('n, 's, 'c) bp_event \<Rightarrow> ('n, 's, 'c) bp_sys option" where
  "bp_step peek encLen s (BpConnect p maxRetries) = Some (s\<lparr>bp_queues := bp_queues s @ [bq_start p maxRetries]\<rparr>)"
| "bp_step peek encLen s (BpDisconnect i) = map_option (\<lambda>q. bp_set i (q\<lparr>bq_done := True\<rparr>) s) (bp_nth s i)"
| "bp_step peek encLen s (BpTransact i rs operations closedLater) =
     (case bp_nth s i of
        None \<Rightarrow> None
      | Some q \<Rightarrow>
          if rs_p rs \<noteq> bq_p q then None
          else if rs_closed rs then Some s
          else
            let blkSize = tx_size encLen operations
            in if blkSize > 0
               then let (c, a) = AllocateBlockMemory (bp_alloc s) (bq_p q) blkSize
                    in Some (bp_set i (q\<lparr>bq_mq := call [CallAllocate blkSize] (bq_mq q)\<rparr>)
                         (s\<lparr>bp_alloc := a,
                            bp_waits := bp_waits s @ [\<lparr>bw_chan = c, bw_queue = i, bw_rs = rs, bw_ops = operations\<rparr>]\<rparr>))
               else Some (bp_set i (q\<lparr>bq_mq := build_signal (bq_mq q) blkSize (tx_build rs operations closedLater)\<rparr>) s))"
| "bp_step peek encLen s (BpBuild j closedLater) =
     (if j < length (bp_waits s) \<and> bw_chan (bp_waits s ! j) \<in> fst ` set (sent (bp_alloc s)) then
        let w = bp_waits s ! j
        in map_option (\<lambda>q. bp_set (bw_queue w)
               (q\<lparr>bq_mq := build_signal (bq_mq q) (tx_size encLen (bw_ops w)) (tx_build (bw_rs w) (bw_ops w) closedLater)\<rparr>)
               (s\<lparr>bp_waits := take j (bp_waits s) @ drop (Suc j) (bp_waits s)\<rparr>)) (bp_nth s (bw_queue w))
      else None)"
| "bp_step peek encLen s (BpGiveUp j) =
     (if j < length (bp_waits s) then Some (s\<lparr>bp_waits := take j (bp_waits s) @ drop (Suc j) (bp_waits s)\<rparr>) else None)"
| "bp_step peek encLen s (BpRequest i request) =
     map_option (\<lambda>q. bp_set i (q\<lparr>bq_mq := build_signal (bq_mq q) 0 (on_builder (\<lambda>b. AddRequest b request))\<rparr>) s) (bp_nth s i)"
| "bp_step peek encLen s (BpTake i) =
     (case bp_nth s i of
        None \<Rightarrow> None
      | Some q \<Rightarrow> if bq_running q \<and> bq_flight q = None \<and> mq_outgoingWork (bq_mq q) then bp_turn peek i q (bq_take q) s else None)"
| "bp_step peek encLen s (BpSettle i openOk atts) =
     (case bp_nth s i of
        None \<Rightarrow> None
      | Some q \<Rightarrow>
          (case bq_flight q of
             None \<Rightarrow> None
           | Some (message, metadata) \<Rightarrow>
               bp_turn peek i q (q\<lparr>bq_mq := sendOut openOk atts message metadata (bq_mq q), bq_flight := None\<rparr>) s))"
| "bp_step peek encLen s (BpStop i) =
     (case bp_nth s i of
        None \<Rightarrow> None
      | Some q \<Rightarrow>
          if bq_running q \<and> bq_flight q = None \<and> bq_done q
          then bp_turn peek i q (q\<lparr>bq_mq := snd (runQueue_step SelDone True no_attempt (bq_mq q)), bq_running := False\<rparr>) s
          else None)"
| "bp_step peek encLen s (BpCtxDone i) =
     (case bp_nth s i of
        None \<Rightarrow> None
      | Some q \<Rightarrow>
          if bq_running q \<and> bq_flight q = None
          then bp_turn peek i q (q\<lparr>bq_mq := snd (runQueue_step SelCtxDone True no_attempt (bq_mq q)), bq_running := False\<rparr>) s
          else None)"

primrec bp_run :: "peek_fn \<Rightarrow> ('n \<Rightarrow> nat) \<Rightarrow> ('n, 's, 'c) bp_event list \<Rightarrow> ('n, 's, 'c) bp_sys \<Rightarrow> ('n, 's, 'c) bp_sys option" where
  "bp_run peek encLen [] s = Some s"
| "bp_run peek encLen (e # es) s = Option.bind (bp_step peek encLen s e) (bp_run peek encLen es)"

interpretation bpm: event_machine "bp_step peek encLen" "bp_run peek encLen" for peek encLen
  by unfold_locales simp_all

section \<open>What the allocator does for each peer\<close>

definition pend :: "allocator \<Rightarrow> peer_id \<Rightarrow> pending_allocation list" where
  "pend a p = ps_pendingAllocations (statusOf a p)"

definition reserved :: "allocator \<Rightarrow> peer_id \<Rightarrow> nat" where
  "reserved a p = unat (ps_totalAllocated (statusOf a p))"

definition owned :: "allocator \<Rightarrow> bool" where
  "owned a \<longleftrightarrow> (\<forall>p. \<forall>pa \<in> set (pend a p). pa_p pa = p)"

definition amounts :: "pending_allocation list \<Rightarrow> peer_id \<Rightarrow> nat" where
  "amounts L p = (\<Sum>pa \<leftarrow> filter (\<lambda>pa. pa_p pa = p) L. unat (pa_amount pa))"

text \<open>The allocations \<open>L\<close> were granted: they were the oldest of their peers, and what a peer has reserved has grown by its part of them.\<close>

definition grants :: "pending_allocation list \<Rightarrow> allocator \<Rightarrow> allocator \<Rightarrow> bool" where
  "grants L a a' \<longleftrightarrow>
     sent a' = sent a @ map (\<lambda>pa. (pa_response pa, None)) L \<and>
     (\<forall>p. pend a p = filter (\<lambda>pa. pa_p pa = p) L @ pend a' p \<and> reserved a' p = reserved a p + amounts L p)"

lemma grants_refl: "grants [] a a"
  by (simp add: grants_def amounts_def)

lemma grants_trans: "grants L a a' \<Longrightarrow> grants L' a' a'' \<Longrightarrow> grants (L @ L') a a''"
  by (simp add: grants_def amounts_def)

lemma grants_pend: "grants L a a' \<Longrightarrow> pend a p = filter (\<lambda>pa. pa_p pa = p) L @ pend a' p"
  by (simp add: grants_def)

lemma grants_reserved: "grants L a a' \<Longrightarrow> reserved a' p = reserved a p + amounts L p"
  by (simp add: grants_def)

lemma grants_owned:
  assumes "grants L a a'" "owned a"
  shows "owned a'"
proof -
  have "set (pend a' p) \<subseteq> set (pend a p)" for p using grants_pend[OF assms(1), of p] by simp
  with assms(2) show ?thesis unfolding owned_def by blast
qed

lemma statusOf_mput: "peerStatuses a' = mput p st (peerStatuses a) \<Longrightarrow> statusOf a' q = (if q = p then st else statusOf a q)"
  by (simp add: statusOf_def)

lemma next_grants:
  assumes inv: "alloc_inv mt mp a" and own: "owned a" and st: "mget (peerStatuses a) p = Some st"
    and res: "processNextPendingAllocationForPeer a p st = Some a'"
  shows "\<exists>pa. grants [pa] a a'"
proof -
  obtain pa rest where pend: "ps_pendingAllocations st = pa # rest"
    using res by (auto simp: processNextPendingAllocationForPeer_def split: list.splits)
  have a': "a' = a\<lparr>totalAllocatedAllPeers := totalAllocatedAllPeers a + pa_amount pa,
      peerStatuses := mput p (st\<lparr>ps_totalAllocated := ps_totalAllocated st + pa_amount pa, ps_pendingAllocations := rest\<rparr>) (peerStatuses a),
      sent := sent a @ [(pa_response pa, None)]\<rparr>"
    using res pend by (simp add: processNextPendingAllocationForPeer_def split: if_splits)
  have stp: "statusOf a p = st" using st by (rule statusOf_lookup)
  then have "pa_p pa = p" using own pend by (force simp: owned_def pend_def)
  moreover have "unat (ps_totalAllocated st + pa_amount pa) = unat (ps_totalAllocated st) + unat (pa_amount pa)"
    using alloc_inv_status[OF inv st] pend by (intro amount_ok_no_wrap(2)) (auto simp: status_ok_def)
  moreover have "statusOf a' q = (if q = p then st\<lparr>ps_totalAllocated := ps_totalAllocated st + pa_amount pa, ps_pendingAllocations := rest\<rparr>
      else statusOf a q)" for q
    by (rule statusOf_mput) (simp add: a')
  ultimately have "grants [pa] a a'"
    using pend stp by (simp add: grants_def pend_def reserved_def amounts_def) (simp add: a')
  then show ?thesis ..
qed

lemma drop_idle_grants:
  assumes "mget (peerStatuses a) p = Some st" "ps_pendingAllocations st = []" "ps_totalAllocated st = 0"
  shows "grants [] a (a\<lparr>peerStatusQueue := Q, peerStatuses := mdel p (peerStatuses a)\<rparr>)"
  using assms by (simp add: grants_def pend_def reserved_def amounts_def statusOf_def newPeerStatus_def)

text \<open>One turn of the loop, with \<open>f\<close> for the rest of it.\<close>

lemma process_turn_grants:
  assumes IH: "\<And>pk a a'. f pk a = Some a' \<Longrightarrow> alloc_inv mt mp a \<longrightarrow> owned a \<longrightarrow> (\<exists>L. grants L a a')"
    and inv: "alloc_inv mt mp a" and own: "owned a"
    and body: "(if peerStatusQueue a = [] then Some a
        else let nextPeer = peek (queueLess a) (peerStatusQueue a)
          in case mget (peerStatuses a) nextPeer of
             None \<Rightarrow> None
           | Some status \<Rightarrow>
               if ps_pendingAllocations status \<noteq> [] then
                 (case processNextPendingAllocationForPeer a nextPeer status of None \<Rightarrow> Some a | Some a' \<Rightarrow> f peek a')
               else if ps_totalAllocated status > 0 then Some a
               else f peek (a\<lparr>peerStatusQueue := removeAll nextPeer (peerStatusQueue a), peerStatuses := mdel (ps_p status) (peerStatuses a)\<rparr>)) = Some a'"
  shows "\<exists>L. grants L a a'"
proof -
  define p where "p = peek (queueLess a) (peerStatusQueue a)"
  show "\<exists>L. grants L a a'"
  proof (cases "a' = a")
    case True
    then show ?thesis using grants_refl by blast
  next
    case False
    with body obtain st where st: "mget (peerStatuses a) p = Some st"
      by (auto simp: Let_def p_def split: if_splits option.splits)
    then have psp: "ps_p st = p" using alloc_inv_status[OF inv] by (auto simp: status_ok_def)
    consider (grant) a1 where "processNextPendingAllocationForPeer a p st = Some a1" "f peek a1 = Some a'"
      | (drop) "ps_pendingAllocations st = []" "ps_totalAllocated st = 0"
          "f peek (a\<lparr>peerStatusQueue := removeAll p (peerStatusQueue a), peerStatuses := mdel p (peerStatuses a)\<rparr>) = Some a'"
      using body False st psp by (auto simp: Let_def word_gt_0 simp flip: p_def split: if_splits option.splits)
    then show ?thesis
    proof cases
      case grant
      from next_grants[OF inv own st grant(1)] obtain pa where pa: "grants [pa] a a1" by blast
      then obtain L where "grants L a1 a'"
        using IH[OF grant(2)] process_next_inv(1)[OF inv st grant(1)] grants_owned[OF pa own] by blast
      with pa show ?thesis using grants_trans by blast
    next
      case drop
      note idle = drop_idle_grants[OF st drop(1,2), of "removeAll p (peerStatusQueue a)"]
      have "alloc_inv mt mp (a\<lparr>peerStatusQueue := removeAll p (peerStatusQueue a), peerStatuses := mdel p (peerStatuses a)\<rparr>)"
        using drop_peer_inv(1)[OF inv st, of "sent a" None] drop(1,2) by simp
      then obtain L where "grants L (a\<lparr>peerStatusQueue := removeAll p (peerStatusQueue a), peerStatuses := mdel p (peerStatuses a)\<rparr>) a'"
        using IH[OF drop(3)] grants_owned[OF idle own] by blast
      with idle show ?thesis using grants_trans by blast
    qed
  qed
qed

lemma process_grants:
  assumes "processPendingAllocations peek a = Some a'" "alloc_inv mt mp a" "owned a"
  shows "\<exists>L. grants L a a'"
proof -
  have "alloc_inv mt mp a \<longrightarrow> owned a \<longrightarrow> (\<exists>L. grants L a a')"
    by (rule processPendingAllocations.raw_induct[OF _ assms(1), of "\<lambda>_ a a'. alloc_inv mt mp a \<longrightarrow> owned a \<longrightarrow> (\<exists>L. grants L a a')"], intro impI)
      (rule process_turn_grants)
  with assms(2,3) show ?thesis by blast
qed

text \<open>What a call to the allocator does to those who wait: the allocations \<open>L\<close>, all of them pending, are granted.\<close>

definition answered_by :: "pending_allocation list \<Rightarrow> allocator \<Rightarrow> allocator \<Rightarrow> bool" where
  "answered_by L a a' \<longleftrightarrow>
     (\<forall>c. (c, None) \<in> set (sent a') \<longleftrightarrow> (c, None) \<in> set (sent a) \<or> c \<in> pa_response ` set L) \<and>
     (\<forall>pa \<in> set L. pa \<in> set (pend a (pa_p pa))) \<and>
     (\<forall>p. set (pend a' p) \<subseteq> set (pend a p))"

lemma answeredD:
  assumes "answered_by L a a'"
  shows "(c, None) \<in> set (sent a') \<longleftrightarrow> (c, None) \<in> set (sent a) \<or> c \<in> pa_response ` set L"
    and "pa \<in> set L \<Longrightarrow> pa \<in> set (pend a (pa_p pa))"
    and "set (pend a' p) \<subseteq> set (pend a p)"
  using assms unfolding answered_by_def by blast+

lemma answered_refl: "answered_by [] a a"
  by (simp add: answered_by_def)

lemma answered_trans:
  assumes "answered_by L a a'" "answered_by L' a' a''"
  shows "answered_by (L @ L') a a''"
  unfolding answered_by_def
proof (intro conjI allI ballI)
  show "(c, None) \<in> set (sent a'') \<longleftrightarrow> (c, None) \<in> set (sent a) \<or> c \<in> pa_response ` set (L @ L')" for c
    unfolding answeredD(1)[OF assms(2)] answeredD(1)[OF assms(1)] by auto
  show "set (pend a'' p) \<subseteq> set (pend a p)" for p using answeredD(3)[OF assms(2)] answeredD(3)[OF assms(1)] by (rule subset_trans)
  show "pa \<in> set (pend a (pa_p pa))" if "pa \<in> set (L @ L')" for pa
    using that answeredD(2)[OF assms(1), of pa] answeredD(2)[OF assms(2), of pa] answeredD(3)[OF assms(1), of "pa_p pa"] by auto
qed

lemma grants_answered:
  assumes "grants L a a'"
  shows "answered_by L a a'"
proof -
  have "set (pend a p) = {pa \<in> set L. pa_p pa = p} \<union> set (pend a' p)" for p
    using grants_pend[OF assms, of p] by simp
  moreover have "(c, None) \<in> set (sent a') \<longleftrightarrow> (c, None) \<in> set (sent a) \<or> c \<in> pa_response ` set L" for c
    using assms by (auto simp: grants_def)
  ultimately show ?thesis unfolding answered_by_def by blast
qed

text \<open>Who called for another peer, or did not drop all of a peer, takes at most what it released, and no allocation is refused.\<close>

definition keeps_reserved :: "peer_id \<Rightarrow> ('n, 's, 'c) mq_call list \<Rightarrow> pending_allocation list \<Rightarrow> allocator \<Rightarrow> allocator \<Rightarrow> bool" where
  "keeps_reserved p cs L a a' \<longleftrightarrow>
     (\<forall>q. q \<noteq> p \<or> CallReleasePeer \<notin> set cs \<longrightarrow>
        reserved a q + amounts L q \<le> reserved a' q + (if q = p then \<Sum>c \<leftarrow> cs. released c else 0) \<and>
        (\<forall>pa \<in> set (pend a q). pa \<in> set (pend a' q) \<or> (pa_response pa, None) \<in> set (sent a')))"

lemma grants_kept:
  assumes L: "grants L b a'" and q: "pend b q = pend a q"
  shows "\<forall>pa \<in> set (pend a q). pa \<in> set (pend a' q) \<or> (pa_response pa, None) \<in> set (sent a')"
  using grants_pend[OF L, of q] L by (auto simp: q grants_def)

lemma release_call:
  assumes inv: "alloc_inv mt mp a" and own: "owned a" and res: "ReleaseBlockMemory peek a p n = Some (Inr a')"
  shows "owned a' \<and> (\<exists>L. answered_by L a a' \<and> keeps_reserved p [CallRelease n :: ('n, 's, 'c) mq_call] L a a')"
proof -
  from release_known(1)[OF res] obtain st where st: "mget (peerStatuses a) p = Some st" by blast
  define d where "d = min (ps_totalAllocated st) n"
  define b where "b = a\<lparr>peerStatuses := mput p (st\<lparr>ps_totalAllocated := ps_totalAllocated st - d\<rparr>) (peerStatuses a),
    totalAllocatedAllPeers := totalAllocatedAllPeers a - d\<rparr>"
  note start = release_block_start[OF inv st d_def b_def]
  have b: "statusOf b q = (if q = p then st\<lparr>ps_totalAllocated := ps_totalAllocated st - d\<rparr> else statusOf a q)" for q
    by (rule statusOf_mput) (simp add: b_def)
  then have same: "pend b q = pend a q" "sent b = sent a" for q
    using statusOf_lookup[OF st] by (simp_all add: pend_def b_def)
  then have "owned b" using own by (simp add: owned_def)
  with start res obtain L where L: "grants L b a'" using process_grants[of peek b a' mt mp] by auto
  have "answered_by L a a'" using grants_answered[OF L] by (simp add: answered_by_def same)
  moreover have "reserved a p \<le> reserved b p + unat n" "\<And>q. q \<noteq> p \<Longrightarrow> reserved b q = reserved a q"
    using statusOf_lookup[OF st] unat_minus_le[of d "ps_totalAllocated st"]
    by (auto simp: reserved_def b d_def min_def word_le_nat_alt)
  then have "keeps_reserved p [CallRelease n :: ('n, 's, 'c) mq_call] L a a'"
    using grants_reserved[OF L] grants_kept[OF L same(1)] by (simp add: keeps_reserved_def)
  ultimately show ?thesis using grants_owned[OF L \<open>owned b\<close>] by blast
qed

lemma release_peer_call:
  assumes inv: "alloc_inv mt mp a" and own: "owned a" and res: "ReleasePeerMemory peek a p = Some (Inr a')"
  shows "owned a' \<and> (\<exists>L. answered_by L a a' \<and> keeps_reserved p [CallReleasePeer :: ('n, 's, 'c) mq_call] L a a')"
proof -
  from release_known(2)[OF res] obtain st where st: "mget (peerStatuses a) p = Some st" by blast
  define b where "b = a\<lparr>peerStatusQueue := removeAll p (peerStatusQueue a), peerStatuses := mdel p (peerStatuses a),
      sent := sent a @ map (\<lambda>pa. (pa_response pa, Some ErrPeerDeallocated)) (ps_pendingAllocations st),
      totalAllocatedAllPeers := totalAllocatedAllPeers a - ps_totalAllocated st\<rparr>"
  note start = release_peer_start[OF inv st b_def]
  have b: "statusOf b q = (if q = p then newPeerStatus p else statusOf a q)" for q
    by (simp add: statusOf_def b_def)
  then have bp: "pend b q = (if q = p then [] else pend a q)" for q
    by (simp add: pend_def newPeerStatus_def)
  then have "owned b" using own by (simp add: owned_def)
  with start res obtain L where L: "grants L b a'" using process_grants[of peek b a' mt mp] by auto
  have "(c, None) \<in> set (sent b) \<longleftrightarrow> (c, None) \<in> set (sent a)" for c by (auto simp: b_def)
  then have "answered_by [] a b" by (simp add: answered_by_def bp)
  from answered_trans[OF this grants_answered[OF L]] have "answered_by L a a'" by simp
  moreover have "reserved b q = reserved a q" if "q \<noteq> p" for q using that by (simp add: reserved_def b)
  then have "keeps_reserved p [CallReleasePeer :: ('n, 's, 'c) mq_call] L a a'"
    using grants_reserved[OF L] grants_kept[OF L] by (simp add: keeps_reserved_def bp)
  ultimately show ?thesis using grants_owned[OF L \<open>owned b\<close>] by blast
qed

lemma keeps_reserved_trans:
  assumes "keeps_reserved p cs L a a'" "keeps_reserved p cs' L' a' a''" "answered_by L' a' a''"
  shows "keeps_reserved p (cs @ cs') (L @ L') a a''"
  unfolding keeps_reserved_def
proof (intro allI impI)
  fix q assume q: "q \<noteq> p \<or> CallReleasePeer \<notin> set (cs @ cs')"
  have "amounts (L @ L') q = amounts L q + amounts L' q" by (simp add: amounts_def)
  with q assms(1,2)[unfolded keeps_reserved_def, THEN spec[of _ q]] answeredD(1)[OF assms(3)]
  show "reserved a q + amounts (L @ L') q \<le> reserved a'' q + (if q = p then \<Sum>c \<leftarrow> cs @ cs'. released c else 0) \<and>
      (\<forall>pa \<in> set (pend a q). pa \<in> set (pend a'' q) \<or> (pa_response pa, None) \<in> set (sent a''))"
    by (cases "q = p") auto
qed

lemma alloc_call_spec:
  assumes peek: "pq_peek_min peek" and inv: "alloc_inv mt mp a" and own: "owned a" and res: "alloc_call peek p c a = Some a'"
  shows "alloc_inv mt mp a' \<and> nextChan a' = nextChan a \<and> owned a' \<and> (\<exists>L. answered_by L a a' \<and> keeps_reserved p [c] L a a')"
proof -
  have idle: ?thesis if "a' = a"
    using that inv own answered_refl[of a] by (intro conjI exI[of _ "[]"]) (auto simp: keeps_reserved_def amounts_def)
  show ?thesis
  proof (cases "a' = a")
    case False
    then consider n where "c = CallRelease n" "ReleaseBlockMemory peek a p n = Some (Inr a')"
      | "c = CallReleasePeer" "ReleasePeerMemory peek a p = Some (Inr a')"
      using res by (cases c) (auto split: option.splits sum.splits)
    then show ?thesis
    proof cases
      case 1
      from release_known(1)[OF 1(2)] obtain st where "mget (peerStatuses a) p = Some st" ..
      from release_block_returns[OF peek inv this, of n] 1(2) have "alloc_inv mt mp a'" "nextChan a' = nextChan a" by auto
      with 1 release_call[OF inv own 1(2)] show ?thesis by blast
    next
      case 2
      from release_known(2)[OF 2(2)] obtain st where "mget (peerStatuses a) p = Some st" ..
      from release_peer_returns[OF peek inv this] 2(2) have "alloc_inv mt mp a'" "nextChan a' = nextChan a" by auto
      with 2 release_peer_call[OF inv own 2(2)] show ?thesis by blast
    qed
  qed (rule idle)
qed

lemma alloc_calls_spec:
  assumes "pq_peek_min peek" "alloc_inv mt mp a" "owned a" "alloc_calls peek p cs a = Some a'"
  shows "alloc_inv mt mp a' \<and> nextChan a' = nextChan a \<and> owned a' \<and> (\<exists>L. answered_by L a a' \<and> keeps_reserved p cs L a a')"
  using assms(2-)
proof (induction cs arbitrary: a)
  case Nil
  then show ?case using answered_refl[of a] by (intro conjI exI[of _ "[]"]) (auto simp: keeps_reserved_def amounts_def)
next
  case (Cons c cs)
  then obtain a1 where a1: "alloc_call peek p c a = Some a1" "alloc_calls peek p cs a1 = Some a'" by (auto simp: bind_eq_Some_conv)
  from alloc_call_spec[OF assms(1) Cons.prems(1,2) a1(1)] obtain L where
    L: "alloc_inv mt mp a1" "nextChan a1 = nextChan a" "owned a1" "answered_by L a a1" "keeps_reserved p [c] L a a1" by blast
  from Cons.IH[OF L(1,3) a1(2)] obtain L' where
    L': "alloc_inv mt mp a'" "nextChan a' = nextChan a1" "owned a'" "answered_by L' a1 a'" "keeps_reserved p cs L' a1 a'" by blast
  with L show ?case using answered_trans[OF L(4) L'(4)] keeps_reserved_trans[OF L(5) L'(5,4)] by auto
qed

section \<open>What a queue holds\<close>

definition builders_size :: "('n, 's, 'c) mq_builder list \<Rightarrow> nat" where
  "builders_size bs = (\<Sum>b \<leftarrow> bs. unat (mb_BlockSize b))"

definition held :: "('n, 's, 'c) bp_queue \<Rightarrow> nat" where
  "held q = builders_size (mq_builders (bq_mq q)) + (case bq_flight q of None \<Rightarrow> 0 | Some (_, metadata) \<Rightarrow> unat (im_msgSize metadata))"

text \<open>The size of a message does not wrap around and covers its blocks.\<close>

abbreviation mb_sound :: "('n, 's, 'c) mq_builder \<Rightarrow> bool" where
  "mb_sound \<equiv> mb_ok (2 ^ 64 - 1)"

definition queue_sound :: "('n, 's, 'c) bp_queue \<Rightarrow> bool" where
  "queue_sound q \<longleftrightarrow> (\<forall>b \<in> set (mq_builders (bq_mq q)). mb_sound b) \<and>
     (case bq_flight q of None \<Rightarrow> True
      | Some (message, metadata) \<Rightarrow> blocks_size (gsm_blocks message) \<le> unat (im_msgSize metadata))"

lemma scrub_frees:
  assumes "mb_sound b"
  shows "unat (fst (mb_ScrubResponses b rids)) + unat (mb_BlockSize (snd (mb_ScrubResponses b rids))) = unat (mb_BlockSize b)"
proof -
  obtain freed b' where s: "ScrubResponses (mb_Builder b) rids = (freed, b')" by fastforce
  have inv: "builder_inv (mb_Builder b)" "blocks_size (b_outgoingBlocks (mb_Builder b)) \<le> unat (b_blkSize (mb_Builder b))"
    using assms by (simp_all add: mb_ok_def size_inv_def)
  note scrub = scrub_blocks(2-)[OF inv(1) s]
  have "unat (b_blkSize b') = blocks_size (b_outgoingBlocks b')"
    unfolding scrub(2) by (rule unat_msum_rawLen) (use scrub(1) inv(2) unat_u64_less[of "b_blkSize (mb_Builder b)"] in linarith)
  then have "b_blkSize b' \<le> b_blkSize (mb_Builder b)" using scrub(1) inv(2) by (simp add: word_le_nat_alt)
  then show ?thesis using scrub(3) by (simp add: mb_Scrub_fields s mb_BlockSize_def BlockSize_def unat_minus_le word_le_nat_alt)
qed

lemma scrub_queue_frees:
  assumes "\<forall>b \<in> set (mq_builders mq). mb_sound b" "scrubResponses mq rids = (freed, mq')"
  shows "unat freed + builders_size (mq_builders mq') \<le> builders_size (mq_builders mq)"
    and "\<forall>b \<in> set (mq_builders mq'). mb_sound b" and "mq_log mq' = mq_log mq"
proof -
  let ?f = "\<lambda>b. snd (mb_ScrubResponses b rids)"
  have res: "mq_builders mq' = filter (\<lambda>b. \<not> mb_Empty b) (map ?f (mq_builders mq))"
    "freed = (if mq_builders mq = [] then 0 else fst (mb_ScrubResponses (last (mq_builders mq)) rids))" "mq_log mq' = mq_log mq"
    using assms(2) by (auto simp: scrubResponses_def scrubBuilders_spec)
  have le: "builders_size (filter P bs) \<le> builders_size bs" for P and bs :: "('a, 'b, 'c) mq_builder list"
    by (induction bs) (auto simp: builders_size_def)
  have "unat freed + builders_size (map ?f (mq_builders mq)) \<le> builders_size (mq_builders mq)"
    using assms(1) unfolding res(2)
  proof (induction "mq_builders mq" arbitrary: mq rule: rev_induct)
    case (snoc b bs)
    have "builders_size (map ?f bs) \<le> builders_size bs" if "\<forall>b \<in> set bs. mb_sound b" for bs :: "('a, 'b, 'c) mq_builder list"
      using that
    proof (induction bs)
      case (Cons b bs)
      with scrub_frees[of b rids] show ?case by (simp add: builders_size_def)
    qed (simp add: builders_size_def)
    from this[of bs] snoc(2,3) scrub_frees[of b rids] show ?case by (simp add: builders_size_def flip: snoc(2))
  qed (simp add: builders_size_def)
  with le[of "\<lambda>b. \<not> mb_Empty b" "map ?f (mq_builders mq)"] show "unat freed + builders_size (mq_builders mq') \<le> builders_size (mq_builders mq)"
    by (simp add: res(1))
  show "\<forall>b \<in> set (mq_builders mq'). mb_sound b" using mb_ok_scrubbed[OF _ assms(1), of rids] by (simp add: res(1) scrubbed_def)
qed (use assms(2) in \<open>auto simp: scrubResponses_def split: prod.splits\<close>)

text \<open>A step of a queue whose calls release no more than the queue gives up.\<close>

definition gives_back :: "nat \<Rightarrow> ('n, 's, 'c) message_queue \<Rightarrow> ('n, 's, 'c) message_queue \<Rightarrow> bool" where
  "gives_back n mq mq' \<longleftrightarrow>
     (\<forall>b \<in> set (mq_builders mq'). mb_sound b) \<and>
     (\<exists>cs. mq_log mq' = mq_log mq @ cs \<and> CallReleasePeer \<notin> set cs \<and>
        (\<Sum>c \<leftarrow> cs. released c) + builders_size (mq_builders mq') \<le> n + builders_size (mq_builders mq))"

lemma gives_back_trans:
  assumes "gives_back n mq mq'" "gives_back m mq' mq''"
  shows "gives_back (n + m) mq mq''"
proof -
  obtain cs where "mq_log mq' = mq_log mq @ cs" "CallReleasePeer \<notin> set cs"
    "(\<Sum>c \<leftarrow> cs. released c) + builders_size (mq_builders mq') \<le> n + builders_size (mq_builders mq)"
    using assms(1) unfolding gives_back_def by blast
  moreover obtain cs' where "mq_log mq'' = mq_log mq' @ cs'" "CallReleasePeer \<notin> set cs'"
    "(\<Sum>c \<leftarrow> cs'. released c) + builders_size (mq_builders mq'') \<le> m + builders_size (mq_builders mq')"
    using assms(2) unfolding gives_back_def by blast
  ultimately show ?thesis using assms(2) unfolding gives_back_def by (intro conjI exI[of _ "cs @ cs'"]) auto
qed

lemma gives_back_call:
  assumes "mq_builders mq' = mq_builders mq" "mq_log mq' = mq_log mq @ cs" "\<forall>b \<in> set (mq_builders mq). mb_sound b"
    "CallReleasePeer \<notin> set cs" "(\<Sum>c \<leftarrow> cs. released c) \<le> n"
  shows "gives_back n mq mq'"
  using assms by (auto simp: gives_back_def)

lemma publishError_gives_back:
  assumes "\<forall>b \<in> set (mq_builders mq). mb_sound b"
  shows "gives_back (unat (im_msgSize metadata)) mq (publishError metadata err mq)"
proof -
  define mq1 where "mq1 = call (map (\<lambda>(_, stream). CallCloseStream stream) (im_responseStreams metadata)) mq"
  have m1: "gives_back 0 mq mq1"
    unfolding mq1_def by (rule gives_back_call[OF _ _ assms]) (auto simp: call_def o_def case_prod_unfold)
  obtain freed mq2 where s: "scrubResponses mq1 (mkeys (im_responseStreams metadata)) = (freed, mq2)" by fastforce
  have "\<forall>b \<in> set (mq_builders mq1). mb_sound b" using assms by (simp add: mq1_def call_def)
  note sc = scrub_queue_frees[OF this s]
  define mq3 where "mq3 = (if freed > 0 then call [CallRelease freed] mq2 else mq2)"
  have "gives_back 0 mq1 mq3"
    unfolding gives_back_def using sc by (auto simp: mq3_def call_def intro!: exI[of _ "if freed > 0 then [CallRelease freed] else []"])
  moreover have "publishError metadata err mq =
      call [CallPublish (im_topic metadata) (EvError err (im_public metadata)), CallRelease (im_msgSize metadata)] mq3"
    using s by (simp add: publishError_def scrubResponseStreams_def mq3_def Let_def flip: mq1_def)
  moreover have "\<forall>b \<in> set (mq_builders mq3). mb_sound b" using sc(2) by (simp add: mq3_def call_def)
  then have "gives_back (unat (im_msgSize metadata)) mq3
      (call [CallPublish (im_topic metadata) (EvError err (im_public metadata)), CallRelease (im_msgSize metadata)] mq3)"
    by (intro gives_back_call) (auto simp: call_def)
  ultimately show ?thesis using gives_back_trans[OF gives_back_trans[OF m1]] by fastforce
qed

lemma sendOut_gives_back:
  assumes "\<forall>b \<in> set (mq_builders mq). mb_sound b"
  shows "gives_back (unat (im_msgSize metadata)) mq (sendOut openOk atts message metadata mq)"
proof -
  obtain mq3 where st: "settles (mq_maxRetries mq) message metadata mq mq3"
    "sendOut openOk atts message metadata mq = call [CallCloseTopic (im_topic metadata)] mq3"
    using sendOut_settles by blast
  obtain pre mq1 where pre: "mq_log mq1 = mq_log mq @ pre" "mq_builders mq1 = mq_builders mq"
      "set pre \<subseteq> {CallOpenSender, CallSendMsg message, CallResetSender}"
      "mq3 = publishSent metadata mq1 \<or> (\<exists>err. mq3 = publishError metadata err mq1)"
    using st(1) unfolding settles_def by blast
  have "(\<Sum>c \<leftarrow> pre. released c) = 0" using pre(3) by (auto simp: sum_list_eq_0_iff)
  then have m1: "gives_back 0 mq mq1" using pre(3) by (intro gives_back_call[OF pre(2,1) assms]) auto
  have "gives_back (unat (im_msgSize metadata)) mq1 mq3"
    using pre(4)
  proof
    assume "mq3 = publishSent metadata mq1"
    then show ?thesis using assms pre(2) by (intro gives_back_call) (auto simp: publishSent_def call_def)
  next
    assume "\<exists>err. mq3 = publishError metadata err mq1"
    then show ?thesis using publishError_gives_back[of mq1] assms pre(2) by auto
  qed
  from gives_back_trans[OF m1 this] have m3: "gives_back (unat (im_msgSize metadata)) mq mq3" by simp
  moreover have "gives_back 0 mq3 (call [CallCloseTopic (im_topic metadata)] mq3)"
    using m3 by (intro gives_back_call) (auto simp: call_def gives_back_def)
  ultimately show ?thesis using gives_back_trans st(2) by fastforce
qed

lemma build_fields:
  assumes "mb_build b = (message, metadata, subs)"
  shows "im_msgSize metadata = mb_BlockSize b" "gsm_blocks message = b_outgoingBlocks (mb_Builder b)"
    "CallReleasePeer \<notin> set subs" "(\<Sum>c \<leftarrow> subs. released c) = 0"
  using assms by (auto simp: mb_build_def Let_def Build_def sum_list_eq_0_iff)

lemma extract_holds:
  assumes ok: "\<forall>b \<in> set (mq_builders mq). mb_sound b" and res: "extractOutgoingMessage mq = (r, mq')"
  shows "gives_back 0 mq mq'"
    and "r = Some (message, metadata) \<Longrightarrow> builders_size (mq_builders mq') + unat (im_msgSize metadata) = builders_size (mq_builders mq)"
    and "r = Some (message, metadata) \<Longrightarrow> blocks_size (gsm_blocks message) \<le> unat (im_msgSize metadata)"
    and "\<exists>cs. mq_log mq' = mq_log mq @ cs \<and> CallReleasePeer \<notin> set cs \<and> (\<Sum>c \<leftarrow> cs. released c) = 0"
proof -
  consider "mq_builders mq = []" | b rest where "mq_builders mq = b # rest" by (cases "mq_builders mq") auto
  then have "gives_back 0 mq mq' \<and> (\<exists>cs. mq_log mq' = mq_log mq @ cs \<and> CallReleasePeer \<notin> set cs \<and> (\<Sum>c \<leftarrow> cs. released c) = 0) \<and>
    (r = Some (message, metadata) \<longrightarrow> builders_size (mq_builders mq') + unat (im_msgSize metadata) = builders_size (mq_builders mq) \<and>
      blocks_size (gsm_blocks message) \<le> unat (im_msgSize metadata))"
  proof cases
    case 1
    with res have "mq' = mq" "r = None" by (simp_all add: extractOutgoingMessage_def)
    with ok show ?thesis by (auto simp: gives_back_def)
  next
    case 2
    obtain message' metadata' subs where b: "mb_build b = (message', metadata', subs)" by (cases "mb_build b")
    note f = build_fields[OF b]
    have mq': "mq_builders mq' = rest" "mq_log mq' = mq_log mq @ (if mb_Empty b then [] else subs)"
      "r = (if mb_Empty b then None else Some (message', metadata'))"
      using res 2 b by (auto simp: extractOutgoingMessage_def Let_def call_def signalWork_def split: if_splits)
    have "blocks_size (b_outgoingBlocks (mb_Builder b)) \<le> unat (mb_BlockSize b)"
      using ok 2 by (simp add: mb_ok_def size_inv_def mb_BlockSize_def BlockSize_def)
    with mq' f 2 ok show ?thesis by (auto simp: gives_back_def builders_size_def simp del: sum_list_eq_0_iff)
  qed
  then show "gives_back 0 mq mq'" "r = Some (message, metadata) \<Longrightarrow> builders_size (mq_builders mq') + unat (im_msgSize metadata) = builders_size (mq_builders mq)"
    "r = Some (message, metadata) \<Longrightarrow> blocks_size (gsm_blocks message) \<le> unat (im_msgSize metadata)"
    "\<exists>cs. mq_log mq' = mq_log mq @ cs \<and> CallReleasePeer \<notin> set cs \<and> (\<Sum>c \<leftarrow> cs. released c) = 0" by blast+
qed

lemma extract_then:
  assumes ok: "\<forall>b \<in> set (mq_builders mq). mb_sound b" and res: "extractOutgoingMessage mq = (Some (message, metadata), mq1)"
    and rest: "gives_back (unat (im_msgSize metadata)) mq1 mq2"
  shows "gives_back 0 mq mq2"
proof -
  note ex = extract_holds[OF ok res]
  obtain cs where cs: "mq_log mq1 = mq_log mq @ cs" "CallReleasePeer \<notin> set cs" "(\<Sum>c \<leftarrow> cs. released c) = 0" using ex(4) by blast
  obtain cs' where "mq_log mq2 = mq_log mq1 @ cs'" "CallReleasePeer \<notin> set cs'"
    "(\<Sum>c \<leftarrow> cs'. released c) + builders_size (mq_builders mq2) \<le> unat (im_msgSize metadata) + builders_size (mq_builders mq1)"
    using rest unfolding gives_back_def by blast
  with cs ex(2)[OF refl] rest show ?thesis unfolding gives_back_def
    by (intro conjI exI[of _ "cs @ cs'"]) (auto simp del: sum_list_eq_0_iff)
qed

lemma drain_gives_back: "\<forall>b \<in> set (mq_builders mq). mb_sound b \<Longrightarrow> gives_back 0 mq (drain mq)"
proof (induction mq rule: drain.induct)
  case (1 mq)
  obtain r mq1 where e: "extractOutgoingMessage mq = (r, mq1)" by fastforce
  note ex = extract_holds[OF "1.prems" e]
  show ?case
  proof (cases r)
    case None
    with e ex(1) show ?thesis by (simp add: drain.simps)
  next
    case (Some x)
    obtain message metadata where x: "x = (message, metadata)" by (cases x)
    let ?e = "publishError metadata ''message queue shutdown'' mq1"
    let ?n = "call [CallCloseTopic (im_topic metadata)] ?e"
    have "\<forall>b \<in> set (mq_builders mq1). mb_sound b" using ex(1) by (simp add: gives_back_def)
    note err = publishError_gives_back[OF this, of metadata "''message queue shutdown''"]
    then have ok: "\<forall>b \<in> set (mq_builders ?e). mb_sound b" by (simp add: gives_back_def)
    have "gives_back 0 ?e ?n" by (rule gives_back_call[OF _ _ ok]) (auto simp: call_def)
    moreover have "gives_back 0 ?n (drain ?n)" using 1(1)[OF e[symmetric] Some x[symmetric]] ok by (simp add: call_def)
    ultimately have "gives_back (unat (im_msgSize metadata)) mq1 (drain ?n)"
      using gives_back_trans[OF gives_back_trans[OF err]] by fastforce
    then have "gives_back 0 mq (drain ?n)" using e Some x by (intro extract_then[OF "1.prems"]) auto
    then show ?thesis using e Some x by (subst drain.simps) simp
  qed
qed

section \<open>What a transaction adds\<close>

fun op_bytes :: "('n \<Rightarrow> nat) \<Rightarrow> 'n response_operation \<Rightarrow> nat" where
  "op_bytes encLen (StatusOperation rid status) = 0"
| "op_bytes encLen (ExtensionOperation rid extension) = (case ed_Data extension of None \<Rightarrow> 0 | Some d \<Rightarrow> encLen d)"
| "op_bytes encLen (BlockOperation data sendBlock link rid index) =
     (if \<not> sendBlock then 0 else (case data of None \<Rightarrow> 0 | Some d \<Rightarrow> length d))"

definition tx_bytes :: "('n \<Rightarrow> nat) \<Rightarrow> 'n response_operation list \<Rightarrow> nat" where
  "tx_bytes encLen operations = (\<Sum>op \<leftarrow> operations. op_bytes encLen op)"

lemma tx_size_bytes:
  assumes "tx_bytes encLen operations < 2 ^ 64"
  shows "unat (tx_size encLen operations) = tx_bytes encLen operations"
proof -
  have "op_bytes encLen op < 2 ^ 64" if "op \<in> set operations" for op
    using that assms member_le_sum_list[of "op_bytes encLen op" "map (op_bytes encLen) operations"] by (simp add: tx_bytes_def)
  then have "unat (op_size encLen op) = op_bytes encLen op" if "op \<in> set operations" for op
    using that by (cases "(encLen, op)" rule: op_bytes.cases) (fastforce simp: unat_of_nat_u64 split: option.splits)+
  then have "(\<Sum>op \<leftarrow> operations. unat (op_size encLen op)) = tx_bytes encLen operations"
    by (simp add: tx_bytes_def cong: map_cong)
  then show ?thesis using assms unat_sum_list[of "op_size encLen" operations] by (simp add: tx_size_def foldl_sum)
qed

lemma added_bytes: "added_size (concat (map op_ops operations)) \<le> tx_bytes encLen operations"
proof (induction operations)
  case (Cons op operations)
  have "added_size (op_ops op) \<le> op_bytes encLen op" by (cases op) (auto simp: added_size_def split: option.split)
  with Cons show ?case by (simp add: tx_bytes_def added_size_def)
qed (simp add: added_size_def)

lemma tx_build_fills:
  assumes "tx_bytes encLen operations < 2 ^ 64"
  shows "fills (tx_size encLen operations) (tx_build rs operations closedLater)"
proof -
  have "\<exists>ops. mb_Builder (tx_build rs operations closedLater b) = fold b_apply ops (mb_Builder b) \<and> added_size ops \<le> tx_bytes encLen operations" for b
  proof (cases "rs_closed rs \<or> closedLater")
    case True
    then show ?thesis by (intro exI[of _ "[]"]) (simp add: tx_build_def added_size_def)
  next
    case False
    with added_bytes[of operations encLen] show ?thesis
      by (intro exI[of _ "concat (map op_ops operations)"]) (simp add: tx_build_def buildOps_builder)
  qed
  then show ?thesis by (simp add: fills_def tx_size_bytes[OF assms])
qed

lemma request_fills: "fills 0 (on_builder (\<lambda>b. AddRequest b request))"
  unfolding fills_def by (intro allI exI[of _ "[OpAddRequest request]"]) (simp add: on_builder_def added_size_def)

lemma fills_grows:
  assumes "mb_sound b" "fills n fn" "unat (mb_BlockSize b) + unat n < 2 ^ 64"
  shows "mb_sound (fn b) \<and> unat (mb_BlockSize (fn b)) \<le> unat (mb_BlockSize b) + unat n"
proof -
  obtain ops where ops: "mb_Builder (fn b) = fold b_apply ops (mb_Builder b)" "added_size ops \<le> unat n"
    using assms(2) by (auto simp: fills_def)
  have "mb_ok (unat (mb_BlockSize b)) b"
    using assms(1) by (simp add: mb_ok_def size_inv_def mb_BlockSize_def BlockSize_def)
  moreover have "unat (mb_BlockSize b) + added_size ops < 2 ^ 64" using ops(2) assms(3) by linarith
  ultimately have "builder_inv (mb_Builder (fn b)) \<and> size_inv (unat (mb_BlockSize b) + added_size ops) (mb_Builder (fn b))"
    unfolding ops(1) by (intro mb_ok_fold) (simp_all add: mb_ok_def)
  then show ?thesis using ops(2) assms(3) by (auto simp: mb_ok_def size_inv_def mb_BlockSize_def BlockSize_def)
qed

lemma build_grows:
  fixes mq :: "('n, 's, 'c) message_queue"
  assumes ok: "\<forall>b \<in> set (mq_builders mq). mb_sound b" and fn: "fills n fn" and fits: "builders_size (mq_builders mq) + unat n < 2 ^ 64"
  shows "\<forall>b \<in> set (mq_builders (build_signal mq n fn)). mb_sound b"
    and "builders_size (mq_builders (build_signal mq n fn)) \<le> builders_size (mq_builders mq) + unat n"
    and "mq_log (build_signal mq n fn) = mq_log mq"
proof -
  let ?new = "mb_NewBuilder (mq_nextBuilderTopic mq) :: ('n, 's, 'c) mq_builder"
  define bs where "bs = (if shouldBeginNewResponse (mq_builders mq) n then mq_builders mq @ [?new] else mq_builders mq)"
  have new: "mb_sound ?new" "unat (mb_BlockSize ?new) = 0"
    using mb_ok_new by (auto simp: mb_NewBuilder_def mb_BlockSize_def BlockSize_def NewBuilder_def)
  have ne: "bs \<noteq> []" by (auto simp: bs_def shouldBeginNewResponse_def)
  have bs: "\<forall>b \<in> set bs. mb_sound b" "builders_size bs = builders_size (mq_builders mq)"
    using ok new by (auto simp: bs_def builders_size_def)
  obtain b bs' where split: "bs = bs' @ [b]" using ne by (cases bs rule: rev_cases) auto
  have res: "mq_builders (build_signal mq n fn) = bs' @ [fn b]" "mq_log (build_signal mq n fn) = mq_log mq"
    using split by (auto simp: build_signal_def buildMessage_def Let_def signalWork_def bs_def split: if_splits)
  have "mb_sound (fn b) \<and> unat (mb_BlockSize (fn b)) \<le> unat (mb_BlockSize b) + unat n"
    using bs split fits by (intro fills_grows[OF _ fn]) (auto simp: builders_size_def)
  then show "\<forall>b \<in> set (mq_builders (build_signal mq n fn)). mb_sound b"
    "builders_size (mq_builders (build_signal mq n fn)) \<le> builders_size (mq_builders mq) + unat n"
    "mq_log (build_signal mq n fn) = mq_log mq"
    using bs split res by (auto simp: builders_size_def)
qed

section \<open>Transactions that wait\<close>

lemma alloc_chans_once: "alloc_inv mt mp a \<Longrightarrow> count (alloc_chans a) c \<le> 1"
  using distinct_count_atmost_1[of "[0..<nextChan a]"] by (simp add: alloc_inv_def issued_def del: mset_upt)

lemma pend_chans:
  assumes "alloc_inv mt mp a" "pend a p \<noteq> []"
  shows "pending_chans (peerStatuses a) = mset (map pa_response (pend a p)) + pending_chans (mdel p (peerStatuses a))"
proof -
  from assms(2) obtain st where "mget (peerStatuses a) p = Some st" "pend a p = ps_pendingAllocations st"
    by (cases "mget (peerStatuses a) p") (auto simp: pend_def statusOf_def newPeerStatus_def)
  then show ?thesis using pending_chans_mdel[OF alloc_inv_wf[OF assms(1)]] by simp
qed

lemma pend_other:
  assumes "alloc_inv mt mp a" "pa \<in> set (pend a p)" "p \<noteq> q"
  shows "pa_response pa \<in># pending_chans (mdel q (peerStatuses a))"
proof -
  from assms(2) obtain st where st: "mget (mdel q (peerStatuses a)) p = Some st" "pa \<in> set (ps_pendingAllocations st)"
    using assms(3) by (cases "mget (peerStatuses a) p") (auto simp: pend_def statusOf_def newPeerStatus_def)
  have "mwf (mdel q (peerStatuses a))" using alloc_inv_wf[OF assms(1)] by simp
  from pending_chans_mdel[OF this st(1)] st(2) show ?thesis by simp
qed

text \<open>A channel is pending at one place only.\<close>

lemma pend_unique:
  assumes inv: "alloc_inv mt mp a" and pa: "pa \<in> set (pend a p)" "pa' \<in> set (pend a q)" "pa_response pa = pa_response pa'"
  shows "p = q \<and> pa = pa'"
proof -
  have once: "count (alloc_chans a) c \<le> 1" for c by (rule alloc_chans_once[OF inv])
  have q: "pend a q \<noteq> []" using pa(2) by auto
  have "p = q"
  proof (rule ccontr)
    assume "p \<noteq> q"
    from pend_other[OF inv pa(1) this] pa(2,3)
    have "0 < count (pending_chans (mdel q (peerStatuses a))) (pa_response pa)" "0 < count (mset (map pa_response (pend a q))) (pa_response pa)"
      by (auto simp: image_iff simp del: mset_map)
    moreover have "count (mset (map pa_response (pend a q))) (pa_response pa) + count (pending_chans (mdel q (peerStatuses a))) (pa_response pa) \<le> 1"
      using once[of "pa_response pa"] by (simp add: alloc_chans_def pend_chans[OF inv q] del: mset_map)
    ultimately show False by linarith
  qed
  moreover have "count (mset (map pa_response (pend a q))) c \<le> 1" for c
    using once[of c] by (simp add: alloc_chans_def pend_chans[OF inv q] del: mset_map)
  then have "distinct (map pa_response (pend a q))"
    using distinct_count_atmost_1 by (metis count_mset_0_iff le_antisym less_one linorder_not_le mset_map)
  ultimately show ?thesis using pa by (auto simp: distinct_map inj_on_def)
qed

lemma pend_not_sent:
  assumes inv: "alloc_inv mt mp a" and pa: "pa \<in> set (pend a p)"
  shows "pa_response pa \<notin> fst ` set (sent a)"
proof
  assume "pa_response pa \<in> fst ` set (sent a)"
  then have "0 < count (mset (map fst (sent a))) (pa_response pa)" by (simp del: mset_map)
  moreover have "0 < count (mset (map pa_response (pend a p))) (pa_response pa)" using pa by (simp del: mset_map)
  moreover have "pend a p \<noteq> []" using pa by auto
  then have "count (mset (map fst (sent a))) (pa_response pa) + count (mset (map pa_response (pend a p))) (pa_response pa) \<le> 1"
    using alloc_chans_once[OF inv, of "pa_response pa"] by (simp add: alloc_chans_def pend_chans[OF inv] del: mset_map)
  ultimately show False by linarith
qed

definition bw_bytes :: "('n \<Rightarrow> nat) \<Rightarrow> ('n, 's, 'c) bp_waiting \<Rightarrow> nat" where
  "bw_bytes encLen w = unat (tx_size encLen (bw_ops w))"

text \<open>What was granted to transactions of a queue that have not built their part of a message yet.\<close>

definition due :: "('n \<Rightarrow> nat) \<Rightarrow> allocator \<Rightarrow> ('n, 's, 'c) bp_waiting list \<Rightarrow> nat \<Rightarrow> nat" where
  "due encLen a W i = (\<Sum>w \<leftarrow> W. if bw_queue w = i \<and> (bw_chan w, None) \<in> set (sent a) then bw_bytes encLen w else 0)"

definition wait_ok :: "('n \<Rightarrow> nat) \<Rightarrow> allocator \<Rightarrow> peer_id \<Rightarrow> ('n, 's, 'c) bp_waiting \<Rightarrow> bool" where
  "wait_ok encLen a p w \<longleftrightarrow>
     (bw_chan w, None) \<in> set (sent a) \<or> (\<exists>pa \<in> set (pend a p). pa_response pa = bw_chan w \<and> unat (pa_amount pa) = bw_bytes encLen w)"

lemma amounts_remove1: "pa \<in> set L \<Longrightarrow> pa_p pa = p \<Longrightarrow> amounts L p = unat (pa_amount pa) + amounts (remove1 pa L) p"
  by (simp add: amounts_def filter_remove1 sum_list_map_remove1[of pa])

lemma matched_amounts:
  assumes "distinct (map bw_chan N)"
    "\<forall>w \<in> set N. \<exists>pa \<in> set L. pa_p pa = p \<and> pa_response pa = bw_chan w \<and> unat (pa_amount pa) = bw_bytes encLen w"
  shows "(\<Sum>w \<leftarrow> N. bw_bytes encLen w) \<le> amounts L p"
  using assms
proof (induction N arbitrary: L)
  case (Cons w N)
  from Cons.prems(2) obtain pa where pa: "pa \<in> set L" "pa_p pa = p" "pa_response pa = bw_chan w" "unat (pa_amount pa) = bw_bytes encLen w"
    by auto
  have "\<exists>pa' \<in> set (remove1 pa L). pa_p pa' = p \<and> pa_response pa' = bw_chan w' \<and> unat (pa_amount pa') = bw_bytes encLen w'" if "w' \<in> set N" for w'
  proof -
    from that Cons.prems obtain pa' where pa': "pa' \<in> set L" "pa_p pa' = p" "pa_response pa' = bw_chan w'" "unat (pa_amount pa') = bw_bytes encLen w'"
      by auto
    moreover have "bw_chan w' \<noteq> bw_chan w" using that Cons.prems(1) by (metis distinct.simps(2) image_eqI list.set_map list.simps(9))
    then have "pa' \<noteq> pa" using pa(3) pa'(3) by auto
    ultimately show ?thesis by (intro bexI[of _ pa']) (auto simp: in_set_remove1)
  qed
  with Cons.IH[of "remove1 pa L"] Cons.prems(1) amounts_remove1[OF pa(1,2)] pa(4) show ?case by simp
qed simp

lemma due_grows:
  assumes inv: "alloc_inv mt mp a" and ans: "answered_by L a a'" and dist: "distinct (map bw_chan W)"
    and ok: "\<forall>w \<in> set W. bw_queue w = i \<longrightarrow> wait_ok encLen a p w"
  shows "due encLen a' W i \<le> due encLen a W i + amounts L p"
proof -
  let ?new = "\<lambda>w. bw_queue w = i \<and> (bw_chan w, None) \<in> set (sent a') \<and> (bw_chan w, None) \<notin> set (sent a)"
  have "due encLen a' W i = due encLen a W i + (\<Sum>w \<leftarrow> W. if ?new w then bw_bytes encLen w else 0)"
    unfolding due_def sum_list_addf[symmetric] by (rule arg_cong[where f = sum_list], rule map_cong) (auto simp: answeredD(1)[OF ans])
  also have "(\<Sum>w \<leftarrow> W. if ?new w then bw_bytes encLen w else 0) = (\<Sum>w \<leftarrow> filter ?new W. bw_bytes encLen w)"
    by (simp add: sum_list_map_filter')
  also have "\<dots> \<le> amounts L p"
  proof (rule matched_amounts)
    show "distinct (map bw_chan (filter ?new W))" using dist by (simp add: distinct_map_filter)
    show "\<forall>w \<in> set (filter ?new W). \<exists>pa \<in> set L. pa_p pa = p \<and> pa_response pa = bw_chan w \<and> unat (pa_amount pa) = bw_bytes encLen w"
    proof
      fix w assume w: "w \<in> set (filter ?new W)"
      then obtain pa where pa: "pa \<in> set (pend a p)" "pa_response pa = bw_chan w" "unat (pa_amount pa) = bw_bytes encLen w"
        using ok by (auto simp: wait_ok_def)
      from w obtain pa' where pa': "pa' \<in> set L" "pa_response pa' = bw_chan w" using answeredD(1)[OF ans, of "bw_chan w"] by auto
      with pend_unique[OF inv pa(1) answeredD(2)[OF ans pa'(1)]] pa
      show "\<exists>pa \<in> set L. pa_p pa = p \<and> pa_response pa = bw_chan w \<and> unat (pa_amount pa) = bw_bytes encLen w" by auto
    qed
  qed
  finally show ?thesis by simp
qed

text \<open>Asking for memory: granted at once or put at the end of the list of the peer.\<close>

lemma allocate_call:
  assumes inv: "alloc_inv mt mp a" and own: "owned a" and ok: "amount_ok mt mp n" and res: "AllocateBlockMemory a p n = (c, a')"
  shows "owned a' \<and> (\<forall>q. q \<noteq> p \<longrightarrow> reserved a' q = reserved a q \<and> pend a' q = pend a q) \<and>
    (sent a' = sent a @ [(c, None)] \<and> reserved a' p = reserved a p + unat n \<and> pend a' p = pend a p \<or>
     sent a' = sent a \<and> reserved a' p = reserved a p \<and>
       (\<exists>pa. pend a' p = pend a p @ [pa] \<and> pa_p pa = p \<and> pa_amount pa = n \<and> pa_response pa = c))"
proof -
  let ?st = "statusOf a p"
  have st: "(case mget (peerStatuses a) p of None \<Rightarrow> newPeerStatus p | Some st \<Rightarrow> st) = ?st" by (simp add: statusOf_def)
  have "ps_totalAllocated ?st \<le> mp"
    using alloc_inv_status[OF inv, of p] by (auto simp: statusOf_def newPeerStatus_def status_ok_def split: option.split)
  then have nowrap: "unat (ps_totalAllocated ?st + n) = unat (ps_totalAllocated ?st) + unat n" by (rule amount_ok_no_wrap(2)[OF ok])
  consider (grant) "sent a' = sent a @ [(c, None)]"
      "\<And>q. statusOf a' q = (if q = p then ?st\<lparr>ps_totalAllocated := ps_totalAllocated ?st + n\<rparr> else statusOf a q)"
    | (wait) pa where "sent a' = sent a" "pa_p pa = p" "pa_amount pa = n" "pa_response pa = c"
      "\<And>q. statusOf a' q = (if q = p then ?st\<lparr>ps_pendingAllocations := ps_pendingAllocations ?st @ [pa]\<rparr> else statusOf a q)"
  proof (cases "totalAllocatedAllPeers a + n \<le> maxAllowedAllocatedTotal a \<and> ps_totalAllocated ?st + n \<le> maxAllowedAllocatedPerPeer a \<and>
      ps_pendingAllocations ?st = []")
    case True
    then have "sent a' = sent a @ [(c, None)] \<and>
        (\<forall>q. statusOf a' q = (if q = p then ?st\<lparr>ps_totalAllocated := ps_totalAllocated ?st + n\<rparr> else statusOf a q))"
      using res by (cases "mget (peerStatuses a) p") (auto simp: AllocateBlockMemory_def Let_def statusOf_def)
    then show ?thesis using grant by blast
  next
    case False
    let ?pa = "\<lparr>pa_p = p, pa_amount = n, pa_response = c, pa_allocIndex = nextAllocIndex a\<rparr>"
    from False have "sent a' = sent a \<and>
        (\<forall>q. statusOf a' q = (if q = p then ?st\<lparr>ps_pendingAllocations := ps_pendingAllocations ?st @ [?pa]\<rparr> else statusOf a q))"
      using res by (cases "mget (peerStatuses a) p") (auto simp: AllocateBlockMemory_def Let_def statusOf_def)
    then show ?thesis using wait[of ?pa] by simp
  qed
  then show ?thesis
  proof cases
    case grant
    then show ?thesis using own nowrap by (simp add: owned_def pend_def reserved_def)
  next
    case wait
    then show ?thesis using own by (auto simp: owned_def pend_def reserved_def)
  qed
qed

section \<open>The memory of a queue is reserved\<close>

definition waits_inv :: "('n \<Rightarrow> nat) \<Rightarrow> ('n, 's, 'c) bp_sys \<Rightarrow> bool" where
  "waits_inv encLen s \<longleftrightarrow>
     distinct (map bw_chan (bp_waits s)) \<and>
     (\<forall>w \<in> set (bp_waits s). bw_queue w < length (bp_queues s) \<and> bw_chan w < nextChan (bp_alloc s) \<and> tx_bytes encLen (bw_ops w) < 2 ^ 64 \<and>
        (bq_running (bp_queues s ! bw_queue w) \<longrightarrow> wait_ok encLen (bp_alloc s) (bq_p (bp_queues s ! bw_queue w)) w))"

definition queue_inv :: "('n \<Rightarrow> nat) \<Rightarrow> ('n, 's, 'c) bp_sys \<Rightarrow> nat \<Rightarrow> bool" where
  "queue_inv encLen s i \<longleftrightarrow>
     (let q = bp_queues s ! i
      in (bq_flight q \<noteq> None \<longrightarrow> bq_running q) \<and>
         (bq_running q \<longrightarrow> queue_sound q \<and> held q + due encLen (bp_alloc s) (bp_waits s) i \<le> reserved (bp_alloc s) (bq_p q)))"

definition one_running :: "('n, 's, 'c) bp_queue list \<Rightarrow> bool" where
  "one_running qs \<longleftrightarrow> (\<forall>i < length qs. \<forall>j < length qs. bq_running (qs ! i) \<and> bq_running (qs ! j) \<and> bq_p (qs ! i) = bq_p (qs ! j) \<longrightarrow> i = j)"

definition bp_inv :: "u64 \<Rightarrow> u64 \<Rightarrow> ('n \<Rightarrow> nat) \<Rightarrow> ('n, 's, 'c) bp_sys \<Rightarrow> bool" where
  "bp_inv mt mp encLen s \<longleftrightarrow>
     alloc_inv mt mp (bp_alloc s) \<and> owned (bp_alloc s) \<and> waits_inv encLen s \<and>
     (\<forall>i < length (bp_queues s). queue_inv encLen s i) \<and> one_running (bp_queues s)"

lemma bp_invD:
  assumes "bp_inv mt mp encLen s"
  shows "alloc_inv mt mp (bp_alloc s)" "owned (bp_alloc s)" "waits_inv encLen s" "i < length (bp_queues s) \<Longrightarrow> queue_inv encLen s i"
    "one_running (bp_queues s)"
  using assms by (auto simp: bp_inv_def)

lemma one_runningD:
  "one_running qs \<Longrightarrow> i < length qs \<Longrightarrow> j < length qs \<Longrightarrow> bq_running (qs ! i) \<Longrightarrow> bq_running (qs ! j) \<Longrightarrow> bq_p (qs ! i) = bq_p (qs ! j) \<Longrightarrow> i = j"
  by (simp add: one_running_def)

lemma one_running_update:
  assumes "one_running qs" "i < length qs" "bq_p q' = bq_p (qs ! i)" "bq_running q' \<Longrightarrow> bq_running (qs ! i)"
  shows "one_running (qs[i := q'])"
  unfolding one_running_def
proof (intro allI impI; elim conjE)
  fix j k assume jk: "j < length (qs[i := q'])" "k < length (qs[i := q'])" "bq_running (qs[i := q'] ! j)" "bq_running (qs[i := q'] ! k)"
    "bq_p (qs[i := q'] ! j) = bq_p (qs[i := q'] ! k)"
  have "bq_p (qs[i := q'] ! n) = bq_p (qs ! n)" "bq_running (qs[i := q'] ! n) \<Longrightarrow> bq_running (qs ! n)" for n
    using assms(2-) by (cases "n = i"; simp)+
  with jk show "j = k" by (intro one_runningD[OF assms(1)]) simp_all
qed

lemma wait_kept:
  assumes "wait_ok encLen a p w" "answered_by L a a'"
    "\<forall>pa \<in> set (pend a p). pa \<in> set (pend a' p) \<or> (pa_response pa, None) \<in> set (sent a')"
  shows "wait_ok encLen a' p w"
  using assms answeredD(1)[OF assms(2)] by (auto simp: wait_ok_def) metis

lemma holding_kept:
  assumes inv: "bp_inv mt mp encLen s" and j: "j < length (bp_queues s)" "bq_running (bp_queues s ! j)" "p = bq_p (bp_queues s ! j)"
    and ans: "answered_by L (bp_alloc s) a'" and res: "reserved (bp_alloc s) p + amounts L p \<le> reserved a' p + rel"
    and held: "rel + held q' \<le> held (bp_queues s ! j)"
  shows "held q' + due encLen a' (bp_waits s) j \<le> reserved a' p"
proof -
  have W: "waits_inv encLen s" using inv by (rule bp_invD)
  have "\<forall>w \<in> set (bp_waits s). bw_queue w = j \<longrightarrow> wait_ok encLen (bp_alloc s) p w" using W j by (auto simp: waits_inv_def)
  with due_grows[OF bp_invD(1)[OF inv] ans, of "bp_waits s" j encLen p] W
  have "due encLen a' (bp_waits s) j \<le> due encLen (bp_alloc s) (bp_waits s) j + amounts L p" by (simp add: waits_inv_def)
  moreover have "held (bp_queues s ! j) + due encLen (bp_alloc s) (bp_waits s) j \<le> reserved (bp_alloc s) p"
    using bp_invD(4)[OF inv j(1)] j(2,3) by (simp add: queue_inv_def Let_def)
  ultimately show ?thesis using res held by linarith
qed

text \<open>A turn of the loop of a queue.\<close>

lemma turn_inv:
  fixes s :: "('n, 's, 'c) bp_sys"
  assumes peek: "pq_peek_min peek" and inv: "bp_inv mt mp encLen s" and i: "i < length (bp_queues s)" and q: "q = bp_queues s ! i"
    and run: "bq_running q" and turn: "bp_turn peek i q q' s = Some s'" and p: "bq_p q' = bq_p q"
    and log: "mq_log (bq_mq q') = mq_log (bq_mq q) @ cs"
    and eff: "if bq_running q' then CallReleasePeer \<notin> set cs \<and> queue_sound q' \<and> (\<Sum>c \<leftarrow> cs. released c) + held q' \<le> held q
              else bq_flight q' = None"
  shows "bp_inv mt mp encLen s'"
proof -
  let ?a = "bp_alloc s"
  obtain a' where a': "alloc_calls peek (bq_p q) cs ?a = Some a'" "s' = bp_set i q' (s\<lparr>bp_alloc := a'\<rparr>)"
    using turn log by (auto simp: bp_turn_def)
  from alloc_calls_spec[OF peek bp_invD(1,2)[OF inv] a'(1)] obtain L where
    L: "alloc_inv mt mp a'" "nextChan a' = nextChan ?a" "owned a'" "answered_by L ?a a'" "keeps_reserved (bq_p q) cs L ?a a'" by blast
  have qs: "bp_queues s' ! j = (if j = i then q' else bp_queues s ! j)" "length (bp_queues s') = length (bp_queues s)"
      "bp_waits s' = bp_waits s" "bp_alloc s' = a'" for j
    using i by (auto simp: a'(2) bp_set_def)
  have other: "bq_p (bp_queues s ! j) \<noteq> bq_p q" if "j < length (bp_queues s)" "j \<noteq> i" "bq_running (bp_queues s ! j)" for j
    using one_runningD[OF bp_invD(5)[OF inv] that(1) i that(3)] run that(2) by (auto simp: q)
  have kept: "reserved ?a p + amounts L p \<le> reserved a' p + (if j = i then \<Sum>c \<leftarrow> cs. released c else 0) \<and>
      (\<forall>pa \<in> set (pend ?a p). pa \<in> set (pend a' p) \<or> (pa_response pa, None) \<in> set (sent a'))"
    if "j < length (bp_queues s)" "bq_running (bp_queues s' ! j)" "p = bq_p (bp_queues s ! j)" for j p
    using L(5)[unfolded keeps_reserved_def, THEN spec[of _ p]] that other[OF that(1)] eff qs(1)[of j] by (cases "j = i") (auto simp: q)
  have W: "waits_inv encLen s" using inv by (rule bp_invD)
  have wait: "wait_ok encLen a' (bq_p (bp_queues s ! bw_queue w)) w"
    if "w \<in> set (bp_waits s)" "bq_running (bp_queues s' ! bw_queue w)" for w
  proof -
    have lt: "bw_queue w < length (bp_queues s)" and "wait_ok encLen ?a (bq_p (bp_queues s ! bw_queue w)) w"
      using W that run qs(1)[of "bw_queue w"] by (auto simp: waits_inv_def q split: if_splits)
    then show ?thesis using wait_kept L(4) kept[OF lt that(2) refl] by blast
  qed
  have "queue_inv encLen s' j" if j: "j < length (bp_queues s)" for j
  proof -
    have Qj: "queue_inv encLen s j" using inv j by (rule bp_invD)
    have "held (bp_queues s' ! j) + due encLen a' (bp_waits s) j \<le> reserved a' (bq_p (bp_queues s ! j)) \<and> queue_sound (bp_queues s' ! j)"
      if r: "bq_running (bp_queues s' ! j)"
    proof -
      have rj: "bq_running (bp_queues s ! j)" using r run qs(1)[of j] by (auto simp: q split: if_splits)
      have "(if j = i then \<Sum>c \<leftarrow> cs. released c else 0) + held (bp_queues s' ! j) \<le> held (bp_queues s ! j)" "queue_sound (bp_queues s' ! j)"
        using eff r Qj rj by (auto simp: qs(1) q queue_inv_def Let_def split: if_splits)
      then show ?thesis using holding_kept[OF inv j rj refl L(4)] kept[OF j r refl] by blast
    qed
    moreover have "bq_flight (bp_queues s' ! j) \<noteq> None \<longrightarrow> bq_running (bp_queues s' ! j)"
      using Qj eff by (auto simp: qs(1) queue_inv_def Let_def split: if_splits)
    ultimately show ?thesis using p by (auto simp: queue_inv_def Let_def qs q)
  qed
  moreover have "waits_inv encLen s'"
    using W wait p by (auto simp: waits_inv_def qs L(2) q)
  moreover have "one_running (bp_queues s')"
    using one_running_update[OF bp_invD(5)[OF inv] i, of q'] run p by (simp add: a'(2) bp_set_def q)
  ultimately show ?thesis using L(1,3) by (simp add: bp_inv_def qs)
qed

text \<open>A step that does not call the allocator: transactions stop to wait, and a queue takes over what was due to it.\<close>

lemma local_inv:
  fixes s :: "('n, 's, 'c) bp_sys"
  assumes inv: "bp_inv mt mp encLen s" and i: "i < length (bp_queues s)" and q: "q = bp_queues s ! i"
    and same: "bq_p q' = bq_p q" "bq_running q' = bq_running q" "bq_flight q' = bq_flight q"
    and W': "set W' \<subseteq> set (bp_waits s)" "distinct (map bw_chan W')" "\<And>j. due encLen (bp_alloc s) W' j \<le> due encLen (bp_alloc s) (bp_waits s) j"
    and eff: "bq_running q \<Longrightarrow> queue_sound q' \<and>
      held q' + due encLen (bp_alloc s) W' i \<le> held q + due encLen (bp_alloc s) (bp_waits s) i"
  shows "bp_inv mt mp encLen (bp_set i q' (s\<lparr>bp_waits := W'\<rparr>))" (is "bp_inv _ _ _ ?s'")
proof -
  have qs: "bp_queues ?s' ! j = (if j = i then q' else bp_queues s ! j)" "length (bp_queues ?s') = length (bp_queues s)"
      "bp_waits ?s' = W'" "bp_alloc ?s' = bp_alloc s" for j
    using i by (auto simp: bp_set_def)
  have "queue_inv encLen ?s' j" if "j < length (bp_queues s)" for j
  proof (cases "j = i")
    case True
    have "queue_inv encLen s i" using inv i by (rule bp_invD)
    then show ?thesis using True eff same unfolding queue_inv_def Let_def qs q[symmetric]
      by (cases "bq_running q") (auto intro: le_trans)
  next
    case False
    then show ?thesis using bp_invD(4)[OF inv that] W'(3)[of j] unfolding queue_inv_def Let_def qs
      by (auto intro: order_trans[OF add_left_mono])
  qed
  moreover have "waits_inv encLen ?s'"
    using bp_invD(3)[OF inv] W'(1,2) same by (auto simp: waits_inv_def qs q)
  moreover have "one_running (bp_queues ?s')"
    using one_running_update[OF bp_invD(5)[OF inv] i, of q'] same by (simp add: bp_set_def q)
  ultimately show ?thesis using bp_invD(1,2)[OF inv] by (simp add: bp_inv_def qs)
qed

lemma build_inv:
  fixes s :: "('n, 's, 'c) bp_sys"
  assumes inv: "bp_inv mt mp encLen s" and i: "bp_nth s i = Some q" and fn: "fills n fn"
    and W': "set W' \<subseteq> set (bp_waits s)" "distinct (map bw_chan W')"
    and due: "\<And>j. due encLen (bp_alloc s) (bp_waits s) j =
      due encLen (bp_alloc s) W' j + (if j = i \<and> bq_running q then unat n else d j)"
  shows "bp_inv mt mp encLen (bp_set i (q\<lparr>bq_mq := build_signal (bq_mq q) n fn\<rparr>) (s\<lparr>bp_waits := W'\<rparr>))"
proof (rule local_inv[OF inv _ _ _ _ _ W'])
  show lt: "i < length (bp_queues s)" and q: "q = bp_queues s ! i" using i by (auto simp: bp_nth_def split: if_splits)
  show "due encLen (bp_alloc s) W' j \<le> due encLen (bp_alloc s) (bp_waits s) j" for j by (simp add: due)
  assume run: "bq_running q"
  then have "queue_sound q" "held q + due encLen (bp_alloc s) (bp_waits s) i \<le> reserved (bp_alloc s) (bq_p q)"
    using bp_invD(4)[OF inv lt] by (auto simp: queue_inv_def Let_def q)
  moreover have "builders_size (mq_builders (bq_mq q)) + unat n < 2 ^ 64"
    using calculation(2) run unat_u64_less[of "ps_totalAllocated (statusOf (bp_alloc s) (bq_p q))"]
    by (simp add: due held_def reserved_def)
  ultimately show "queue_sound (q\<lparr>bq_mq := build_signal (bq_mq q) n fn\<rparr>) \<and>
      held (q\<lparr>bq_mq := build_signal (bq_mq q) n fn\<rparr>) + due encLen (bp_alloc s) W' i \<le> held q + due encLen (bp_alloc s) (bp_waits s) i"
    using build_grows[OF _ fn, of "bq_mq q"] run by (simp add: queue_sound_def held_def due)
qed simp_all

lemma due_remove:
  assumes "j < length W"
  shows "due encLen a W k = due encLen a (take j W @ drop (Suc j) W) k +
    (if bw_queue (W ! j) = k \<and> (bw_chan (W ! j), None) \<in> set (sent a) then bw_bytes encLen (W ! j) else 0)"
proof -
  have "W = take j W @ W ! j # drop (Suc j) W" using assms by (rule id_take_nth_drop)
  then have "due encLen a W k = due encLen a (take j W @ W ! j # drop (Suc j) W) k" by simp
  then show ?thesis by (simp add: due_def)
qed

lemma waits_remove:
  assumes "j < length W" "distinct (map bw_chan W)"
  shows "set (take j W @ drop (Suc j) W) \<subseteq> set W" "distinct (map bw_chan (take j W @ drop (Suc j) W))"
proof -
  have "distinct (map bw_chan (take j W @ W ! j # drop (Suc j) W))" by (simp only: id_take_nth_drop[OF assms(1), symmetric] assms(2))
  then show "distinct (map bw_chan (take j W @ drop (Suc j) W))" by auto
  show "set (take j W @ drop (Suc j) W) \<subseteq> set W" by (auto dest: in_set_takeD in_set_dropD)
qed

text \<open>A new queue of a peer none of whose queues is running.\<close>

lemma connect_inv:
  assumes inv: "bp_inv mt mp encLen s" and free: "\<forall>q \<in> set (bp_queues s). bq_running q \<longrightarrow> bq_p q \<noteq> p"
  shows "bp_inv mt mp encLen (s\<lparr>bp_queues := bp_queues s @ [bq_start p k]\<rparr>)" (is "bp_inv _ _ _ ?s'")
proof -
  let ?n = "length (bp_queues s)"
  have qs: "bp_queues ?s' ! j = (if j < ?n then bp_queues s ! j else bq_start p k)" if "j < Suc ?n" for j
    using that by (auto simp: nth_append)
  have W: "waits_inv encLen s" using inv by (rule bp_invD)
  have "due encLen (bp_alloc s) (bp_waits s) ?n = 0"
    unfolding due_def using W by (auto simp: waits_inv_def sum_list_eq_0_iff)
  then have new: "queue_inv encLen ?s' ?n"
    by (simp add: queue_inv_def Let_def bq_start_def queue_sound_def held_def mq_New_def builders_size_def)
  have "queue_inv encLen ?s' j" if "j < Suc ?n" for j
    using that new bp_invD(4)[OF inv, of j] qs[OF that] by (cases "j = ?n") (auto simp: queue_inv_def)
  moreover have "waits_inv encLen ?s'" using W by (auto simp: waits_inv_def nth_append)
  moreover have "i = j" if "i < Suc ?n" "j < Suc ?n" "bq_running (bp_queues ?s' ! i)" "bq_running (bp_queues ?s' ! j)"
      "bq_p (bp_queues ?s' ! i) = bq_p (bp_queues ?s' ! j)" for i j
    using that(3-) free one_runningD[OF bp_invD(5)[OF inv], of i j] that(1,2) unfolding qs[OF that(1)] qs[OF that(2)]
    by (auto simp: bq_start_def less_Suc_eq split: if_splits)
  then have "one_running (bp_queues ?s')" by (simp add: one_running_def)
  ultimately show ?thesis using inv by (simp add: bp_inv_def)
qed

lemma sent_chans: "alloc_inv mt mp a \<Longrightarrow> (c, x) \<in> set (sent a) \<Longrightarrow> c < nextChan a"
proof -
  assume "alloc_inv mt mp a" "(c, x) \<in> set (sent a)"
  moreover from this have "c \<in># alloc_chans a" by (force simp: alloc_chans_def)
  ultimately have "c \<in># issued (nextChan a)" by (simp add: alloc_inv_def)
  then show ?thesis by (simp add: issued_def)
qed

lemma ask_waits:
  fixes s :: "('n, 's, 'c) bp_sys"
  assumes W: "waits_inv encLen s" and lt: "i < length (bp_queues s)" and ok: "tx_bytes encLen operations < 2 ^ 64"
    and c: "c = nextChan (bp_alloc s)" "nextChan a' = Suc c"
    and old: "\<And>w. w \<in> set (bp_waits s) \<Longrightarrow> (bw_chan w, None) \<in> set (sent a') \<longleftrightarrow> (bw_chan w, None) \<in> set (sent (bp_alloc s))"
    and pend: "\<And>p. set (pend (bp_alloc s) p) \<subseteq> set (pend a' p)"
    and new: "wait_ok encLen a' (bq_p (bp_queues s ! i)) \<lparr>bw_chan = c, bw_queue = i, bw_rs = rs, bw_ops = operations\<rparr>"
    and q': "bq_p q' = bq_p (bp_queues s ! i)" "bq_running q' = bq_running (bp_queues s ! i)"
  shows "waits_inv encLen (bp_set i q'
    (s\<lparr>bp_alloc := a', bp_waits := bp_waits s @ [\<lparr>bw_chan = c, bw_queue = i, bw_rs = rs, bw_ops = operations\<rparr>]\<rparr>))" (is "waits_inv _ ?s'")
  unfolding waits_inv_def
proof (intro conjI ballI)
  let ?w = "\<lparr>bw_chan = c, bw_queue = i, bw_rs = rs, bw_ops = operations\<rparr>"
  have qs: "bq_p (bp_queues ?s' ! j) = bq_p (bp_queues s ! j)" "bq_running (bp_queues ?s' ! j) = bq_running (bp_queues s ! j)" for j
    using lt q' by (cases "j = i"; simp add: bp_set_def)+
  show "distinct (map bw_chan (bp_waits ?s'))" using W c(1) by (auto simp: waits_inv_def bp_set_def)
  fix w assume "w \<in> set (bp_waits ?s')"
  then consider "w = ?w" | "w \<in> set (bp_waits s)" by (auto simp: bp_set_def)
  then have "bw_queue w < length (bp_queues s) \<and> bw_chan w < nextChan a' \<and> tx_bytes encLen (bw_ops w) < 2 ^ 64 \<and>
    (bq_running (bp_queues s ! bw_queue w) \<longrightarrow> wait_ok encLen a' (bq_p (bp_queues s ! bw_queue w)) w)"
  proof cases
    case 1
    then show ?thesis using lt ok c new by simp
  next
    case 2
    then show ?thesis using W c old[OF 2] pend unfolding waits_inv_def wait_ok_def by force
  qed
  then show "bw_queue w < length (bp_queues ?s')" "bw_chan w < nextChan (bp_alloc ?s')" "tx_bytes encLen (bw_ops w) < 2 ^ 64"
    "bq_running (bp_queues ?s' ! bw_queue w) \<longrightarrow> wait_ok encLen (bp_alloc ?s') (bq_p (bp_queues ?s' ! bw_queue w)) w"
    unfolding qs by (auto simp: bp_set_def)
qed

text \<open>A transaction that asks for memory.\<close>

lemma ask_inv:
  fixes s :: "('n, 's, 'c) bp_sys"
  assumes inv: "bp_inv mt mp encLen s" and i: "bp_nth s i = Some q"
    and ok: "tx_bytes encLen operations < 2 ^ 64" "amount_ok mt mp (tx_size encLen operations)"
    and res: "AllocateBlockMemory (bp_alloc s) (bq_p q) (tx_size encLen operations) = (c, a')"
  shows "bp_inv mt mp encLen (bp_set i (q\<lparr>bq_mq := call [CallAllocate (tx_size encLen operations)] (bq_mq q)\<rparr>)
    (s\<lparr>bp_alloc := a', bp_waits := bp_waits s @ [\<lparr>bw_chan = c, bw_queue = i, bw_rs = rs, bw_ops = operations\<rparr>]\<rparr>))" (is "bp_inv _ _ _ ?s'")
proof -
  let ?a = "bp_alloc s" and ?w = "\<lparr>bw_chan = c, bw_queue = i, bw_rs = rs, bw_ops = operations\<rparr>" and ?n = "unat (tx_size encLen operations)"
  let ?q' = "q\<lparr>bq_mq := call [CallAllocate (tx_size encLen operations)] (bq_mq q)\<rparr>"
  have lt: "i < length (bp_queues s)" and q: "q = bp_queues s ! i" using i by (auto simp: bp_nth_def split: if_splits)
  note al = allocate_inv[OF bp_invD(1)[OF inv] ok(2) res] and call = allocate_call[OF bp_invD(1,2)[OF inv] ok(2) res]
  have qs: "bp_queues ?s' ! j = (if j = i then ?q' else bp_queues s ! j)" "length (bp_queues ?s') = length (bp_queues s)" for j
    using lt by (auto simp: bp_set_def)
  have W: "waits_inv encLen s" using inv by (rule bp_invD)
  have old: "(bw_chan w, None) \<in> set (sent a') \<longleftrightarrow> (bw_chan w, None) \<in> set (sent ?a)" if "w \<in> set (bp_waits s)" for w
    using W that call al(2) by (auto simp: waits_inv_def)
  have "due encLen a' (bp_waits s) j = due encLen ?a (bp_waits s) j" for j
    unfolding due_def by (rule arg_cong[where f = sum_list], rule map_cong) (auto simp: old)
  then have due: "due encLen a' (bp_waits ?s') j = due encLen ?a (bp_waits s) j + (if j = i \<and> (c, None) \<in> set (sent a') then ?n else 0)" for j
    by (simp add: due_def bw_bytes_def bp_set_def)
  have fresh: "(c, None) \<notin> set (sent ?a)" using sent_chans[OF bp_invD(1)[OF inv]] al(2) by blast
  have grown: "reserved a' p = reserved ?a p + (if p = bq_p q \<and> (c, None) \<in> set (sent a') then ?n else 0)" for p
    using call fresh by (cases "p = bq_p q") auto
  have pend: "set (pend ?a p) \<subseteq> set (pend a' p)" for p using call by (cases "p = bq_p q") auto
  have neww: "wait_ok encLen a' (bq_p q) ?w" using call by (auto simp: wait_ok_def bw_bytes_def)
  have "queue_inv encLen ?s' j" if "j < length (bp_queues s)" for j
    using bp_invD(4)[OF inv that] due[of j] grown unfolding queue_inv_def Let_def qs
    by (cases "j = i") (auto simp: q bp_set_def held_def queue_sound_def call_def)
  moreover have "waits_inv encLen ?s'"
    using ask_waits[OF bp_invD(3)[OF inv] lt ok(1) al(2,3) old pend, of rs ?q'] neww by (simp add: q)
  moreover have "one_running (bp_queues ?s')"
    using one_running_update[OF bp_invD(5)[OF inv] lt, of ?q'] by (simp add: bp_set_def q)
  ultimately show ?thesis using al(1) call unfolding bp_inv_def qs(2) by (simp add: bp_set_def)
qed

section \<open>Every step keeps it\<close>

lemma take_effect:
  assumes ok: "queue_sound q" and idle: "bq_flight q = None"
  shows "\<exists>cs. mq_log (bq_mq (bq_take q)) = mq_log (bq_mq q) @ cs \<and> CallReleasePeer \<notin> set cs \<and> queue_sound (bq_take q) \<and>
    (\<Sum>c \<leftarrow> cs. released c) + held (bq_take q) \<le> held q"
proof -
  let ?mq = "(bq_mq q)\<lparr>mq_outgoingWork := False\<rparr>"
  obtain r mq where r: "extractOutgoingMessage ?mq = (r, mq)" by fastforce
  have sound: "\<forall>b \<in> set (mq_builders ?mq). mb_sound b" using ok by (simp add: queue_sound_def)
  note ex = extract_holds[OF sound r]
  from ex(4) obtain cs where cs: "mq_log mq = mq_log (bq_mq q) @ cs" "CallReleasePeer \<notin> set cs" "(\<Sum>c \<leftarrow> cs. released c) = 0" by auto
  have mq: "\<forall>b \<in> set (mq_builders mq). mb_sound b" "builders_size (mq_builders mq) \<le> builders_size (mq_builders (bq_mq q))"
    using ex(1) by (auto simp: gives_back_def)
  show ?thesis
  proof (cases r)
    case None
    then show ?thesis using cs mq idle
      by (intro exI[of _ cs]) (simp add: bq_take_def r queue_sound_def held_def del: sum_list_eq_0_iff)
  next
    case (Some x)
    obtain message metadata where x: "x = (message, metadata)" by (cases x)
    have "bq_take q = q\<lparr>bq_mq := publishQueued metadata mq, bq_flight := Some (message, metadata)\<rparr>" by (simp add: bq_take_def r Some x)
    with ex(2,3)[of message metadata] Some x cs mq idle show ?thesis
      by (intro exI[of _ "cs @ [CallPublish (im_topic metadata) (EvQueued (im_public metadata))]"])
        (simp add: queue_sound_def held_def publishQueued_def call_def del: sum_list_eq_0_iff)
  qed
qed

lemma bq_take_simps [simp]: "bq_p (bq_take q) = bq_p q" "bq_running (bq_take q) = bq_running q"
  by (auto simp: bq_take_def split: prod.splits option.splits)

lemma sendOut_effect:
  assumes ok: "queue_sound q" and flight: "bq_flight q = Some (message, metadata)"
    and q': "q' = q\<lparr>bq_mq := sendOut openOk atts message metadata (bq_mq q), bq_flight := None\<rparr>"
  shows "\<exists>cs. mq_log (bq_mq q') = mq_log (bq_mq q) @ cs \<and> CallReleasePeer \<notin> set cs \<and> queue_sound q' \<and>
    (\<Sum>c \<leftarrow> cs. released c) + held q' \<le> held q"
  using sendOut_gives_back[of "bq_mq q" metadata openOk atts message] ok flight
  by (auto simp: gives_back_def queue_sound_def held_def q')

lemma stop_log:
  assumes "queue_sound q"
  shows "\<exists>cs. mq_log (snd (runQueue_step SelDone openOk atts (bq_mq q))) = mq_log (bq_mq q) @ cs"
    and "\<exists>cs. mq_log (snd (runQueue_step SelCtxDone openOk atts (bq_mq q))) = mq_log (bq_mq q) @ cs"
  using drain_gives_back[of "(bq_mq q)\<lparr>mq_outgoingWork := False\<rparr>"] assms
  by (auto simp: runQueue_step_def Let_def call_def gives_back_def queue_sound_def)

definition bp_ok :: "u64 \<Rightarrow> u64 \<Rightarrow> ('n \<Rightarrow> nat) \<Rightarrow> ('n, 's, 'c) bp_sys \<Rightarrow> ('n, 's, 'c) bp_event \<Rightarrow> bool" where
  "bp_ok mt mp encLen s e \<longleftrightarrow>
     (case e of
        BpConnect p _ \<Rightarrow> list_all (\<lambda>q. bq_running q \<longrightarrow> bq_p q \<noteq> p) (bp_queues s)
      | BpTransact _ _ operations _ \<Rightarrow> tx_bytes encLen operations < 2 ^ 64 \<and> amount_ok mt mp (tx_size encLen operations)
      | _ \<Rightarrow> True)"

lemma running_sound: "bp_inv mt mp encLen s \<Longrightarrow> i < length (bp_queues s) \<Longrightarrow> bq_running (bp_queues s ! i) \<Longrightarrow> queue_sound (bp_queues s ! i)"
  using bp_invD(4) by (fastforce simp: queue_inv_def Let_def)

lemma bp_nthD: "bp_nth s i = Some q \<Longrightarrow> i < length (bp_queues s) \<and> q = bp_queues s ! i"
  by (auto simp: bp_nth_def split: if_splits)

lemma loop_inv:
  assumes "pq_peek_min peek" "bp_inv mt mp encLen s" "bp_nth s i = Some q" "bp_turn peek i q q' s = Some s'" "bq_running q" "bq_p q' = bq_p q"
    "(\<exists>cs. mq_log (bq_mq q') = mq_log (bq_mq q) @ cs \<and> CallReleasePeer \<notin> set cs \<and> queue_sound q' \<and> (\<Sum>c \<leftarrow> cs. released c) + held q' \<le> held q) \<or>
     (\<exists>cs. mq_log (bq_mq q') = mq_log (bq_mq q) @ cs) \<and> \<not> bq_running q' \<and> bq_flight q' = None"
    "bq_running q' \<or> bq_flight q' = None"
  shows "bp_inv mt mp encLen s'"
proof -
  have i: "i < length (bp_queues s)" "q = bp_queues s ! i" using bp_nthD[OF assms(3)] by auto
  from assms(7,8) obtain cs where "mq_log (bq_mq q') = mq_log (bq_mq q) @ cs"
    "if bq_running q' then CallReleasePeer \<notin> set cs \<and> queue_sound q' \<and> (\<Sum>c \<leftarrow> cs. released c) + held q' \<le> held q else bq_flight q' = None"
    by auto
  from turn_inv[OF assms(1,2) i assms(5,4,6) this] show ?thesis .
qed

lemma wait_granted:
  assumes inv: "bp_inv mt mp encLen s" and w: "w \<in> set (bp_waits s)" "bw_chan w \<in> fst ` set (sent (bp_alloc s))"
    and run: "bq_running (bp_queues s ! bw_queue w)"
  shows "(bw_chan w, None) \<in> set (sent (bp_alloc s))"
proof -
  have "wait_ok encLen (bp_alloc s) (bq_p (bp_queues s ! bw_queue w)) w"
    using bp_invD(3)[OF inv] w(1) run by (simp add: waits_inv_def)
  then show ?thesis using pend_not_sent[OF bp_invD(1)[OF inv]] w(2) unfolding wait_ok_def by metis
qed

lemma bp_waits_same [simp]: "s\<lparr>bp_waits := bp_waits s\<rparr> = s"
  by simp

lemma no_bytes_inv:
  assumes "bp_inv mt mp encLen s" "bp_nth s i = Some q" "fills 0 fn"
  shows "bp_inv mt mp encLen (bp_set i (q\<lparr>bq_mq := build_signal (bq_mq q) 0 fn\<rparr>) s)"
  using build_inv[OF assms, of "bp_waits s" "\<lambda>_. 0"] bp_invD(3)[OF assms(1)] by (simp add: waits_inv_def)

lemma step_build_inv:
  assumes inv: "bp_inv mt mp encLen s" and step: "bp_step peek encLen s (BpBuild j closedLater) = Some s'"
  shows "bp_inv mt mp encLen s'"
proof -
  let ?W = "bp_waits s" and ?a = "bp_alloc s"
  define w where "w = ?W ! j"
  from step obtain q where j: "j < length ?W" "bw_chan w \<in> fst ` set (sent ?a)" "bp_nth s (bw_queue w) = Some q" and
    s': "s' = bp_set (bw_queue w) (q\<lparr>bq_mq := build_signal (bq_mq q) (tx_size encLen (bw_ops w)) (tx_build (bw_rs w) (bw_ops w) closedLater)\<rparr>)
      (s\<lparr>bp_waits := take j ?W @ drop (Suc j) ?W\<rparr>)"
    by (auto simp: w_def Let_def split: if_splits)
  have W: "distinct (map bw_chan ?W)" "tx_bytes encLen (bw_ops w) < 2 ^ 64"
    using bp_invD(3)[OF inv] j(1) by (auto simp: waits_inv_def w_def)
  have q: "q = bp_queues s ! bw_queue w" using bp_nthD[OF j(3)] by blast
  have "due encLen ?a ?W k = due encLen ?a (take j ?W @ drop (Suc j) ?W) k +
      (if k = bw_queue w \<and> bq_running q then unat (tx_size encLen (bw_ops w))
       else if bw_queue w = k \<and> (bw_chan w, None) \<in> set (sent ?a) then bw_bytes encLen w else 0)" for k
    using due_remove[OF j(1), of encLen ?a k] wait_granted[OF inv, of w] j(1,2) by (auto simp: w_def[symmetric] bw_bytes_def q) (simp add: w_def)
  then show ?thesis unfolding s'
    by (rule build_inv[OF inv j(3) tx_build_fills[OF W(2)] waits_remove[OF j(1) W(1)]])
qed

lemma step_transact_inv:
  assumes inv: "bp_inv mt mp encLen s" and ok: "bp_ok mt mp encLen s (BpTransact i rs operations closedLater)"
    and step: "bp_step peek encLen s (BpTransact i rs operations closedLater) = Some s'"
  shows "bp_inv mt mp encLen s'"
proof -
  have fits: "tx_bytes encLen operations < 2 ^ 64" "amount_ok mt mp (tx_size encLen operations)" using ok by (auto simp: bp_ok_def)
  from step obtain q where q: "bp_nth s i = Some q" by (auto split: option.splits)
  obtain c a where al: "AllocateBlockMemory (bp_alloc s) (bq_p q) (tx_size encLen operations) = (c, a)" by fastforce
  consider "s' = s" | "tx_size encLen operations = 0" "s' = bp_set i (q\<lparr>bq_mq := build_signal (bq_mq q) 0 (tx_build rs operations closedLater)\<rparr>) s"
    | "s' = bp_set i (q\<lparr>bq_mq := call [CallAllocate (tx_size encLen operations)] (bq_mq q)\<rparr>)
           (s\<lparr>bp_alloc := a, bp_waits := bp_waits s @ [\<lparr>bw_chan = c, bw_queue = i, bw_rs = rs, bw_ops = operations\<rparr>]\<rparr>)"
    using step q al by (cases "tx_size encLen operations = 0") (simp_all add: Let_def word_gt_0 split: if_splits)
  then show ?thesis
  proof cases
    case 2
    with no_bytes_inv[OF inv q] tx_build_fills[OF fits(1), of rs closedLater] show ?thesis by simp
  next
    case 3
    with ask_inv[OF inv q fits al] show ?thesis by simp
  qed (use inv in simp)
qed

lemma step_loop_inv:
  assumes peek: "pq_peek_min peek" and inv: "bp_inv mt mp encLen s" and step: "bp_step peek encLen s e = Some s'"
    and e: "e \<in> {BpTake i, BpSettle i openOk atts, BpStop i, BpCtxDone i}"
  shows "bp_inv mt mp encLen s'"
proof -
  obtain q where q: "bp_nth s i = Some q" using e step by (cases "bp_nth s i") auto
  have i: "i < length (bp_queues s)" "q = bp_queues s ! i" using bp_nthD[OF q] by auto
  have run: "bq_running q"
    using e step q bp_invD(4)[OF inv i(1)] by (auto simp: queue_inv_def Let_def i(2) split: if_splits option.splits)
  note sound = running_sound[OF inv i(1), folded i(2), OF run] and loop = loop_inv[OF peek inv q _ run]
  show ?thesis
  proof (cases e)
    case (BpTake k)
    with e step q have t: "bp_turn peek i q (bq_take q) s = Some s'" "bq_flight q = None" by (auto split: if_splits)
    with take_effect[OF sound] run show ?thesis by (intro loop[OF t(1)]) auto
  next
    case (BpSettle k ok' atts')
    then obtain message metadata where f: "bq_flight q = Some (message, metadata)"
        "bp_turn peek i q (q\<lparr>bq_mq := sendOut openOk atts message metadata (bq_mq q), bq_flight := None\<rparr>) s = Some s'"
      using e step q by (auto split: option.splits)
    with sendOut_effect[OF sound f(1) refl, of openOk atts] show ?thesis by (intro loop[OF f(2)]) auto
  next
    case (BpStop k)
    with e step q have t: "bq_flight q = None" "bp_turn peek i q
        (q\<lparr>bq_mq := snd (runQueue_step SelDone True no_attempt (bq_mq q)), bq_running := False\<rparr>) s = Some s'" by (auto split: if_splits)
    with stop_log(1)[OF sound] show ?thesis by (intro loop[OF t(2)]) auto
  next
    case (BpCtxDone k)
    with e step q have t: "bq_flight q = None" "bp_turn peek i q
        (q\<lparr>bq_mq := snd (runQueue_step SelCtxDone True no_attempt (bq_mq q)), bq_running := False\<rparr>) s = Some s'" by (auto split: if_splits)
    with stop_log(2)[OF sound] show ?thesis by (intro loop[OF t(2)]) auto
  qed (use e in auto)
qed

lemma step_inv:
  assumes peek: "pq_peek_min peek" and inv: "bp_inv mt mp encLen s" and ok: "bp_ok mt mp encLen s e" and step: "bp_step peek encLen s e = Some s'"
  shows "bp_inv mt mp encLen s'"
proof (cases e)
  case (BpConnect p k)
  then show ?thesis using connect_inv[OF inv] ok step by (auto simp: bp_ok_def list_all_iff)
next
  case (BpDisconnect i)
  then obtain q where q: "bp_nth s i = Some q" "s' = bp_set i (q\<lparr>bq_done := True\<rparr>) s" using step by auto
  have "bp_inv mt mp encLen (bp_set i (q\<lparr>bq_done := True\<rparr>) (s\<lparr>bp_waits := bp_waits s\<rparr>))"
    using bp_nthD[OF q(1)] bp_invD(3)[OF inv] running_sound[OF inv, of i]
    by (intro local_inv[OF inv]) (auto simp: waits_inv_def queue_sound_def held_def)
  then show ?thesis by (simp add: q(2))
next
  case (BpTransact i rs operations closedLater)
  then show ?thesis using step_transact_inv[OF inv] ok step by blast
next
  case (BpBuild j closedLater)
  then show ?thesis using step_build_inv[OF inv] step by blast
next
  case (BpGiveUp j)
  let ?W = "bp_waits s"
  have j: "j < length ?W" "s' = s\<lparr>bp_waits := take j ?W @ drop (Suc j) ?W\<rparr>" using step BpGiveUp by (auto split: if_splits)
  let ?i = "bw_queue (?W ! j)"
  have W: "distinct (map bw_chan ?W)" "?i < length (bp_queues s)" using bp_invD(3)[OF inv] j(1) by (auto simp: waits_inv_def)
  have "bp_inv mt mp encLen (bp_set ?i (bp_queues s ! ?i) (s\<lparr>bp_waits := take j ?W @ drop (Suc j) ?W\<rparr>))"
    using running_sound[OF inv W(2)] due_remove[OF j(1), of encLen "bp_alloc s"]
    by (intro local_inv[OF inv W(2) refl refl refl refl waits_remove[OF j(1) W(1)]]) auto
  then show ?thesis by (simp add: j(2) bp_set_def)
next
  case (BpRequest i request)
  then show ?thesis using no_bytes_inv[OF inv _ request_fills] step by auto
qed (rule step_loop_inv[OF peek inv step], simp)+

section \<open>The limits hold for the blocks that wait to be sent\<close>

primrec bp_orderly ::
  "peek_fn \<Rightarrow> ('n \<Rightarrow> nat) \<Rightarrow> u64 \<Rightarrow> u64 \<Rightarrow> ('n, 's, 'c) bp_event list \<Rightarrow> ('n, 's, 'c) bp_sys \<Rightarrow> bool" where
  "bp_orderly peek encLen mt mp [] s = True"
| "bp_orderly peek encLen mt mp (e # es) s =
     (bp_ok mt mp encLen s e \<and> (case bp_step peek encLen s e of None \<Rightarrow> True | Some s' \<Rightarrow> bp_orderly peek encLen mt mp es s'))"

text \<open>The bytes of blocks in the messages of a queue, the one that is being sent included.\<close>

definition queue_bytes :: "('n, 's, 'c) bp_queue \<Rightarrow> nat" where
  "queue_bytes q =
     (\<Sum>b \<leftarrow> mq_builders (bq_mq q). blocks_size (b_outgoingBlocks (mb_Builder b))) +
     (case bq_flight q of None \<Rightarrow> 0 | Some (message, _) \<Rightarrow> blocks_size (gsm_blocks message))"

lemma orderly_if_ok: "(\<And>e s. e \<in> set es \<Longrightarrow> bp_ok mt mp encLen s e) \<Longrightarrow> bp_orderly peek encLen mt mp es s"
  by (induction es arbitrary: s) (auto split: option.split)

lemma bp_inv_new: "bp_inv mt mp encLen (bp_New mt mp)"
  using new_allocator_inv[of mt mp]
  by (simp add: bp_inv_def bp_New_def waits_inv_def one_running_def owned_def pend_def statusOf_def NewAllocator_def newPeerStatus_def)

lemma run_inv:
  assumes "pq_peek_min peek"
  shows "bp_inv mt mp encLen s \<Longrightarrow> bp_orderly peek encLen mt mp es s \<Longrightarrow> bp_run peek encLen es s = Some s' \<Longrightarrow> bp_inv mt mp encLen s'"
proof (induction es arbitrary: s)
  case (Cons e es)
  then obtain s1 where "bp_step peek encLen s e = Some s1" "bp_run peek encLen es s1 = Some s'" by (auto simp: bind_eq_Some_conv)
  with Cons step_inv[OF assms Cons.prems(1), of e s1] show ?case by auto
qed simp

lemma queue_bytes_held: "queue_sound q \<Longrightarrow> queue_bytes q \<le> held q"
proof -
  assume ok: "queue_sound q"
  have "(\<Sum>b \<leftarrow> bs. blocks_size (b_outgoingBlocks (mb_Builder b))) \<le> builders_size bs" if "\<forall>b \<in> set bs. mb_sound b" for bs :: "('a, 'b, 'c) mq_builder list"
    using that unfolding builders_size_def
    by (intro sum_list_mono) (simp add: mb_ok_def size_inv_def mb_BlockSize_def BlockSize_def)
  with ok show ?thesis by (auto simp: queue_bytes_def held_def queue_sound_def split: option.splits intro: add_mono)
qed

lemma reserved_limit: "alloc_inv mt mp a \<Longrightarrow> reserved a p \<le> unat mp"
  using alloc_inv_status[of mt mp a p]
  by (auto simp: reserved_def statusOf_def newPeerStatus_def status_ok_def word_le_nat_alt split: option.split)

lemma reserved_total:
  assumes inv: "alloc_inv mt mp a" and "distinct ps"
  shows "(\<Sum>p \<leftarrow> ps. reserved a p) \<le> unat mt"
proof -
  have "(\<Sum>p \<leftarrow> ps. case mget m p of None \<Rightarrow> 0 | Some st \<Rightarrow> unat (ps_totalAllocated st)) \<le> total_of m" if "mwf m" for m
    using assms(2) that
  proof (induction ps arbitrary: m)
    case (Cons p ps)
    have "(\<Sum>q \<leftarrow> ps. case mget m q of None \<Rightarrow> 0 | Some st \<Rightarrow> unat (ps_totalAllocated st)) =
        (\<Sum>q \<leftarrow> ps. case mget (mdel p m) q of None \<Rightarrow> 0 | Some st \<Rightarrow> unat (ps_totalAllocated st))"
      using Cons.prems(1) by (intro arg_cong[where f = sum_list] map_cong) auto
    also have "\<dots> \<le> total_of (mdel p m)" by (rule Cons.IH) (use Cons.prems in simp_all)
    finally show ?case
      using total_of_mdel[OF Cons.prems(2), of p] by (cases "mget m p") (auto simp: mdel_absent)
  qed simp
  from this[of "peerStatuses a"] have "(\<Sum>p \<leftarrow> ps. reserved a p) \<le> total_of (peerStatuses a)"
    using alloc_inv_wf[OF inv] by (simp add: reserved_def statusOf_def newPeerStatus_def option.case_distrib[of "\<lambda>st. unat (ps_totalAllocated st)"] cong: option.case_cong)
  also have "\<dots> \<le> unat mt" using inv by (simp add: alloc_inv_def word_le_nat_alt)
  finally show ?thesis .
qed

lemma one_running_peers: "one_running qs \<Longrightarrow> distinct (map bq_p (filter bq_running qs))"
proof (induction qs)
  case (Cons q qs)
  have "one_running qs"
    unfolding one_running_def using one_runningD[OF Cons.prems, of "Suc i" "Suc j" for i j] by fastforce
  moreover have "bq_p q \<noteq> bq_p q'" if "bq_running q" "q' \<in> set qs" "bq_running q'" for q'
  proof -
    from that(2) obtain j where "j < length qs" "q' = qs ! j" by (auto simp: in_set_conv_nth)
    with that one_runningD[OF Cons.prems, of 0 "Suc j"] show ?thesis by auto
  qed
  ultimately show ?case using Cons.IH by auto
qed simp

lemma allocated_reserved: "unat (AllocatedForPeer a p) = reserved a p"
  by (simp add: AllocatedForPeer_def reserved_def statusOf_def newPeerStatus_def split: option.split)

text \<open>C3: Back pressure works: whatever transactions ask for memory, wait, are built or given up, and however the loops of the
  queues interleave with them, send, fail and stop, the blocks in all messages of a running queue, the one on the network included, take no
  more memory than the allocator has reserved for its peer, which is within the limit per peer, and the blocks in the messages of all running queues
  together are within the total limit. This holds as long as the amounts do not overflow 64 bits and a peer connects again only after the
  loop of its old queue has ended.\<close>

theorem queued_blocks_within_limits:
  assumes "pq_peek_min peek" and "bp_run peek encLen es (bp_New mt mp) = Some s" and "bp_orderly peek encLen mt mp es (bp_New mt mp)"
  shows "(\<forall>q \<in> set (bp_queues s). bq_running q \<longrightarrow>
      queue_bytes q \<le> unat (AllocatedForPeer (bp_alloc s) (bq_p q)) \<and> AllocatedForPeer (bp_alloc s) (bq_p q) \<le> mp) \<and>
    (\<Sum>q \<leftarrow> filter bq_running (bp_queues s). queue_bytes q) \<le> unat mt"
proof -
  have inv: "bp_inv mt mp encLen s" using run_inv[OF assms(1) bp_inv_new assms(3,2)] .
  have each: "queue_bytes q \<le> reserved (bp_alloc s) (bq_p q)" if "q \<in> set (bp_queues s)" "bq_running q" for q
  proof -
    from that(1) obtain i where i: "i < length (bp_queues s)" "q = bp_queues s ! i" by (auto simp: in_set_conv_nth)
    with bp_invD(4)[OF inv i(1)] that(2) queue_bytes_held[of q] show ?thesis by (auto simp: queue_inv_def Let_def)
  qed
  have "(\<Sum>q \<leftarrow> filter bq_running (bp_queues s). queue_bytes q) \<le> (\<Sum>q \<leftarrow> filter bq_running (bp_queues s). reserved (bp_alloc s) (bq_p q))"
    by (rule sum_list_mono) (use each in simp)
  also have "\<dots> \<le> unat mt"
    using reserved_total[OF bp_invD(1)[OF inv] one_running_peers[OF bp_invD(5)[OF inv]]] by (simp add: comp_def)
  finally show ?thesis
    using each reserved_limit[OF bp_invD(1)[OF inv]] by (simp add: word_le_nat_alt allocated_reserved)
qed

subsection \<open>Witness: a transaction waits until a message was sent\<close>

abbreviation demo_stream :: "(nat, nat) response_stream" where
  "demo_stream \<equiv> NewStream ''p'' ''r'' 7 1"

definition demo_blocks :: "cid \<Rightarrow> unit response_operation list" where
  "demo_blocks c = [BlockOperation (Some [1, 2]) True c ''r'' 0]"

definition demo_waits :: "(unit, nat, nat) bp_event list" where
  "demo_waits = [BpConnect ''p'' 1, BpTransact 0 demo_stream (demo_blocks ''c1'') False, BpTransact 0 demo_stream (demo_blocks ''c2'') False,
     BpBuild 0 False, BpTake 0]"

theorem queued_blocks_within_limits_witness:
  "\<exists>s. bp_run first_min (\<lambda>_. 0) demo_waits (bp_New 3 3) = Some s \<and> map queue_bytes (bp_queues s) = [2] \<and>
     (\<Sum>q \<leftarrow> filter bq_running (bp_queues s). queue_bytes q) \<le> unat (3 :: u64)"
proof -
  have "map_option (\<lambda>s. map queue_bytes (bp_queues s)) (bp_run first_min (\<lambda>_. 0) demo_waits (bp_New 3 3)) = Some [2]"
    by code_simp
  moreover have "tx_bytes (\<lambda>_. 0) (demo_blocks c) = 2" "tx_size (\<lambda>_. 0) (demo_blocks c) = 2" for c
    by (simp_all add: demo_blocks_def tx_bytes_def tx_size_def)
  then have "bp_orderly first_min (\<lambda>_. 0) 3 3 (tl demo_waits) s" for s
    by (intro orderly_if_ok) (auto simp: demo_waits_def bp_ok_def amount_ok_def)
  then have "bp_orderly first_min (\<lambda>_. 0) 3 3 demo_waits (bp_New 3 3)"
    by (simp add: demo_waits_def bp_ok_def bp_New_def)
  ultimately obtain s where s: "bp_run first_min (\<lambda>_. 0) demo_waits (bp_New 3 3) = Some s" "map queue_bytes (bp_queues s) = [2]"
    "bp_orderly first_min (\<lambda>_. 0) 3 3 demo_waits (bp_New 3 3)" by fastforce
  show ?thesis
    using s(1,2) queued_blocks_within_limits[OF first_min_contract s(1,3), THEN conjunct2] by (intro exI[of _ s] conjI)
qed

text \<open>A peer that connects again before the loop of its old queue has ended: the end of that loop drops all that is reserved for the
  peer, the memory of the new queue included, which can then hold more than the limits allow.\<close>

definition demo_overlap :: "(unit, nat, nat) bp_event list" where
  "demo_overlap = [BpConnect ''p'' 1, BpDisconnect 0, BpConnect ''p'' 1, BpTransact 1 demo_stream (demo_blocks ''c1'') False, BpBuild 0 False,
     BpStop 0, BpTransact 1 demo_stream (demo_blocks ''c2'') False, BpBuild 0 False]"

theorem reconnecting_exceeds_limits:
  "\<exists>s q. bp_run first_min (\<lambda>_. 0) demo_overlap (bp_New 3 3) = Some s \<and> q \<in> set (bp_queues s) \<and> bq_running q \<and> queue_bytes q > unat (3 :: u64)"
proof -
  have "map_option (\<lambda>s. map (\<lambda>q. (bq_running q, queue_bytes q)) (bp_queues s)) (bp_run first_min (\<lambda>_. 0) demo_overlap (bp_New 3 3)) =
      Some [(False, 0), (True, 4)]" by code_simp
  then obtain s where s: "bp_run first_min (\<lambda>_. 0) demo_overlap (bp_New 3 3) = Some s" "map (\<lambda>q. (bq_running q, queue_bytes q)) (bp_queues s) = [(False, 0), (True, 4)]"
    by auto
  then obtain q' q where "bp_queues s = [q', q]" "bq_running q" "queue_bytes q = 4" by (auto simp: map_eq_Cons_conv)
  with s(1) show ?thesis by (intro exI[of _ s] exI[of _ q]) simp
qed

end
