(* ===== verification/Traverser_Lock.thy ===== *)
theory Traverser_Lock
  imports Traverser Network Event_Machine "HOL-Library.Sublist"
begin

text \<open>
  \<^verbatim>\<open>ipldutil/traverser.go\<close> as it runs: the goroutine that walks the DAG, and callers in any number of other goroutines. They share
  the fields of the traverser under a mutex that changes hands: the goroutine holds it while it walks and releases it when it
  asks for a block; a caller that answers keeps it locked and lets the goroutine go on. The walk may panic.

  The steps are the statements between which goroutines can interleave. A mutex has no owner in Go: unlocking one that is free ends the
  program, which is the flag \<open>tl_fault\<close>. The sequential traverser of \<open>Traverser\<close> is the specification.
\<close>

section \<open>Building a traversal\<close>

text \<open>A walk that may panic, and the walk it is when panics are errors.\<close>

datatype gwalk =
    GwDone "gs_error option"
  | GwPanic string
  | GwLoad cid path "gs_error + bytes \<Rightarrow> gwalk"

primrec recovered :: "gwalk \<Rightarrow> walk" where
  "recovered (GwDone err) = WalkDone err"
| "recovered (GwPanic obj) = WalkDone (Some (RecoveredPanicErr obj))"
| "recovered (GwLoad lnk lnkCtx k) = WalkLoad lnk lnkCtx (\<lambda>answer. recovered (k answer))"

text \<open>The objects a walk panics with when it gets these answers.\<close>

fun gw_panics :: "gwalk \<Rightarrow> (gs_error + bytes) list \<Rightarrow> string list" where
  "gw_panics (GwDone err) answers = []"
| "gw_panics (GwPanic obj) answers = [obj]"
| "gw_panics (GwLoad lnk lnkCtx k) [] = []"
| "gw_panics (GwLoad lnk lnkCtx k) (answer # answers) = gw_panics (k answer) answers"

datatype 'a tl_result = TlOk 'a | TlErr gs_error | TlPanic string

fun tl_then :: "'a tl_result \<Rightarrow> ('a \<Rightarrow> gwalk) \<Rightarrow> gwalk" where
  "tl_then (TlOk x) f = f x"
| "tl_then (TlErr err) f = GwDone (Some err)"
| "tl_then (TlPanic obj) f = GwPanic obj"

text \<open>What the user gives and what the traverser works with. The visitor and the parts of a link system are third-party
  functions and stay abstract; a chooser finds the prototype for the node of a link.\<close>

record ('ns, 'v, 'd, 'e, 'h, 's) traversal_builder =
  tb_Root :: cid
  tb_Selector :: 's
  tb_Visitor :: "'v option"
  tb_DecoderChooser :: "'d option"
  tb_EncoderChooser :: "'e option"
  tb_HasherChooser :: "'h option"
  tb_Chooser :: "(cid \<Rightarrow> 'ns tl_result) option"
  tb_Budget :: "int option"
  tb_PanicCallback :: bool

record ('ns, 'v, 'd, 'e, 'h, 's) tv_config =
  cf_root :: cid
  cf_selector :: 's
  cf_visitor :: 'v
  cf_decoderChooser :: 'd
  cf_encoderChooser :: 'e
  cf_hasherChooser :: 'h
  cf_chooser :: "cid \<Rightarrow> 'ns tl_result"
  cf_budget :: "int option"

record ('ns, 'v, 'd, 'e, 'h) tv_defaults =
  df_visitor :: 'v
  df_decoderChooser :: 'd
  df_encoderChooser :: 'e
  df_hasherChooser :: 'h
  df_chooser :: "cid \<Rightarrow> 'ns tl_result"

definition or_default :: "'a option \<Rightarrow> 'a \<Rightarrow> 'a" where
  "or_default x d = (case x of Some y \<Rightarrow> y | None \<Rightarrow> d)"

definition tb_config ::
  "('ns, 'v, 'd, 'e, 'h) tv_defaults \<Rightarrow> ('ns, 'v, 'd, 'e, 'h, 's) traversal_builder \<Rightarrow> ('ns, 'v, 'd, 'e, 'h, 's) tv_config" where
  "tb_config df tb =
     \<lparr>cf_root = tb_Root tb, cf_selector = tb_Selector tb,
      cf_visitor = or_default (tb_Visitor tb) (df_visitor df),
      cf_decoderChooser = or_default (tb_DecoderChooser tb) (df_decoderChooser df),
      cf_encoderChooser = or_default (tb_EncoderChooser tb) (df_encoderChooser df),
      cf_hasherChooser = or_default (tb_HasherChooser tb) (df_hasherChooser df),
      cf_chooser = or_default (tb_Chooser tb) (df_chooser df),
      cf_budget = tb_Budget tb\<rparr>"

text \<open>The body of the goroutine. Loading the root finds a decoder, opens the block and decodes it; the parser of selectors and the
  walk are third-party as well.\<close>

definition tl_body ::
  "(('ns, 'v, 'd, 'e, 'h, 's) tv_config \<Rightarrow> 'ns \<Rightarrow> (gs_error + bytes \<Rightarrow> 'nd tl_result) tl_result) \<Rightarrow> ('s \<Rightarrow> 'sel tl_result) \<Rightarrow>
   (('ns, 'v, 'd, 'e, 'h, 's) tv_config \<Rightarrow> int option \<Rightarrow> 'nd \<Rightarrow> 'sel \<Rightarrow> gwalk) \<Rightarrow> ('ns, 'v, 'd, 'e, 'h, 's) tv_config \<Rightarrow> gwalk" where
  "tl_body load parseSelector walkAdv cf =
     tl_then (cf_chooser cf (cf_root cf)) (\<lambda>ns.
       let budget = map_option (\<lambda>LinkBudget. LinkBudget - 1) (cf_budget cf)
       in if (case budget of None \<Rightarrow> False | Some LinkBudget \<Rightarrow> LinkBudget \<le> 0)
          then GwDone (Some (OtherErr ''traversal budget exceeded: budget for link reached zero''))
          else tl_then (load cf ns) (\<lambda>decode. GwLoad (cf_root cf) [] (\<lambda>answer.
            tl_then (decode answer) (\<lambda>nd. tl_then (parseSelector (cf_selector cf)) (\<lambda>sel. walkAdv cf budget nd sel)))))"

section \<open>The machine\<close>

datatype tl_pc =
    PcWalk gwalk
  | PcSelect cid path "gs_error + bytes \<Rightarrow> gwalk"
  | PcRelock cid path "gs_error + bytes \<Rightarrow> gwalk"
  | PcDone
  | PcStopped

datatype tl_op = OpIsComplete | OpCurrentRequest | OpAdvance bytes | OpError gs_error | OpShutdown | OpNBlocksTraversed

datatype tl_ret = RetComplete bool "gs_error option" | RetCurrent cid path | RetAdvance "gs_error option" | RetVoid | RetBlocks int

text \<open>Where a caller is: before its first statement, with the mutex locked, in the select of \<^verbatim>\<open>Advance\<close> or \<^verbatim>\<open>Error\<close>, after the
  answer was taken, in the select of \<^verbatim>\<open>Shutdown\<close>, or back from its call.\<close>

datatype tl_caller =
    CallerIdle
  | CallerBegin tl_op
  | CallerHold tl_op
  | CallerSend tl_op
  | CallerCount
  | CallerWait
  | CallerRet tl_ret

record tl_state =
  tl_mu :: bool
  tl_fault :: bool
  tl_isDone :: bool
  tl_completionErr :: "gs_error option"
  tl_currentLink :: cid
  tl_currentContext :: path
  tl_blocksCount :: int
  tl_ctxDone :: bool
  tl_stopped :: bool
  tl_panicCallback :: bool
  tl_panicked :: "string list"
  tl_pc :: tl_pc
  tl_callers :: "tl_caller list"
  tl_answers :: "(gs_error + bytes) list"
  tl_log :: "(tl_ret \<times> (gs_error + bytes) list) list"

datatype tl_event =
    TlGo | TlLoaderDone
  | TlCall nat tl_op
  | TlStep nat | TlSend nat | TlCallerDone nat | TlGiveUp nat
  | TlCancel

definition tl_unlock :: "tl_state \<Rightarrow> tl_state" where
  "tl_unlock t = (if tl_mu t then t\<lparr>tl_mu := False\<rparr> else t\<lparr>tl_fault := True\<rparr>)"

text \<open>\<^verbatim>\<open>start\<close> locks the mutex before the goroutine begins. \<open>n\<close> is the number of goroutines that may call.\<close>

definition tl_Start :: "bool \<Rightarrow> nat \<Rightarrow> gwalk \<Rightarrow> tl_state" where
  "tl_Start panicCallback n w =
     \<lparr>tl_mu = True, tl_fault = False, tl_isDone = False, tl_completionErr = None, tl_currentLink = cid_Undef,
      tl_currentContext = [], tl_blocksCount = 0, tl_ctxDone = False, tl_stopped = False, tl_panicCallback = panicCallback,
      tl_panicked = [], tl_pc = PcWalk w, tl_callers = replicate n CallerIdle, tl_answers = [], tl_log = []\<rparr>"

definition tb_Start ::
  "('ns, 'v, 'd, 'e, 'h) tv_defaults \<Rightarrow>
   (('ns, 'v, 'd, 'e, 'h, 's) tv_config \<Rightarrow> 'ns \<Rightarrow> (gs_error + bytes \<Rightarrow> 'nd tl_result) tl_result) \<Rightarrow> ('s \<Rightarrow> 'sel tl_result) \<Rightarrow>
   (('ns, 'v, 'd, 'e, 'h, 's) tv_config \<Rightarrow> int option \<Rightarrow> 'nd \<Rightarrow> 'sel \<Rightarrow> gwalk) \<Rightarrow> nat \<Rightarrow>
   ('ns, 'v, 'd, 'e, 'h, 's) traversal_builder \<Rightarrow> tl_state" where
  "tb_Start df load parseSelector walkAdv n tb =
     tl_Start (tb_PanicCallback tb) n (tl_body load parseSelector walkAdv (tb_config df tb))"

definition tl_writeDone :: "gs_error option \<Rightarrow> tl_state \<Rightarrow> tl_state" where
  "tl_writeDone err t = tl_unlock (t\<lparr>tl_isDone := True, tl_completionErr := err, tl_currentContext := []\<rparr>)"

text \<open>The deferred function of the goroutine, up to the closing of \<^verbatim>\<open>stopped\<close>, which is a step of its own.\<close>

definition tl_deferred :: "string option \<Rightarrow> tl_state \<Rightarrow> tl_state" where
  "tl_deferred obj t =
     (let (rerr, called) = MakeHandler (tl_panicCallback t) obj; t = t\<lparr>tl_panicked := tl_panicked t @ called\<rparr>
      in case rerr of None \<Rightarrow> t | Some err \<Rightarrow> tl_writeDone (Some err) t)"

definition tl_loader :: "cid \<Rightarrow> path \<Rightarrow> (gs_error + bytes \<Rightarrow> gwalk) \<Rightarrow> tl_state \<Rightarrow> tl_state" where
  "tl_loader lnk lnkCtx k t =
     (tl_unlock (t\<lparr>tl_currentLink := lnk, tl_currentContext := lnkCtx\<rparr>))\<lparr>tl_pc := PcSelect lnk lnkCtx k\<rparr>"

text \<open>The loader was cancelled: it locks the mutex again and the load fails.\<close>

definition tl_relock :: "(gs_error + bytes \<Rightarrow> gwalk) \<Rightarrow> tl_state \<Rightarrow> tl_state option" where
  "tl_relock k t =
     (if tl_mu t then None
      else Some (t\<lparr>tl_mu := True, tl_answers := tl_answers t @ [Inl ErrContextCancelled], tl_pc := PcWalk (k (Inl ErrContextCancelled))\<rparr>))"

text \<open>The next statement of the goroutine, but for the select of the loader.\<close>

definition tl_go :: "tl_state \<Rightarrow> tl_state option" where
  "tl_go t =
     (case tl_pc t of
        PcWalk (GwLoad lnk lnkCtx k) \<Rightarrow> Some (tl_loader lnk lnkCtx k t)
      | PcWalk (GwDone err) \<Rightarrow> Some ((tl_deferred None (tl_writeDone err t))\<lparr>tl_pc := PcDone\<rparr>)
      | PcWalk (GwPanic obj) \<Rightarrow> Some ((tl_deferred (Some obj) t)\<lparr>tl_pc := PcDone\<rparr>)
      | PcSelect lnk lnkCtx k \<Rightarrow> None
      | PcRelock lnk lnkCtx k \<Rightarrow> tl_relock k t
      | PcDone \<Rightarrow> Some (t\<lparr>tl_stopped := True, tl_pc := PcStopped\<rparr>)
      | PcStopped \<Rightarrow> None)"

definition set_caller :: "nat \<Rightarrow> tl_caller \<Rightarrow> tl_state \<Rightarrow> tl_state" where
  "set_caller i c t = t\<lparr>tl_callers := (tl_callers t)[i := c]\<rparr>"

definition tl_return :: "nat \<Rightarrow> tl_ret \<Rightarrow> tl_state \<Rightarrow> tl_state" where
  "tl_return i r t = (set_caller i (CallerRet r) t)\<lparr>tl_log := tl_log t @ [(r, tl_answers t)]\<rparr>"

fun tl_begin :: "nat \<Rightarrow> tl_op \<Rightarrow> tl_state \<Rightarrow> tl_state option" where
  "tl_begin i OpShutdown t = Some (set_caller i CallerWait (t\<lparr>tl_ctxDone := True\<rparr>))"
| "tl_begin i OpNBlocksTraversed t = Some (tl_return i (RetBlocks (tl_blocksCount t)) t)"
| "tl_begin i op t = (if tl_mu t then None else Some (set_caller i (CallerHold op) (t\<lparr>tl_mu := True\<rparr>)))"

fun tl_hold :: "nat \<Rightarrow> tl_op \<Rightarrow> tl_state \<Rightarrow> tl_state option" where
  "tl_hold i OpIsComplete t = Some (tl_return i (RetComplete (tl_isDone t) (tl_completionErr t)) (tl_unlock t))"
| "tl_hold i OpCurrentRequest t = Some (tl_return i (RetCurrent (tl_currentLink t) (tl_currentContext t)) (tl_unlock t))"
| "tl_hold i (OpAdvance reader) t =
     (if tl_isDone t then Some (tl_return i (RetAdvance (Some (OtherErr ''cannot advance when done''))) (tl_unlock t))
      else Some (set_caller i (CallerSend (OpAdvance reader)) t))"
| "tl_hold i (OpError err) t =
     (if tl_isDone t then Some (tl_return i RetVoid (tl_unlock t)) else Some (set_caller i (CallerSend (OpError err)) t))"
| "tl_hold i op t = None"

fun tl_caller_step :: "nat \<Rightarrow> tl_caller \<Rightarrow> tl_state \<Rightarrow> tl_state option" where
  "tl_caller_step i (CallerBegin op) t = tl_begin i op t"
| "tl_caller_step i (CallerHold op) t = tl_hold i op t"
| "tl_caller_step i CallerCount t = Some (tl_return i (RetAdvance None) (t\<lparr>tl_blocksCount := tl_blocksCount t + 1\<rparr>))"
| "tl_caller_step i CallerWait t = (if tl_stopped t then Some (tl_return i RetVoid t) else None)"
| "tl_caller_step i c t = None"

text \<open>An answer is handed over: the goroutine goes on, the mutex stays locked.\<close>

definition tl_handover :: "gs_error + bytes \<Rightarrow> tl_state \<Rightarrow> tl_state option" where
  "tl_handover answer t =
     (case tl_pc t of
        PcSelect lnk lnkCtx k \<Rightarrow> Some (t\<lparr>tl_answers := tl_answers t @ [answer], tl_pc := PcWalk (k answer)\<rparr>)
      | _ \<Rightarrow> None)"

fun tl_send :: "nat \<Rightarrow> tl_caller \<Rightarrow> tl_state \<Rightarrow> tl_state option" where
  "tl_send i (CallerSend (OpAdvance reader)) t = map_option (set_caller i CallerCount) (tl_handover (Inr reader) t)"
| "tl_send i (CallerSend (OpError err)) t = map_option (tl_return i RetVoid) (tl_handover (Inl err) t)"
| "tl_send i c t = None"

fun tl_caller_done :: "nat \<Rightarrow> tl_caller \<Rightarrow> tl_state \<Rightarrow> tl_state option" where
  "tl_caller_done i (CallerSend (OpAdvance reader)) t =
     (if tl_ctxDone t then Some (tl_return i (RetAdvance (Some ErrContextCancelled)) (tl_unlock t)) else None)"
| "tl_caller_done i (CallerSend (OpError err)) t = (if tl_ctxDone t then Some (tl_return i RetVoid (tl_unlock t)) else None)"
| "tl_caller_done i c t = None"

definition tl_caller :: "tl_state \<Rightarrow> nat \<Rightarrow> tl_caller" where
  "tl_caller t i = (if i < length (tl_callers t) then tl_callers t ! i else CallerIdle)"

fun returned :: "tl_caller \<Rightarrow> bool" where
  "returned CallerIdle = True"
| "returned (CallerRet r) = True"
| "returned c = False"

fun tl_step :: "tl_state \<Rightarrow> tl_event \<Rightarrow> tl_state option" where
  "tl_step t TlGo = tl_go t"
| "tl_step t TlLoaderDone =
     (case tl_pc t of PcSelect lnk lnkCtx k \<Rightarrow> if tl_ctxDone t then Some (t\<lparr>tl_pc := PcRelock lnk lnkCtx k\<rparr>) else None | _ \<Rightarrow> None)"
| "tl_step t (TlCall i op) = (if returned (tl_caller t i) then Some (set_caller i (CallerBegin op) t) else None)"
| "tl_step t (TlStep i) = tl_caller_step i (tl_caller t i) t"
| "tl_step t (TlSend i) = tl_send i (tl_caller t i) t"
| "tl_step t (TlCallerDone i) = tl_caller_done i (tl_caller t i) t"
| "tl_step t (TlGiveUp i) = (if tl_caller t i = CallerWait then Some (tl_return i RetVoid t) else None)"
| "tl_step t TlCancel = Some (t\<lparr>tl_ctxDone := True\<rparr>)"

primrec tl_run :: "tl_event list \<Rightarrow> tl_state \<Rightarrow> tl_state option" where
  "tl_run [] t = Some t"
| "tl_run (e # es) t = Option.bind (tl_step t e) (tl_run es)"

interpretation tlm: event_machine tl_step tl_run
  by unfold_locales simp_all

section \<open>Who holds the mutex\<close>

fun go_owns :: "tl_pc \<Rightarrow> bool" where
  "go_owns (PcWalk w) = True"
| "go_owns pc = False"

fun caller_owns :: "tl_caller \<Rightarrow> bool" where
  "caller_owns (CallerHold op) = True"
| "caller_owns (CallerSend op) = True"
| "caller_owns c = False"

definition n_callers :: "(tl_caller \<Rightarrow> bool) \<Rightarrow> tl_state \<Rightarrow> nat" where
  "n_callers P t = length (filter P (tl_callers t))"

definition owners :: "tl_state \<Rightarrow> nat" where
  "owners t = of_bool (go_owns (tl_pc t)) + n_callers caller_owns t"

fun sending :: "tl_op \<Rightarrow> bool" where
  "sending (OpAdvance reader) = True"
| "sending (OpError err) = True"
| "sending op = False"

fun caller_ok :: "bool \<Rightarrow> bool \<Rightarrow> tl_caller \<Rightarrow> bool" where
  "caller_ok isDone ctxDone (CallerHold op) \<longleftrightarrow> op \<noteq> OpShutdown \<and> op \<noteq> OpNBlocksTraversed"
| "caller_ok isDone ctxDone (CallerSend op) \<longleftrightarrow> sending op \<and> \<not> isDone"
| "caller_ok isDone ctxDone CallerWait \<longleftrightarrow> ctxDone"
| "caller_ok isDone ctxDone c \<longleftrightarrow> True"

definition pc_ok :: "tl_state \<Rightarrow> bool" where
  "pc_ok t \<longleftrightarrow>
     (case tl_pc t of
        PcWalk w \<Rightarrow> \<not> tl_isDone t \<and> \<not> tl_stopped t
      | PcSelect lnk lnkCtx k \<Rightarrow> \<not> tl_isDone t \<and> \<not> tl_stopped t
      | PcRelock lnk lnkCtx k \<Rightarrow> \<not> tl_isDone t \<and> \<not> tl_stopped t \<and> tl_ctxDone t
      | PcDone \<Rightarrow> tl_isDone t \<and> \<not> tl_stopped t
      | PcStopped \<Rightarrow> tl_isDone t \<and> tl_stopped t)"

definition lock_inv :: "tl_state \<Rightarrow> bool" where
  "lock_inv t \<longleftrightarrow> \<not> tl_fault t \<and> owners t = of_bool (tl_mu t) \<and>
     list_all (caller_ok (tl_isDone t) (tl_ctxDone t)) (tl_callers t) \<and> pc_ok t"

lemma lock_invD:
  assumes "lock_inv t"
  shows "\<not> tl_fault t" "owners t = of_bool (tl_mu t)" "list_all (caller_ok (tl_isDone t) (tl_ctxDone t)) (tl_callers t)" "pc_ok t"
  using assms by (simp_all add: lock_inv_def)

lemma filter_update_length:
  "i < length xs \<Longrightarrow> length (filter P (xs[i := y])) + of_bool (P (xs ! i)) = length (filter P xs) + of_bool (P y)"
proof (induction xs arbitrary: i)
  case (Cons x xs)
  then show ?case by (cases i) (fastforce simp: of_bool_def)+
qed simp

lemma n_callers_set:
  assumes "tl_caller t i = c" "c \<noteq> CallerIdle \<or> i < length (tl_callers t)"
  shows "n_callers P (set_caller i c' t) + of_bool (P c) = n_callers P t + of_bool (P c')"
  using assms filter_update_length[of i "tl_callers t" P c']
  by (auto simp: tl_caller_def n_callers_def set_caller_def split: if_splits)

lemma caller_ok_nth: "lock_inv t \<Longrightarrow> caller_ok (tl_isDone t) (tl_ctxDone t) (tl_caller t i)"
  by (auto simp: lock_inv_def tl_caller_def list_all_length)

lemma set_caller_simps [simp]:
  "tl_mu (set_caller i c t) = tl_mu t" "tl_fault (set_caller i c t) = tl_fault t" "tl_isDone (set_caller i c t) = tl_isDone t"
  "tl_completionErr (set_caller i c t) = tl_completionErr t" "tl_currentLink (set_caller i c t) = tl_currentLink t"
  "tl_currentContext (set_caller i c t) = tl_currentContext t" "tl_blocksCount (set_caller i c t) = tl_blocksCount t"
  "tl_ctxDone (set_caller i c t) = tl_ctxDone t" "tl_stopped (set_caller i c t) = tl_stopped t" "tl_pc (set_caller i c t) = tl_pc t"
  "tl_panicCallback (set_caller i c t) = tl_panicCallback t" "tl_panicked (set_caller i c t) = tl_panicked t"
  "tl_answers (set_caller i c t) = tl_answers t" "tl_log (set_caller i c t) = tl_log t" "tl_callers (set_caller i c t) = (tl_callers t)[i := c]"
  by (simp_all add: set_caller_def)

lemma n_callers_cong [simp]:
  "n_callers P (t\<lparr>tl_mu := b\<rparr>) = n_callers P t" "n_callers P (t\<lparr>tl_ctxDone := b\<rparr>) = n_callers P t"
  "n_callers P (t\<lparr>tl_blocksCount := n\<rparr>) = n_callers P t" "n_callers P (t\<lparr>tl_log := l\<rparr>) = n_callers P t"
  "n_callers P (t\<lparr>tl_pc := pc\<rparr>) = n_callers P t" "n_callers P (t\<lparr>tl_answers := as\<rparr>) = n_callers P t"
  "n_callers P (t\<lparr>tl_stopped := b\<rparr>) = n_callers P t" "n_callers P (t\<lparr>tl_fault := b\<rparr>) = n_callers P t"
  by (simp_all add: n_callers_def)

text \<open>A caller moves on; the rest of the state stays as it is but for the mutex, which it locks or unlocks, and the context.\<close>

lemma lock_inv_caller:
  assumes inv: "lock_inv t" and c: "tl_caller t i = c" "c \<noteq> CallerIdle \<or> i < length (tl_callers t)"
    and callers: "tl_callers t' = (tl_callers t)[i := c']"
    and same: "tl_fault t' = tl_fault t" "tl_isDone t' = tl_isDone t" "tl_pc t' = tl_pc t" "tl_stopped t' = tl_stopped t"
    and ctx: "tl_ctxDone t \<longrightarrow> tl_ctxDone t'"
    and mutex: "of_bool (tl_mu t') + of_bool (caller_owns c) = (of_bool (tl_mu t) + of_bool (caller_owns c') :: nat)"
    and ok: "caller_ok (tl_isDone t) (tl_ctxDone t') c'"
  shows "lock_inv t'"
proof -
  have "n_callers caller_owns t' + of_bool (caller_owns c) = n_callers caller_owns t + of_bool (caller_owns c')"
    using n_callers_set[OF c, of caller_owns c'] callers by (simp add: n_callers_def)
  with mutex lock_invD(2)[OF inv] have "owners t' = of_bool (tl_mu t')" by (simp add: owners_def same)
  moreover have "caller_ok (tl_isDone t) (tl_ctxDone t') c0" if "caller_ok (tl_isDone t) (tl_ctxDone t) c0" for c0
    using that ctx by (cases c0) auto
  then have "list_all (caller_ok (tl_isDone t') (tl_ctxDone t')) (tl_callers t')"
    using lock_invD(3)[OF inv] ok set_update_subset_insert[of "tl_callers t" i c'] by (auto simp: callers same list_all_iff)
  moreover have "pc_ok t'" using lock_invD(4)[OF inv] ctx by (auto simp: pc_ok_def same split: tl_pc.splits)
  ultimately show ?thesis using lock_invD(1)[OF inv] by (simp add: lock_inv_def same)
qed

lemma owner_excludes:
  assumes "lock_inv t" "caller_owns (tl_caller t i)"
  shows "tl_mu t" "\<not> go_owns (tl_pc t)"
proof -
  have "i < length (tl_callers t)" using assms(2) by (auto simp: tl_caller_def split: if_splits)
  then have "tl_caller t i \<in> set (filter caller_owns (tl_callers t))" using assms(2) by (simp add: tl_caller_def)
  then have "n_callers caller_owns t > 0" by (metis length_pos_if_in_set n_callers_def)
  then show "tl_mu t" "\<not> go_owns (tl_pc t)"
    using lock_invD(2)[OF assms(1)] by (cases "tl_mu t"; cases "go_owns (tl_pc t)"; simp add: owners_def)+
qed

lemma walk_excludes:
  assumes "lock_inv t" "go_owns (tl_pc t)"
  shows "tl_mu t" "n_callers caller_owns t = 0" "list_all (\<lambda>c. \<not> caller_owns c) (tl_callers t)"
proof -
  show 1: "tl_mu t" using assms lock_invD(2)[OF assms(1)] by (cases "tl_mu t") (simp_all add: owners_def)
  with assms lock_invD(2)[OF assms(1)] show "n_callers caller_owns t = 0" by (simp add: owners_def)
  then show "list_all (\<lambda>c. \<not> caller_owns c) (tl_callers t)" by (simp add: n_callers_def filter_empty_conv list_all_iff)
qed

lemma unlock_simps [simp]:
  "tl_isDone (tl_unlock t) = tl_isDone t" "tl_completionErr (tl_unlock t) = tl_completionErr t"
  "tl_currentLink (tl_unlock t) = tl_currentLink t" "tl_currentContext (tl_unlock t) = tl_currentContext t"
  "tl_blocksCount (tl_unlock t) = tl_blocksCount t" "tl_ctxDone (tl_unlock t) = tl_ctxDone t" "tl_stopped (tl_unlock t) = tl_stopped t"
  "tl_panicCallback (tl_unlock t) = tl_panicCallback t" "tl_panicked (tl_unlock t) = tl_panicked t" "tl_pc (tl_unlock t) = tl_pc t"
  "tl_callers (tl_unlock t) = tl_callers t" "tl_answers (tl_unlock t) = tl_answers t" "tl_log (tl_unlock t) = tl_log t"
  "tl_mu t \<Longrightarrow> tl_fault (tl_unlock t) = tl_fault t" "tl_mu (tl_unlock t) = False"
  by (simp_all add: tl_unlock_def)

lemma return_simps [simp]:
  "tl_mu (tl_return i r t) = tl_mu t" "tl_fault (tl_return i r t) = tl_fault t" "tl_isDone (tl_return i r t) = tl_isDone t"
  "tl_completionErr (tl_return i r t) = tl_completionErr t" "tl_currentLink (tl_return i r t) = tl_currentLink t"
  "tl_currentContext (tl_return i r t) = tl_currentContext t" "tl_blocksCount (tl_return i r t) = tl_blocksCount t"
  "tl_ctxDone (tl_return i r t) = tl_ctxDone t" "tl_stopped (tl_return i r t) = tl_stopped t" "tl_pc (tl_return i r t) = tl_pc t"
  "tl_panicCallback (tl_return i r t) = tl_panicCallback t" "tl_panicked (tl_return i r t) = tl_panicked t"
  "tl_answers (tl_return i r t) = tl_answers t" "tl_callers (tl_return i r t) = (tl_callers t)[i := CallerRet r]"
  "tl_log (tl_return i r t) = tl_log t @ [(r, tl_answers t)]"
  by (simp_all add: tl_return_def)

subsection \<open>Every step keeps the discipline\<close>

lemma begin_lock:
  assumes "lock_inv t" "tl_caller t i = CallerBegin op" "tl_begin i op t = Some t'"
  shows "lock_inv t'"
  using assms(3)
  by (cases op) (auto intro!: lock_inv_caller[OF assms(1,2)] split: if_splits)

lemma hold_lock:
  assumes "lock_inv t" "tl_caller t i = CallerHold op" "tl_hold i op t = Some t'"
  shows "lock_inv t'"
proof -
  have "tl_mu t" using owner_excludes(1)[OF assms(1), of i] assms(2) by simp
  with assms(3) show ?thesis
    by (cases op) (auto intro!: lock_inv_caller[OF assms(1,2)] split: if_splits)
qed

lemma caller_step_lock:
  assumes "lock_inv t" "tl_caller t i = c" "tl_caller_step i c t = Some t'"
  shows "lock_inv t'"
proof (cases c)
  case CallerCount
  with assms(3) show ?thesis by (auto intro!: lock_inv_caller[OF assms(1,2)])
next
  case CallerWait
  with assms(3) show ?thesis by (auto intro!: lock_inv_caller[OF assms(1,2)] split: if_splits)
next
  case (CallerBegin op)
  show ?thesis by (rule begin_lock[OF assms(1), of i op]) (use assms(2,3) CallerBegin in simp_all)
next
  case (CallerHold op)
  show ?thesis by (rule hold_lock[OF assms(1), of i op]) (use assms(2,3) CallerHold in simp_all)
qed (use assms(3) in simp_all)

lemma caller_done_lock:
  assumes "lock_inv t" "tl_caller t i = c" "tl_caller_done i c t = Some t'"
  shows "lock_inv t'"
proof (cases c)
  case (CallerSend op)
  then have "tl_mu t" using owner_excludes(1)[OF assms(1), of i] assms(2) by simp
  with CallerSend assms(3) show ?thesis
    by (cases op) (auto intro!: lock_inv_caller[OF assms(1,2)] split: if_splits)
qed (use assms(3) in simp_all)

lemma send_lock:
  assumes "lock_inv t" "tl_caller t i = c" "tl_send i c t = Some t'"
  shows "lock_inv t'"
proof (cases c)
  case (CallerSend op)
  define c' where "c' = (case op of OpAdvance reader \<Rightarrow> CallerCount | _ \<Rightarrow> CallerRet RetVoid)"
  have c': "\<not> caller_owns c'" "caller_ok (tl_isDone t) (tl_ctxDone t) c'"
      "tl_callers t' = (tl_callers t)[i := c']" "tl_mu t' = tl_mu t" "tl_fault t' = tl_fault t" "tl_isDone t' = tl_isDone t"
      "tl_stopped t' = tl_stopped t" "tl_ctxDone t' = tl_ctxDone t" "go_owns (tl_pc t')" "pc_ok t'"
    using assms(3) lock_invD(4)[OF assms(1)] CallerSend
    by (cases op; auto simp: c'_def tl_handover_def pc_ok_def split: tl_pc.splits)+
  have free: "\<not> go_owns (tl_pc t)" using owner_excludes(2)[OF assms(1), of i] assms(2) CallerSend by simp
  have "n_callers caller_owns t' + 1 = n_callers caller_owns t"
    using n_callers_set[OF assms(2), of caller_owns c'] CallerSend c'(1,3) by (simp add: n_callers_def)
  then have "owners t' = of_bool (tl_mu t')" using lock_invD(2)[OF assms(1)] free c'(4,9) by (simp add: owners_def)
  moreover have "list_all (caller_ok (tl_isDone t') (tl_ctxDone t')) (tl_callers t')"
    using lock_invD(3)[OF assms(1)] c'(2) set_update_subset_insert[of "tl_callers t" i c'] by (auto simp: c' list_all_iff)
  ultimately show ?thesis using lock_invD(1)[OF assms(1)] c' by (simp add: lock_inv_def)
qed (use assms(3) in simp_all)

lemma go_lock:
  assumes "lock_inv t" "tl_go t = Some t'"
  shows "lock_inv t'"
proof (cases "go_owns (tl_pc t)")
  case True
  then obtain w where w: "tl_pc t = PcWalk w" by (cases "tl_pc t") simp_all
  note ex = walk_excludes[OF assms(1) True]
  have fin: "\<not> tl_fault t'" "\<not> tl_mu t'" "tl_callers t' = tl_callers t" "tl_ctxDone t' = tl_ctxDone t" "\<not> go_owns (tl_pc t')" "pc_ok t'"
    using assms(2) w ex(1) lock_invD(1,4)[OF assms(1)]
    by (cases w; simp add: tl_go_def tl_loader_def tl_deferred_def MakeHandler_def tl_writeDone_def pc_ok_def; auto)+
  have "caller_ok d (tl_ctxDone t) c" if "c \<in> set (tl_callers t)" for c d
    using lock_invD(3)[OF assms(1)] ex(3) that by (cases c) (auto simp: list_all_iff)
  then show ?thesis using fin ex(2) by (simp add: lock_inv_def owners_def n_callers_def list_all_iff)
next
  case False
  with assms lock_invD[OF assms(1)] show ?thesis
    by (auto simp: tl_go_def tl_relock_def lock_inv_def owners_def pc_ok_def split: tl_pc.splits if_splits)
qed

lemma step_lock:
  assumes "lock_inv t" "tl_step t e = Some t'"
  shows "lock_inv t'"
proof (cases e)
  case (TlCall i op)
  show ?thesis
  proof (cases "i < length (tl_callers t)")
    case True
    from assms TlCall have "\<not> caller_owns (tl_caller t i)" by (cases "tl_caller t i") auto
    with assms TlCall True show ?thesis by (auto intro!: lock_inv_caller[OF assms(1) refl] split: if_splits)
  qed (use assms TlCall in \<open>auto simp: set_caller_def list_update_beyond split: if_splits\<close>)
next
  case TlCancel
  have "caller_ok d True c" if "caller_ok d b c" for c d b using that by (cases c) auto
  then have "list_all (caller_ok (tl_isDone t) True) (tl_callers t)" using lock_invD(3)[OF assms(1)] by (auto simp: list_all_iff)
  moreover have "pc_ok (t\<lparr>tl_ctxDone := True\<rparr>)" using lock_invD(4)[OF assms(1)] by (cases "tl_pc t") (simp_all add: pc_ok_def)
  moreover have "t' = t\<lparr>tl_ctxDone := True\<rparr>" using assms(2) TlCancel by simp
  ultimately show ?thesis using lock_invD(1,2)[OF assms(1)] by (simp add: lock_inv_def owners_def)
next
  case TlLoaderDone
  with assms show ?thesis by (auto simp: lock_inv_def owners_def pc_ok_def split: tl_pc.splits if_splits)
next
  case (TlGiveUp i)
  with assms show ?thesis by (auto intro!: lock_inv_caller[OF assms(1)] split: if_splits)
next
  case (TlStep i)
  show ?thesis by (rule caller_step_lock[OF assms(1) refl, of i]) (use assms(2) TlStep in simp)
next
  case (TlSend i)
  show ?thesis by (rule send_lock[OF assms(1) refl, of i]) (use assms(2) TlSend in simp)
next
  case (TlCallerDone i)
  show ?thesis by (rule caller_done_lock[OF assms(1) refl, of i]) (use assms(2) TlCallerDone in simp)
next
  case TlGo
  show ?thesis by (rule go_lock[OF assms(1)]) (use assms(2) TlGo in simp)
qed

lemma lock_inv_Start: "lock_inv (tl_Start cb n w)"
  by (simp add: lock_inv_def tl_Start_def owners_def n_callers_def pc_ok_def list_all_iff filter_False)

section \<open>The sequential traverser\<close>

text \<open>The traverser as the fields say it is, and the sequential one that was given these answers.\<close>

definition pc_loader :: "tl_pc \<Rightarrow> (gs_error + bytes \<Rightarrow> walk) option" where
  "pc_loader pc =
     (case pc of
        PcSelect lnk lnkCtx k \<Rightarrow> Some (\<lambda>answer. recovered (k answer))
      | PcRelock lnk lnkCtx k \<Rightarrow> Some (\<lambda>answer. recovered (k answer))
      | _ \<Rightarrow> None)"

definition tl_seq :: "tl_state \<Rightarrow> traverser" where
  "tl_seq t =
     \<lparr>tv_blocksCount = 0, tv_ctxDone = False, tv_isDone = tl_isDone t, tv_completionErr = tl_completionErr t,
      tv_currentLink = tl_currentLink t, tv_currentContext = tl_currentContext t, tv_loader = pc_loader (tl_pc t)\<rparr>"

definition tl_spec :: "gwalk \<Rightarrow> (gs_error + bytes) list \<Rightarrow> traverser" where
  "tl_spec w answers = foldl (\<lambda>t answer. respond answer t) (tv_Start (recovered w)) answers"

fun ret_ok :: "gwalk \<Rightarrow> (gs_error + bytes) list \<Rightarrow> tl_ret \<Rightarrow> bool" where
  "ret_ok w answers (RetComplete isDone err) \<longleftrightarrow> IsComplete (tl_spec w answers) = (isDone, err)"
| "ret_ok w answers (RetCurrent lnk lnkCtx) \<longleftrightarrow> CurrentRequest (tl_spec w answers) = (lnk, lnkCtx)"
| "ret_ok w answers (RetAdvance err) \<longleftrightarrow>
     err \<in> {None, Some ErrContextCancelled} \<or> err = Some (OtherErr ''cannot advance when done'') \<and> fst (IsComplete (tl_spec w answers))"
| "ret_ok w answers RetVoid \<longleftrightarrow> True"
| "ret_ok w answers (RetBlocks n) \<longleftrightarrow> n \<le> int (length (filter (\<lambda>a. \<not> isl a) answers))"

fun gw_pos :: "tl_pc \<Rightarrow> gwalk" where
  "gw_pos (PcWalk w) = w"
| "gw_pos (PcSelect lnk lnkCtx k) = GwLoad lnk lnkCtx k"
| "gw_pos (PcRelock lnk lnkCtx k) = GwLoad lnk lnkCtx k"
| "gw_pos pc = GwDone None"

abbreviation counting :: "tl_caller \<Rightarrow> bool" where
  "counting c \<equiv> c = CallerCount"

definition walk_inv :: "gwalk \<Rightarrow> bool \<Rightarrow> tl_state \<Rightarrow> bool" where
  "walk_inv w cb t \<longleftrightarrow>
     (case tl_pc t of PcWalk v \<Rightarrow> settle (recovered v) (tl_seq t) | _ \<Rightarrow> tl_seq t) = tl_spec w (tl_answers t) \<and>
     tl_panicCallback t = cb \<and> tl_panicked t = (if tl_isDone t \<and> cb then gw_panics w (tl_answers t) else []) \<and>
     (\<not> tl_isDone t \<longrightarrow> (\<forall>as. gw_panics w (tl_answers t @ as) = gw_panics (gw_pos (tl_pc t)) as))"

definition calls_inv :: "gwalk \<Rightarrow> tl_state \<Rightarrow> bool" where
  "calls_inv w t \<longleftrightarrow>
     tl_blocksCount t + int (n_callers counting t) = int (length (filter (\<lambda>a. \<not> isl a) (tl_answers t))) \<and>
     list_all (\<lambda>(r, answers). ret_ok w answers r \<and> prefix answers (tl_answers t)) (tl_log t)"

lemma seq_when_free: "walk_inv w cb t \<Longrightarrow> \<not> go_owns (tl_pc t) \<Longrightarrow> tl_seq t = tl_spec w (tl_answers t)"
  by (cases "tl_pc t") (simp_all add: walk_inv_def)

lemma tl_spec_snoc: "tl_spec w (answers @ [answer]) = respond answer (tl_spec w answers)"
  by (simp add: tl_spec_def)

text \<open>Steps of a caller do not touch what the goroutine works with.\<close>

lemma walk_inv_caller:
  assumes "walk_inv w cb t" "tl_isDone t' = tl_isDone t" "tl_completionErr t' = tl_completionErr t" "tl_currentLink t' = tl_currentLink t"
    "tl_currentContext t' = tl_currentContext t" "tl_pc t' = tl_pc t" "tl_answers t' = tl_answers t"
    "tl_panicCallback t' = tl_panicCallback t" "tl_panicked t' = tl_panicked t"
  shows "walk_inv w cb t'"
proof -
  have seq: "tl_seq t' = tl_seq t" using assms by (simp add: tl_seq_def)
  show ?thesis using assms(1) unfolding walk_inv_def seq assms(2-9) .
qed

text \<open>The loader gets an answer, from a caller or because it was cancelled.\<close>

lemma walk_inv_answer:
  assumes "walk_inv w cb t" "pc_ok t" "gw_pos (tl_pc t) = GwLoad lnk lnkCtx k" "\<not> go_owns (tl_pc t)"
    and t': "tl_isDone t' = tl_isDone t" "tl_completionErr t' = tl_completionErr t" "tl_currentLink t' = tl_currentLink t"
    "tl_currentContext t' = tl_currentContext t" "tl_pc t' = PcWalk (k answer)" "tl_answers t' = tl_answers t @ [answer]"
    "tl_panicCallback t' = tl_panicCallback t" "tl_panicked t' = tl_panicked t"
  shows "walk_inv w cb t'"
proof -
  have loader: "pc_loader (tl_pc t) = Some (\<lambda>answer. recovered (k answer))" "\<not> tl_isDone t"
    using assms(2-4) by (cases "tl_pc t"; simp add: pc_loader_def pc_ok_def)+
  have "tl_spec w (tl_answers t') = respond answer (tl_seq t)"
    using seq_when_free[OF assms(1,4)] by (simp add: t' tl_spec_snoc)
  also have "\<dots> = settle (recovered (k answer)) (tl_seq t')"
    using loader by (simp add: respond_def tl_seq_def t') (simp add: pc_loader_def)
  finally have "settle (recovered (k answer)) (tl_seq t') = tl_spec w (tl_answers t')" by simp
  moreover have "gw_panics w ((tl_answers t @ [answer]) @ as) = gw_panics (k answer) as" for as
    using assms(1,3) loader(2) unfolding walk_inv_def by simp
  ultimately show ?thesis using assms(1) loader(2) by (simp add: walk_inv_def t')
qed

lemma calls_inv_caller:
  assumes "calls_inv w t" "tl_answers t' = tl_answers t" "tl_log t' = tl_log t @ map (\<lambda>r. (r, tl_answers t)) rs"
    "tl_blocksCount t' + int (n_callers counting t') = tl_blocksCount t + int (n_callers counting t)" "list_all (ret_ok w (tl_answers t)) rs"
  shows "calls_inv w t'"
  using assms by (auto simp: calls_inv_def list_all_iff)

lemma calls_inv_answer:
  assumes "calls_inv w t" "tl_answers t' = tl_answers t @ [answer]" "tl_log t' = tl_log t @ map (\<lambda>r. (r, tl_answers t')) rs"
    "tl_blocksCount t' + int (n_callers counting t') = tl_blocksCount t + int (n_callers counting t) + of_bool (\<not> isl answer)"
    "list_all (ret_ok w (tl_answers t')) rs"
  shows "calls_inv w t'"
  using assms by (auto simp: calls_inv_def list_all_iff prefix_snoc)

lemma counting_set:
  assumes "tl_caller t i = c" "c \<noteq> CallerIdle \<or> i < length (tl_callers t)" "tl_callers t' = (tl_callers t)[i := c']"
  shows "int (n_callers counting t') + of_bool (counting c) = int (n_callers counting t) + of_bool (counting c')"
proof -
  have "n_callers counting t' = n_callers counting (set_caller i c' t)" using assms(3) by (simp add: n_callers_def)
  with n_callers_set[OF assms(1,2), of counting c'] show ?thesis by (simp add: of_bool_def split: if_splits)
qed

lemma walk_inv_go:
  assumes "lock_inv t" "walk_inv w cb t" "tl_go t = Some t'"
  shows "walk_inv w cb t'"
proof (cases "tl_pc t")
  case (PcWalk v)
  have spec: "settle (recovered v) (tl_seq t) = tl_spec w (tl_answers t)" "gw_panics w (tl_answers t) = gw_panics v []"
      "tl_panicCallback t = cb" "tl_panicked t = []" "\<not> tl_isDone t" and all: "gw_panics w (tl_answers t @ as) = gw_panics v as" for as
    using assms(2) lock_invD(4)[OF assms(1)] PcWalk unfolding walk_inv_def pc_ok_def by (simp_all, metis append_Nil2)
  show ?thesis
  proof (cases v)
    case (GwDone err)
    with assms(3) PcWalk spec show ?thesis
      by (auto simp: tl_go_def tl_deferred_def MakeHandler_def walk_inv_def tl_seq_def pc_loader_def settle_def writeDone_def tl_writeDone_def)
  next
    case (GwPanic obj)
    with assms(3) PcWalk spec show ?thesis
      by (auto simp: tl_go_def tl_deferred_def MakeHandler_def walk_inv_def tl_seq_def pc_loader_def settle_def writeDone_def tl_writeDone_def)
  next
    case (GwLoad lnk lnkCtx k)
    with assms(3) PcWalk spec all show ?thesis
      by (auto simp: tl_go_def tl_loader_def walk_inv_def tl_seq_def pc_loader_def settle_def)
  qed
next
  case (PcRelock lnk lnkCtx k)
  with assms(3) have "t' = t\<lparr>tl_mu := True, tl_answers := tl_answers t @ [Inl ErrContextCancelled], tl_pc := PcWalk (k (Inl ErrContextCancelled))\<rparr>"
    by (auto simp: tl_go_def tl_relock_def split: if_splits)
  with walk_inv_answer[OF assms(2) lock_invD(4)[OF assms(1)], of lnk lnkCtx k t'] PcRelock show ?thesis by simp
next
  case PcDone
  with assms lock_invD(4)[OF assms(1)] show ?thesis
    by (auto simp: tl_go_def walk_inv_def tl_seq_def pc_loader_def pc_ok_def)
qed (use assms(3) in \<open>simp_all add: tl_go_def\<close>)

lemma calls_inv_go:
  assumes "calls_inv w t" "tl_go t = Some t'"
  shows "calls_inv w t'"
proof (cases "\<exists>lnk lnkCtx k. tl_pc t = PcRelock lnk lnkCtx k")
  case True
  with assms(2) show ?thesis
    by (auto simp: tl_go_def tl_relock_def split: if_splits intro!: calls_inv_answer[OF assms(1), where rs = "[]" and answer = "Inl ErrContextCancelled"])
next
  case False
  with assms(2) have "tl_callers t' = tl_callers t" "tl_answers t' = tl_answers t" "tl_log t' = tl_log t" "tl_blocksCount t' = tl_blocksCount t"
    by (auto simp: tl_go_def tl_loader_def tl_deferred_def MakeHandler_def tl_writeDone_def split: tl_pc.splits gwalk.splits)
  then show ?thesis by (intro calls_inv_caller[OF assms(1), where rs = "[]"]) (simp_all add: n_callers_def)
qed

lemma step_caller_invs:
  assumes inv: "walk_inv w cb t" "calls_inv w t" and c: "tl_caller t i = c" "c \<noteq> CallerIdle \<or> i < length (tl_callers t)"
    and same: "tl_isDone t' = tl_isDone t" "tl_completionErr t' = tl_completionErr t" "tl_currentLink t' = tl_currentLink t"
      "tl_currentContext t' = tl_currentContext t" "tl_pc t' = tl_pc t" "tl_answers t' = tl_answers t"
      "tl_panicCallback t' = tl_panicCallback t" "tl_panicked t' = tl_panicked t"
    and callers: "tl_callers t' = (tl_callers t)[i := c']" and log: "tl_log t' = tl_log t @ map (\<lambda>r. (r, tl_answers t)) rs"
    and count: "tl_blocksCount t' = tl_blocksCount t + of_bool (counting c)" "\<not> counting c'" and rs: "list_all (ret_ok w (tl_answers t)) rs"
  shows "walk_inv w cb t' \<and> calls_inv w t'"
  using walk_inv_caller[OF inv(1) same] calls_inv_caller[OF inv(2) same(6) log _ rs] counting_set[OF c callers] count by simp

lemma free_ret_ok:
  assumes "walk_inv w cb t" "\<not> go_owns (tl_pc t)"
  shows "ret_ok w (tl_answers t) (RetComplete (tl_isDone t) (tl_completionErr t))"
    "ret_ok w (tl_answers t) (RetCurrent (tl_currentLink t) (tl_currentContext t))"
    "tl_isDone t \<Longrightarrow> ret_ok w (tl_answers t) (RetAdvance (Some (OtherErr ''cannot advance when done'')))"
  using seq_when_free[OF assms, symmetric] by (simp_all add: IsComplete_def CurrentRequest_def tl_seq_def)

lemma blocks_ret_ok: "calls_inv w t \<Longrightarrow> ret_ok w (tl_answers t) (RetBlocks (tl_blocksCount t))"
  by (simp add: calls_inv_def)

lemma caller_step_invs:
  assumes inv: "lock_inv t" "walk_inv w cb t" "calls_inv w t" and c: "tl_caller t i = c" and step: "tl_caller_step i c t = Some t'"
  shows "walk_inv w cb t' \<and> calls_inv w t'"
proof (cases c)
  case (CallerBegin op)
  with step consider "t' = tl_return i (RetBlocks (tl_blocksCount t)) t" | "t' = set_caller i CallerWait (t\<lparr>tl_ctxDone := True\<rparr>)"
    | "t' = set_caller i (CallerHold op) (t\<lparr>tl_mu := True\<rparr>)" by (cases op) (auto split: if_splits)
  then show ?thesis
  proof cases
    case 1
    with CallerBegin blocks_ret_ok[OF inv(3)] show ?thesis
      by (intro step_caller_invs[OF inv(2,3) c, where rs = "[RetBlocks (tl_blocksCount t)]" and c' = "CallerRet (RetBlocks (tl_blocksCount t))"]) simp_all
  next
    case 2
    with CallerBegin show ?thesis by (intro step_caller_invs[OF inv(2,3) c, where rs = "[]" and c' = CallerWait]) simp_all
  next
    case 3
    with CallerBegin show ?thesis by (intro step_caller_invs[OF inv(2,3) c, where rs = "[]" and c' = "CallerHold op"]) simp_all
  qed
next
  case (CallerHold op)
  have free: "\<not> go_owns (tl_pc t)" using owner_excludes(2)[OF inv(1), of i] c CallerHold by simp
  note ret = free_ret_ok[OF inv(2) free]
  consider r where "t' = tl_return i r (tl_unlock t)" "ret_ok w (tl_answers t) r" | "t' = set_caller i (CallerSend op) t"
    using step CallerHold ret by (cases op) (auto split: if_splits simp del: ret_ok.simps(1-3))
  then show ?thesis
  proof cases
    case (1 r)
    with CallerHold show ?thesis by (intro step_caller_invs[OF inv(2,3) c, where rs = "[r]" and c' = "CallerRet r"]) simp_all
  next
    case 2
    with CallerHold show ?thesis by (intro step_caller_invs[OF inv(2,3) c, where rs = "[]" and c' = "CallerSend op"]) simp_all
  qed
next
  case CallerCount
  with step show ?thesis
    by (intro step_caller_invs[OF inv(2,3) c, where rs = "[RetAdvance None]" and c' = "CallerRet (RetAdvance None)"]) auto
next
  case CallerWait
  with step show ?thesis
    by (intro step_caller_invs[OF inv(2,3) c, where rs = "[RetVoid]" and c' = "CallerRet RetVoid"]) (auto split: if_splits)
qed (use step in simp_all)

lemma caller_done_invs:
  assumes inv: "walk_inv w cb t" "calls_inv w t" and c: "tl_caller t i = c" and step: "tl_caller_done i c t = Some t'"
  shows "walk_inv w cb t' \<and> calls_inv w t'"
proof -
  from step obtain op r where "c = CallerSend op" "t' = tl_return i r (tl_unlock t)" "ret_ok w (tl_answers t) r"
    by (cases "(i, c, t)" rule: tl_caller_done.cases) (auto split: if_splits)
  then show ?thesis by (intro step_caller_invs[OF inv c, where rs = "[r]" and c' = "CallerRet r"]) simp_all
qed

lemma send_invs:
  assumes inv: "lock_inv t" "walk_inv w cb t" "calls_inv w t" and c: "tl_caller t i = c" and step: "tl_send i c t = Some t'"
  shows "walk_inv w cb t' \<and> calls_inv w t'"
proof -
  from step obtain op where op: "c = CallerSend op" by (cases c) auto
  with step obtain lnk lnkCtx k where k: "tl_pc t = PcSelect lnk lnkCtx k"
    by (cases op) (auto simp: tl_handover_def split: tl_pc.splits)
  define answer where "answer = (case op of OpAdvance reader \<Rightarrow> Inr reader | OpError err \<Rightarrow> Inl err)"
  define c' where "c' = (case op of OpAdvance reader \<Rightarrow> CallerCount | _ \<Rightarrow> CallerRet RetVoid)"
  define rs where "rs = (case op of OpAdvance reader \<Rightarrow> [] | _ \<Rightarrow> [RetVoid])"
  have t': "tl_callers t' = (tl_callers t)[i := c']" "tl_isDone t' = tl_isDone t" "tl_completionErr t' = tl_completionErr t"
      "tl_currentLink t' = tl_currentLink t" "tl_currentContext t' = tl_currentContext t" "tl_pc t' = PcWalk (k answer)"
      "tl_answers t' = tl_answers t @ [answer]" "tl_panicCallback t' = tl_panicCallback t" "tl_panicked t' = tl_panicked t"
      "tl_log t' = tl_log t @ map (\<lambda>r. (r, tl_answers t')) rs" "tl_blocksCount t' = tl_blocksCount t"
      "counting c' \<longleftrightarrow> \<not> isl answer" "list_all (ret_ok w (tl_answers t')) rs"
    using step op k by (cases op; auto simp: tl_handover_def answer_def c'_def rs_def)+
  have "walk_inv w cb t'" using walk_inv_answer[OF inv(2) lock_invD(4)[OF inv(1)], of lnk lnkCtx k t' answer] k t' by simp
  moreover have "calls_inv w t'"
    using counting_set[OF c _ t'(1)] op by (intro calls_inv_answer[OF inv(3) t'(7,10) _ t'(13)]) (simp add: t'(11,12))
  ultimately show ?thesis ..
qed

definition tl_inv :: "gwalk \<Rightarrow> bool \<Rightarrow> tl_state \<Rightarrow> bool" where
  "tl_inv w cb t \<longleftrightarrow> lock_inv t \<and> walk_inv w cb t \<and> calls_inv w t"

lemma step_invs:
  assumes inv: "lock_inv t" "walk_inv w cb t" "calls_inv w t" and step: "tl_step t e = Some t'"
  shows "walk_inv w cb t' \<and> calls_inv w t'"
proof (cases e)
  case TlGo
  with step walk_inv_go[OF inv(1,2)] calls_inv_go[OF inv(3)] show ?thesis by simp
next
  case TlLoaderDone
  with step inv(2,3) show ?thesis
    by (auto simp: walk_inv_def calls_inv_def tl_seq_def pc_loader_def split: tl_pc.splits if_splits)
next
  case TlCancel
  with step have "t' = t\<lparr>tl_ctxDone := True\<rparr>" by simp
  then show ?thesis using walk_inv_caller[OF inv(2), of t'] calls_inv_caller[OF inv(3), of t' "[]"] by simp
next
  case (TlCall i op)
  then have t': "t' = set_caller i (CallerBegin op) t" "returned (tl_caller t i)" using step by (auto split: if_splits)
  show ?thesis
  proof (cases "i < length (tl_callers t)")
    case True
    moreover have "\<not> counting (tl_caller t i)" using t'(2) by auto
    ultimately show ?thesis using t'(1) by (intro step_caller_invs[OF inv(2,3) refl, where rs = "[]" and c' = "CallerBegin op"]) simp_all
  qed (use t'(1) inv(2,3) in \<open>simp add: set_caller_def list_update_beyond\<close>)
next
  case (TlStep i)
  with caller_step_invs[OF inv refl, of i] step show ?thesis by simp
next
  case (TlSend i)
  with send_invs[OF inv refl, of i] step show ?thesis by simp
next
  case (TlCallerDone i)
  with caller_done_invs[OF inv(2,3) refl, of i] step show ?thesis by simp
next
  case (TlGiveUp i)
  then have wait: "tl_caller t i = CallerWait" "t' = tl_return i RetVoid t" using step by (auto split: if_splits)
  then show ?thesis by (intro step_caller_invs[OF inv(2,3) wait(1), where rs = "[RetVoid]" and c' = "CallerRet RetVoid"]) simp_all
qed

lemma tl_inv_Start: "tl_inv w cb (tl_Start cb n w)"
proof -
  have "walk_inv w cb (tl_Start cb n w)"
    by (simp add: walk_inv_def tl_Start_def tl_seq_def tl_spec_def tv_Start_def pc_loader_def)
  moreover have "calls_inv w (tl_Start cb n w)" by (simp add: calls_inv_def tl_Start_def n_callers_def filter_False)
  ultimately show ?thesis using lock_inv_Start by (simp add: tl_inv_def)
qed

lemma tl_inv_run:
  assumes "tl_run es (tl_Start cb n w) = Some t"
  shows "tl_inv w cb t"
proof (rule tlm.run_invariant[OF assms, where P = "tl_inv w cb"])
  show "tl_inv w cb (tl_Start cb n w)" by (rule tl_inv_Start)
next
  fix t e t'
  assume "tl_inv w cb t" "tl_step t e = Some t'"
  then show "tl_inv w cb t'" using step_lock[of t e t'] step_invs[of t w cb e t'] by (simp add: tl_inv_def)
qed

text \<open>Without panics the body is the walk of the sequential model.\<close>

lemma body_is_start_walk:
  assumes "cf_chooser cf (cf_root cf) = TlOk ns" "parseSelector (cf_selector cf) = TlOk sel"
    "load cf ns = TlOk (\<lambda>answer. case ld answer of Inl err \<Rightarrow> TlErr err | Inr nd \<Rightarrow> TlOk nd)"
  shows "recovered (tl_body load parseSelector walkAdv cf) =
      start_walk None (cf_budget cf) (cf_root cf) ld None (\<lambda>budget nd. recovered (walkAdv cf budget nd sel))"
  using assms by (auto simp: tl_body_def start_walk_def Let_def split: option.split sum.split)

section \<open>Calls return\<close>

fun internal :: "tl_event \<Rightarrow> bool" where
  "internal (TlCall i op) = False"
| "internal TlCancel = False"
| "internal e = True"

fun pc_live :: "tl_pc \<Rightarrow> nat" where
  "pc_live PcDone = 0"
| "pc_live PcStopped = 0"
| "pc_live pc = 1"

fun pc_rank :: "tl_pc \<Rightarrow> nat" where
  "pc_rank (PcWalk w) = 3"
| "pc_rank (PcSelect lnk lnkCtx k) = 2"
| "pc_rank (PcRelock lnk lnkCtx k) = 1"
| "pc_rank PcDone = 1"
| "pc_rank PcStopped = 0"

fun caller_rank :: "tl_caller \<Rightarrow> nat" where
  "caller_rank (CallerBegin op) = 4"
| "caller_rank (CallerHold op) = 3"
| "caller_rank (CallerSend op) = 2"
| "caller_rank CallerCount = 1"
| "caller_rank CallerWait = 1"
| "caller_rank c = 0"

definition callers_rank :: "tl_state \<Rightarrow> nat" where
  "callers_rank t = sum_list (map caller_rank (tl_callers t))"

definition gw_less :: "(gwalk \<times> gwalk) set" where
  "gw_less = {(k answer, GwLoad lnk lnkCtx k) | lnk lnkCtx k answer. True}"

lemma wf_gw_less: "wf gw_less"
proof (rule wfUNIVI)
  fix P :: "gwalk \<Rightarrow> bool" and w
  assume step: "\<forall>w. (\<forall>v. (v, w) \<in> gw_less \<longrightarrow> P v) \<longrightarrow> P w"
  show "P w" by (induction w) (rule step[rule_format], auto simp: gw_less_def)+
qed

definition tl_order :: "(tl_state \<times> tl_state) set" where
  "tl_order = inv_image (less_than <*lex*> gw_less <*lex*> less_than <*lex*> less_than)
     (\<lambda>t. (pc_live (tl_pc t), gw_pos (tl_pc t), pc_rank (tl_pc t), callers_rank t))"

lemma wf_tl_order: "wf tl_order"
  unfolding tl_order_def by (intro wf_inv_image wf_lex_prod wf_less_than wf_gw_less)

lemma order_caller:
  assumes "tl_caller t i = c" "caller_rank c' < caller_rank c" "tl_callers t' = (tl_callers t)[i := c']" "tl_pc t' = tl_pc t"
  shows "(t', t) \<in> tl_order"
proof -
  have i: "i < length (tl_callers t)" "tl_callers t ! i = c" using assms(1,2) by (auto simp: tl_caller_def split: if_splits)
  have "caller_rank c \<le> callers_rank t" unfolding callers_rank_def using i by (intro member_le_sum_list) auto
  then have "callers_rank t' < callers_rank t"
    using assms(2,3) i by (simp add: callers_rank_def map_update sum_list_update)
  then show ?thesis by (simp add: tl_order_def assms(4))
qed

lemma order_goroutine:
  "pc_live (tl_pc t') < pc_live (tl_pc t) \<or> pc_live (tl_pc t') = pc_live (tl_pc t) \<and>
     ((gw_pos (tl_pc t'), gw_pos (tl_pc t)) \<in> gw_less \<or> gw_pos (tl_pc t') = gw_pos (tl_pc t) \<and> pc_rank (tl_pc t') < pc_rank (tl_pc t)) \<Longrightarrow>
   (t', t) \<in> tl_order"
  by (auto simp: tl_order_def)

lemma go_decreases: "tl_go t = Some t' \<Longrightarrow> (t', t) \<in> tl_order"
  by (rule order_goroutine)
    (auto simp: tl_go_def tl_loader_def tl_relock_def tl_deferred_def gw_less_def split: tl_pc.splits gwalk.splits if_splits)

lemma caller_step_decreases:
  assumes "tl_caller t i = c" "tl_caller_step i c t = Some t'"
  shows "(t', t) \<in> tl_order"
proof -
  obtain c' where "caller_rank c' < caller_rank c" "tl_callers t' = (tl_callers t)[i := c']" "tl_pc t' = tl_pc t"
  proof (cases c)
    case (CallerBegin op)
    with assms(2) that show ?thesis
      by (cases op) (force split: if_splits)+
  next
    case (CallerHold op)
    with assms(2) that show ?thesis
      by (cases op) (force split: if_splits)+
  qed (use assms(2) that in \<open>force split: if_splits\<close>)+
  then show ?thesis using order_caller[OF assms(1)] by blast
qed

lemma step_decreases:
  assumes "tl_step t e = Some t'" "internal e"
  shows "(t', t) \<in> tl_order"
proof (cases e)
  case TlGo
  with assms(1) go_decreases show ?thesis by simp
next
  case TlLoaderDone
  with assms(1) show ?thesis by (auto intro!: order_goroutine split: tl_pc.splits if_splits)
next
  case (TlStep i)
  with assms(1) caller_step_decreases[OF refl, of i t t'] show ?thesis by simp
next
  case (TlSend i)
  with assms(1) have "\<exists>lnk lnkCtx k answer. tl_pc t = PcSelect lnk lnkCtx k \<and> tl_pc t' = PcWalk (k answer)"
    by (cases "(i, tl_caller t i, t)" rule: tl_send.cases) (auto simp: tl_handover_def split: tl_pc.splits)
  then show ?thesis by (auto intro!: order_goroutine simp: gw_less_def)
next
  case (TlCallerDone i)
  with assms(1) obtain op r where c: "tl_caller t i = CallerSend op" and "t' = tl_return i r (tl_unlock t)"
    by (cases "(i, tl_caller t i, t)" rule: tl_caller_done.cases) (auto split: if_splits)
  then show ?thesis by (intro order_caller[OF c, where c' = "CallerRet r"]) simp_all
next
  case (TlGiveUp i)
  with assms(1) show ?thesis by (intro order_caller[where c' = "CallerRet RetVoid"]) (auto split: if_splits)
qed (use assms(2) in simp_all)

subsection \<open>Nobody is stuck\<close>

definition moves :: "tl_state \<Rightarrow> bool" where
  "moves t \<longleftrightarrow> (\<exists>e t'. internal e \<and> tl_step t e = Some t')"

lemma movesI: "internal e \<Longrightarrow> tl_step t e = Some t' \<Longrightarrow> moves t"
  by (auto simp: moves_def)

lemma holder_moves:
  assumes inv: "lock_inv t" and c: "caller_owns (tl_caller t i)"
  shows "moves t"
proof (cases "tl_caller t i")
  case (CallerHold op)
  with caller_ok_nth[OF inv, of i] have "tl_hold i op t \<noteq> None" by (cases op) simp_all
  with CallerHold show ?thesis by (auto intro: movesI[of "TlStep i"])
next
  case (CallerSend op)
  have ok: "sending op" "\<not> tl_isDone t" using caller_ok_nth[OF inv, of i] CallerSend by simp_all
  with owner_excludes(2)[OF inv c] lock_invD(4)[OF inv]
  consider lnk lnkCtx k where "tl_pc t = PcSelect lnk lnkCtx k" | "tl_ctxDone t"
    by (cases "tl_pc t") (auto simp: pc_ok_def)
  then show ?thesis
  proof cases
    case (1 lnk lnkCtx k)
    with ok(1) have "tl_send i (CallerSend op) t \<noteq> None" by (cases op) (simp_all add: tl_handover_def)
    with CallerSend show ?thesis by (auto intro: movesI[of "TlSend i"])
  next
    case 2
    with ok(1) have "tl_caller_done i (CallerSend op) t \<noteq> None" by (cases op) simp_all
    with CallerSend show ?thesis by (auto intro: movesI[of "TlCallerDone i"])
  qed
qed (use c in simp_all)

lemma walking_moves: "tl_pc t = PcWalk w \<Longrightarrow> moves t"
  by (cases w; force intro: movesI[of TlGo] simp: tl_go_def)

lemma locked_moves:
  assumes inv: "lock_inv t" and "tl_mu t"
  shows "moves t"
proof (cases "go_owns (tl_pc t)")
  case True
  then show ?thesis using walking_moves by (cases "tl_pc t") simp_all
next
  case False
  with assms lock_invD(2)[OF inv] have "filter caller_owns (tl_callers t) \<noteq> []" by (auto simp: owners_def n_callers_def)
  then obtain c where "c \<in> set (tl_callers t)" "caller_owns c" by (auto simp: filter_empty_conv)
  then obtain i where "i < length (tl_callers t)" "caller_owns (tl_callers t ! i)" by (auto simp: in_set_conv_nth)
  then have "caller_owns (tl_caller t i)" by (simp add: tl_caller_def)
  with inv show ?thesis by (rule holder_moves)
qed

lemma waiting_moves:
  assumes inv: "lock_inv t" and c: "tl_caller t i = CallerWait"
  shows "moves t"
proof (cases "tl_pc t")
  case (PcSelect lnk lnkCtx k)
  with caller_ok_nth[OF inv, of i] c show ?thesis by (auto intro!: movesI[of TlLoaderDone])
next
  case (PcRelock lnk lnkCtx k)
  with locked_moves[OF inv] show ?thesis
    by (cases "tl_mu t") (auto intro!: movesI[of TlGo] simp: tl_go_def tl_relock_def)
next
  case PcDone
  then show ?thesis by (auto intro!: movesI[of TlGo] simp: tl_go_def)
next
  case PcStopped
  with lock_invD(4)[OF inv] c show ?thesis by (auto intro!: movesI[of "TlStep i"] simp: pc_ok_def)
qed (use walking_moves in simp)

lemma open_call_moves:
  assumes inv: "lock_inv t" and c: "\<not> returned (tl_caller t i)"
  shows "moves t"
proof (cases "tl_caller t i")
  case (CallerBegin op)
  then have "tl_mu t \<or> tl_begin i op t \<noteq> None" by (cases op) auto
  with CallerBegin locked_moves[OF inv] show ?thesis by (auto intro: movesI[of "TlStep i"])
next
  case CallerCount
  then show ?thesis by (auto intro!: movesI[of "TlStep i"])
qed (use c waiting_moves[OF inv] holder_moves[OF inv, of i] in auto)

lemma stuck_returned:
  assumes "lock_inv t" "\<not> moves t"
  shows "list_all returned (tl_callers t)"
  unfolding list_all_length
proof (intro allI impI)
  fix i
  assume "i < length (tl_callers t)"
  with open_call_moves[OF assms(1), of i] assms(2) show "returned (tl_callers t ! i)" by (auto simp: tl_caller_def)
qed

lemma run_to_return:
  assumes "lock_inv t"
  shows "\<exists>es t'. list_all internal es \<and> tl_run es t = Some t' \<and> list_all returned (tl_callers t')"
  using wf_tl_order assms
proof (induction t rule: wf_induct_rule)
  case (less t)
  show ?case
  proof (cases "moves t")
    case True
    then obtain e u where e: "internal e" "tl_step t e = Some u" by (auto simp: moves_def)
    from less.IH[OF step_decreases[OF e(2,1)] step_lock[OF less.prems e(2)]] obtain es t' where
      "list_all internal es" "tl_run es u = Some t'" "list_all returned (tl_callers t')" by blast
    with e show ?thesis by (intro exI[of _ "e # es"] exI[of _ t']) simp
  next
    case False
    with stuck_returned[OF less.prems] show ?thesis by (intro exI[of _ "[]"] exI[of _ t]) simp
  qed
qed

section \<open>What the traverser guarantees\<close>

text \<open>C4: The mutex of a traverser changes hands correctly, whatever calls run in how many goroutines, whenever the context is
  cancelled and whatever panics: a free mutex is never unlocked, it is locked exactly when one goroutine, and no other, may use the
  fields, and whenever the walk does not hold it the fields are those of the sequential traverser after the answers the walk has had,
  a panic being an error of the walk. Every return of \<^verbatim>\<open>IsComplete\<close> and \<^verbatim>\<open>CurrentRequest\<close> was right for the answers up to then; the
  count of blocks is that of the answers that carried one, up to the calls of \<^verbatim>\<open>Advance\<close> that have not yet counted theirs; the callback
  is told of a panic exactly once.\<close>

theorem traverser_lock_refines:
  assumes "tl_run es (tb_Start df load parseSelector walkAdv n tb) = Some t" and "w = tl_body load parseSelector walkAdv (tb_config df tb)"
  shows "\<not> tl_fault t \<and> owners t = of_bool (tl_mu t) \<and>
    (\<not> go_owns (tl_pc t) \<longrightarrow> tl_seq t = tl_spec w (tl_answers t)) \<and>
    (\<forall>(r, answers) \<in> set (tl_log t). ret_ok w answers r \<and> prefix answers (tl_answers t)) \<and>
    tl_blocksCount t + int (n_callers (\<lambda>c. c = CallerCount) t) = int (length (filter (\<lambda>a. \<not> isl a) (tl_answers t))) \<and>
    tl_panicked t = (if tl_isDone t \<and> tb_PanicCallback tb then gw_panics w (tl_answers t) else [])"
proof -
  have "tl_inv w (tb_PanicCallback tb) t" using tl_inv_run assms by (simp add: tb_Start_def)
  then have inv: "lock_inv t" "walk_inv w (tb_PanicCallback tb) t" "calls_inv w t" by (simp_all add: tl_inv_def)
  show ?thesis
    using lock_invD(1,2)[OF inv(1)] seq_when_free[OF inv(2)] inv(2,3) unfolding walk_inv_def calls_inv_def list_all_iff by blast
qed

text \<open>C33: Every call to a traverser returns: in any state that calls, cancellations and panics may lead to, the goroutines can go on
  until all open calls have returned; no matter which of them goes on they cannot do so for ever without new calls; and they
  come to a halt only when no call is left open.\<close>

theorem traverser_calls_return:
  assumes "tl_run es (tb_Start df load parseSelector walkAdv n tb) = Some t"
  shows "(\<exists>es' t'. list_all internal es' \<and> tl_run es' t = Some t' \<and> list_all returned (tl_callers t')) \<and>
    (\<nexists>f. f 0 = t \<and> (\<forall>i. \<exists>e. internal e \<and> tl_step (f i) e = Some (f (Suc i)))) \<and>
    ((\<forall>e. internal e \<longrightarrow> tl_step t e = None) \<longrightarrow> list_all returned (tl_callers t))"
proof -
  have "lock_inv t" using tl_inv_run assms by (simp add: tb_Start_def tl_inv_def)
  moreover have "False" if "\<forall>i. \<exists>e. internal e \<and> tl_step (f i) e = Some (f (Suc i))" for f
    using that step_decreases wf_tl_order[unfolded wf_iff_no_infinite_down_chain] by blast
  moreover have "\<not> moves t" if "\<forall>e. internal e \<longrightarrow> tl_step t e = None" using that by (auto simp: moves_def)
  ultimately show ?thesis using run_to_return stuck_returned by blast
qed

subsection \<open>Witnesses: a walk that is cancelled and panics\<close>

definition demo_tb :: "(unit, unit, unit, unit, unit, unit) traversal_builder" where
  "demo_tb = \<lparr>tb_Root = ''c'', tb_Selector = (), tb_Visitor = None, tb_DecoderChooser = None, tb_EncoderChooser = Some (),
     tb_HasherChooser = None, tb_Chooser = None, tb_Budget = Some 3, tb_PanicCallback = True\<rparr>"

definition demo_df :: "(unit, unit, unit, unit, unit) tv_defaults" where
  "demo_df = \<lparr>df_visitor = (), df_decoderChooser = (), df_encoderChooser = (), df_hasherChooser = (), df_chooser = (\<lambda>_. TlOk ())\<rparr>"

definition demo_load :: "(unit, unit, unit, unit, unit, unit) tv_config \<Rightarrow> unit \<Rightarrow> (gs_error + bytes \<Rightarrow> bytes tl_result) tl_result" where
  "demo_load cf ns = TlOk (\<lambda>answer. case answer of Inl err \<Rightarrow> TlErr err | Inr reader \<Rightarrow> TlOk reader)"

definition demo_walkAdv :: "(unit, unit, unit, unit, unit, unit) tv_config \<Rightarrow> int option \<Rightarrow> bytes \<Rightarrow> unit \<Rightarrow> gwalk" where
  "demo_walkAdv cf budget nd sel = GwLoad ''d'' [] (\<lambda>answer. GwPanic ''boom'')"

abbreviation demo_start :: "nat \<Rightarrow> tl_state" where
  "demo_start n \<equiv> tb_Start demo_df demo_load TlOk demo_walkAdv n demo_tb"

definition demo_calls :: "tl_event list" where
  "demo_calls = [TlGo, TlCall 0 OpCurrentRequest, TlStep 0, TlStep 0, TlCall 0 (OpAdvance [1]), TlStep 0, TlStep 0, TlSend 0,
     TlCall 1 OpIsComplete, TlStep 0, TlGo, TlStep 1, TlStep 1, TlCancel, TlCall 0 (OpError ErrContextCancelled), TlLoaderDone, TlStep 0, TlStep 0,
     TlCallerDone 0, TlGo, TlGo, TlCall 1 OpShutdown, TlStep 1]"

theorem traverser_lock_refines_witness:
  "\<exists>t. tl_run demo_calls (demo_start 2) = Some t \<and> tl_completionErr t = Some (RecoveredPanicErr ''boom'') \<and> tl_panicked t = [''boom''] \<and>
     tl_blocksCount t = 1 \<and> \<not> tl_fault t \<and>
     tl_seq t = tl_spec (tl_body demo_load TlOk demo_walkAdv (tb_config demo_df demo_tb)) [Inr [1], Inl ErrContextCancelled]"
proof -
  have "map_option (\<lambda>t. (tl_completionErr t, tl_panicked t, tl_blocksCount t, tl_answers t, go_owns (tl_pc t))) (tl_run demo_calls (demo_start 2)) =
      Some (Some (RecoveredPanicErr ''boom''), [''boom''], 1, [Inr [1], Inl ErrContextCancelled], False)" by code_simp
  then obtain t where t: "tl_run demo_calls (demo_start 2) = Some t" "tl_completionErr t = Some (RecoveredPanicErr ''boom'')"
    "tl_panicked t = [''boom'']" "tl_blocksCount t = 1" "tl_answers t = [Inr [1], Inl ErrContextCancelled]" "\<not> go_owns (tl_pc t)" by auto
  with traverser_lock_refines[OF t(1) refl] show ?thesis by (intro exI[of _ t]) auto
qed

theorem traverser_calls_return_witness:
  "\<exists>t es' t'. tl_run demo_calls (demo_start 2) = Some t \<and> \<not> list_all returned (tl_callers t) \<and>
     list_all internal es' \<and> tl_run es' t = Some t' \<and> list_all returned (tl_callers t')"
proof -
  have "map_option (\<lambda>t. list_all returned (tl_callers t)) (tl_run demo_calls (demo_start 2)) = Some False" by code_simp
  then obtain t where t: "tl_run demo_calls (demo_start 2) = Some t" "\<not> list_all returned (tl_callers t)" by auto
  with traverser_calls_return[OF t(1), THEN conjunct1] show ?thesis by (intro exI[of _ t]) blast
qed

end
