(* ===== verification/Spec2Isabelle.thy ===== *)
theory Spec2Isabelle
  imports GS_Prelude Link_Tracker Peer_Link_Tracker Allocator GS_Types Message Message_Wire Publisher Message_Queue Peer_Manager Response_Assembler Reconciled_Loader Ext_Codecs Request_Manager Response_Manager Traverser Query_Executor Executor Subscribers Hooks Response_Collector Task_Queue Network Exchange GraphSync Selector_Validator Listeners Backpressure Traverser_Lock
begin

text \<open>
  A verification development for go-graphsync, an implementation in Go of the graphsync protocol: a peer asks another
  for the part of a linked DAG that a selector describes, and the answer comes back as blocks together with metadata that
  lists the links of the traversal in order. Both peers run the same traversal; the requestor checks every block it is
  sent against the traversal it is doing itself.

  \<^bold>\<open>The program and how it fits together.\<close> A request of the local user enters the request manager
  (\<^verbatim>\<open>requestmanager\<close>), a single goroutine that handles messages; a task queue runs the executor of a request,
  which walks the DAG with the traverser and loads each block through the reconciled loader. The first block that is
  missing locally makes the executor send the request. At the other peer the network layer hands the message to the response
  manager (\<^verbatim>\<open>responsemanager\<close>), also one goroutine; hooks validate the request, and a task runs the query executor,
  which walks the DAG and reports every link to the response assembler. The assembler consults the link tracker of the
  peer to avoid sending blocks twice, asks the allocator for memory and appends to the message that the message queue of
  the peer is building. A message that was sent, or failed, is reported to subscribers through the notification publisher;
  the subscriber of a response makes the response manager forget it. Responses that arrive are given to the request
  manager, which feeds the reconciled loaders, and the collector hands the results to the caller.

  \<^bold>\<open>Theories, sources and what is proved.\<close>
  \<^item> \<open>GS_Prelude\<close>: Go maps as association lists without duplicate keys (\<open>gomap\<close>, with \<open>mget\<close>, \<open>mput\<close>, \<open>mdel\<close>),
    words for the 64-bit integers, lemmas shared by all components.
  \<^item> \<open>GS_Types\<close> (\<^verbatim>\<open>graphsync.go\<close>, \<^verbatim>\<open>responsecode.go\<close>): status codes, errors, states; which status means which error.
  \<^item> \<open>Link_Tracker\<close>, \<open>Peer_Link_Tracker\<close> (\<^verbatim>\<open>linktracker\<close>, \<^verbatim>\<open>peerlinktracker.go\<close>): reference counts of traversed
    links per request and deduplication key. A block is sent once per bucket while a request that sent it is unfinished;
    the decision to send is characterised; nothing is dereferenced that is not there; finishing forgets a request.
  \<^item> \<open>Allocator\<close> (\<^verbatim>\<open>allocator\<close>): memory limits on 64-bit words, with the third-party priority queue as a
    parameter. The limits hold in every reachable state, releases return, every channel is answered exactly once, and
    after a release nothing that could be granted is left waiting.
  \<^item> \<open>Message\<close>, \<open>Message_Wire\<close> (\<^verbatim>\<open>message\<close>): messages, the builder, and the wire form of protocol version 2. The
    builder refines an abstract record per request; scrubbing keeps exactly what is referred to; encoding and decoding are
    inverse; a decoded message is consistent and its blocks hash to their CIDs.
  \<^item> \<open>Publisher\<close> (\<^verbatim>\<open>notifications\<close>): events reach a subscriber in order, a refinement of an ordered log.
  \<^item> \<open>Message_Queue\<close> (\<^verbatim>\<open>messagequeue\<close>): building, sending with retries, shutting down. A message is settled exactly
    once; the size of a queued message is bounded.
  \<^item> \<open>Peer_Manager\<close> (\<^verbatim>\<open>peermanager\<close>, \<^verbatim>\<open>persistenceoptions\<close>, \<^verbatim>\<open>peerstate\<close>): one process per connected peer; diagnostics
    are empty exactly for consistent states.
  \<^item> \<open>Response_Assembler\<close> (\<^verbatim>\<open>responseassembler\<close>): transactions of a response stream and the messages they build.
  \<^item> \<open>Traversal_Record\<close>, \<open>Remote_Queue\<close>, \<open>Reconciled_Loader\<close> (\<^verbatim>\<open>requestmanager/reconciledloader\<close>): the record of a
    traversal as a tree and its verifier (a refinement of replaying a list), the linked queue with recycled cells on an
    explicit heap (a refinement of a FIFO queue), and loading a block from the local store or the remote.
  \<^item> \<open>Ext_Codecs\<close> (\<^verbatim>\<open>dedupkey\<close>, \<^verbatim>\<open>cidset\<close>, \<^verbatim>\<open>donotsendfirstblocks\<close>): the data of the built-in extensions.
  \<^item> \<open>Request_Manager\<close>, \<open>Response_Manager\<close>: the event loops of the two managers with every message. The life cycle of a
    request or response is an invariant of the reachable states, and for the response manager a refinement of an abstract
    state machine; which messages are handled to their end; what a message of responses does.
  \<^item> \<open>Traverser\<close> (\<^verbatim>\<open>ipldutil/traverser.go\<close>), \<open>Query_Executor\<close>, \<open>Executor\<close>: walking a DAG for a response and for a
    request. A response sends its links in traversal order and then exactly one final status; a request is only sent for
    blocks that are missing locally.
  \<^item> \<open>Traverser_Lock\<close>: the same traverser as goroutines that hand a mutex to each other, statement by statement, with cancellation,
    panics and any number of callers. It refines the sequential traverser, and every call returns.
  \<^item> \<open>Subscribers\<close>, \<open>Hooks\<close>: what message events do to a response; the hooks of the user and what they decide.
  \<^item> \<open>Response_Collector\<close>, \<open>Task_Queue\<close>: goroutines as state machines whose \<^verbatim>\<open>select\<close> choices and interleavings
    are events: the caller gets everything in order and learns of a cancellation; no task is lost or overlooked.
  \<^item> \<open>Network\<close> (\<^verbatim>\<open>network\<close>, \<^verbatim>\<open>panics\<close>): streams deliver messages in order; every failure is reported once;
    a sender that was opened speaks version 2 of the protocol.
  \<^item> \<open>Selector_Validator\<close> (\<^verbatim>\<open>selectorvalidator\<close>): the hook that validates by default admits exactly the selectors whose
    recursions, at any nesting, are limited by the accepted depth.
  \<^item> \<open>Listeners\<close> (\<^verbatim>\<open>listeners\<close>, \<^verbatim>\<open>requestmanager/client.go\<close>): every listener is told, in order; a lost connection is
    reported for the requests of its peer and no other; cancelling a request whose caller has gone drains its channels and ends.
  \<^item> \<open>Store_Util\<close> (\<^verbatim>\<open>storeutil\<close>): the link system over a block store reads back what it wrote.
  \<^item> \<open>Event_Machine\<close>: what holds of the runs of every machine that is driven by events, a locale.
  \<^item> \<open>Remote_Feed\<close>, \<open>Exchange\<close>: the two sides together. \<open>Remote_Feed\<close> follows the executor of a request while the messages of an
    honest responder arrive; \<open>Exchange\<close> puts the query executor, the response assembler and the message builder on the other side:
    whatever the grouping into messages and their arrival, the requestor sends one request and ends with every block in its store.
  \<^item> \<open>Backpressure\<close>: the allocator, the message queues of all peers and the transactions that wait for memory, interleaved. The
    blocks that wait to be sent stay within what is reserved and the limits, when a peer connects again only after the loop of its
    old queue has ended; a run where it connects earlier exceeds them.
  \<^item> \<open>GraphSync\<close> (\<^verbatim>\<open>impl/graphsync.go\<close>): options and construction, and the two managers with their channels and the calls of the
    user as one machine: a call can always go on or is waited for; one dropped by its context waits until shutdown.

  \<^bold>\<open>How the code is modelled.\<close> A struct is a record, a Go map an association list, a 64-bit integer a word where it
  may wrap. A method is a function on the state; errors are values of \<open>gs_error\<close>, and a nil dereference is the result \<open>None\<close>
  or an error of its own. Calls to other components and values sent on channels are a log in the state, so that their order
  is part of the statements. Code that is not in the repository (the walk of go-ipld-prime, the CBOR codec, hashing, the
  priority queue, the task queue of go-peertaskqueue, pubsub, libp2p) is a parameter, and what is relied on of it is a named
  hypothesis (\<open>wire_ok\<close> and \<open>codec_ok\<close>, \<open>publish_law\<close>, \<open>ptq_law\<close>, \<open>reader_law\<close>, \<open>walk_law\<close> and
  \<open>keys_ok\<close>, \<open>store_law\<close> with \<open>blockstore_law\<close> and \<open>new_block_law\<close>, the contract of \<open>peek\<close>), each shown to be
  satisfiable by a concrete instance in a witness. Locales state what components share: \<open>link_tracking\<close> (what the peer tracker relies
  on of a link tracker), \<open>fifo_queue\<close> (what the loader relies on of the remote queue), \<open>response_loop\<close> (a loop of the
  request manager over responses, each of which changes its own request only), \<open>hook_chain\<close> (a chain of hooks or
  listeners) and \<open>event_machine\<close>; each is interpreted on the definitions of the model.

  \<^bold>\<open>Loops and bounds.\<close> Loops over data are structural recursion. The loop of the allocator is a partial function that is proved
  to return; waiting for the remote, a traversal and an event loop consume a list of what the environment does (answers,
  events), so that a loop that waits for ever is a list that ran out. The walk of a DAG is a finite tree of loads.
  The counter of active tasks is a 32-bit word and its theorem is stated for fewer than \<open>2 ^ 31\<close> workers.

  \<^bold>\<open>Not modelled.\<close> \<^verbatim>\<open>testutil\<close>, \<^verbatim>\<open>testplans\<close>, \<^verbatim>\<open>benchmarks\<close>, \<^verbatim>\<open>tools\<close> and \<^verbatim>\<open>message/bench\<close> only run in tests, and a part
  of them is generated. Of the program itself these are left out: tracing spans, logging and the \<^verbatim>\<open>String\<close> methods, which only format;
  the libp2p host and its deadlines; the registration of hooks and listeners, which is the
  subscription of the third-party publisher (the registered hooks are a list here); \<^verbatim>\<open>Stats\<close> and \<^verbatim>\<open>PeerState\<close>, which only collect
  what the components report; and the contexts that hooks may augment, which the model of a request does not carry.
\<close>

end
